(* ===== verification/Prelude.thy ===== *)
theory Prelude
  imports Main "HOL-Library.Word" "HOL-Library.Code_Target_Numeral"
begin

text \<open>
  Shared vocabulary of the development.

  \<^item> \<open>'a res\<close>: the outcome of a Rust computation that may panic. The model follows the
    \<^verbatim>\<open>dev\<close> profile of the workspace, in which integer overflow and a failed
    \<^verbatim>\<open>debug_assert!\<close> panic as \<^verbatim>\<open>assert!\<close>, an index out of range and
    \<^verbatim>\<open>None.unwrap()\<close> do. \<open>Hang\<close> stands for an intentional \<^verbatim>\<open>loop {}\<close>.
  \<^item> \<open>usize\<close> is \<open>nat\<close> with the machine bound checked at every operation that can leave it
    (\<open>uadd\<close>, \<open>usub\<close>, \<open>umul\<close>); a left shift drops the high bits (\<open>ushl\<close>).
    Registers, flags and table words are \<open>64 word\<close> or \<open>32 word\<close>.
  \<^item> \<open>trailing_zeros\<close>, \<open>next_power_of_two\<close>, \<open>is_power_of_two\<close>: the methods of
    Rust's \<^verbatim>\<open>usize\<close> that the allocators call.
\<close>

unbundle bit_operations_syntax

section \<open>Panicking computations\<close>

datatype panic =
    Overflow
  | AssertFailed
  | IndexOutOfBounds
  | UnwrapNone
  | Unreachable
  | Unimplemented
  | Explicit
  | Hang

datatype 'a res = Ok 'a | Panic panic

fun rbind :: "'a res \<Rightarrow> ('a \<Rightarrow> 'b res) \<Rightarrow> 'b res" where
  "rbind (Ok x) f = f x"
| "rbind (Panic p) f = Panic p"

definition rassert :: "bool \<Rightarrow> unit res" where
  "rassert b = (if b then Ok () else Panic AssertFailed)"

fun unwrap :: "'a option \<Rightarrow> 'a res" where
  "unwrap (Some x) = Ok x"
| "unwrap None = Panic UnwrapNone"

definition idx :: "'a list \<Rightarrow> nat \<Rightarrow> 'a res" where
  "idx xs i = (if i < length xs then Ok (xs ! i) else Panic IndexOutOfBounds)"

definition upd :: "'a list \<Rightarrow> nat \<Rightarrow> 'a \<Rightarrow> 'a list res" where
  "upd xs i v = (if i < length xs then Ok (xs[i := v]) else Panic IndexOutOfBounds)"

lemma rbind_Ok_iff: "rbind m f = Ok y \<longleftrightarrow> (\<exists>x. m = Ok x \<and> f x = Ok y)"
  by (cases m) auto

lemma rbind_OkE [elim]:
  assumes "rbind m f = Ok y"
  obtains x where "m = Ok x" and "f x = Ok y"
  using assms by (cases m) auto

lemma rbind_assoc: "rbind (rbind m f) g = rbind m (\<lambda>x. rbind (f x) g)"
  by (cases m) auto

lemma rbind_cong [fundef_cong]:
  assumes "m = m'" and "\<And>x. m' = Ok x \<Longrightarrow> f x = f' x"
  shows "rbind m f = rbind m' f'"
  using assms by (cases m') auto

lemma rassert_True [simp]: "b \<Longrightarrow> rassert b = Ok ()"
  by (simp add: rassert_def)

lemma rassert_False [simp]: "\<not> b \<Longrightarrow> rassert b = Panic AssertFailed"
  by (simp add: rassert_def)

lemma rassert_Ok_iff [simp]: "rassert b = Ok u \<longleftrightarrow> b"
  by (simp add: rassert_def)

lemma unwrap_Ok_iff [simp]: "unwrap m = Ok x \<longleftrightarrow> m = Some x"
  by (cases m) auto

lemma idx_Ok [simp]: "i < length xs \<Longrightarrow> idx xs i = Ok (xs ! i)"
  by (simp add: idx_def)

lemma idx_out [simp]: "length xs \<le> i \<Longrightarrow> idx xs i = Panic IndexOutOfBounds"
  by (simp add: idx_def)

lemma idx_Ok_iff: "idx xs i = Ok x \<longleftrightarrow> i < length xs \<and> x = xs ! i"
  by (auto simp: idx_def)

lemma upd_Ok [simp]: "i < length xs \<Longrightarrow> upd xs i v = Ok (xs[i := v])"
  by (simp add: upd_def)

lemma upd_out [simp]: "length xs \<le> i \<Longrightarrow> upd xs i v = Panic IndexOutOfBounds"
  by (simp add: upd_def)

lemma upd_Ok_iff: "upd xs i v = Ok ys \<longleftrightarrow> i < length xs \<and> ys = xs[i := v]"
  by (auto simp: upd_def)

section \<open>Lists of disjoint sets\<close>

fun apart :: "'a set list \<Rightarrow> bool" where
  "apart [] \<longleftrightarrow> True"
| "apart (x # xs) \<longleftrightarrow> (\<forall>y \<in> set xs. x \<inter> y = {}) \<and> apart xs"

lemma apart_append:
  "apart (xs @ ys) \<longleftrightarrow> apart xs \<and> apart ys \<and> (\<forall>x \<in> set xs. \<forall>y \<in> set ys. x \<inter> y = {})"
  by (induction xs) auto

lemma split_at: "i < length xs \<Longrightarrow> xs = take i xs @ xs ! i # drop (Suc i) xs"
  by (rule id_take_nth_drop)

lemma apart_remove:
  assumes "apart (map f xs)" and "i < length xs"
  shows "apart (map f (take i xs @ drop (Suc i) xs))"
    and "\<forall>y \<in> set (take i xs @ drop (Suc i) xs). f (xs ! i) \<inter> f y = {}"
    and "set xs = insert (xs ! i) (set (take i xs @ drop (Suc i) xs))"
proof -
  have "apart (map f (take i xs @ xs ! i # drop (Suc i) xs))" using assms split_at by metis
  then show "apart (map f (take i xs @ drop (Suc i) xs))"
    "\<forall>y \<in> set (take i xs @ drop (Suc i) xs). f (xs ! i) \<inter> f y = {}"
    by (auto simp: apart_append)
  show "set xs = insert (xs ! i) (set (take i xs @ drop (Suc i) xs))"
    by (subst split_at [OF assms(2)]) auto
qed

section \<open>Arithmetic on \<open>usize\<close>\<close>

type_synonym usize = nat

definition USIZE_LIMIT :: nat where
  "USIZE_LIMIT = 2 ^ 64"

definition uadd :: "usize \<Rightarrow> usize \<Rightarrow> usize res" where
  "uadd a b = (if a + b < USIZE_LIMIT then Ok (a + b) else Panic Overflow)"

definition usub :: "usize \<Rightarrow> usize \<Rightarrow> usize res" where
  "usub a b = (if b \<le> a then Ok (a - b) else Panic Overflow)"

definition umul :: "usize \<Rightarrow> usize \<Rightarrow> usize res" where
  "umul a b = (if a * b < USIZE_LIMIT then Ok (a * b) else Panic Overflow)"

definition ushl :: "usize \<Rightarrow> nat \<Rightarrow> usize res" where
  "ushl a n = (if n < 64 then Ok ((a * 2 ^ n) mod USIZE_LIMIT) else Panic Overflow)"

definition usize_not :: "usize \<Rightarrow> usize" where
  "usize_not m = USIZE_LIMIT - 1 - m"

lemma uadd_Ok [simp]: "a + b < USIZE_LIMIT \<Longrightarrow> uadd a b = Ok (a + b)"
  by (simp add: uadd_def)

lemma uadd_Panic [simp]: "USIZE_LIMIT \<le> a + b \<Longrightarrow> uadd a b = Panic Overflow"
  by (simp add: uadd_def)

lemma uadd_Ok_iff: "uadd a b = Ok c \<longleftrightarrow> c = a + b \<and> a + b < USIZE_LIMIT"
  by (auto simp: uadd_def)

lemma usub_Ok [simp]: "b \<le> a \<Longrightarrow> usub a b = Ok (a - b)"
  by (simp add: usub_def)

lemma usub_Panic [simp]: "a < b \<Longrightarrow> usub a b = Panic Overflow"
  by (simp add: usub_def)

lemma usub_Ok_iff: "usub a b = Ok c \<longleftrightarrow> c = a - b \<and> b \<le> a"
  by (auto simp: usub_def)

lemma umul_Ok [simp]: "a * b < USIZE_LIMIT \<Longrightarrow> umul a b = Ok (a * b)"
  by (simp add: umul_def)

lemma ushl_Ok [simp]: "n < 64 \<Longrightarrow> a * 2 ^ n < USIZE_LIMIT \<Longrightarrow> ushl a n = Ok (a * 2 ^ n)"
  by (simp add: ushl_def)

lemma ushl_Ok_iff: "ushl a n = Ok c \<longleftrightarrow> n < 64 \<and> c = (a * 2 ^ n) mod USIZE_LIMIT"
  by (auto simp: ushl_def)

lemma pow_less_USIZE_LIMIT: "n < 64 \<Longrightarrow> 2 ^ n < USIZE_LIMIT"
  unfolding USIZE_LIMIT_def by (rule power_strict_increasing) simp_all

lemma ushl_one [simp]: "n < 64 \<Longrightarrow> ushl (Suc 0) n = Ok (2 ^ n)"
  by (simp add: pow_less_USIZE_LIMIT)

section \<open>Powers of two\<close>

lemma pow_split: "k \<le> n \<Longrightarrow> (2::nat) ^ n = 2 ^ (n - k) * 2 ^ k"
  by (simp flip: power_add)

fun trailing_zeros :: "usize \<Rightarrow> nat" where
  "trailing_zeros n =
     (if n = 0 then 64 else if odd n then 0 else Suc (trailing_zeros (n div 2)))"

declare trailing_zeros.simps [simp del]

fun clog2 :: "nat \<Rightarrow> nat" where
  "clog2 n = (if n \<le> 1 then 0 else Suc (clog2 ((n + 1) div 2)))"

declare clog2.simps [simp del]

definition next_power_of_two :: "usize \<Rightarrow> usize res" where
  "next_power_of_two n =
     (if 2 ^ clog2 n < USIZE_LIMIT then Ok (2 ^ clog2 n) else Panic Overflow)"

definition is_power_of_two :: "usize \<Rightarrow> bool" where
  "is_power_of_two n \<longleftrightarrow> n \<noteq> 0 \<and> n AND (n - 1) = 0"

lemma clog2_le_pow: "n \<le> 2 ^ clog2 n"
proof (induction n rule: clog2.induct)
  case (1 n)
  show ?case
  proof (cases "n \<le> 1")
    case True
    then show ?thesis by (simp add: clog2.simps)
  next
    case False
    with 1 have "(n + 1) div 2 \<le> 2 ^ clog2 ((n + 1) div 2)" by simp
    then have "n \<le> 2 * 2 ^ clog2 ((n + 1) div 2)" by linarith
    with False show ?thesis by (simp add: clog2.simps [of n])
  qed
qed

lemma clog2_pow_less: "1 < n \<Longrightarrow> 2 ^ clog2 n < 2 * n"
proof (induction n rule: clog2.induct)
  case (1 n)
  show ?case
  proof (cases "(n + 1) div 2 \<le> 1")
    case True
    with "1.prems" have "n = 2" by arith
    then show ?thesis by (simp add: clog2.simps)
  next
    case False
    with 1 have "2 ^ clog2 ((n + 1) div 2) < 2 * ((n + 1) div 2)" by simp
    moreover have "even ((2::nat) ^ clog2 ((n + 1) div 2))"
      using False by (subst clog2.simps) simp
    ultimately have "2 * 2 ^ clog2 ((n + 1) div 2) < 2 * n" by presburger
    with "1.prems" show ?thesis by (simp add: clog2.simps [of n])
  qed
qed

lemma clog2_least: "n \<le> 2 ^ k \<Longrightarrow> clog2 n \<le> k"
proof (rule ccontr)
  assume n: "n \<le> 2 ^ k" and "\<not> clog2 n \<le> k"
  then have k: "Suc k \<le> clog2 n" by simp
  then have "1 < n" by (cases "n \<le> 1") (auto simp: clog2.simps)
  then have "2 ^ clog2 n < 2 * n" by (rule clog2_pow_less)
  moreover have "2 ^ Suc k \<le> (2::nat) ^ clog2 n" using k by (rule power_increasing) simp
  ultimately show False using n by simp
qed

lemma clog2_pow [simp]: "clog2 (2 ^ k) = k"
proof (rule antisym)
  show "clog2 (2 ^ k) \<le> k" by (rule clog2_least) simp
  have "(2::nat) ^ k \<le> 2 ^ clog2 (2 ^ k)" by (rule clog2_le_pow)
  then show "k \<le> clog2 (2 ^ k)" by simp
qed

lemma clog2_mono: "m \<le> n \<Longrightarrow> clog2 m \<le> clog2 n"
  by (rule clog2_least) (meson clog2_le_pow le_trans)

lemma next_power_of_two_Ok [simp]:
  "clog2 n < 64 \<Longrightarrow> next_power_of_two n = Ok (2 ^ clog2 n)"
  by (simp add: next_power_of_two_def pow_less_USIZE_LIMIT)

lemma trailing_zeros_pow [simp]: "trailing_zeros (2 ^ k) = k"
  by (induction k) (simp_all add: trailing_zeros.simps)

lemma trailing_zeros_dvd: "n \<noteq> 0 \<Longrightarrow> 2 ^ trailing_zeros n dvd n"
proof (induction n rule: trailing_zeros.induct)
  case (1 n)
  show ?case
  proof (cases "odd n")
    case True
    then show ?thesis by (simp add: trailing_zeros.simps [of n])
  next
    case False
    with 1 have "2 ^ trailing_zeros (n div 2) dvd n div 2" by (auto elim: oddE evenE)
    then have "2 * 2 ^ trailing_zeros (n div 2) dvd 2 * (n div 2)" by (rule mult_dvd_mono [OF dvd_refl])
    with False 1(2) show ?thesis by (simp add: trailing_zeros.simps [of n])
  qed
qed

lemma trailing_zeros_greatest: "n \<noteq> 0 \<Longrightarrow> 2 ^ k dvd n \<Longrightarrow> k \<le> trailing_zeros n"
proof (induction n arbitrary: k rule: trailing_zeros.induct)
  case (1 n)
  show ?case
  proof (cases k)
    case (Suc j)
    with "1.prems" have ev: "even n" by (metis dvd_mult_left power_Suc)
    have "2 ^ j dvd n div 2" using "1.prems"(2) Suc ev
      by (metis dvd_mult_div_cancel nat_mult_dvd_cancel_disj power_Suc zero_neq_numeral)
    with ev 1 have "j \<le> trailing_zeros (n div 2)" by (auto elim: evenE)
    with Suc ev "1.prems"(1) show ?thesis by (simp add: trailing_zeros.simps [of n])
  qed simp
qed

lemma is_power_of_two_pow: "is_power_of_two (2 ^ k)"
proof -
  have "(2::nat) ^ k - 1 = mask k" by (simp add: mask_eq_exp_minus_1)
  moreover have "(2::nat) ^ k AND mask k = 0"
    by (subst and.commute) (simp add: and_exp_eq_0_iff_not_bit bit_mask_iff)
  ultimately show ?thesis by (simp add: is_power_of_two_def)
qed

lemma is_power_of_two_iff: "is_power_of_two n \<longleftrightarrow> n = 2 ^ clog2 n"
proof
  have "n \<noteq> 0 \<Longrightarrow> n AND (n - 1) = 0 \<Longrightarrow> \<exists>k. n = 2 ^ k"
  proof (induction n rule: less_induct)
    case (less n)
    show ?case
    proof (cases "even n")
      case True
      then obtain m where m: "n = 2 * m" by (rule evenE)
      have "n - 1 = 1 + 2 * (m - 1)" using m less.prems(1) by simp
      then have "2 * (m AND (m - 1)) = 0"
        using less.prems(2) m and_rec [of n "n - 1"] by (simp add: even_nat_iff)
      then obtain k where "m = 2 ^ k" using less.IH [of m] m less.prems(1) by auto
      then have "n = 2 ^ Suc k" using m by simp
      then show ?thesis by blast
    next
      case False
      then obtain m where m: "n = 2 * m + 1" by (rule oddE)
      then have "2 * (m AND m) = 0" using less.prems(2) and_rec [of n "n - 1"] by simp
      then have "n = 2 ^ 0" using m by simp
      then show ?thesis by blast
    qed
  qed
  then show "is_power_of_two n \<Longrightarrow> n = 2 ^ clog2 n" by (auto simp: is_power_of_two_def)
  show "n = 2 ^ clog2 n \<Longrightarrow> is_power_of_two n" by (metis is_power_of_two_pow)
qed

lemma floor_log2:
  assumes "0 < n"
  obtains k where "(if is_power_of_two n then Ok (clog2 n) else usub (clog2 n) 1) = Ok k"
    and "2 ^ k \<le> n" and "\<forall>t. 2 ^ t \<le> n \<longrightarrow> t \<le> k"
proof (cases "is_power_of_two n")
  case True
  then have n: "n = 2 ^ clog2 n" using is_power_of_two_iff by blast
  have "t \<le> clog2 n" if "2 ^ t \<le> n" for t
  proof -
    have "(2::nat) ^ t \<le> 2 ^ clog2 n" using that n by metis
    then show ?thesis by simp
  qed
  then show ?thesis using that [of "clog2 n"] True n by simp
next
  case False
  then have ne: "n \<noteq> 2 ^ clog2 n" using is_power_of_two_iff by blast
  then have lt: "n < 2 ^ clog2 n" using clog2_le_pow [of n] by simp
  have "n \<noteq> 1" using ne by (auto simp: clog2.simps [of "Suc 0"])
  then have n: "1 < n" using assms by simp
  then have c: "1 \<le> clog2 n" by (simp add: clog2.simps [of n])
  have "2 ^ (clog2 n - 1) \<le> n" using clog2_pow_less [OF n] pow_split [OF c] by simp
  moreover have "t \<le> clog2 n - 1" if "2 ^ t \<le> n" for t
  proof -
    have "(2::nat) ^ t < 2 ^ clog2 n" using that lt by (rule le_less_trans)
    then show ?thesis by simp
  qed
  ultimately show ?thesis using that [of "clog2 n - 1"] False c by simp
qed

end
