(* ===== verification/Address.thy ===== *)
theory Address
  imports Prelude
begin

text \<open>
  \<^verbatim>\<open>libs/memory/src/address.rs\<close>: the transparent wrapper \<^verbatim>\<open>Address<K>\<close> around a
  \<^verbatim>\<open>usize\<close>. The phantom kind \<^verbatim>\<open>K\<close> (virtual or physical) carries no data and is
  dropped. Alignment, comparison, the checked additions and subtractions and the
  \<^verbatim>\<open>Step\<close> instance are the operations; the lemmas relate the mask arithmetic to
  divisibility.
\<close>

section \<open>Operations\<close>

type_synonym address = usize

definition ADDRESS_LOG_BYTES :: nat where
  "ADDRESS_LOG_BYTES = 3"

definition ADDRESS_BYTES :: usize where
  "ADDRESS_BYTES = 2 ^ ADDRESS_LOG_BYTES"

definition addr_is_zero :: "address \<Rightarrow> bool" where
  "addr_is_zero a \<longleftrightarrow> a = 0"

definition align_up :: "address \<Rightarrow> usize \<Rightarrow> address res" where
  "align_up a align =
     rbind (rassert (is_power_of_two align)) (\<lambda>_.
     let mask = align - 1 in
     rbind (uadd a mask) (\<lambda>s. Ok (s AND usize_not mask)))"

definition align_down :: "address \<Rightarrow> usize \<Rightarrow> address res" where
  "align_down a align =
     rbind (rassert (is_power_of_two align)) (\<lambda>_.
     let mask = align - 1 in Ok (a AND usize_not mask))"

definition is_aligned_to :: "address \<Rightarrow> usize \<Rightarrow> bool res" where
  "is_aligned_to a align =
     rbind (rassert (is_power_of_two align)) (\<lambda>_. Ok (a AND (align - 1) = 0))"

datatype ordering = Less | Equal | Greater

definition addr_cmp :: "address \<Rightarrow> address \<Rightarrow> ordering" where
  "addr_cmp x y = (if x = y then Equal else if x < y then Less else Greater)"

definition addr_lt :: "address \<Rightarrow> address \<Rightarrow> bool" where
  "addr_lt x y \<longleftrightarrow> addr_cmp x y = Less"

definition addr_le :: "address \<Rightarrow> address \<Rightarrow> bool" where
  "addr_le x y \<longleftrightarrow> addr_cmp x y = Less \<or> addr_cmp x y = Equal"

definition addr_gt :: "address \<Rightarrow> address \<Rightarrow> bool" where
  "addr_gt x y \<longleftrightarrow> addr_cmp x y = Greater"

definition addr_ge :: "address \<Rightarrow> address \<Rightarrow> bool" where
  "addr_ge x y \<longleftrightarrow> addr_cmp x y = Greater \<or> addr_cmp x y = Equal"

definition addr_max :: "address \<Rightarrow> address \<Rightarrow> address" where
  "addr_max x y = (case addr_cmp x y of Less \<Rightarrow> y | Equal \<Rightarrow> y | Greater \<Rightarrow> x)"

definition addr_min :: "address \<Rightarrow> address \<Rightarrow> address" where
  "addr_min x y = (case addr_cmp x y of Less \<Rightarrow> x | Equal \<Rightarrow> x | Greater \<Rightarrow> y)"

definition addr_clamp :: "address \<Rightarrow> address \<Rightarrow> address \<Rightarrow> address res" where
  "addr_clamp a lo hi =
     rbind (rassert (addr_le lo hi)) (\<lambda>_.
     Ok (if addr_lt a lo then lo else if addr_gt a hi then hi else a))"

definition addr_add :: "address \<Rightarrow> usize \<Rightarrow> address res" where
  "addr_add a n = uadd a n"

definition to_isize :: "usize \<Rightarrow> int" where
  "to_isize a = (if a < 2 ^ 63 then int a else int a - 2 ^ 64)"

definition of_isize :: "int \<Rightarrow> usize" where
  "of_isize z = nat (z mod 2 ^ 64)"

definition iadd :: "int \<Rightarrow> int \<Rightarrow> int res" where
  "iadd a b = (if - (2 ^ 63) \<le> a + b \<and> a + b < 2 ^ 63 then Ok (a + b) else Panic Overflow)"

definition addr_add_isize :: "address \<Rightarrow> int \<Rightarrow> address res" where
  "addr_add_isize a off = rbind (iadd (to_isize a) off) (\<lambda>z. Ok (of_isize z))"

definition addr_diff :: "address \<Rightarrow> address \<Rightarrow> usize res" where
  "addr_diff a b = rbind (rassert (b \<le> a)) (\<lambda>_. usub a b)"

definition addr_sub :: "address \<Rightarrow> usize \<Rightarrow> address res" where
  "addr_sub a n = usub a n"

definition addr_steps_between :: "address \<Rightarrow> address \<Rightarrow> usize option res" where
  "addr_steps_between s e =
     (if e < s then Ok None else rbind (addr_diff e s) (\<lambda>d. Ok (Some d)))"

definition addr_forward_checked :: "address \<Rightarrow> usize \<Rightarrow> address option res" where
  "addr_forward_checked s n = rbind (addr_add s n) (\<lambda>a. Ok (Some a))"

definition addr_backward_checked :: "address \<Rightarrow> usize \<Rightarrow> address option res" where
  "addr_backward_checked s n = rbind (addr_sub s n) (\<lambda>a. Ok (Some a))"

definition addr_forward :: "address \<Rightarrow> usize \<Rightarrow> address res" where
  "addr_forward s n = rbind (addr_forward_checked s n) unwrap"

definition addr_backward :: "address \<Rightarrow> usize \<Rightarrow> address res" where
  "addr_backward s n = rbind (addr_backward_checked s n) unwrap"

section \<open>Mask arithmetic\<close>

lemma and_mask_eq_mod: "a AND (2 ^ k - 1) = a mod (2::nat) ^ k"
proof -
  have "(2::nat) ^ k - 1 = mask k" by (simp add: mask_eq_exp_minus_1)
  then show ?thesis by (simp add: take_bit_eq_mask [symmetric] take_bit_eq_mod)
qed

lemma usize_not_mask: "k \<le> 64 \<Longrightarrow> usize_not (2 ^ k - 1) = push_bit k (mask (64 - k))"
proof -
  assume k: "k \<le> 64"
  then have "(2::nat) ^ 64 = 2 ^ (64 - k) * 2 ^ k" by (simp flip: power_add)
  moreover have "(1::nat) \<le> 2 ^ k" by simp
  ultimately show ?thesis
    by (simp add: usize_not_def USIZE_LIMIT_def push_bit_eq_mult mask_eq_exp_minus_1 diff_mult_distrib)
qed

lemma and_usize_not_mask:
  assumes "a < USIZE_LIMIT" and "k \<le> 64"
  shows "a AND usize_not (2 ^ k - 1) = a - a mod 2 ^ k"
proof -
  have lt: "drop_bit k a < 2 ^ (64 - k)"
  proof -
    have "a < 2 ^ (64 - k) * 2 ^ k" using assms by (simp add: USIZE_LIMIT_def flip: power_add)
    then show ?thesis by (simp add: drop_bit_eq_div div_less_iff_less_mult)
  qed
  have "a AND push_bit k (mask (64 - k)) = push_bit k (drop_bit k a AND mask (64 - k))"
    by (rule bit_eqI) (auto simp: bit_simps)
  also have "drop_bit k a AND mask (64 - k) = drop_bit k a"
    using lt by (simp add: take_bit_eq_mask [symmetric] take_bit_nat_eq_self)
  also have "push_bit k (drop_bit k a) = a - a mod 2 ^ k"
    by (simp add: push_bit_eq_mult drop_bit_eq_div minus_mod_eq_div_mult)
  finally show ?thesis unfolding usize_not_mask [OF assms(2)] .
qed

lemma dvd_sub_mod: "(m::nat) dvd a - a mod m"
  by (simp add: minus_mod_eq_mult_div)

lemma align_down_pow:
  "a < USIZE_LIMIT \<Longrightarrow> k \<le> 64 \<Longrightarrow> align_down a (2 ^ k) = Ok (a - a mod 2 ^ k)"
  using and_usize_not_mask [of a k] by (simp add: align_down_def is_power_of_two_pow)

lemma is_aligned_to_pow: "is_aligned_to a (2 ^ k) = Ok (2 ^ k dvd a)"
  using and_mask_eq_mod [of a k]
  by (simp add: is_aligned_to_def is_power_of_two_pow dvd_eq_mod_eq_0)

lemma align_up_pow:
  assumes "a + (2 ^ k - 1) < USIZE_LIMIT" and "k \<le> 64"
  shows "align_up a (2 ^ k) = Ok ((a + (2 ^ k - 1)) div 2 ^ k * 2 ^ k)"
  using and_usize_not_mask [OF assms] assms
  by (simp add: align_up_def is_power_of_two_pow Let_def minus_mod_eq_div_mult)

lemma round_up_bounds:
  fixes a m :: nat
  assumes "0 < m"
  shows "a \<le> (a + (m - 1)) div m * m" and "(a + (m - 1)) div m * m < a + m"
proof -
  have "(a + (m - 1)) div m * m = a + (m - 1) - (a + (m - 1)) mod m"
    by (simp add: minus_mod_eq_div_mult)
  moreover have "(a + (m - 1)) mod m < m" using assms by simp
  ultimately show "a \<le> (a + (m - 1)) div m * m" and "(a + (m - 1)) div m * m < a + m"
    using assms mod_less_eq_dividend [of "a + (m - 1)" m] by linarith+
qed

lemma round_up_least:
  fixes a m b :: nat
  assumes "0 < m" and "m dvd b" and "a \<le> b"
  shows "(a + (m - 1)) div m * m \<le> b"
proof -
  obtain q where q: "b = m * q" using assms(2) by (rule dvdE)
  have "(a + (m - 1)) div m \<le> (m * q + (m - 1)) div m"
    using assms(3) q by (intro div_le_mono) simp
  also have "\<dots> = q" using assms(1) by (subst div_mult_self4) simp_all
  finally have "(a + (m - 1)) div m * m \<le> q * m" by (rule mult_le_mono1)
  then show ?thesis unfolding q by (simp only: mult.commute)
qed

section \<open>Ordering\<close>

lemma addr_cmp_simps [simp]:
  "addr_lt x y \<longleftrightarrow> x < y" "addr_le x y \<longleftrightarrow> x \<le> y"
  "addr_gt x y \<longleftrightarrow> y < x" "addr_ge x y \<longleftrightarrow> y \<le> x"
  by (auto simp: addr_lt_def addr_le_def addr_gt_def addr_ge_def addr_cmp_def split: if_splits)

lemma addr_min_max [simp]: "addr_min x y = min x y" "addr_max x y = max x y"
  by (auto simp: addr_min_def addr_max_def addr_cmp_def min_def max_def)

section \<open>Signed offsets\<close>

lemma addr_add_isize_nonneg:
  assumes "a + n < 2 ^ 63"
  shows "addr_add_isize a (int n) = Ok (a + n)"
  using assms
  by (simp add: addr_add_isize_def to_isize_def iadd_def of_isize_def flip: of_nat_add)

section \<open>Properties\<close>

text \<open>For a power-of-two alignment and no overflow of the addition, \<^verbatim>\<open>align_up\<close>
  returns the least multiple of the alignment that is not below the address.\<close>

theorem align_up_least_multiple:
  assumes "k \<le> 63" and "a + (2 ^ k - 1) < USIZE_LIMIT"
  shows "\<exists>b. align_up a (2 ^ k) = Ok b \<and> 2 ^ k dvd b \<and> a \<le> b \<and> b < a + 2 ^ k
    \<and> (\<forall>c. 2 ^ k dvd c \<longrightarrow> a \<le> c \<longrightarrow> b \<le> c)"
proof -
  let ?b = "(a + (2 ^ k - 1)) div 2 ^ k * 2 ^ k"
  have "align_up a (2 ^ k) = Ok ?b" using assms by (intro align_up_pow) auto
  moreover have "a \<le> ?b" "?b < a + 2 ^ k" by (rule round_up_bounds; simp)+
  moreover have "\<forall>c. 2 ^ k dvd c \<longrightarrow> a \<le> c \<longrightarrow> ?b \<le> c"
    by (intro allI impI round_up_least) auto
  ultimately show ?thesis by (intro exI [of _ ?b]) simp
qed

theorem align_up_least_multiple_witness:
  "\<exists>b. align_up 4097 (2 ^ 12) = Ok b \<and> 2 ^ 12 dvd b \<and> 4097 \<le> b \<and> b < 4097 + 2 ^ 12
    \<and> (\<forall>c. 2 ^ 12 dvd c \<longrightarrow> 4097 \<le> c \<longrightarrow> b \<le> c)"
  by (rule align_up_least_multiple) (simp_all add: USIZE_LIMIT_def)

end
