(* ===== verification/Page.thy ===== *)
theory Page
  imports Address
begin

text \<open>
  \<^verbatim>\<open>libs/memory/src/page.rs\<close>: pages and frames of 4K, 2M and 1G. The type parameter
  \<^verbatim>\<open>S: PageSize\<close> is an argument of type \<open>page_size\<close>; a \<^verbatim>\<open>Page<S, K>\<close> is its start
  address, which \<^verbatim>\<open>Page::new\<close> asserts to be aligned. The \<^verbatim>\<open>Step\<close> instance gives
  ranges of pages; \<open>page_range_list\<close> is what iterating over \<^verbatim>\<open>start..end\<close> visits.
  The locale \<open>step_type\<close> is the contract between a \<^verbatim>\<open>Step\<close> instance and the
  \<^verbatim>\<open>for\<close> loops over ranges; pages of every size and plain addresses provide it.
\<close>

section \<open>Operations\<close>

datatype page_size = Size4K | Size2M | Size1G

fun LOG_BYTES :: "page_size \<Rightarrow> nat" where
  "LOG_BYTES Size4K = 12"
| "LOG_BYTES Size2M = 21"
| "LOG_BYTES Size1G = 30"

definition BYTES :: "page_size \<Rightarrow> usize" where
  "BYTES S = 2 ^ LOG_BYTES S"

definition PAGE_MASK :: "page_size \<Rightarrow> usize" where
  "PAGE_MASK S = BYTES S - 1"

type_synonym page = address
type_synonym frame = address

definition page_is_aligned :: "page_size \<Rightarrow> address \<Rightarrow> bool" where
  "page_is_aligned S a \<longleftrightarrow> a AND PAGE_MASK S = 0"

definition page_new :: "page_size \<Rightarrow> address \<Rightarrow> page res" where
  "page_new S a = rbind (rassert (page_is_aligned S a)) (\<lambda>_. Ok a)"

definition page_align :: "page_size \<Rightarrow> address \<Rightarrow> address" where
  "page_align S a = a AND usize_not (PAGE_MASK S)"

definition page_containing :: "page_size \<Rightarrow> address \<Rightarrow> page res" where
  "page_containing S a = page_new S (page_align S a)"

definition page_start :: "page \<Rightarrow> address" where
  "page_start p = p"

definition page_end :: "page_size \<Rightarrow> page \<Rightarrow> address res" where
  "page_end S p = uadd (page_start p) (BYTES S)"

definition page_steps_between :: "page_size \<Rightarrow> page \<Rightarrow> page \<Rightarrow> usize option res" where
  "page_steps_between S s e =
     (if e < s then Ok None
      else rbind (addr_diff (page_start e) (page_start s)) (\<lambda>d. Ok (Some (drop_bit (LOG_BYTES S) d))))"

definition page_forward_checked :: "page_size \<Rightarrow> page \<Rightarrow> usize \<Rightarrow> page option res" where
  "page_forward_checked S s count =
     rbind (ushl count (LOG_BYTES S)) (\<lambda>off.
     rbind (uadd (page_start s) off) (\<lambda>a.
     rbind (page_new S a) (\<lambda>p. Ok (Some p))))"

definition page_backward_checked :: "page_size \<Rightarrow> page \<Rightarrow> usize \<Rightarrow> page option res" where
  "page_backward_checked S s count =
     rbind (ushl count (LOG_BYTES S)) (\<lambda>off.
     rbind (usub (page_start s) off) (\<lambda>a.
     rbind (page_new S a) (\<lambda>p. Ok (Some p))))"

definition page_forward :: "page_size \<Rightarrow> page \<Rightarrow> usize \<Rightarrow> page res" where
  "page_forward S s count = rbind (page_forward_checked S s count) unwrap"

definition page_backward :: "page_size \<Rightarrow> page \<Rightarrow> usize \<Rightarrow> page res" where
  "page_backward S s count = rbind (page_backward_checked S s count) unwrap"

definition page_cmp :: "page \<Rightarrow> page \<Rightarrow> ordering" where
  "page_cmp x y = (if x = y then Equal else if x < y then Less else Greater)"

definition page_max :: "page \<Rightarrow> page \<Rightarrow> page" where
  "page_max x y = (case page_cmp x y of Less \<Rightarrow> y | Equal \<Rightarrow> y | Greater \<Rightarrow> x)"

definition page_min :: "page \<Rightarrow> page \<Rightarrow> page" where
  "page_min x y = (case page_cmp x y of Less \<Rightarrow> x | Equal \<Rightarrow> x | Greater \<Rightarrow> y)"

section \<open>The contract of \<open>Step\<close>\<close>

text \<open>
  Rust iterates \<^verbatim>\<open>start..end\<close> by yielding \<^verbatim>\<open>start\<close> and moving one step forward while
  \<^verbatim>\<open>start < end\<close>. \<open>step_size\<close> is the distance of one step. A value is \<open>valid\<close> when the
  constructor accepts it.
\<close>

locale step_type =
  fixes forward :: "usize \<Rightarrow> usize \<Rightarrow> usize res"
    and steps_between :: "usize \<Rightarrow> usize \<Rightarrow> usize option res"
    and valid :: "usize \<Rightarrow> bool"
    and step_size :: nat
  assumes step_size_pos: "0 < step_size"
    and forward_Ok: "valid s \<Longrightarrow> s + n * step_size < USIZE_LIMIT \<Longrightarrow> forward s n = Ok (s + n * step_size)"
    and valid_forward: "valid s \<Longrightarrow> valid (s + n * step_size)"
    and steps_between_Ok: "valid s \<Longrightarrow> steps_between s (s + n * step_size) = Ok (Some n)"
begin

lemma steps_of_forward:
  assumes "valid s" and "s + n * step_size < USIZE_LIMIT"
  shows "rbind (forward s n) (steps_between s) = Ok (Some n)"
  using assms by (simp add: forward_Ok steps_between_Ok)

lemma forward_add:
  assumes "valid s" and "s + (m + n) * step_size < USIZE_LIMIT"
  shows "rbind (forward s m) (\<lambda>t. forward t n) = forward s (m + n)"
proof -
  have "s + m * step_size < USIZE_LIMIT" using assms(2) by (simp add: add_mult_distrib)
  then show ?thesis
    using assms by (simp add: forward_Ok valid_forward add_mult_distrib add.assoc)
qed

end

section \<open>Alignment\<close>

lemma BYTES_pos [simp]: "0 < BYTES S"
  by (simp add: BYTES_def)

lemma BYTES_ne [simp]: "BYTES S \<noteq> 0"
  by (simp add: BYTES_def)

lemma LOG_BYTES_less [simp]: "LOG_BYTES S < 64"
  by (cases S) simp_all

lemma page_is_aligned_iff: "page_is_aligned S a \<longleftrightarrow> BYTES S dvd a"
  using and_mask_eq_mod [of a "LOG_BYTES S"]
  by (simp add: page_is_aligned_def PAGE_MASK_def BYTES_def dvd_eq_mod_eq_0)

lemma page_new_Ok [simp]: "BYTES S dvd a \<Longrightarrow> page_new S a = Ok a"
  by (simp add: page_new_def page_is_aligned_iff)

lemma page_new_Ok_iff: "page_new S a = Ok p \<longleftrightarrow> BYTES S dvd a \<and> p = a"
  by (auto simp: page_new_def page_is_aligned_iff rassert_def)

lemma page_align_eq: "a < USIZE_LIMIT \<Longrightarrow> page_align S a = a - a mod BYTES S"
  using and_usize_not_mask [of a "LOG_BYTES S"] LOG_BYTES_less [of S]
  by (simp add: page_align_def PAGE_MASK_def BYTES_def del: LOG_BYTES_less)

lemma page_containing_Ok:
  "a < USIZE_LIMIT \<Longrightarrow> page_containing S a = Ok (a - a mod BYTES S)"
  by (simp add: page_containing_def page_align_eq dvd_sub_mod)

lemma ushl_page:
  "n * BYTES S < USIZE_LIMIT \<Longrightarrow> ushl n (LOG_BYTES S) = Ok (n * BYTES S)"
  by (simp add: BYTES_def)

lemma page_forward_Ok:
  assumes "BYTES S dvd s" and "s + n * BYTES S < USIZE_LIMIT"
  shows "page_forward S s n = Ok (s + n * BYTES S)"
  using assms
  by (simp add: page_forward_def page_forward_checked_def ushl_page page_start_def)

lemma page_steps_between_Ok:
  "page_steps_between S s (s + n * BYTES S) = Ok (Some n)"
  by (simp add: page_steps_between_def page_start_def addr_diff_def drop_bit_eq_div
      BYTES_def [symmetric])

interpretation page_step: step_type "page_forward S" "page_steps_between S" "\<lambda>p. BYTES S dvd p" "BYTES S"
  for S
  by unfold_locales (simp_all add: page_forward_Ok page_steps_between_Ok)

interpretation addr_step: step_type addr_forward addr_steps_between "\<lambda>_. True" 1
  by unfold_locales
    (simp_all add: addr_forward_def addr_forward_checked_def addr_add_def addr_steps_between_def addr_diff_def)

section \<open>Iterating over a range of pages\<close>

fun page_range_list :: "page_size \<Rightarrow> page \<Rightarrow> nat \<Rightarrow> page list" where
  "page_range_list S s 0 = []"
| "page_range_list S s (Suc n) = s # page_range_list S (s + BYTES S) n"

lemma length_page_range_list [simp]: "length (page_range_list S s n) = n"
  by (induction n arbitrary: s) auto

lemma nth_page_range_list: "i < n \<Longrightarrow> page_range_list S s n ! i = s + i * BYTES S"
proof (induction n arbitrary: s i)
  case (Suc n)
  then show ?case by (cases i) (auto simp: algebra_simps)
qed simp

lemma set_page_range_list: "set (page_range_list S s n) = {s + i * BYTES S | i. i < n}"
  by (auto simp: set_conv_nth nth_page_range_list) (use nth_page_range_list in metis)

lemma distinct_page_range_list: "distinct (page_range_list S s n)"
  by (simp add: distinct_conv_nth nth_page_range_list)

section \<open>Properties\<close>

text \<open>Every address lies in the page that \<^verbatim>\<open>Page::containing\<close> returns, which is
  aligned to the page size, and no other aligned page of that size contains it.\<close>

theorem page_containing_unique:
  assumes "a < USIZE_LIMIT"
  shows "\<exists>p. page_containing S a = Ok p \<and> BYTES S dvd p \<and> p \<le> a \<and> a < p + BYTES S
    \<and> (\<forall>q. BYTES S dvd q \<longrightarrow> q \<le> a \<longrightarrow> a < q + BYTES S \<longrightarrow> q = p)"
proof (intro exI conjI allI impI)
  show "page_containing S a = Ok (a - a mod BYTES S)" using assms by (rule page_containing_Ok)
  show "BYTES S dvd a - a mod BYTES S" by (rule dvd_sub_mod)
  show "a - a mod BYTES S \<le> a" by simp
  show "a < a - a mod BYTES S + BYTES S"
    by (metis BYTES_pos div_mult_mod_eq mod_less_divisor minus_mod_eq_div_mult nat_add_left_cancel_less)
next
  fix q
  assume "BYTES S dvd q" and "q \<le> a" and "a < q + BYTES S"
  then obtain k where k: "q = BYTES S * k" by (auto elim: dvdE)
  then have "a div BYTES S = k" using \<open>q \<le> a\<close> \<open>a < q + BYTES S\<close>
    by (intro div_nat_eqI) (simp_all add: mult.commute)
  then show "q = a - a mod BYTES S" using k by (simp add: minus_mod_eq_mult_div)
qed

theorem page_containing_unique_witness:
  "\<exists>p. page_containing Size2M 4194305 = Ok p \<and> BYTES Size2M dvd p \<and> p \<le> 4194305
    \<and> 4194305 < p + BYTES Size2M
    \<and> (\<forall>q. BYTES Size2M dvd q \<longrightarrow> q \<le> 4194305 \<longrightarrow> 4194305 < q + BYTES Size2M \<longrightarrow> q = p)"
  by (rule page_containing_unique) (simp add: USIZE_LIMIT_def)

end
