(* ===== verification/Cell_Lists.thy ===== *)
theory Cell_Lists
  imports Page
begin

text \<open>
  Free lists threaded through the free memory itself, as both the physical page resource and
  the kernel's free-list allocator keep them: the head of the list of every size class is in a
  table, and the first word of a free cell holds the address of the next one (0 ends the list).
  Memory is a map from (8-byte aligned) addresses to 64-bit words.
  The locale \<open>cell_lists\<close> is the contract of \<^verbatim>\<open>push\<close> and \<^verbatim>\<open>pop\<close>; its lemmas track the
  set of free addresses, with the cells of class \<open>sc\<close> being \<open>2 ^ (sc + k)\<close> bytes long.
\<close>

section \<open>Memory words\<close>

type_synonym memory = "address \<Rightarrow> 64 word"

definition addr_load :: "memory \<Rightarrow> address \<Rightarrow> address" where
  "addr_load m a = unat (m a)"

definition addr_store :: "memory \<Rightarrow> address \<Rightarrow> address \<Rightarrow> memory" where
  "addr_store m a v = m(a := of_nat v)"

lemma unat_of_nat_usize [simp]: "v < USIZE_LIMIT \<Longrightarrow> unat (of_nat v :: 64 word) = v"
  by (simp add: USIZE_LIMIT_def unat_of_nat)

lemma unat_less_usize [simp]: "unat (w :: 64 word) < USIZE_LIMIT"
  using unsigned_less [of w, where ?'a = nat] by (simp add: USIZE_LIMIT_def)

lemma load_store: "v < USIZE_LIMIT \<Longrightarrow> addr_load (addr_store m a v) b = (if b = a then v else addr_load m b)"
  by (simp add: addr_load_def addr_store_def)

lemma addr_load_less [simp]: "addr_load m a < USIZE_LIMIT"
  by (simp add: addr_load_def)

section \<open>Chains\<close>

fun chain :: "memory \<Rightarrow> address \<Rightarrow> address list \<Rightarrow> bool" where
  "chain m h [] \<longleftrightarrow> h = 0"
| "chain m h (x # xs) \<longleftrightarrow> h = x \<and> x \<noteq> 0 \<and> chain m (addr_load m x) xs"

lemma chain_cong: "\<forall>a \<in> set xs. m' a = m a \<Longrightarrow> chain m' h xs = chain m h xs"
  by (induction xs arbitrary: h) (auto simp: addr_load_def)

lemma chain_head: "chain m h xs \<Longrightarrow> h = (case xs of [] \<Rightarrow> 0 | x # _ \<Rightarrow> x)"
  by (cases xs) auto

definition lists_rep :: "memory \<Rightarrow> address list \<Rightarrow> (nat \<Rightarrow> address list) \<Rightarrow> bool" where
  "lists_rep m heads L \<longleftrightarrow> (\<forall>sc < length heads. chain m (heads ! sc) (L sc) \<and> heads ! sc < USIZE_LIMIT)
    \<and> (\<forall>sc. length heads \<le> sc \<longrightarrow> L sc = [])"

lemma lists_rep_cong:
  assumes "lists_rep m heads L" and "\<forall>sc. \<forall>a \<in> set (L sc). m' a = m a"
  shows "lists_rep m' heads L"
  using assms chain_cong [of "L sc" m' m for sc] by (auto simp: lists_rep_def)

lemma lists_rep_push:
  assumes "lists_rep m heads L" and "sc < length heads" and "0 < c" "c < USIZE_LIMIT"
    and "\<forall>k. c \<notin> set (L k)"
  shows "lists_rep (addr_store m c (heads ! sc)) (heads[sc := c]) (L(sc := c # L sc))"
proof -
  have "chain (addr_store m c (heads ! sc)) h (L k) = chain m h (L k)" for h k
    using assms(5) by (intro chain_cong) (auto simp: addr_store_def)
  moreover have "heads ! sc < USIZE_LIMIT" using assms(1,2) by (simp add: lists_rep_def)
  ultimately show ?thesis
    using assms by (auto simp: lists_rep_def nth_list_update load_store)
qed

lemma lists_rep_pop:
  assumes "lists_rep m heads L" and "sc < length heads" and "L sc = c # cs"
  shows "heads ! sc = c" and "c \<noteq> 0" and "lists_rep m (heads[sc := addr_load m c]) (L(sc := cs))"
proof -
  have "chain m (heads ! sc) (c # cs)" using assms by (auto simp: lists_rep_def)
  then show "heads ! sc = c" "c \<noteq> 0" by auto
  then show "lists_rep m (heads[sc := addr_load m c]) (L(sc := cs))"
    using assms \<open>chain m (heads ! sc) (c # cs)\<close> by (auto simp: lists_rep_def nth_list_update)
qed

lemma lists_rep_empty:
  assumes "lists_rep m heads L" and "sc < length heads"
  shows "heads ! sc = 0 \<longleftrightarrow> L sc = []"
proof -
  have "chain m (heads ! sc) (L sc)" using assms by (simp add: lists_rep_def)
  then show ?thesis by (cases "L sc") auto
qed

section \<open>Pools of cells\<close>

definition cell_range :: "nat \<Rightarrow> nat \<Rightarrow> address \<Rightarrow> address set" where
  "cell_range k sc c = {c..<c + 2 ^ (sc + k)}"

definition pool_free :: "nat \<Rightarrow> (nat \<Rightarrow> address list) \<Rightarrow> address set" where
  "pool_free k L = (\<Union>sc. \<Union>c \<in> set (L sc). cell_range k sc c)"

definition cell_valid :: "nat \<Rightarrow> nat \<Rightarrow> address \<Rightarrow> bool" where
  "cell_valid k sc c \<longleftrightarrow> 0 < c \<and> 2 ^ (sc + k) dvd c \<and> c + 2 ^ (sc + k) \<le> USIZE_LIMIT"

definition pool_ok :: "nat \<Rightarrow> (nat \<Rightarrow> address list) \<Rightarrow> bool" where
  "pool_ok k L \<longleftrightarrow> (\<forall>sc. distinct (L sc)) \<and> (\<forall>sc. \<forall>c \<in> set (L sc). cell_valid k sc c)
    \<and> (\<forall>sc c sc' c'. c \<in> set (L sc) \<longrightarrow> c' \<in> set (L sc') \<longrightarrow> (sc, c) \<noteq> (sc', c')
         \<longrightarrow> cell_range k sc c \<inter> cell_range k sc' c' = {})"

lemma cell_range_start [simp]: "c \<in> cell_range k sc c"
  by (simp add: cell_range_def)

lemma cell_range_ne [simp]: "cell_range k sc c \<noteq> {}"
  using cell_range_start by blast

lemma cell_valid_less: "cell_valid k sc c \<Longrightarrow> c < USIZE_LIMIT"
proof -
  assume "cell_valid k sc c"
  moreover have "(0::nat) < 2 ^ (sc + k)" by simp
  ultimately show ?thesis unfolding cell_valid_def by linarith
qed

lemma pool_free_iff: "a \<in> pool_free k L \<longleftrightarrow> (\<exists>sc c. c \<in> set (L sc) \<and> a \<in> cell_range k sc c)"
  by (auto simp: pool_free_def)

lemma cell_in_pool: "c \<in> set (L sc) \<Longrightarrow> cell_range k sc c \<subseteq> pool_free k L"
  by (auto simp: pool_free_def)

lemma start_in_pool: "c \<in> set (L sc) \<Longrightarrow> c \<in> pool_free k L"
  using cell_in_pool cell_range_start by blast

lemma pool_okD:
  assumes "pool_ok k L"
  shows "distinct (L sc)" and "c \<in> set (L sc) \<Longrightarrow> cell_valid k sc c"
    and "c \<in> set (L sc) \<Longrightarrow> c' \<in> set (L sc') \<Longrightarrow> (sc, c) \<noteq> (sc', c')
      \<Longrightarrow> cell_range k sc c \<inter> cell_range k sc' c' = {}"
  using assms unfolding pool_ok_def by blast+

lemma pool_push:
  assumes ok: "pool_ok k L" and v: "cell_valid k sc c" and d: "cell_range k sc c \<inter> pool_free k L = {}"
  shows "pool_ok k (L(sc := c # L sc))"
    and "pool_free k (L(sc := c # L sc)) = pool_free k L \<union> cell_range k sc c"
proof -
  let ?L = "L(sc := c # L sc)"
  have mem: "x \<in> set (?L sc') \<longleftrightarrow> x \<in> set (L sc') \<or> (sc' = sc \<and> x = c)" for x sc' by auto
  have new: "c \<notin> set (L sc')" for sc' using d start_in_pool cell_range_start by blast
  have dj: "cell_range k sc c \<inter> cell_range k sc' x = {}" if "x \<in> set (L sc')" for sc' x
    using d cell_in_pool [of x L sc' k] that by blast
  show "pool_free k ?L = pool_free k L \<union> cell_range k sc c"
    by (rule set_eqI) (unfold pool_free_iff Un_iff mem, blast)
  show "pool_ok k ?L" unfolding pool_ok_def
  proof (intro conjI allI ballI impI)
    show "distinct (?L sc')" for sc' using pool_okD(1) [OF ok] new by simp
    show "cell_valid k sc' x" if "x \<in> set (?L sc')" for sc' x
      using that pool_okD(2) [OF ok] v mem by blast
    fix a x b y
    assume xy: "x \<in> set (?L a)" "y \<in> set (?L b)" "(a, x) \<noteq> (b, y)"
    consider "(a, x) = (sc, c)" "y \<in> set (L b)" | "(b, y) = (sc, c)" "x \<in> set (L a)"
      | "x \<in> set (L a)" "y \<in> set (L b)"
      using xy unfolding mem by blast
    then show "cell_range k a x \<inter> cell_range k b y = {}"
    proof cases
      case 1
      then show ?thesis using dj by simp
    next
      case 2
      then show ?thesis using dj by (simp add: Int_commute)
    next
      case 3
      then show ?thesis using pool_okD(3) [OF ok] xy(3) by blast
    qed
  qed
qed

lemma pool_pop:
  assumes ok: "pool_ok k L" and L: "L sc = c # cs"
  shows "pool_ok k (L(sc := cs))" and "cell_valid k sc c" and "cell_range k sc c \<subseteq> pool_free k L"
    and "pool_free k (L(sc := cs)) = pool_free k L - cell_range k sc c"
proof -
  have c: "c \<in> set (L sc)" using L by simp
  then show "cell_valid k sc c" and sub: "cell_range k sc c \<subseteq> pool_free k L"
    using pool_okD(2) [OF ok] cell_in_pool by auto
  have mem: "x \<in> set ((L(sc := cs)) sc') \<longleftrightarrow> x \<in> set (L sc') \<and> (sc', x) \<noteq> (sc, c)" for x sc'
    using L pool_okD(1) [OF ok, of sc] by auto
  have "cell_range k sc c \<inter> cell_range k sc' x = {}" if "x \<in> set ((L(sc := cs)) sc')" for sc' x
    using pool_okD(3) [OF ok c, of x sc'] that mem [of x sc'] by fastforce
  then show "pool_free k (L(sc := cs)) = pool_free k L - cell_range k sc c"
    by (intro set_eqI) (unfold pool_free_iff Diff_iff mem, blast)
  have "distinct ((L(sc := cs)) sc')" for sc'
    using pool_okD(1) [OF ok, of sc'] L by auto
  then show "pool_ok k (L(sc := cs))"
    unfolding pool_ok_def Ball_def mem using pool_okD(2,3) [OF ok] by simp
qed

lemma cell_range_halves:
  "cell_range k (Suc sc) u = cell_range k sc u \<union> cell_range k sc (u + 2 ^ (sc + k))"
  by (auto simp: cell_range_def)

lemma cell_halves_disjoint: "cell_range k sc u \<inter> cell_range k sc (u + 2 ^ (sc + k)) = {}"
  by (auto simp: cell_range_def)

lemma cell_valid_halves:
  assumes "cell_valid k (Suc sc) u"
  shows "cell_valid k sc u" and "cell_valid k sc (u + 2 ^ (sc + k))"
proof -
  have p: "(2::nat) ^ (Suc sc + k) = 2 * 2 ^ (sc + k)" by simp
  then have "2 ^ (sc + k) dvd u" using assms unfolding cell_valid_def by (metis dvd_mult_right)
  then show "cell_valid k sc u" "cell_valid k sc (u + 2 ^ (sc + k))"
    using assms unfolding cell_valid_def p by simp_all
qed

lemma cell_range_mono: "req \<le> sc \<Longrightarrow> cell_range k req u \<subseteq> cell_range k sc u"
proof -
  assume "req \<le> sc"
  then have "(2::nat) ^ (req + k) \<le> 2 ^ (sc + k)" by (intro power_increasing) auto
  then show ?thesis by (auto simp: cell_range_def)
qed

section \<open>The contract of push and pop\<close>

locale cell_lists =
  fixes push :: "'s \<Rightarrow> address \<Rightarrow> nat \<Rightarrow> 's res"
    and pop :: "'s \<Rightarrow> nat \<Rightarrow> ('s \<times> address option) res"
    and rep :: "'s \<Rightarrow> (nat \<Rightarrow> address list) \<Rightarrow> bool"
    and mem :: "'s \<Rightarrow> memory"
    and classes :: nat
    and k :: nat
  assumes push_rep: "rep s L \<Longrightarrow> sc < classes \<Longrightarrow> 0 < c \<Longrightarrow> c < USIZE_LIMIT \<Longrightarrow> \<forall>sc'. c \<notin> set (L sc') \<Longrightarrow>
      \<exists>s'. push s c sc = Ok s' \<and> rep s' (L(sc := c # L sc)) \<and> (\<forall>a. a \<noteq> c \<longrightarrow> mem s' a = mem s a)"
    and pop_empty: "rep s L \<Longrightarrow> sc < classes \<Longrightarrow> L sc = [] \<Longrightarrow> pop s sc = Ok (s, None)"
    and pop_cons: "rep s L \<Longrightarrow> sc < classes \<Longrightarrow> L sc = c # cs \<Longrightarrow>
      \<exists>s'. pop s sc = Ok (s', Some c) \<and> rep s' (L(sc := cs)) \<and> mem s' = mem s"
    and rep_classes: "rep s L \<Longrightarrow> classes \<le> sc \<Longrightarrow> L sc = []"
begin

definition pool :: "'s \<Rightarrow> (nat \<Rightarrow> address list) \<Rightarrow> bool" where
  "pool s L \<longleftrightarrow> rep s L \<and> pool_ok k L"

lemma push_pool:
  assumes "pool s L" and "sc < classes" and "cell_valid k sc c" and "cell_range k sc c \<inter> pool_free k L = {}"
  obtains s' where "push s c sc = Ok s'" and "pool s' (L(sc := c # L sc))"
    and "pool_free k (L(sc := c # L sc)) = pool_free k L \<union> cell_range k sc c"
    and "\<And>a. a \<notin> cell_range k sc c \<Longrightarrow> mem s' a = mem s a"
proof -
  have "\<forall>sc'. c \<notin> set (L sc')" using assms(4) start_in_pool cell_range_start by blast
  then obtain s' where s': "push s c sc = Ok s'" "rep s' (L(sc := c # L sc))" "\<forall>a. a \<noteq> c \<longrightarrow> mem s' a = mem s a"
    using push_rep [of s L sc c] assms(1-3) cell_valid_less [OF assms(3)]
    by (auto simp: pool_def cell_valid_def)
  have "mem s' a = mem s a" if "a \<notin> cell_range k sc c" for a using s'(3) that cell_range_start by metis
  then show ?thesis
    using that s' pool_push [OF _ assms(3,4)] assms(1) unfolding pool_def by blast
qed

lemma pop_pool_none: "pool s L \<Longrightarrow> sc < classes \<Longrightarrow> L sc = [] \<Longrightarrow> pop s sc = Ok (s, None)"
  by (auto simp: pool_def intro: pop_empty)

lemma pop_pool:
  assumes "pool s L" and "sc < classes" and "L sc = c # cs"
  obtains s' where "pop s sc = Ok (s', Some c)" and "pool s' (L(sc := cs))" and "cell_valid k sc c"
    and "cell_range k sc c \<subseteq> pool_free k L"
    and "pool_free k (L(sc := cs)) = pool_free k L - cell_range k sc c" and "mem s' = mem s"
  using pop_cons [of s L sc c cs] pool_pop [of k L sc c cs] assms that unfolding pool_def by blast

end

end
