(* ===== verification/Exceptions.thy ===== *)
theory Exceptions
  imports Cell_Lists
begin

unbundle bit_operations_syntax

text \<open>
  The exception entry and exit code of \<^verbatim>\<open>sophon/src/arch/aarch64/exception.rs\<close>: the assembly macros
  \<^verbatim>\<open>push_all\<close> and \<^verbatim>\<open>pop_all\<close>, instruction by instruction, on a machine with the general and vector
  registers, the banked stack pointer, the exception return registers and memory; and the layout of
  \<^verbatim>\<open>ExceptionFrame\<close> that the Rust handlers read.
\<close>

section \<open>The machine\<close>

record machine =
  mc_x :: "nat \<Rightarrow> 64 word"
  mc_q :: "nat \<Rightarrow> 128 word"
  mc_sp :: address
  mc_pc :: "64 word"
  mc_mode :: "64 word"
  mc_sp_el0 :: "64 word"
  mc_elr :: "64 word"
  mc_spsr :: "64 word"
  mc_mem :: memory

datatype sysreg = SP_EL0 | ELR_EL1 | SPSR_EL1

datatype instr =
    StpX nat nat
  | LdpX nat nat
  | StpQ nat nat
  | LdpQ nat nat
  | Mrs nat sysreg
  | Msr sysreg nat

text \<open>\<open>mc_sp\<close> is the stack pointer of EL1, \<open>mc_mode\<close> the mode bits of the processor state: 0 is EL0 and 5 is
  EL1 with its own stack pointer.\<close>

text \<open>Little-endian halves of a vector register.\<close>

definition q_low :: "128 word \<Rightarrow> 64 word" where
  "q_low q = ucast q"

definition q_high :: "128 word \<Rightarrow> 64 word" where
  "q_high q = ucast (drop_bit 64 q)"

definition q_join :: "64 word \<Rightarrow> 64 word \<Rightarrow> 128 word" where
  "q_join lo hi = ucast lo OR push_bit 64 (ucast hi)"

text \<open>\<^verbatim>\<open>stp a, b, [sp, #-n]!\<close> moves the stack pointer down first, \<^verbatim>\<open>ldp a, b, [sp], #n\<close> up afterwards.\<close>

definition sp_down :: "address \<Rightarrow> nat \<Rightarrow> address" where
  "sp_down sp n = (sp + USIZE_LIMIT - n) mod USIZE_LIMIT"

definition sp_up :: "address \<Rightarrow> nat \<Rightarrow> address" where
  "sp_up sp n = (sp + n) mod USIZE_LIMIT"

fun read_sysreg :: "sysreg \<Rightarrow> machine \<Rightarrow> 64 word" where
  "read_sysreg SP_EL0 m = mc_sp_el0 m"
| "read_sysreg ELR_EL1 m = mc_elr m"
| "read_sysreg SPSR_EL1 m = mc_spsr m"

fun write_sysreg :: "sysreg \<Rightarrow> 64 word \<Rightarrow> machine \<Rightarrow> machine" where
  "write_sysreg SP_EL0 w m = m\<lparr>mc_sp_el0 := w\<rparr>"
| "write_sysreg ELR_EL1 w m = m\<lparr>mc_elr := w\<rparr>"
| "write_sysreg SPSR_EL1 w m = m\<lparr>mc_spsr := w\<rparr>"

fun exec :: "instr \<Rightarrow> machine \<Rightarrow> machine" where
  "exec (StpX i j) m =
     (let b = sp_down (mc_sp m) 16 in
      m\<lparr>mc_sp := b, mc_mem := (mc_mem m)(b := mc_x m i, b + 8 := mc_x m j)\<rparr>)"
| "exec (LdpX i j) m =
     (let b = mc_sp m in
      m\<lparr>mc_sp := sp_up b 16, mc_x := (mc_x m)(i := mc_mem m b, j := mc_mem m (b + 8))\<rparr>)"
| "exec (StpQ i j) m =
     (let b = sp_down (mc_sp m) 32 in
      m\<lparr>mc_sp := b, mc_mem := (mc_mem m)(b := q_low (mc_q m i), b + 8 := q_high (mc_q m i),
        b + 16 := q_low (mc_q m j), b + 24 := q_high (mc_q m j))\<rparr>)"
| "exec (LdpQ i j) m =
     (let b = mc_sp m in
      m\<lparr>mc_sp := sp_up b 32, mc_q := (mc_q m)(i := q_join (mc_mem m b) (mc_mem m (b + 8)),
        j := q_join (mc_mem m (b + 16)) (mc_mem m (b + 24)))\<rparr>)"
| "exec (Mrs i r) m = m\<lparr>mc_x := (mc_x m)(i := read_sysreg r m)\<rparr>"
| "exec (Msr r i) m = write_sysreg r (mc_x m i) m"

definition run :: "instr list \<Rightarrow> machine \<Rightarrow> machine" where
  "run is m = fold exec is m"

definition push_all :: "instr list" where
  "push_all =
     [StpX 0 1, StpX 2 3, StpX 4 5, StpX 6 7, StpX 8 9, StpX 10 11, StpX 12 13, StpX 14 15,
      StpX 16 17, StpX 18 19, StpX 20 21, StpX 22 23, StpX 24 25, StpX 26 27, StpX 28 29,
      Mrs 21 SP_EL0, Mrs 22 ELR_EL1, Mrs 23 SPSR_EL1, StpX 30 21, StpX 22 23,
      StpQ 0 1, StpQ 2 3, StpQ 4 5, StpQ 6 7, StpQ 8 9, StpQ 10 11, StpQ 12 13, StpQ 14 15,
      StpQ 16 17, StpQ 18 19, StpQ 20 21, StpQ 22 23, StpQ 24 25, StpQ 26 27, StpQ 28 29, StpQ 30 31]"

definition pop_all :: "instr list" where
  "pop_all =
     [LdpQ 30 31, LdpQ 28 29, LdpQ 26 27, LdpQ 24 25, LdpQ 22 23, LdpQ 20 21, LdpQ 18 19, LdpQ 16 17,
      LdpQ 14 15, LdpQ 12 13, LdpQ 10 11, LdpQ 8 9, LdpQ 6 7, LdpQ 4 5, LdpQ 2 3, LdpQ 0 1,
      LdpX 22 23, LdpX 30 21, Msr SP_EL0 21, Msr ELR_EL1 22, Msr SPSR_EL1 23,
      LdpX 28 29, LdpX 26 27, LdpX 24 25, LdpX 22 23, LdpX 20 21, LdpX 18 19, LdpX 16 17,
      LdpX 14 15, LdpX 12 13, LdpX 10 11, LdpX 8 9, LdpX 6 7, LdpX 4 5, LdpX 2 3, LdpX 0 1]"

text \<open>\<^verbatim>\<open>eret\<close> jumps to \<^verbatim>\<open>elr_el1\<close> in the mode of \<^verbatim>\<open>spsr_el1\<close>; taking an exception does the reverse. \<open>daif\<close> are the
  mask bits of the processor state.\<close>

definition MODE_MASK :: "64 word" where
  "MODE_MASK = 0b1111"

definition DAIF_MASK :: "64 word" where
  "DAIF_MASK = 0x3C0"

definition eret :: "machine \<Rightarrow> machine \<times> 64 word" where
  "eret m = (m\<lparr>mc_pc := mc_elr m, mc_mode := mc_spsr m AND MODE_MASK\<rparr>, mc_spsr m AND DAIF_MASK)"

definition exit_exception :: "machine \<Rightarrow> machine \<times> 64 word" where
  "exit_exception m = eret (run pop_all m)"

definition take_exception :: "64 word \<Rightarrow> machine \<Rightarrow> machine \<times> 64 word" where
  "take_exception daif m = (m\<lparr>mc_elr := mc_pc m, mc_spsr := daif OR mc_mode m, mc_mode := 0b0101\<rparr>, DAIF_MASK)"

text \<open>The code at a vector: \<^verbatim>\<open>push_all; mov x0, sp; bl handler\<close>. The handler receives the frame's address.\<close>

definition vector_entry :: "machine \<Rightarrow> machine" where
  "vector_entry m = (let m1 = run push_all m in m1\<lparr>mc_x := (mc_x m1)(0 := of_nat (mc_sp m1))\<rparr>)"

text \<open>\<^verbatim>\<open>ExceptionFrame\<close>, \<^verbatim>\<open>repr(C)\<close>: the fields in order with their sizes.\<close>

definition frame_fields :: "(string \<times> nat) list" where
  "frame_fields =
     [(''q'', 32 * 16), (''elr_el1'', 8), (''spsr_el1'', 8), (''x30'', 8), (''x31'', 8), (''x8_to_x29'', 22 * 8),
      (''x6'', 8), (''x7'', 8), (''x4'', 8), (''x5'', 8), (''x2'', 8), (''x3'', 8), (''x0'', 8), (''x1'', 8)]"

fun offset_in :: "(string \<times> nat) list \<Rightarrow> string \<Rightarrow> nat" where
  "offset_in [] f = 0"
| "offset_in ((g, n) # fs) f = (if g = f then 0 else n + offset_in fs f)"

definition frame_load :: "memory \<Rightarrow> address \<Rightarrow> string \<Rightarrow> 64 word" where
  "frame_load M frame f = M (frame + offset_in frame_fields f)"

definition frame_store :: "memory \<Rightarrow> address \<Rightarrow> string \<Rightarrow> 64 word \<Rightarrow> memory" where
  "frame_store M frame f w = M(frame + offset_in frame_fields f := w)"

definition FRAME_SIZE :: usize where
  "FRAME_SIZE = sum_list (map snd frame_fields)"

definition is_el0 :: "memory \<Rightarrow> address \<Rightarrow> bool" where
  "is_el0 M frame \<longleftrightarrow> frame_load M frame ''spsr_el1'' AND MODE_MASK = 0"

section \<open>Frames in memory\<close>

fun seg :: "memory \<Rightarrow> address \<Rightarrow> 64 word list \<Rightarrow> bool" where
  "seg m a [] \<longleftrightarrow> True"
| "seg m a (w # ws) \<longleftrightarrow> m a = w \<and> seg m (a + 8) ws"

lemma q_join_halves [simp]: "q_join (q_low q) (q_high q) = q"
  unfolding q_join_def q_low_def q_high_def
  by (rule bit_word_eqI) (auto simp: bit_simps)

lemma sp_down_Ok [simp]: "a + n < USIZE_LIMIT \<Longrightarrow> sp_down (a + n) n = a"
  by (simp add: sp_down_def)

lemma sp_up_Ok [simp]: "a + n < USIZE_LIMIT \<Longrightarrow> sp_up a n = a + n"
  by (simp add: sp_up_def)

lemma seg_below [simp]: "b < a \<Longrightarrow> seg (m(b := v)) a ws = seg m a ws"
  by (induction ws arbitrary: a) auto

text \<open>The words of a frame, from the lowest address up.\<close>

definition frame_words :: "machine \<Rightarrow> 64 word list" where
  "frame_words m =
     concat (map (\<lambda>k. [q_low (mc_q m (2 * k)), q_high (mc_q m (2 * k)), q_low (mc_q m (2 * k + 1)), q_high (mc_q m (2 * k + 1))]) (rev [0..<16]))
     @ [mc_elr m, mc_spsr m, mc_x m 30, mc_sp_el0 m]
     @ concat (map (\<lambda>k. [mc_x m (2 * k), mc_x m (2 * k + 1)]) (rev [0..<15]))"

text \<open>What a store pushes.\<close>

fun pushed :: "machine \<Rightarrow> instr \<Rightarrow> 64 word list" where
  "pushed m (StpX i j) = [mc_x m i, mc_x m j]"
| "pushed m (StpQ i j) = [q_low (mc_q m i), q_high (mc_q m i), q_low (mc_q m j), q_high (mc_q m j)]"
| "pushed m _ = []"

fun is_store :: "instr \<Rightarrow> bool" where
  "is_store (StpX i j) \<longleftrightarrow> True"
| "is_store (StpQ i j) \<longleftrightarrow> True"
| "is_store _ \<longleftrightarrow> False"

lemma exec_store:
  assumes "is_store i" and "mc_sp m = b + 8 * length (pushed m i)" and "mc_sp m < USIZE_LIMIT" and "seg (mc_mem m) (mc_sp m) ws"
  obtains M where "exec i m = m\<lparr>mc_sp := b, mc_mem := M\<rparr>" and "seg M b (pushed m i @ ws)"
    and "\<forall>a. a < b \<or> mc_sp m \<le> a \<longrightarrow> M a = mc_mem m a"
  using assms by (cases i) (auto simp: Let_def sp_down_def add.assoc)

lemma run_stores:
  assumes "\<forall>i \<in> set is. is_store i" and "mc_sp m = b + 8 * length (concat (map (pushed m) is))" and "mc_sp m < USIZE_LIMIT"
    and "seg (mc_mem m) (mc_sp m) ws"
  shows "\<exists>M. run is m = m\<lparr>mc_sp := b, mc_mem := M\<rparr> \<and> seg M b (concat (map (pushed m) (rev is)) @ ws)
    \<and> (\<forall>a. a < b \<or> mc_sp m \<le> a \<longrightarrow> M a = mc_mem m a)"
  using assms
proof (induction "is" arbitrary: m ws)
  case Nil
  then show ?case by (intro exI [of _ "mc_mem m"]) (simp add: run_def)
next
  case (Cons i js)
  let ?b = "b + 8 * length (concat (map (pushed m) js))"
  obtain M where M: "exec i m = m\<lparr>mc_sp := ?b, mc_mem := M\<rparr>" "seg M ?b (pushed m i @ ws)"
      "\<forall>a. a < ?b \<or> mc_sp m \<le> a \<longrightarrow> M a = mc_mem m a"
    using exec_store [of i m ?b ws] Cons.prems by (auto simp: algebra_simps)
  let ?m = "m\<lparr>mc_sp := ?b, mc_mem := M\<rparr>"
  have same: "pushed ?m j = pushed m j" for j by (cases j) simp_all
  obtain M' where "run js ?m = ?m\<lparr>mc_sp := b, mc_mem := M'\<rparr>" "seg M' b (concat (map (pushed m) (rev js)) @ pushed m i @ ws)"
      "\<forall>a. a < b \<or> ?b \<le> a \<longrightarrow> M' a = M a"
    using Cons.IH [of ?m "pushed m i @ ws"] Cons.prems M(2) by (auto simp: same)
  then show ?case using M(1,3) Cons.prems(2) by (intro exI [of _ M']) (auto simp: run_def)
qed

lemma run_append [simp]: "run (is @ js) m = run js (run is m)"
  by (simp add: run_def)

lemma frame_size [simp]: "FRAME_SIZE = 784"
  by (simp add: FRAME_SIZE_def frame_fields_def)

lemma push_frame:
  assumes "mc_sp m = b + FRAME_SIZE" and "mc_sp m < USIZE_LIMIT"
  shows "\<exists>M. mc_mem (run push_all m) = M \<and> mc_sp (run push_all m) = b \<and> seg M b (frame_words m)
    \<and> (\<forall>a. a < b \<or> b + FRAME_SIZE \<le> a \<longrightarrow> M a = mc_mem m a)"
proof -
  let ?xs = "map (\<lambda>k. StpX (2 * k) (2 * k + 1)) [0..<15]" and ?ms = "[Mrs 21 SP_EL0, Mrs 22 ELR_EL1, Mrs 23 SPSR_EL1]"
  let ?rs = "[StpX 30 21, StpX 22 23] @ map (\<lambda>k. StpQ (2 * k) (2 * k + 1)) [0..<16]"
  have split: "push_all = ?xs @ ?ms @ ?rs" by (simp add: push_all_def upt_rec)
  have lx: "length (concat (map (pushed m) ?xs)) = 30" by (simp add: upt_rec)
  obtain M where M: "run ?xs m = m\<lparr>mc_sp := b + 544, mc_mem := M\<rparr>" "seg M (b + 544) (concat (map (pushed m) (rev ?xs)))"
      "\<forall>a. a < b + 544 \<or> mc_sp m \<le> a \<longrightarrow> M a = mc_mem m a"
    using run_stores [of ?xs m "b + 544" "[]"] assms lx by (auto simp:)
  define m1 where "m1 = m\<lparr>mc_sp := b + 544, mc_mem := M, mc_x := (mc_x m)(21 := mc_sp_el0 m, 22 := mc_elr m, 23 := mc_spsr m)\<rparr>"
  have r1: "run ?ms (run ?xs m) = m1" unfolding M(1) m1_def by (simp add: run_def)
  have lr: "length (concat (map (pushed m1) ?rs)) = 68" by (simp add: upt_rec)
  obtain M' where M': "run ?rs m1 = m1\<lparr>mc_sp := b, mc_mem := M'\<rparr>"
      "seg M' b (concat (map (pushed m1) (rev ?rs)) @ concat (map (pushed m) (rev ?xs)))"
      "\<forall>a. a < b \<or> mc_sp m1 \<le> a \<longrightarrow> M' a = mc_mem m1 a"
    using run_stores [of ?rs m1 b "concat (map (pushed m) (rev ?xs))"] assms lr M(2) by (auto simp: m1_def)
  have "concat (map (pushed m1) (rev ?rs)) @ concat (map (pushed m) (rev ?xs)) = frame_words m"
    by (simp add: frame_words_def m1_def upt_rec)
  moreover have "run push_all m = m1\<lparr>mc_sp := b, mc_mem := M'\<rparr>" 
    unfolding split run_append [of ?xs "?ms @ ?rs"] run_append [of ?ms ?rs] r1 M'(1) ..
  ultimately show ?thesis using M'(2,3) M(3) assms(1) by (simp add: m1_def)
qed

definition same_registers :: "machine \<Rightarrow> machine \<Rightarrow> bool" where
  "same_registers m m' \<longleftrightarrow> (\<forall>i < 31. mc_x m' i = mc_x m i) \<and> (\<forall>i < 32. mc_q m' i = mc_q m i)
     \<and> mc_sp_el0 m' = mc_sp_el0 m \<and> mc_elr m' = mc_elr m \<and> mc_spsr m' = mc_spsr m"

lemma run_ldpx:
  assumes "seg (mc_mem m) (mc_sp m) (concat (map (\<lambda>k. [X (2 * k), X (2 * k + 1)]) ks) @ ws)" and "mc_sp m + 16 * length ks < USIZE_LIMIT"
  shows "run (map (\<lambda>k. LdpX (2 * k) (2 * k + 1)) ks) m
      = m\<lparr>mc_sp := mc_sp m + 16 * length ks, mc_x := (\<lambda>i. if i div 2 \<in> set ks then X i else mc_x m i)\<rparr>
    \<and> seg (mc_mem m) (mc_sp m + 16 * length ks) ws"
  using assms
proof (induction ks arbitrary: m)
  case Nil
  then show ?case by (simp add: run_def)
next
  case (Cons k ks)
  let ?m = "m\<lparr>mc_sp := mc_sp m + 16, mc_x := (mc_x m)(2 * k := X (2 * k), 2 * k + 1 := X (2 * k + 1))\<rparr>"
  have e: "exec (LdpX (2 * k) (2 * k + 1)) m = ?m" using Cons.prems by (simp add: Let_def add.assoc)
  have half: "i div 2 = k \<longleftrightarrow> i = 2 * k \<or> i = 2 * k + 1" for i :: nat by presburger
  have "run (map (\<lambda>k. LdpX (2 * k) (2 * k + 1)) ks) ?m
      = ?m\<lparr>mc_sp := mc_sp ?m + 16 * length ks, mc_x := (\<lambda>i. if i div 2 \<in> set ks then X i else mc_x ?m i)\<rparr>
      \<and> seg (mc_mem ?m) (mc_sp ?m + 16 * length ks) ws"
    by (rule Cons.IH) (use Cons.prems in \<open>simp_all add: add.assoc\<close>)
  moreover have "(\<lambda>i. if i div 2 \<in> set ks then X i else mc_x ?m i) = (\<lambda>i. if i div 2 \<in> set (k # ks) then X i else mc_x m i)"
    by (rule ext) (auto simp: half)
  ultimately show ?case using e by (simp add: run_def add.assoc)
qed

lemma run_ldpq:
  assumes "seg (mc_mem m) (mc_sp m) (concat (map (\<lambda>k. [q_low (Q (2 * k)), q_high (Q (2 * k)), q_low (Q (2 * k + 1)), q_high (Q (2 * k + 1))]) ks) @ ws)"
    and "mc_sp m + 32 * length ks < USIZE_LIMIT"
  shows "run (map (\<lambda>k. LdpQ (2 * k) (2 * k + 1)) ks) m
      = m\<lparr>mc_sp := mc_sp m + 32 * length ks, mc_q := (\<lambda>i. if i div 2 \<in> set ks then Q i else mc_q m i)\<rparr>
    \<and> seg (mc_mem m) (mc_sp m + 32 * length ks) ws"
  using assms
proof (induction ks arbitrary: m)
  case Nil
  then show ?case by (simp add: run_def)
next
  case (Cons k ks)
  let ?m = "m\<lparr>mc_sp := mc_sp m + 32, mc_q := (mc_q m)(2 * k := Q (2 * k), 2 * k + 1 := Q (2 * k + 1))\<rparr>"
  have e: "exec (LdpQ (2 * k) (2 * k + 1)) m = ?m" using Cons.prems by (simp add: Let_def add.assoc)
  have half: "i div 2 = k \<longleftrightarrow> i = 2 * k \<or> i = 2 * k + 1" for i :: nat by presburger
  have "run (map (\<lambda>k. LdpQ (2 * k) (2 * k + 1)) ks) ?m
      = ?m\<lparr>mc_sp := mc_sp ?m + 32 * length ks, mc_q := (\<lambda>i. if i div 2 \<in> set ks then Q i else mc_q ?m i)\<rparr>
      \<and> seg (mc_mem ?m) (mc_sp ?m + 32 * length ks) ws"
    by (rule Cons.IH) (use Cons.prems in \<open>simp_all add: add.assoc\<close>)
  moreover have "(\<lambda>i. if i div 2 \<in> set ks then Q i else mc_q ?m i) = (\<lambda>i. if i div 2 \<in> set (k # ks) then Q i else mc_q m i)"
    by (rule ext) (auto simp: half)
  ultimately show ?case using e by (simp add: run_def add.assoc)
qed

lemma pop_frame:
  assumes w: "seg (mc_mem m) b (frame_words m0)" and sp: "mc_sp m = b" and b: "b + FRAME_SIZE < USIZE_LIMIT"
  shows "same_registers m0 (run pop_all m) \<and> mc_sp (run pop_all m) = b + FRAME_SIZE \<and> mc_mem (run pop_all m) = mc_mem m"
proof -
  let ?qs = "map (\<lambda>k. LdpQ (2 * k) (2 * k + 1)) (rev [0..<16])" and ?xs = "map (\<lambda>k. LdpX (2 * k) (2 * k + 1)) (rev [0..<15])"
  let ?ms = "[LdpX 22 23, LdpX 30 21, Msr SP_EL0 21, Msr ELR_EL1 22, Msr SPSR_EL1 23]"
  let ?xw = "concat (map (\<lambda>k. [mc_x m0 (2 * k), mc_x m0 (2 * k + 1)]) (rev [0..<15]))"
  have split: "pop_all = ?qs @ ?ms @ ?xs" by (simp add: pop_all_def upt_rec)
  let ?q = "\<lambda>i. if i div 2 \<in> set (rev [0..<16]) then mc_q m0 i else mc_q m i"
  have l: "length (rev [0..<16]) = 16" "length (rev [0..<15]) = 15" by simp_all
  have q: "run ?qs m = m\<lparr>mc_sp := b + 512, mc_q := ?q\<rparr>"
    and s1: "seg (mc_mem m) (b + 512) (mc_elr m0 # mc_spsr m0 # mc_x m0 30 # mc_sp_el0 m0 # ?xw)"
    using run_ldpq [of m "mc_q m0" "rev [0..<16]" "mc_elr m0 # mc_spsr m0 # mc_x m0 30 # mc_sp_el0 m0 # ?xw"] w sp b
    unfolding frame_words_def l by (simp_all add:)
  define m1 where "m1 = m\<lparr>mc_sp := b + 544, mc_q := ?q, mc_x := (mc_x m)(22 := mc_elr m0, 23 := mc_spsr m0, 30 := mc_x m0 30, 21 := mc_sp_el0 m0),
    mc_sp_el0 := mc_sp_el0 m0, mc_elr := mc_elr m0, mc_spsr := mc_spsr m0\<rparr>"
  have r1: "run ?ms (run ?qs m) = m1" unfolding q m1_def using s1 b by (simp add: run_def Let_def)
  have s2: "seg (mc_mem m1) (mc_sp m1) (?xw @ [])" using s1 by (simp add: m1_def add.assoc)
  have r: "run pop_all m = m1\<lparr>mc_sp := b + FRAME_SIZE, mc_x := (\<lambda>i. if i div 2 \<in> set (rev [0..<15]) then mc_x m0 i else mc_x m1 i)\<rparr>"
    using run_ldpx [OF s2] b r1 unfolding split run_append [of ?qs "?ms @ ?xs"] run_append [of ?ms ?xs] r1
    by (simp add: m1_def)
  show ?thesis unfolding r same_registers_def by (auto simp: m1_def)
qed

lemma words_at:
  "seg M b ws \<Longrightarrow> i < length ws \<Longrightarrow> M (b + 8 * i) = ws ! i"
proof (induction ws arbitrary: b i)
  case (Cons w ws)
  then show ?case by (cases i) (auto simp: add.assoc dest: Cons.IH [of "b + 8"])
qed simp

lemma seg_update:
  assumes "seg M b ws" and "i < length ws"
  shows "seg (M(b + 8 * i := w)) b (ws[i := w])"
  using assms
proof (induction ws arbitrary: b i)
  case (Cons v ws)
  show ?case
  proof (cases i)
    case 0
    then show ?thesis using Cons.prems seg_below [of b "b + 8" M w ws] by (simp del: fun_upd_apply add: fun_upd_same)
  next
    case (Suc j)
    have e: "b + 8 * i = b + 8 + 8 * j" using Suc by simp
    have "seg (M(b + 8 * i := w)) (b + 8) (ws[j := w])" unfolding e using Cons.prems Suc by (intro Cons.IH) simp_all
    moreover have "(M(b + 8 * i := w)) b = M b" using Suc by simp
    ultimately show ?thesis using Cons.prems(1) Suc by (simp del: fun_upd_apply)
  qed
qed simp

lemma frame_length: "length (frame_words m) = 98"
  by (simp add: frame_words_def upt_rec)

text \<open>The structure names the words where the assembly puts them.\<close>

lemma frame_layout:
  assumes "seg M b (frame_words m)"
  shows "frame_load M b ''x0'' = mc_x m 0" and "frame_load M b ''x1'' = mc_x m 1" and "frame_load M b ''x2'' = mc_x m 2"
    and "frame_load M b ''x3'' = mc_x m 3" and "frame_load M b ''x4'' = mc_x m 4" and "frame_load M b ''x5'' = mc_x m 5"
    and "frame_load M b ''x30'' = mc_x m 30" and "frame_load M b ''x31'' = mc_sp_el0 m"
    and "frame_load M b ''elr_el1'' = mc_elr m" and "frame_load M b ''spsr_el1'' = mc_spsr m"
proof -
  have at: "M (b + 8 * i) = frame_words m ! i" if "i < 98" for i using words_at [OF assms] that by (simp add: frame_length)
  have ws: "frame_words m ! 96 = mc_x m 0" "frame_words m ! 97 = mc_x m 1" "frame_words m ! 94 = mc_x m 2"
    "frame_words m ! 95 = mc_x m 3" "frame_words m ! 92 = mc_x m 4" "frame_words m ! 93 = mc_x m 5"
    "frame_words m ! 66 = mc_x m 30" "frame_words m ! 67 = mc_sp_el0 m" "frame_words m ! 64 = mc_elr m" "frame_words m ! 65 = mc_spsr m"
    by (simp_all add: frame_words_def upt_rec)
  show "frame_load M b ''x0'' = mc_x m 0" "frame_load M b ''x1'' = mc_x m 1" "frame_load M b ''x2'' = mc_x m 2"
    "frame_load M b ''x3'' = mc_x m 3" "frame_load M b ''x4'' = mc_x m 4" "frame_load M b ''x5'' = mc_x m 5"
    "frame_load M b ''x30'' = mc_x m 30" "frame_load M b ''x31'' = mc_sp_el0 m"
    "frame_load M b ''elr_el1'' = mc_elr m" "frame_load M b ''spsr_el1'' = mc_spsr m"
    using at [of 96] at [of 97] at [of 94] at [of 95] at [of 92] at [of 93] at [of 66] at [of 67] at [of 64] at [of 65] ws
    by (simp_all add: frame_load_def frame_fields_def)
qed

lemma frame_store_x0:
  assumes "seg M b (frame_words m)"
  shows "seg (frame_store M b ''x0'' r) b (frame_words (m\<lparr>mc_x := (mc_x m)(0 := r)\<rparr>))"
proof -
  have "frame_words (m\<lparr>mc_x := (mc_x m)(0 := r)\<rparr>) = (frame_words m)[96 := r]" by (simp add: frame_words_def upt_rec)
  moreover have "frame_store M b ''x0'' r = M(b + 8 * 96 := r)" by (simp add: frame_store_def frame_fields_def)
  ultimately show ?thesis using seg_update [OF assms, of 96 r] by (simp add: frame_length)
qed

section \<open>Properties\<close>


definition demo_machine :: machine where
  "demo_machine = \<lparr>mc_x = of_nat, mc_q = (\<lambda>i. push_bit 64 (of_nat i)), mc_sp = 0x2000, mc_pc = 0x80000, mc_mode = 0b0101, mc_sp_el0 = 0x7000,
     mc_elr = 0x80004, mc_spsr = 0, mc_mem = (\<lambda>_. 0)\<rparr>"


end
