(* ===== verification/Interrupts.thy ===== *)
theory Interrupts
  imports Page
begin

text \<open>
  \<^verbatim>\<open>libs/interrupt\<close> and the address-space switch of \<^verbatim>\<open>PageTable::enable_temporarily\<close>. The part of
  the processor state they touch is the record \<open>cpu\<close>: the \<^verbatim>\<open>DAIF\<close> mask register and the table base
  \<^verbatim>\<open>TTBR0_EL1\<close>. A guard is what its constructor returns; dropping it is a second operation, so scopes
  nest as they do in the code.
\<close>

section \<open>Processor state\<close>

record cpu =
  cpu_daif :: "64 word"
  cpu_ttbr0 :: address

definition DAIF_I :: "64 word" where
  "DAIF_I = push_bit 7 1"

definition interrupt_enable :: "cpu \<Rightarrow> cpu" where
  "interrupt_enable c = c\<lparr>cpu_daif := cpu_daif c AND NOT DAIF_I\<rparr>"

definition interrupt_disable :: "cpu \<Rightarrow> cpu" where
  "interrupt_disable c = c\<lparr>cpu_daif := cpu_daif c OR DAIF_I\<rparr>"

definition interrupt_is_enabled :: "cpu \<Rightarrow> bool" where
  "interrupt_is_enabled c \<longleftrightarrow> cpu_daif c AND DAIF_I = 0"

section \<open>Guards\<close>

text \<open>\<^verbatim>\<open>uninterruptible\<close>: the guard remembers whether interrupts were enabled.\<close>

definition uninterruptible :: "cpu \<Rightarrow> bool \<times> cpu" where
  "uninterruptible c =
     (let enabled = interrupt_is_enabled c in
      (enabled, if enabled then interrupt_disable c else c))"

definition uninterruptible_drop :: "bool \<Rightarrow> cpu \<Rightarrow> cpu" where
  "uninterruptible_drop enabled c = (if enabled then interrupt_enable c else c)"

text \<open>\<^verbatim>\<open>Uninterruptible::new\<close>, behind \<^verbatim>\<open>lock_uninterruptible\<close> and its reader-writer variants: it reads
  the interrupt flag and takes the lock.\<close>

definition uninterruptible_lock :: "cpu \<Rightarrow> bool \<times> cpu" where
  "uninterruptible_lock c = (interrupt_is_enabled c, c)"

definition uninterruptible_unlock :: "bool \<Rightarrow> cpu \<Rightarrow> cpu" where
  "uninterruptible_unlock interrupt_was_enabled c = (if interrupt_was_enabled then interrupt_enable c else c)"

definition table_get :: "cpu \<Rightarrow> address" where
  "table_get c = cpu_ttbr0 c"

definition table_set :: "address \<Rightarrow> cpu \<Rightarrow> cpu" where
  "table_set p4 c = c\<lparr>cpu_ttbr0 := p4\<rparr>"

record page_tables_guard =
  pg_old :: frame
  pg_new :: frame
  pg_irq_enabled :: bool

definition enable_temporarily :: "address \<Rightarrow> cpu \<Rightarrow> (page_tables_guard \<times> cpu) res" where
  "enable_temporarily self c =
     rbind (page_new Size4K (table_get c)) (\<lambda>old.
     rbind (page_new Size4K self) (\<lambda>new.
     let x = \<lparr>pg_old = old, pg_new = new, pg_irq_enabled = interrupt_is_enabled c\<rparr>;
         c1 = (if pg_irq_enabled x then interrupt_disable c else c) in
     Ok (x, table_set (page_start (pg_new x)) c1)))"

definition page_tables_drop :: "page_tables_guard \<Rightarrow> cpu \<Rightarrow> cpu" where
  "page_tables_drop x c =
     (let c1 = table_set (page_start (pg_old x)) c in
      if pg_irq_enabled x then interrupt_enable c1 else c1)"

section \<open>The flag\<close>

lemma bit_DAIF_I [bit_simps]: "bit DAIF_I n \<longleftrightarrow> n = 7"
  unfolding DAIF_I_def bit_push_bit_iff by (auto simp: bit_simps)

lemma irq_bit: "interrupt_is_enabled c \<longleftrightarrow> \<not> bit (cpu_daif c) 7"
proof -
  have "x AND DAIF_I = (if bit x 7 then DAIF_I else 0)" for x
    by (rule bit_eqI) (auto simp: bit_simps)
  moreover have "DAIF_I \<noteq> 0" by (simp add: DAIF_I_def)
  ultimately show ?thesis by (simp add: interrupt_is_enabled_def)
qed

lemma irq_enable [simp]: "interrupt_is_enabled (interrupt_enable c)" "cpu_ttbr0 (interrupt_enable c) = cpu_ttbr0 c"
  by (auto simp: irq_bit interrupt_enable_def bit_simps)

lemma irq_disable [simp]: "\<not> interrupt_is_enabled (interrupt_disable c)" "cpu_ttbr0 (interrupt_disable c) = cpu_ttbr0 c"
  by (auto simp: irq_bit interrupt_disable_def bit_simps)

lemma enable_disable: "interrupt_is_enabled c \<Longrightarrow> interrupt_enable (interrupt_disable c) = c"
  by (cases c) (auto simp: irq_bit interrupt_enable_def interrupt_disable_def intro!: bit_eqI simp: bit_simps)

lemma enable_enabled: "interrupt_is_enabled c \<Longrightarrow> interrupt_enable c = c"
  by (cases c) (auto simp: irq_bit interrupt_enable_def intro!: bit_eqI simp: bit_simps)

lemma table_set_simps [simp]:
  "interrupt_is_enabled (table_set t c) = interrupt_is_enabled c" "cpu_ttbr0 (table_set t c) = t"
  "table_set t (table_set u c) = table_set t c" "table_set (cpu_ttbr0 c) c = c"
  "interrupt_enable (table_set t c) = table_set t (interrupt_enable c)"
  "interrupt_disable (table_set t c) = table_set t (interrupt_disable c)"
  by (auto simp: interrupt_is_enabled_def table_set_def interrupt_enable_def interrupt_disable_def)

text \<open>A scope of each guard, run to its end with an unchanged processor in between.\<close>

lemma guard_restores:
  "uninterruptible_drop (fst (uninterruptible c)) (snd (uninterruptible c)) = c"
  "uninterruptible_unlock (fst (uninterruptible_lock c)) (snd (uninterruptible_lock c)) = c"
  "enable_temporarily t c = Ok (x, c') \<Longrightarrow> page_tables_drop x c' = c"
  by (auto simp: uninterruptible_def uninterruptible_drop_def uninterruptible_lock_def uninterruptible_unlock_def
      enable_temporarily_def page_tables_drop_def table_get_def page_start_def page_new_Ok_iff rbind_Ok_iff
      enable_disable enable_enabled Let_def)

lemma enable_temporarily_Ok:
  assumes "4096 dvd t" and "4096 dvd cpu_ttbr0 c"
  obtains x c' where "enable_temporarily t c = Ok (x, c')" and "\<not> interrupt_is_enabled c'" and "cpu_ttbr0 c' = t"
  using assms that by (auto simp: enable_temporarily_def table_get_def page_start_def BYTES_def Let_def)

section \<open>Nested scopes\<close>

datatype guard_kind = Masked | Locked | Space address

datatype scope = Scope guard_kind "scope list"

text \<open>Running nested scopes. The second component collects the processor states in which the bodies
  run, with the kinds of guards around them.\<close>

fun run_scope :: "guard_kind list \<Rightarrow> scope \<Rightarrow> cpu \<Rightarrow> (cpu \<times> (guard_kind list \<times> cpu) list) res"
and run_scopes :: "guard_kind list \<Rightarrow> scope list \<Rightarrow> cpu \<Rightarrow> (cpu \<times> (guard_kind list \<times> cpu) list) res" where
  "run_scope ks (Scope k body) c =
     (case k of
        Masked \<Rightarrow>
          (let u = uninterruptible c in
           rbind (run_scopes (k # ks) body (snd u)) (\<lambda>(c2, obs).
           Ok (uninterruptible_drop (fst u) c2, (k # ks, snd u) # obs)))
      | Locked \<Rightarrow>
          (let u = uninterruptible_lock c in
           rbind (run_scopes (k # ks) body (snd u)) (\<lambda>(c2, obs).
           Ok (uninterruptible_unlock (fst u) c2, (k # ks, snd u) # obs)))
      | Space t \<Rightarrow>
          rbind (enable_temporarily t c) (\<lambda>(g, c1).
          rbind (run_scopes (k # ks) body c1) (\<lambda>(c2, obs).
          Ok (page_tables_drop g c2, (k # ks, c1) # obs))))"
| "run_scopes ks [] c = Ok (c, [])"
| "run_scopes ks (s # ss) c =
     rbind (run_scope ks s c) (\<lambda>(c1, o1).
     rbind (run_scopes ks ss c1) (\<lambda>(c2, o2). Ok (c2, o1 @ o2)))"

fun spaces :: "scope \<Rightarrow> address list" where
  "spaces (Scope k body) = (case k of Space t \<Rightarrow> [t] | _ \<Rightarrow> []) @ concat (map spaces body)"

definition masked_inside :: "guard_kind list \<times> cpu \<Rightarrow> bool" where
  "masked_inside ob \<longleftrightarrow> (case ob of (ks, c) \<Rightarrow> (\<exists>k \<in> set ks. k \<noteq> Locked) \<longrightarrow> \<not> interrupt_is_enabled c)"

lemma nested_scopes:
  "\<forall>t \<in> set (spaces s). 4096 dvd t \<Longrightarrow> 4096 dvd cpu_ttbr0 c \<Longrightarrow> masked_inside (ks, c) \<Longrightarrow>
     \<exists>obs. run_scope ks s c = Ok (c, obs) \<and> (\<forall>ob \<in> set obs. masked_inside ob)"
  "\<forall>t \<in> set (concat (map spaces ss)). 4096 dvd t \<Longrightarrow> 4096 dvd cpu_ttbr0 c \<Longrightarrow> masked_inside (ks, c) \<Longrightarrow>
     \<exists>obs. run_scopes ks ss c = Ok (c, obs) \<and> (\<forall>ob \<in> set obs. masked_inside ob)"
proof (induction ks s c and ks ss c rule: run_scope_run_scopes.induct)
  case (1 ks k body c)
  show ?case
  proof (cases k)
    case Masked
    define c1 where "c1 = snd (uninterruptible c)"
    have c1: "\<not> interrupt_is_enabled c1" "cpu_ttbr0 c1 = cpu_ttbr0 c"
      by (auto simp: c1_def uninterruptible_def Let_def)
    obtain obs where "run_scopes (k # ks) body c1 = Ok (c1, obs)" "\<forall>ob \<in> set obs. masked_inside ob"
      using "1.IH"(1) [OF Masked refl] "1.prems" c1 by (auto simp: c1_def masked_inside_def Masked)
    then show ?thesis
      using guard_restores(1) [of c] c1 by (simp add: Masked c1_def masked_inside_def split_def)
  next
    case Locked
    have u: "uninterruptible_lock c = (interrupt_is_enabled c, c)" by (simp add: uninterruptible_lock_def)
    obtain obs where "run_scopes (k # ks) body c = Ok (c, obs)" "\<forall>ob \<in> set obs. masked_inside ob"
      using "1.IH"(2) [OF Locked refl] "1.prems" by (auto simp: masked_inside_def Locked u)
    then show ?thesis
      using guard_restores(2) [of c] "1.prems"(3) by (auto simp: Locked u masked_inside_def)
  next
    case (Space t)
    then obtain x c1 where e: "enable_temporarily t c = Ok (x, c1)" and c1: "\<not> interrupt_is_enabled c1" "cpu_ttbr0 c1 = t"
      using "1.prems" by (auto intro: enable_temporarily_Ok [of t c])
    obtain obs where "run_scopes (k # ks) body c1 = Ok (c1, obs)" "\<forall>ob \<in> set obs. masked_inside ob"
      using "1.IH"(3) [OF Space e refl] "1.prems" c1 by (auto simp: masked_inside_def Space)
    then show ?thesis
      using guard_restores(3) [OF e] c1 by (simp add: Space e masked_inside_def)
  qed
next
  case (3 ks s ss c)
  obtain o1 where o1: "run_scope ks s c = Ok (c, o1)" "\<forall>ob \<in> set o1. masked_inside ob" using "3.IH"(1) "3.prems" by auto
  obtain o2 where "run_scopes ks ss c = Ok (c, o2)" "\<forall>ob \<in> set o2. masked_inside ob"
    using "3.IH"(2) [OF o1(1) refl] "3.prems" by auto
  with o1 show ?case by auto
qed simp

fun kinds :: "scope \<Rightarrow> guard_kind list" where
  "kinds (Scope k body) = k # concat (map kinds body)"

lemma locked_scopes:
  "set (kinds s) \<subseteq> {Locked} \<Longrightarrow> \<exists>obs. run_scope ks s c = Ok (c, obs) \<and> obs \<noteq> [] \<and> (\<forall>ob \<in> set obs. snd ob = c)"
  "set (concat (map kinds ss)) \<subseteq> {Locked} \<Longrightarrow> \<exists>obs. run_scopes ks ss c = Ok (c, obs) \<and> (\<forall>ob \<in> set obs. snd ob = c)"
proof (induction ks s c and ks ss c rule: run_scope_run_scopes.induct)
  case (1 ks k body c)
  then have k: "k = Locked" by simp
  have u: "uninterruptible_lock c = (interrupt_is_enabled c, c)" by (simp add: uninterruptible_lock_def)
  obtain obs where "run_scopes (k # ks) body c = Ok (c, obs)" "\<forall>ob \<in> set obs. snd ob = c"
    using "1.IH"(2) [OF k refl] "1.prems" by (auto simp: u)
  then show ?case using guard_restores(2) [of c] by (simp add: k u)
next
  case (3 ks s ss c)
  obtain o1 where o1: "run_scope ks s c = Ok (c, o1)" "\<forall>ob \<in> set o1. snd ob = c" using "3.IH"(1) "3.prems" by auto
  obtain o2 where "run_scopes ks ss c = Ok (c, o2)" "\<forall>ob \<in> set o2. snd ob = c"
    using "3.IH"(2) [OF o1(1) refl] "3.prems" by auto
  with o1 show ?case by auto
qed simp

section \<open>Properties\<close>

text \<open>Guards nest. For every nesting of \<^verbatim>\<open>uninterruptible\<close> scopes, \<^verbatim>\<open>lock_uninterruptible\<close> scopes and
  temporary address spaces (with page-aligned tables), leaving the outermost scope restores the
  interrupt mask and the table base exactly, and inside an \<^verbatim>\<open>uninterruptible\<close> or address-space
  scope, at any depth, interrupts are masked.\<close>

theorem nested_guards_restore:
  assumes "\<forall>t \<in> set (spaces s). 4096 dvd t" and "4096 dvd cpu_ttbr0 c"
  shows "\<exists>obs. run_scope [] s c = Ok (c, obs)
    \<and> (\<forall>(ks, c') \<in> set obs. (\<exists>k \<in> set ks. k \<noteq> Locked) \<longrightarrow> \<not> interrupt_is_enabled c')"
  using nested_scopes(1) [OF assms, of "[]"] by (auto simp: masked_inside_def split_def)

theorem nested_guards_restore_witness:
  "\<exists>obs. run_scope [] (Scope (Space 0x80000) [Scope Locked [Scope Masked []], Scope Masked [Scope (Space 0x90000) []]])
      \<lparr>cpu_daif = 0x340, cpu_ttbr0 = 0x1000\<rparr> = Ok (\<lparr>cpu_daif = 0x340, cpu_ttbr0 = 0x1000\<rparr>, obs)
    \<and> (\<forall>(ks, c') \<in> set obs. (\<exists>k \<in> set ks. k \<noteq> Locked) \<longrightarrow> \<not> interrupt_is_enabled c')"
  by (rule nested_guards_restore) (simp_all add: dvd_eq_mod_eq_0)



end
