(* ===== verification/Collections.thy ===== *)
theory Collections
  imports Prelude "HOL-Library.Char_ord" "HOL-Library.List_Lexorder"
begin

text \<open>
  What the kernel's modules use of Rust's standard library: \<^verbatim>\<open>BTreeMap\<close> and the methods of
  \<^verbatim>\<open>str\<close>. A \<open>btree\<close> is the list of its bindings in the order of its keys, which is the order
  \<^verbatim>\<open>keys()\<close> yields; a string is a \<open>string\<close> of ASCII characters, compared lexicographically.
\<close>

section \<open>BTreeMap\<close>

type_synonym ('k, 'v) btree = "('k \<times> 'v) list"

definition bt_new :: "('k, 'v) btree" where
  "bt_new = []"

fun bt_insert :: "('k :: linorder) \<Rightarrow> 'v \<Rightarrow> ('k, 'v) btree \<Rightarrow> ('k, 'v) btree" where
  "bt_insert k v [] = [(k, v)]"
| "bt_insert k v (b # m) =
     (if fst b < k then b # bt_insert k v m else if fst b = k then (k, v) # m else (k, v) # b # m)"

definition bt_get :: "('k, 'v) btree \<Rightarrow> 'k \<Rightarrow> 'v option" where
  "bt_get m = map_of m"

definition bt_contains_key :: "('k, 'v) btree \<Rightarrow> 'k \<Rightarrow> bool" where
  "bt_contains_key m k \<longleftrightarrow> bt_get m k \<noteq> None"

definition bt_remove :: "'k \<Rightarrow> ('k, 'v) btree \<Rightarrow> ('k, 'v) btree" where
  "bt_remove k m = filter (\<lambda>b. fst b \<noteq> k) m"

definition bt_keys :: "('k, 'v) btree \<Rightarrow> 'k list" where
  "bt_keys m = map fst m"

text \<open>Indexing with \<^verbatim>\<open>map[k]\<close> panics on a missing key.\<close>

definition bt_index :: "('k, 'v) btree \<Rightarrow> 'k \<Rightarrow> 'v res" where
  "bt_index m k = (case bt_get m k of Some v \<Rightarrow> Ok v | None \<Rightarrow> Panic UnwrapNone)"

definition bt_ok :: "('k :: linorder, 'v) btree \<Rightarrow> bool" where
  "bt_ok m \<longleftrightarrow> sorted_wrt (<) (bt_keys m)"

lemma bt_get_new [simp]: "bt_get bt_new k = None"
  by (simp add: bt_get_def bt_new_def)

lemma bt_ok_new [simp]: "bt_ok bt_new"
  by (simp add: bt_ok_def bt_new_def bt_keys_def)

lemma bt_get_insert [simp]: "bt_get (bt_insert k v m) = (bt_get m)(k \<mapsto> v)"
  unfolding bt_get_def by (induction m) (auto simp: fun_eq_iff)

lemma bt_get_remove [simp]: "bt_get (bt_remove k m) = (bt_get m)(k := None)"
  unfolding bt_get_def bt_remove_def by (induction m) (auto simp: fun_eq_iff)

lemma bt_keys_insert: "set (bt_keys (bt_insert k v m)) = insert k (set (bt_keys m))"
  unfolding bt_keys_def by (induction m) auto

lemma bt_ok_insert [intro]: "bt_ok m \<Longrightarrow> bt_ok (bt_insert k v m)"
proof (induction m)
  case (Cons b m)
  then have "bt_ok (bt_insert k v m)" by (simp add: bt_ok_def bt_keys_def)
  with Cons.prems show ?case using bt_keys_insert [of k v m] by (auto simp: bt_ok_def bt_keys_def)
qed (simp add: bt_ok_def bt_keys_def)

lemma bt_ok_remove [intro]: "bt_ok m \<Longrightarrow> bt_ok (bt_remove k m)"
  unfolding bt_ok_def bt_keys_def bt_remove_def by (induction m) auto

lemma bt_keys_dom: "set (bt_keys m) = dom (bt_get m)"
  by (simp add: bt_keys_def bt_get_def dom_map_of_conv_image_fst)

text \<open>The keys come out sorted and without repetition.\<close>

lemma bt_keys_sorted: "bt_ok m \<Longrightarrow> bt_keys m = sorted_list_of_set (dom (bt_get m))"
  by (simp add: bt_ok_def strict_sorted_iff bt_keys_dom [symmetric] sorted_list_of_set.idem_if_sorted_distinct)

lemma bt_contains_insert [simp]: "bt_contains_key (bt_insert k v m) j \<longleftrightarrow> j = k \<or> bt_contains_key m j"
  by (simp add: bt_contains_key_def)

lemma bt_index_Ok_iff: "bt_index m k = Ok v \<longleftrightarrow> bt_get m k = Some v"
  by (simp add: bt_index_def split: option.splits)

section \<open>Strings\<close>

definition starts_with :: "char \<Rightarrow> string \<Rightarrow> bool" where
  "starts_with c s \<longleftrightarrow> s \<noteq> [] \<and> hd s = c"

definition ends_with :: "char \<Rightarrow> string \<Rightarrow> bool" where
  "ends_with c s \<longleftrightarrow> s \<noteq> [] \<and> last s = c"

definition strip_prefix :: "char \<Rightarrow> string \<Rightarrow> string option" where
  "strip_prefix c s = (if starts_with c s then Some (tl s) else None)"

definition strip_suffix :: "char \<Rightarrow> string \<Rightarrow> string option" where
  "strip_suffix c s = (if ends_with c s then Some (butlast s) else None)"

fun split_once :: "char \<Rightarrow> string \<Rightarrow> (string \<times> string) option" where
  "split_once c [] = None"
| "split_once c (x # s) =
     (if x = c then Some ([], s) else map_option (\<lambda>(a, b). (x # a, b)) (split_once c s))"

fun split :: "char \<Rightarrow> string \<Rightarrow> string list" where
  "split c [] = [[]]"
| "split c (x # s) = (if x = c then [] # split c s else (x # hd (split c s)) # tl (split c s))"

fun join :: "string \<Rightarrow> string list \<Rightarrow> string" where
  "join sep [] = []"
| "join sep [s] = s"
| "join sep (s # t # ts) = s @ sep @ join sep (t # ts)"

definition is_whitespace :: "char \<Rightarrow> bool" where
  "is_whitespace c \<longleftrightarrow> (of_char c :: nat) \<in> {9, 10, 11, 12, 13, 32}"

definition trim :: "string \<Rightarrow> string" where
  "trim s = rev (dropWhile is_whitespace (rev (dropWhile is_whitespace s)))"

lemma starts_with_simps [simp]: "\<not> starts_with c []" "starts_with c (x # s) \<longleftrightarrow> x = c"
  by (simp_all add: starts_with_def)

lemma strip_prefix_simps [simp]:
  "strip_prefix c [] = None" "strip_prefix c (x # s) = (if x = c then Some s else None)"
  by (simp_all add: strip_prefix_def)

lemma split_once_Some: "split_once c s = Some (a, b) \<longleftrightarrow> s = a @ c # b \<and> c \<notin> set a"
proof (induction s arbitrary: a)
  case (Cons x s)
  show ?case
  proof (cases a)
    case (Cons y a')
    then show ?thesis using Cons.IH [of a'] by auto
  qed auto
qed simp

lemma split_once_None: "split_once c s = None \<longleftrightarrow> c \<notin> set s"
  by (induction s) auto

lemma split_once_app [simp]: "c \<notin> set a \<Longrightarrow> split_once c (a @ c # b) = Some (a, b)"
  by (simp add: split_once_Some)

lemma split_Nil [simp]: "split c s \<noteq> []"
  by (cases s) auto

lemma split_none [simp]: "c \<notin> set s \<Longrightarrow> split c s = [s]"
  by (induction s) auto

lemma split_app [simp]: "c \<notin> set a \<Longrightarrow> split c (a @ c # b) = a # split c b"
  by (induction a) auto

lemma split_no_sep: "x \<in> set (split c s) \<Longrightarrow> c \<notin> set x"
proof (induction s arbitrary: x)
  case (Cons y s)
  obtain t ts where "split c s = t # ts" by (cases "split c s") simp_all
  with Cons show ?case by (auto split: if_splits)
qed simp

lemma split_join: "ts \<noteq> [] \<Longrightarrow> \<forall>t \<in> set ts. c \<notin> set t \<Longrightarrow> split c (join [c] ts) = ts"
  by (induction ts rule: induct_list012) simp_all

lemma join_split: "join [c] (split c s) = s"
proof (induction s)
  case (Cons x s)
  obtain t ts where "split c s = t # ts" by (cases "split c s") simp_all
  with Cons show ?case by (cases ts) auto
qed simp

end
