(* ===== verification/Scheduler.thy ===== *)
theory Scheduler
  imports Collections Interrupts
begin

text \<open>
  The round-robin scheduler, \<^verbatim>\<open>modules/round-robin\<close> and \<^verbatim>\<open>libs/sched\<close>, over the tables of tasks and
  processes that \<^verbatim>\<open>modules/pm\<close> keeps. The record \<open>sys\<close> has one field per global. A function that
  ends in \<^verbatim>\<open>return_to_user(task)\<close> and so never returns is modelled by the state at that point and the
  task that runs next. The kernel reports one core (\<^verbatim>\<open>num_cores\<close>), so every handler runs to its end
  before another task does.
\<close>

section \<open>State\<close>

type_synonym task_id = usize
type_synonym proc_id = usize

datatype run_state = Ready | Running | Sleeping

record sched_state =
  ss_run_state :: run_state
  ss_time_slice_units :: usize

record raw_mutex =
  rm_is_locked :: bool
  rm_waiters :: "task_id list"

record raw_condvar =
  rc_waiters :: "task_id list"

text \<open>A \<^verbatim>\<open>Monitor\<close> of \<^verbatim>\<open>libs/sync\<close> owns its mutex and its condition variable. The \<^verbatim>\<open>live\<close> monitors of
  tasks and processes outlive the entries of the tables, because waiting tasks hold references to
  them; they are kept by identifier in \<open>sy_task_live\<close> and \<open>sy_proc_live\<close>.\<close>

record monitor =
  mn_lock :: raw_mutex
  mn_cond :: raw_condvar
  mn_data :: bool

record task =
  tk_id :: task_id
  tk_proc :: proc_id
  tk_sched :: sched_state

record ('f, 'm) process =
  pr_id :: proc_id
  pr_threads :: "task_id list"
  pr_fs :: 'f
  pr_mm :: 'm
  pr_locks :: "address list"
  pr_cvars :: "address list"

record ('f, 'm) sys =
  sy_cpu :: cpu
  sy_current :: "task_id option list"
  sy_queue :: "task_id list list"
  sy_tasks :: "(task_id, task) btree"
  sy_procs :: "(proc_id, ('f, 'm) process) btree"
  sy_task_count :: usize
  sy_proc_count :: usize
  sy_mutexes :: "(address, raw_mutex) btree"
  sy_cvars :: "(address, raw_condvar) btree"
  sy_task_live :: "(task_id, monitor) btree"
  sy_proc_live :: "(proc_id, monitor) btree"

definition num_cores :: usize where
  "num_cores = 1"

definition current_core :: usize where
  "current_core = 0"

definition UNIT_TIME_SLICE :: usize where
  "UNIT_TIME_SLICE = 1"

section \<open>Task lookup\<close>

definition get_task_by_id :: "('f, 'm) sys \<Rightarrow> task_id \<Rightarrow> task option" where
  "get_task_by_id s t = bt_get (sy_tasks s) t"

definition put_task :: "('f, 'm) sys \<Rightarrow> task_id \<Rightarrow> task \<Rightarrow> ('f, 'm) sys" where
  "put_task s t x = s\<lparr>sy_tasks := bt_insert t x (sy_tasks s)\<rparr>"

definition return_to_user :: "('f, 'm) sys \<Rightarrow> task_id \<Rightarrow> (('f, 'm) sys \<times> task_id) res" where
  "return_to_user s t = rbind (unwrap (get_task_by_id s t)) (\<lambda>_. Ok (s, t))"

section \<open>The scheduler\<close>

definition new_state :: sched_state where
  "new_state = \<lparr>ss_run_state = Ready, ss_time_slice_units = 0\<rparr>"

definition sched_init :: "('f, 'm) sys \<Rightarrow> ('f, 'm) sys" where
  "sched_init s = s\<lparr>sy_current := replicate num_cores None, sy_queue := replicate num_cores []\<rparr>"

definition get_current_task_id :: "('f, 'm) sys \<Rightarrow> task_id option res" where
  "get_current_task_id s = idx (sy_current s) current_core"

definition set_current_task_id :: "('f, 'm) sys \<Rightarrow> task_id \<Rightarrow> ('f, 'm) sys res" where
  "set_current_task_id s t =
     rbind (upd (sy_current s) current_core (Some t)) (\<lambda>c. Ok (s\<lparr>sy_current := c\<rparr>))"

text \<open>\<^verbatim>\<open>SegQueue\<close> is first in, first out; \<^verbatim>\<open>get(0)\<close> names the queue of core 0 and plain access that of
  the current core.\<close>

definition push_queue :: "('f, 'm) sys \<Rightarrow> usize \<Rightarrow> task_id \<Rightarrow> ('f, 'm) sys res" where
  "push_queue s core t =
     rbind (idx (sy_queue s) core) (\<lambda>q. Ok (s\<lparr>sy_queue := (sy_queue s)[core := q @ [t]]\<rparr>))"

definition get_next_schedulable_task :: "('f, 'm) sys \<Rightarrow> (('f, 'm) sys \<times> task_id) res" where
  "get_next_schedulable_task s =
     rbind (rassert (\<not> interrupt_is_enabled (sy_cpu s))) (\<lambda>_.
     rbind (idx (sy_queue s) current_core) (\<lambda>q.
     case q of
       [] \<Rightarrow> Panic Explicit
     | t # q' \<Rightarrow> Ok (s\<lparr>sy_queue := (sy_queue s)[current_core := q']\<rparr>, t)))"

definition get_state :: "('f, 'm) sys \<Rightarrow> task_id \<Rightarrow> sched_state res" where
  "get_state s t = rbind (unwrap (get_task_by_id s t)) (\<lambda>x. Ok (tk_sched x))"

definition set_state :: "('f, 'm) sys \<Rightarrow> task_id \<Rightarrow> sched_state \<Rightarrow> ('f, 'm) sys res" where
  "set_state s t st = rbind (unwrap (get_task_by_id s t)) (\<lambda>x. Ok (put_task s t (x\<lparr>tk_sched := st\<rparr>)))"

definition enqueue_current_task_as_ready :: "('f, 'm) sys \<Rightarrow> ('f, 'm) sys res" where
  "enqueue_current_task_as_ready s =
     rbind (rassert (\<not> interrupt_is_enabled (sy_cpu s))) (\<lambda>_.
     rbind (get_current_task_id s) (\<lambda>c.
     rbind (unwrap c) (\<lambda>t.
     rbind (get_state s t) (\<lambda>st.
     rbind (rassert (ss_run_state st \<noteq> Ready)) (\<lambda>_.
     rbind (set_state s t (st\<lparr>ss_run_state := Ready\<rparr>)) (\<lambda>s1.
     push_queue s1 0 t))))))"

text \<open>A guard of \<^verbatim>\<open>interrupt::uninterruptible()\<close> around the body of a handler.\<close>

definition uninterruptibly :: "(('f, 'm) sys \<Rightarrow> (('f, 'm) sys \<times> 'a) res) \<Rightarrow> ('f, 'm) sys \<Rightarrow> (('f, 'm) sys \<times> 'a) res" where
  "uninterruptibly body s =
     (let (g, c) = uninterruptible (sy_cpu s) in
      rbind (body (s\<lparr>sy_cpu := c\<rparr>)) (\<lambda>(s', x). Ok (s'\<lparr>sy_cpu := uninterruptible_drop g (sy_cpu s')\<rparr>, x)))"

definition register_new_task :: "('f, 'm) sys \<Rightarrow> task_id \<Rightarrow> (('f, 'm) sys \<times> unit) res" where
  "register_new_task s t = uninterruptibly (\<lambda>s.
     rbind (get_state s t) (\<lambda>st.
     if ss_run_state st = Ready then
       rbind (rassert (\<not> interrupt_is_enabled (sy_cpu s))) (\<lambda>_.
       rbind (push_queue s 0 t) (\<lambda>s'. Ok (s', ())))
     else Ok (s, ()))) s"

definition remove_task :: "('f, 'm) sys \<Rightarrow> task_id \<Rightarrow> ('f, 'm) sys res" where
  "remove_task s t =
     rbind (rassert (\<not> interrupt_is_enabled (sy_cpu s))) (\<lambda>_.
     rbind (idx (sy_current s) current_core) (\<lambda>curr.
     if curr = Some t then Ok (s\<lparr>sy_current := (sy_current s)[current_core := None]\<rparr>) else Ok s))"

text \<open>The branch of \<^verbatim>\<open>schedule\<close> that leaves the current task.\<close>

definition switch_next :: "('f, 'm) sys \<Rightarrow> (('f, 'm) sys \<times> task_id) res" where
  "switch_next s =
     rbind (get_next_schedulable_task s) (\<lambda>(s1, next_task).
     rbind (get_state s1 next_task) (\<lambda>st.
     rbind (rassert (ss_run_state st = Ready)) (\<lambda>_.
     rbind (set_state s1 next_task (st\<lparr>ss_run_state := Running, ss_time_slice_units := UNIT_TIME_SLICE\<rparr>)) (\<lambda>s2.
     rbind (set_current_task_id s2 next_task) (\<lambda>s3.
     return_to_user s3 next_task)))))"

definition schedule :: "('f, 'm) sys \<Rightarrow> (('f, 'm) sys \<times> task_id) res" where
  "schedule s0 =
     (let s = s0\<lparr>sy_cpu := interrupt_disable (sy_cpu s0)\<rparr> in
      rbind (get_current_task_id s) (\<lambda>current_task.
      case current_task of
        None \<Rightarrow> switch_next s
      | Some t \<Rightarrow>
          rbind (get_state s t) (\<lambda>st.
          if ss_run_state st = Running then return_to_user s t else switch_next s)))"

text \<open>\<^verbatim>\<open>sleep\<close> ends in \<^verbatim>\<open>schedule\<close>, so its guard is never dropped.\<close>

definition sleep :: "('f, 'm) sys \<Rightarrow> (('f, 'm) sys \<times> task_id) res" where
  "sleep s0 =
     (let s = s0\<lparr>sy_cpu := snd (uninterruptible (sy_cpu s0))\<rparr> in
      rbind (get_current_task_id s) (\<lambda>c.
      rbind (unwrap c) (\<lambda>t.
      rbind (get_state s t) (\<lambda>st.
      rbind (rassert (ss_run_state st = Running)) (\<lambda>_.
      rbind (set_state s t (st\<lparr>ss_run_state := Sleeping\<rparr>)) schedule)))))"

definition wake_up :: "('f, 'm) sys \<Rightarrow> task_id \<Rightarrow> (('f, 'm) sys \<times> unit) res" where
  "wake_up s t = uninterruptibly (\<lambda>s.
     rbind (get_state s t) (\<lambda>st.
     if ss_run_state st = Sleeping then
       rbind (set_state s t (st\<lparr>ss_run_state := Ready\<rparr>)) (\<lambda>s1.
       rbind (push_queue s1 0 t) (\<lambda>s2. Ok (s2, ())))
     else Ok (s, ()))) s"

definition timer_tick :: "('f, 'm) sys \<Rightarrow> (('f, 'm) sys \<times> task_id) res" where
  "timer_tick s =
     rbind (rassert (\<not> interrupt_is_enabled (sy_cpu s))) (\<lambda>_.
     rbind (get_current_task_id s) (\<lambda>c.
     rbind (unwrap c) (\<lambda>t.
     rbind (get_state s t) (\<lambda>st.
     if ss_time_slice_units st = 0 then Panic Explicit
     else
       rbind (rassert (ss_run_state st = Running)) (\<lambda>_.
       let old = ss_time_slice_units st in
       rbind (set_state s t (st\<lparr>ss_time_slice_units := old - 1\<rparr>)) (\<lambda>s1.
       if old = 1 then rbind (enqueue_current_task_as_ready s1) schedule
       else return_to_user s1 t))))))"

section \<open>What the scheduler sees\<close>

definition ready_queue :: "('f, 'm) sys \<Rightarrow> task_id list" where
  "ready_queue s = sy_queue s ! 0"

definition current :: "('f, 'm) sys \<Rightarrow> task_id option" where
  "current s = sy_current s ! 0"

definition state_of :: "('f, 'm) sys \<Rightarrow> task_id \<Rightarrow> sched_state option" where
  "state_of s t = map_option tk_sched (get_task_by_id s t)"

text \<open>The operations only see the shape of the per-core storage, the queue, the current task and the
  scheduling state of each task; everything else is kept.\<close>

definition shaped :: "('f, 'm) sys \<Rightarrow> bool" where
  "shaped s \<longleftrightarrow> length (sy_queue s) = 1 \<and> length (sy_current s) = 1"

definition same_tables :: "('f, 'm) sys \<Rightarrow> ('f, 'm) sys \<Rightarrow> bool" where
  "same_tables s s' \<longleftrightarrow> sy_procs s' = sy_procs s \<and> sy_task_count s' = sy_task_count s \<and> sy_proc_count s' = sy_proc_count s
     \<and> sy_mutexes s' = sy_mutexes s \<and> sy_cvars s' = sy_cvars s
     \<and> sy_task_live s' = sy_task_live s \<and> sy_proc_live s' = sy_proc_live s
     \<and> (\<forall>t. map_option (\<lambda>x. (tk_id x, tk_proc x)) (get_task_by_id s' t)
        = map_option (\<lambda>x. (tk_id x, tk_proc x)) (get_task_by_id s t))"

lemma same_tables_refl [simp]: "same_tables s s"
  by (simp add: same_tables_def)

lemma same_tables_trans: "same_tables a b \<Longrightarrow> same_tables b c \<Longrightarrow> same_tables a c"
  by (simp add: same_tables_def)

lemma same_tables_tasks:
  assumes "same_tables s s'"
  shows "get_task_by_id s' t = None \<longleftrightarrow> get_task_by_id s t = None"
    and "get_task_by_id s t = Some x \<Longrightarrow> \<exists>x'. get_task_by_id s' t = Some x' \<and> tk_proc x' = tk_proc x \<and> tk_id x' = tk_id x"
proof -
  have e: "map_option (\<lambda>x. (tk_id x, tk_proc x)) (get_task_by_id s' t)
      = map_option (\<lambda>x. (tk_id x, tk_proc x)) (get_task_by_id s t)"
    using assms by (simp add: same_tables_def)
  then show "get_task_by_id s' t = None \<longleftrightarrow> get_task_by_id s t = None" by (cases "get_task_by_id s t") auto
  show "get_task_by_id s t = Some x \<Longrightarrow> \<exists>x'. get_task_by_id s' t = Some x' \<and> tk_proc x' = tk_proc x \<and> tk_id x' = tk_id x"
    using e by (cases "get_task_by_id s' t") auto
qed

definition view :: "('f, 'm) sys \<Rightarrow> task_id list \<times> task_id option \<times> (task_id \<rightharpoonup> sched_state)" where
  "view s = (ready_queue s, current s, state_of s)"

definition stepped :: "('f, 'm) sys \<Rightarrow> ('f, 'm) sys \<Rightarrow> task_id list \<times> task_id option \<times> (task_id \<rightharpoonup> sched_state) \<Rightarrow> bool" where
  "stepped s s' v \<longleftrightarrow> shaped s' \<and> same_tables s s' \<and> view s' = v"

lemma shaped_conv: "shaped s \<longleftrightarrow> sy_queue s = [ready_queue s] \<and> sy_current s = [current s]"
  unfolding shaped_def ready_queue_def current_def
  by (cases "sy_queue s"; cases "sy_current s") auto

lemma get_state_eq: "get_state s t = (case state_of s t of None \<Rightarrow> Panic UnwrapNone | Some st \<Rightarrow> Ok st)"
  by (simp add: get_state_def state_of_def split: option.split)

lemma set_state_Ok:
  assumes "state_of s t = Some st0"
  obtains s' where "set_state s t st = Ok s'" and "same_tables s s'" and "sy_queue s' = sy_queue s"
    and "sy_current s' = sy_current s" and "sy_cpu s' = sy_cpu s" and "state_of s' = (state_of s)(t \<mapsto> st)"
proof -
  obtain x where x: "get_task_by_id s t = Some x" using assms by (auto simp: state_of_def)
  let ?s = "put_task s t (x\<lparr>tk_sched := st\<rparr>)"
  have g: "get_task_by_id ?s = (get_task_by_id s)(t \<mapsto> x\<lparr>tk_sched := st\<rparr>)"
    by (rule ext) (simp add: get_task_by_id_def put_task_def)
  show ?thesis
  proof (rule that [of ?s])
    show "set_state s t st = Ok ?s" by (simp add: set_state_def x)
    show "same_tables s ?s" unfolding same_tables_def g using x by (simp add: put_task_def)
    show "state_of ?s = (state_of s)(t \<mapsto> st)" by (rule ext) (simp add: state_of_def g)
  qed (simp_all add: put_task_def)
qed

lemma switch_next_Ok:
  assumes "shaped s" and "\<not> interrupt_is_enabled (sy_cpu s)" and "ready_queue s = t # q"
    and "state_of s t = Some st" and "ss_run_state st = Ready"
  obtains s' where "switch_next s = Ok (s', t)"
    and "stepped s s' (q, Some t, (state_of s)(t \<mapsto> \<lparr>ss_run_state = Running, ss_time_slice_units = UNIT_TIME_SLICE\<rparr>))"
    and "sy_cpu s' = sy_cpu s"
proof -
  let ?r = "\<lparr>ss_run_state = Running, ss_time_slice_units = UNIT_TIME_SLICE\<rparr>"
  define s1 where "s1 = s\<lparr>sy_queue := [q]\<rparr>"
  have sh: "sy_queue s = [t # q]" "sy_current s = [current s]" using assms(1,3) by (simp_all add: shaped_conv)
  have same: "get_task_by_id s1 = get_task_by_id s" "state_of s1 = state_of s"
    by (rule ext, simp add: s1_def get_task_by_id_def state_of_def)+
  have "state_of s1 t = Some st" using same(2) assms(4) by simp
  then obtain s2 where s2: "set_state s1 t (st\<lparr>ss_run_state := Running, ss_time_slice_units := UNIT_TIME_SLICE\<rparr>) = Ok s2"
      "same_tables s1 s2" "sy_queue s2 = sy_queue s1" "sy_current s2 = sy_current s1" "sy_cpu s2 = sy_cpu s1"
      "state_of s2 = (state_of s1)(t \<mapsto> st\<lparr>ss_run_state := Running, ss_time_slice_units := UNIT_TIME_SLICE\<rparr>)"
    by (rule set_state_Ok)
  have st: "st\<lparr>ss_run_state := Running, ss_time_slice_units := UNIT_TIME_SLICE\<rparr> = ?r" by (cases st) simp
  define s3 where "s3 = s2\<lparr>sy_current := [Some t]\<rparr>"
  have t3: "get_task_by_id s3 = get_task_by_id s2" "state_of s3 = state_of s2"
    by (rule ext, simp add: s3_def get_task_by_id_def state_of_def)+
  have "get_next_schedulable_task s = Ok (s1, t)"
    using assms(2) sh(1) by (simp add: get_next_schedulable_task_def current_core_def s1_def)
  moreover have "set_current_task_id s2 t = Ok s3"
    using s2(4) sh(2) by (simp add: set_current_task_id_def current_core_def s3_def s1_def)
  moreover have "state_of s3 t \<noteq> None" using s2(6) by (simp add: t3(2))
  then have "\<exists>x. get_task_by_id s3 t = Some x" by (auto simp: state_of_def)
  ultimately have "switch_next s = Ok (s3, t)"
    using s2(1) assms(4,5) same(2) by (auto simp: switch_next_def get_state_eq return_to_user_def)
  moreover have "same_tables s s3" using s2(2) unfolding same_tables_def t3(1) same(1) by (simp add: s1_def s3_def)
  moreover have "view s3 = (q, Some t, (state_of s)(t \<mapsto> ?r))" "shaped s3"
    using s2 by (simp_all add: view_def ready_queue_def current_def t3(2) same(2) st shaped_def) (simp_all add: s3_def s1_def)
  ultimately show ?thesis using that [of s3] s2(5) by (simp add: stepped_def s3_def s1_def)
qed

definition running :: sched_state where
  "running = \<lparr>ss_run_state = Running, ss_time_slice_units = UNIT_TIME_SLICE\<rparr>"

lemma disable_off [simp]: "\<not> interrupt_is_enabled c \<Longrightarrow> interrupt_disable c = c"
  by (cases c) (auto simp: irq_bit interrupt_disable_def intro!: bit_eqI simp: bit_simps)

lemma stepped_trans:
  assumes "same_tables a b" and "stepped b c v"
  shows "stepped a c v"
  using assms same_tables_trans by (auto simp: stepped_def)

lemma view_cpu [simp]: "view (s\<lparr>sy_cpu := c\<rparr>) = view s" "shaped (s\<lparr>sy_cpu := c\<rparr>) = shaped s" "same_tables s (s\<lparr>sy_cpu := c\<rparr>)"
  by (simp_all add: view_def ready_queue_def current_def state_of_def [abs_def] get_task_by_id_def shaped_def same_tables_def)

lemma current_Ok: "shaped s \<Longrightarrow> get_current_task_id s = Ok (current s)"
  by (simp add: get_current_task_id_def current_core_def current_def shaped_def)

lemma schedule_running:
  assumes "shaped s" and "current s = Some t" and "state_of s t = Some st" and "ss_run_state st = Running"
  shows "schedule s = Ok (s\<lparr>sy_cpu := interrupt_disable (sy_cpu s)\<rparr>, t)"
proof -
  let ?s = "s\<lparr>sy_cpu := interrupt_disable (sy_cpu s)\<rparr>"
  have v: "current ?s = Some t" "state_of ?s t = Some st" using assms(2,3) by (simp_all add: current_def state_of_def get_task_by_id_def)
  then have "\<exists>x. get_task_by_id ?s t = Some x" by (auto simp: state_of_def)
  then show ?thesis using v assms(1,4) by (auto simp: schedule_def current_Ok get_state_eq return_to_user_def)
qed

lemma schedule_switch:
  assumes "shaped s" and "view s = (t # q, c, S)" and "\<forall>t' st. c = Some t' \<longrightarrow> S t' = Some st \<longrightarrow> ss_run_state st \<noteq> Running"
    and "\<forall>t'. c = Some t' \<longrightarrow> S t' \<noteq> None" and "S t = Some st" and "ss_run_state st = Ready"
  obtains s' where "schedule s = Ok (s', t)" and "stepped s s' (q, Some t, S(t \<mapsto> running))"
    and "sy_cpu s' = interrupt_disable (sy_cpu s)"
proof -
  let ?s = "s\<lparr>sy_cpu := interrupt_disable (sy_cpu s)\<rparr>"
  have v: "ready_queue ?s = t # q" "current ?s = c" "state_of ?s = S" and sh: "shaped ?s"
    using assms(1,2) view_cpu(1) [of "interrupt_disable (sy_cpu s)" s] by (simp_all add: view_def)
  obtain s' where s': "switch_next ?s = Ok (s', t)" "stepped ?s s' (q, Some t, S(t \<mapsto> running))"
      "sy_cpu s' = interrupt_disable (sy_cpu s)"
    using switch_next_Ok [OF sh _ v(1), of st] assms(5,6) v(3) unfolding running_def by auto
  have "schedule s = switch_next ?s"
    using sh v assms(3,4) by (auto simp: schedule_def Let_def current_Ok get_state_eq split: option.split)
  then show ?thesis using s' stepped_trans [OF view_cpu(3) s'(2)] that by simp
qed

lemma push_queue_Ok:
  assumes "shaped s" and "view s = (q, c, S)"
  obtains s' where "push_queue s 0 t = Ok s'" and "stepped s s' (q @ [t], c, S)" and "sy_cpu s' = sy_cpu s"
proof
  show "push_queue s 0 t = Ok (s\<lparr>sy_queue := [q @ [t]]\<rparr>)"
    using assms by (simp add: push_queue_def shaped_conv view_def)
  show "stepped s (s\<lparr>sy_queue := [q @ [t]]\<rparr>) (q @ [t], c, S)"
    using assms by (auto simp: stepped_def shaped_def same_tables_def view_def ready_queue_def current_def
        state_of_def [abs_def] get_task_by_id_def)
qed simp

lemma set_view:
  assumes "shaped s" and "view s = (q, c, S)" and "S t = Some st0"
  obtains s' where "set_state s t st = Ok s'" and "stepped s s' (q, c, S(t \<mapsto> st))" and "sy_cpu s' = sy_cpu s"
proof -
  have "state_of s t = Some st0" using assms(2,3) by (simp add: view_def)
  then obtain s' where s': "set_state s t st = Ok s'" "same_tables s s'" "sy_queue s' = sy_queue s"
      "sy_current s' = sy_current s" "sy_cpu s' = sy_cpu s" "state_of s' = (state_of s)(t \<mapsto> st)"
    by (rule set_state_Ok)
  then show ?thesis using that assms
    by (simp add: stepped_def shaped_def view_def ready_queue_def current_def)
qed

section \<open>Effects on the view\<close>

lemma uninterruptibly_eq:
  assumes "body (s\<lparr>sy_cpu := snd (uninterruptible (sy_cpu s))\<rparr>) = Ok (s', x)"
    and "sy_cpu s' = snd (uninterruptible (sy_cpu s))"
  shows "uninterruptibly body s = Ok (s'\<lparr>sy_cpu := sy_cpu s\<rparr>, x)"
  using assms guard_restores(1) [of "sy_cpu s"] by (simp add: uninterruptibly_def split_def)

lemma stepped_cpu: "stepped s s' v \<Longrightarrow> stepped s (s'\<lparr>sy_cpu := c\<rparr>) v"
  using same_tables_trans [OF _ view_cpu(3)] by (auto simp: stepped_def)

lemma masked: "\<not> interrupt_is_enabled (snd (uninterruptible c))"
  by (simp add: uninterruptible_def Let_def)

text \<open>\<^verbatim>\<open>wake_up\<close> makes a sleeping task ready and appends it to the queue, and does nothing to any other.\<close>

lemma wake_up_Ok:
  assumes "shaped s" and "view s = (q, c, S)" and "S t = Some st"
  obtains s' where "wake_up s t = Ok (s', ())" and "sy_cpu s' = sy_cpu s"
    and "stepped s s' (if ss_run_state st = Sleeping then (q @ [t], c, S(t \<mapsto> st\<lparr>ss_run_state := Ready\<rparr>)) else (q, c, S))"
proof -
  let ?s = "s\<lparr>sy_cpu := snd (uninterruptible (sy_cpu s))\<rparr>"
  have sh: "shaped ?s" and v: "view ?s = (q, c, S)" using assms by simp_all
  have g: "get_state ?s t = Ok st" using v assms(3) by (simp add: get_state_eq view_def)
  show ?thesis
  proof (cases "ss_run_state st = Sleeping")
    case True
    obtain s1 where s1: "set_state ?s t (st\<lparr>ss_run_state := Ready\<rparr>) = Ok s1"
        "stepped ?s s1 (q, c, S(t \<mapsto> st\<lparr>ss_run_state := Ready\<rparr>))" "sy_cpu s1 = sy_cpu ?s"
      using set_view [OF sh v assms(3)] .
    obtain s2 where s2: "push_queue s1 0 t = Ok s2" "stepped s1 s2 (q @ [t], c, S(t \<mapsto> st\<lparr>ss_run_state := Ready\<rparr>))"
        "sy_cpu s2 = sy_cpu s1"
      using push_queue_Ok [of s1 q c "S(t \<mapsto> st\<lparr>ss_run_state := Ready\<rparr>)" t] s1(2) by (auto simp: stepped_def)
    have t: "stepped s s2 (q @ [t], c, S(t \<mapsto> st\<lparr>ss_run_state := Ready\<rparr>))"
      using s1(2) s2(2) same_tables_trans view_cpu(3) unfolding stepped_def by blast
    have "wake_up s t = Ok (s2\<lparr>sy_cpu := sy_cpu s\<rparr>, ())"
      unfolding wake_up_def using g True s1(1,3) s2(1,3) by (intro uninterruptibly_eq) simp_all
    then show ?thesis using that [of "s2\<lparr>sy_cpu := sy_cpu s\<rparr>"] stepped_cpu [OF t] True by simp
  next
    case False
    have "wake_up s t = Ok (s, ())"
      unfolding wake_up_def using g False by (subst uninterruptibly_eq [where s' = ?s and x = "()"]) simp_all
    then show ?thesis using that [of s] False assms(1,2) by (simp add: stepped_def)
  qed
qed

text \<open>\<^verbatim>\<open>sleep\<close> parks the running task and hands the core to the head of the queue.\<close>

lemma sleep_Ok:
  assumes "shaped s" and "view s = (n # q, Some t, S)" and "S t = Some running" and "n \<noteq> t"
    and "S n = Some st" and "ss_run_state st = Ready"
  obtains s' where "sleep s = Ok (s', n)" and "\<not> interrupt_is_enabled (sy_cpu s')"
    and "stepped s s' (q, Some n, S(t \<mapsto> running\<lparr>ss_run_state := Sleeping\<rparr>, n \<mapsto> running))"
proof -
  let ?s = "s\<lparr>sy_cpu := snd (uninterruptible (sy_cpu s))\<rparr>" and ?S = "S(t \<mapsto> running\<lparr>ss_run_state := Sleeping\<rparr>)"
  have sh: "shaped ?s" and v: "view ?s = (n # q, Some t, S)" using assms by simp_all
  obtain s1 where s1: "set_state ?s t (running\<lparr>ss_run_state := Sleeping\<rparr>) = Ok s1" "stepped ?s s1 (n # q, Some t, ?S)" "sy_cpu s1 = sy_cpu ?s"
    using set_view [OF sh v assms(3)] .
  have sh1: "shaped s1" and v1: "view s1 = (n # q, Some t, ?S)" using s1(2) by (simp_all add: stepped_def)
  obtain s2 where s2: "schedule s1 = Ok (s2, n)" "stepped s1 s2 (q, Some n, ?S(n \<mapsto> running))" "sy_cpu s2 = interrupt_disable (sy_cpu s1)"
    by (rule schedule_switch [OF sh1 v1, of st]) (use assms(4-6) in auto)
  have "get_state ?s t = Ok running" "current ?s = Some t" using v assms(3) by (simp_all add: get_state_eq view_def)
  then have "sleep s = Ok (s2, n)"
    using s1(1) s2(1) sh by (simp add: sleep_def Let_def current_Ok) (simp add: running_def)
  moreover have "stepped s s2 (q, Some n, ?S(n \<mapsto> running))"
    using s1(2) s2(2) same_tables_trans view_cpu(3) unfolding stepped_def by blast
  ultimately show ?thesis using that s2(3) by simp
qed

text \<open>A timer tick rotates: the running task goes to the end of the queue, the head runs.\<close>

lemma timer_tick_Ok:
  assumes "shaped s" and "view s = (q, Some t, S)" and "S t = Some running" and "\<not> interrupt_is_enabled (sy_cpu s)"
    and "t \<notin> set q" and "\<forall>n \<in> set q. \<exists>st. S n = Some st \<and> ss_run_state st = Ready"
  defines "ready \<equiv> running\<lparr>ss_run_state := Ready, ss_time_slice_units := 0\<rparr>"
  obtains s' where "timer_tick s = Ok (s', hd (q @ [t]))" and "sy_cpu s' = sy_cpu s"
    and "stepped s s' (tl (q @ [t]), Some (hd (q @ [t])), S(t \<mapsto> ready, hd (q @ [t]) \<mapsto> running))"
proof -
  let ?u = "running\<lparr>ss_time_slice_units := 0\<rparr>"
  obtain s1 where s1: "set_state s t ?u = Ok s1" "stepped s s1 (q, Some t, S(t \<mapsto> ?u))" "sy_cpu s1 = sy_cpu s"
    using set_view [OF assms(1-3)] .
  then have sh1: "shaped s1" and v1: "view s1 = (q, Some t, S(t \<mapsto> ?u))" by (simp_all add: stepped_def)
  have "(S(t \<mapsto> ?u)) t = Some ?u" by simp
  then obtain s2 where s2: "set_state s1 t (?u\<lparr>ss_run_state := Ready\<rparr>) = Ok s2"
      "stepped s1 s2 (q, Some t, S(t \<mapsto> ?u, t \<mapsto> ?u\<lparr>ss_run_state := Ready\<rparr>))" "sy_cpu s2 = sy_cpu s1"
    using set_view [OF sh1 v1] by blast
  have r: "?u\<lparr>ss_run_state := Ready\<rparr> = ready" by (simp add: ready_def)
  have sh2: "shaped s2" and v2: "view s2 = (q, Some t, S(t \<mapsto> ready))" using s2(2) r by (simp_all add: stepped_def)
  obtain s3 where s3: "push_queue s2 0 t = Ok s3" "stepped s2 s3 (q @ [t], Some t, S(t \<mapsto> ready))" "sy_cpu s3 = sy_cpu s2"
    using push_queue_Ok [OF sh2 v2] .
  then have sh3: "shaped s3" and v3: "view s3 = (q @ [t], Some t, S(t \<mapsto> ready))" by (simp_all add: stepped_def)
  obtain h q' where h: "q @ [t] = h # q'" by (cases "q @ [t]") auto
  have "\<exists>st. (S(t \<mapsto> ready)) h = Some st \<and> ss_run_state st = Ready"
    using h assms(6) by (cases q) (auto simp: ready_def)
  then obtain st where st: "(S(t \<mapsto> ready)) h = Some st" "ss_run_state st = Ready" by blast
  obtain s4 where s4: "schedule s3 = Ok (s4, h)" "stepped s3 s4 (q', Some h, S(t \<mapsto> ready, h \<mapsto> running))" "sy_cpu s4 = interrupt_disable (sy_cpu s3)"
    by (rule schedule_switch [OF sh3 v3 [unfolded h], of st]) (use st in \<open>auto simp: ready_def\<close>)
  have g: "get_state s t = Ok running" "current s = Some t" "get_state s1 t = Ok ?u" "current s1 = Some t"
    using assms(2,3) v1 by (simp_all add: get_state_eq view_def)
  have "enqueue_current_task_as_ready s1 = Ok s3"
    using s2(1) s3(1) assms(4) s1(3) sh1 g by (simp add: enqueue_current_task_as_ready_def current_Ok) (simp add: running_def)
  then have "timer_tick s = Ok (s4, h)"
    using s1(1) s4(1) assms(1,4) g by (simp add: timer_tick_def current_Ok) (simp add: running_def UNIT_TIME_SLICE_def)
  moreover have "stepped s s4 (q', Some h, S(t \<mapsto> ready, h \<mapsto> running))"
    using s1(2) s2(2) s3(2) s4(2) same_tables_trans unfolding stepped_def by blast
  moreover have "sy_cpu s4 = sy_cpu s" using s1(3) s2(3) s3(3) s4(3) assms(4) by simp
  ultimately show ?thesis using that h by simp
qed

section \<open>Invariant\<close>

text \<open>Between two handlers: the queue holds every ready task once, the current task is running and no
  other task is.\<close>

fun inv_view :: "task_id list \<times> task_id option \<times> (task_id \<rightharpoonup> sched_state) \<Rightarrow> bool" where
  "inv_view (q, c, S) \<longleftrightarrow> distinct q
     \<and> (\<forall>t. t \<in> set q \<longleftrightarrow> (\<exists>st. S t = Some st \<and> ss_run_state st = Ready))
     \<and> (\<forall>t. (\<exists>st. S t = Some st \<and> ss_run_state st = Running) \<longleftrightarrow> c = Some t)
     \<and> (\<forall>t. c = Some t \<longrightarrow> S t = Some running)"

definition sched_inv :: "('f, 'm) sys \<Rightarrow> bool" where
  "sched_inv s \<longleftrightarrow> shaped s \<and> inv_view (view s) \<and> \<not> interrupt_is_enabled (sy_cpu s)"

lemma inv_view_current:
  assumes "inv_view (q, Some t, S)"
  shows "S t = Some running" and "t \<notin> set q" and "\<forall>n \<in> set q. \<exists>st. S n = Some st \<and> ss_run_state st = Ready"
proof -
  show t: "S t = Some running" and q: "\<forall>n \<in> set q. \<exists>st. S n = Some st \<and> ss_run_state st = Ready" using assms by auto
  show "t \<notin> set q"
  proof
    assume "t \<in> set q"
    then obtain st where "S t = Some st" "ss_run_state st = Ready" using q by blast
    with t show False by (simp add: running_def)
  qed
qed

lemma tick_inv:
  assumes "sched_inv s" and "current s = Some t"
  obtains s' where "timer_tick s = Ok (s', hd (ready_queue s @ [t]))" and "sched_inv s'" and "same_tables s s'"
    and "current s' = Some (hd (ready_queue s @ [t]))" and "ready_queue s' = tl (ready_queue s @ [t])"
proof -
  obtain S where v: "view s = (ready_queue s, Some t, S)" using assms(2) by (simp add: view_def)
  let ?q = "ready_queue s" and ?h = "hd (ready_queue s @ [t])"
  let ?r = "running\<lparr>ss_run_state := Ready, ss_time_slice_units := 0\<rparr>"
  have inv: "shaped s" "inv_view (?q, Some t, S)" "\<not> interrupt_is_enabled (sy_cpu s)" using assms(1) v by (simp_all add: sched_inv_def)
  note St = inv_view_current(1) [OF inv(2)] and nq = inv_view_current(2) [OF inv(2)] and rq = inv_view_current(3) [OF inv(2)]
  obtain s' where s': "timer_tick s = Ok (s', ?h)" "sy_cpu s' = sy_cpu s"
      "stepped s s' (tl (?q @ [t]), Some ?h, S(t \<mapsto> ?r, ?h \<mapsto> running))"
    using timer_tick_Ok [OF inv(1) v St inv(3) nq rq] .
  have "inv_view (tl (?q @ [t]), Some ?h, S(t \<mapsto> ?r, ?h \<mapsto> running))"
  proof (cases ?q)
    case Nil
    then show ?thesis using inv(2) by (auto simp: running_def)
  next
    case (Cons n ns)
    have "t \<noteq> n" "t \<notin> set ns" using nq Cons by auto
    then show ?thesis using inv(2) [unfolded Cons] unfolding Cons by (auto simp: running_def)
  qed
  then have "sched_inv s'" using s' inv(3) by (simp add: sched_inv_def stepped_def)
  moreover have "current s' = Some ?h" "ready_queue s' = tl (?q @ [t])" using s'(3) by (simp_all add: stepped_def view_def)
  ultimately show ?thesis using that s' by (auto simp: stepped_def)
qed

lemma sleep_inv:
  assumes "sched_inv s" and "current s = Some t" and "ready_queue s = n # q"
  obtains s' where "sleep s = Ok (s', n)" and "sched_inv s'" and "same_tables s s'" and "current s' = Some n"
    and "ready_queue s' = q" and "state_of s' = (state_of s)(t \<mapsto> running\<lparr>ss_run_state := Sleeping\<rparr>, n \<mapsto> running)"
proof -
  obtain S where v: "view s = (n # q, Some t, S)" and S: "S = state_of s" using assms(2,3) by (simp add: view_def)
  have inv: "shaped s" "inv_view (n # q, Some t, S)" "\<not> interrupt_is_enabled (sy_cpu s)" using assms(1) v by (simp_all add: sched_inv_def)
  have st: "S t = Some running" "n \<noteq> t" "\<exists>st. S n = Some st \<and> ss_run_state st = Ready"
    using inv_view_current [OF inv(2)] by auto
  then obtain s' where s': "sleep s = Ok (s', n)" "\<not> interrupt_is_enabled (sy_cpu s')"
      "stepped s s' (q, Some n, S(t \<mapsto> running\<lparr>ss_run_state := Sleeping\<rparr>, n \<mapsto> running))"
    using sleep_Ok [OF inv(1) v] by metis
  have "inv_view (q, Some n, S(t \<mapsto> running\<lparr>ss_run_state := Sleeping\<rparr>, n \<mapsto> running))"
    using inv(2) \<open>n \<noteq> t\<close> by (auto simp: running_def)
  then show ?thesis using that s' S by (auto simp: sched_inv_def stepped_def view_def)
qed

lemma wake_inv:
  assumes "sched_inv s" and "state_of s t = Some st"
  obtains s' where "wake_up s t = Ok (s', ())" and "sched_inv s'" and "same_tables s s'" and "current s' = current s"
    and "ready_queue s' = (if ss_run_state st = Sleeping then ready_queue s @ [t] else ready_queue s)"
    and "state_of s' = (if ss_run_state st = Sleeping then (state_of s)(t \<mapsto> st\<lparr>ss_run_state := Ready\<rparr>) else state_of s)"
proof -
  have v: "view s = (ready_queue s, current s, state_of s)" by (simp add: view_def)
  have inv: "shaped s" "inv_view (ready_queue s, current s, state_of s)" "\<not> interrupt_is_enabled (sy_cpu s)"
    using assms(1) v by (simp_all add: sched_inv_def)
  obtain s' where s': "wake_up s t = Ok (s', ())" "sy_cpu s' = sy_cpu s"
      "stepped s s' (if ss_run_state st = Sleeping then (ready_queue s @ [t], current s, (state_of s)(t \<mapsto> st\<lparr>ss_run_state := Ready\<rparr>))
        else (ready_queue s, current s, state_of s))"
    using wake_up_Ok [OF inv(1) v assms(2)] .
  have "sched_inv s'"
  proof (cases "ss_run_state st = Sleeping")
    case True
    then have "inv_view (ready_queue s @ [t], current s, (state_of s)(t \<mapsto> st\<lparr>ss_run_state := Ready\<rparr>))"
      using inv(2) assms(2) by (auto simp: running_def)
    then show ?thesis using True s' inv(3) by (simp add: sched_inv_def stepped_def)
  qed (use s' inv in \<open>simp add: sched_inv_def stepped_def\<close>)
  then show ?thesis using that s' by (auto simp: stepped_def view_def split: if_splits)
qed

section \<open>Properties\<close>

fun ticks :: "nat \<Rightarrow> ('f, 'm) sys \<Rightarrow> (('f, 'm) sys \<times> task_id list) res" where
  "ticks 0 s = Ok (s, [])"
| "ticks (Suc n) s = rbind (timer_tick s) (\<lambda>(s1, t). rbind (ticks n s1) (\<lambda>(s2, ts). Ok (s2, t # ts)))"

lemma ticks_rotate:
  assumes "sched_inv s" and "current s = Some t"
  shows "\<exists>s'. ticks n s = Ok (s', map (\<lambda>i. (ready_queue s @ [t]) ! (i mod Suc (length (ready_queue s)))) [0..<n]) \<and> sched_inv s'"
  using assms
proof (induction n arbitrary: s t)
  case (Suc n)
  let ?r = "ready_queue s @ [t]" and ?L = "Suc (length (ready_queue s))"
  obtain s1 where s1: "timer_tick s = Ok (s1, hd ?r)" "sched_inv s1" "current s1 = Some (hd ?r)" "ready_queue s1 = tl ?r"
    using tick_inv [OF Suc.prems] by metis
  have rot: "tl ?r @ [hd ?r] = rotate1 ?r" by (cases ?r) simp_all
  have len: "length (tl ?r) = length (ready_queue s)" by simp
  obtain s' where s': "ticks n s1 = Ok (s', map (\<lambda>i. (tl ?r @ [hd ?r]) ! (i mod Suc (length (tl ?r)))) [0..<n])" "sched_inv s'"
    using Suc.IH [OF s1(2,3)] unfolding s1(4) by blast
  have "(rotate1 ?r) ! (i mod ?L) = ?r ! (Suc i mod ?L)" for i
  proof -
    have "i mod ?L < length ?r" by simp
    then have "(rotate1 ?r) ! (i mod ?L) = ?r ! (Suc (i mod ?L) mod length ?r)" by (rule nth_rotate1)
    then show ?thesis by (simp add: mod_Suc_eq)
  qed
  then have "map (\<lambda>i. (tl ?r @ [hd ?r]) ! (i mod Suc (length (tl ?r)))) [0..<n] = map (\<lambda>i. ?r ! (Suc i mod ?L)) [0..<n]"
    unfolding rot len by simp
  then have "hd ?r # map (\<lambda>i. (tl ?r @ [hd ?r]) ! (i mod Suc (length (tl ?r)))) [0..<n] = map (\<lambda>i. ?r ! (i mod ?L)) [0..<Suc n]"
    by (simp add: map_upt_Suc hd_conv_nth del: upt_Suc)
  then show ?case using s1(1) s' by simp
qed simp

text \<open>C23: round robin is fair. From any state of the invariant with \<open>k\<close> ready tasks behind the running one,
  every sequence of timer ticks returns, and tick number \<open>i\<close> switches to the task at place \<open>i\<close> modulo \<open>k + 1\<close>
  of the queue followed by the running task: each task runs exactly once in every round, in the order of
  the queue, and no ready task waits longer than a round.\<close>

theorem round_robin_fair:
  assumes "sched_inv s" and "current s = Some t"
  shows "\<exists>s' ts. ticks n s = Ok (s', ts) \<and> sched_inv s' \<and> length ts = n
    \<and> (\<forall>i < n. ts ! i = (ready_queue s @ [t]) ! (i mod (length (ready_queue s) + 1)))"
  using ticks_rotate [OF assms, of n] by auto

definition demo_task :: "run_state \<Rightarrow> task_id \<Rightarrow> task_id \<times> task" where
  "demo_task r t = (t, \<lparr>tk_id = t, tk_proc = 1, tk_sched = \<lparr>ss_run_state = r, ss_time_slice_units = (if r = Running then 1 else 0)\<rparr>\<rparr>)"

definition demo_sys :: "(unit, unit) sys" where
  "demo_sys = \<lparr>sy_cpu = \<lparr>cpu_daif = 128, cpu_ttbr0 = 0\<rparr>, sy_current = [Some 0], sy_queue = [[2, 1]],
     sy_tasks = [demo_task Running 0, demo_task Ready 1, demo_task Ready 2, demo_task Sleeping 3],
     sy_procs = [(1, \<lparr>pr_id = 1, pr_threads = [0, 1, 2, 3], pr_fs = (), pr_mm = (), pr_locks = [], pr_cvars = []\<rparr>)],
     sy_task_count = 4, sy_proc_count = 2, sy_mutexes = [], sy_cvars = [],
     sy_task_live = [], sy_proc_live = []\<rparr>"

lemma demo_state: "state_of demo_sys t = (if t = 0 then Some running else if t \<in> {1, 2} then Some new_state
    else if t = 3 then Some \<lparr>ss_run_state = Sleeping, ss_time_slice_units = 0\<rparr> else None)"
  by (simp add: state_of_def get_task_by_id_def demo_sys_def demo_task_def bt_get_def running_def new_state_def UNIT_TIME_SLICE_def)

lemma demo_inv: "sched_inv demo_sys" "current demo_sys = Some 0" "ready_queue demo_sys = [2, 1]"
proof -
  show c: "current demo_sys = Some 0" and q: "ready_queue demo_sys = [2, 1]"
    by (simp_all add: current_def ready_queue_def demo_sys_def)
  have "inv_view (view demo_sys)" unfolding view_def c q
    by (auto simp: demo_state running_def new_state_def split: if_splits)
  then show "sched_inv demo_sys"
    by (simp add: sched_inv_def shaped_def) (simp add: demo_sys_def interrupt_is_enabled_def DAIF_I_def)
qed

theorem round_robin_fair_witness:
  "\<exists>s' ts. ticks 5 demo_sys = Ok (s', ts) \<and> ts ! 0 = 2 \<and> ts ! 1 = 1 \<and> ts ! 2 = 0 \<and> ts ! 4 = 1"
proof -
  obtain s' ts where "ticks 5 demo_sys = Ok (s', ts)" "\<forall>i < 5. ts ! i = (ready_queue demo_sys @ [0]) ! (i mod (length (ready_queue demo_sys) + 1))"
    using round_robin_fair [OF demo_inv(1,2), of 5] by blast
  then show ?thesis by (intro exI [of _ s'] exI [of _ ts]) (simp add: demo_inv(3))
qed

text \<open>Steps the scheduler takes on behalf of tasks and of the timer. The idle task only waits for
  interrupts, so it never calls \<^verbatim>\<open>sleep\<close>.\<close>

inductive sched_reach :: "task_id \<Rightarrow> ('f, 'm) sys \<Rightarrow> ('f, 'm) sys \<Rightarrow> bool" for idle s where
  start: "sched_reach idle s s"
| tick: "sched_reach idle s s1 \<Longrightarrow> timer_tick s1 = Ok (s2, t) \<Longrightarrow> sched_reach idle s s2"
| sleep: "sched_reach idle s s1 \<Longrightarrow> current s1 \<noteq> Some idle \<Longrightarrow> sleep s1 = Ok (s2, t) \<Longrightarrow> sched_reach idle s s2"
| wake: "sched_reach idle s s1 \<Longrightarrow> wake_up s1 t = Ok (s2, ()) \<Longrightarrow> sched_reach idle s s2"

definition awake :: "('f, 'm) sys \<Rightarrow> task_id \<Rightarrow> bool" where
  "awake s t \<longleftrightarrow> current s = Some t \<or> t \<in> set (ready_queue s)"

lemma sleeper_has_successor:
  assumes "awake s idle" and "current s \<noteq> Some idle"
  obtains n q where "ready_queue s = n # q"
  using assms by (cases "ready_queue s") (auto simp: awake_def)

lemma sched_reach_inv:
  assumes "sched_reach idle s s'" and "sched_inv s" and "current s \<noteq> None" and "awake s idle"
  shows "sched_inv s' \<and> current s' \<noteq> None \<and> awake s' idle \<and> same_tables s s'"
  using assms
proof (induction rule: sched_reach.induct)
  case (tick s1 s2 t)
  then have I: "sched_inv s1" "awake s1 idle" "same_tables s s1" and "current s1 \<noteq> None" by auto
  then obtain c where c: "current s1 = Some c" by blast
  obtain s2' where s2': "timer_tick s1 = Ok (s2', hd (ready_queue s1 @ [c]))" "sched_inv s2'" "same_tables s1 s2'"
      "current s2' = Some (hd (ready_queue s1 @ [c]))" "ready_queue s2' = tl (ready_queue s1 @ [c])"
    using tick_inv [OF I(1) c] .
  moreover have "awake s2' idle" using I(2) c s2'(4,5) by (cases "ready_queue s1") (auto simp: awake_def)
  ultimately show ?case using tick I(3) same_tables_trans by auto
next
  case (sleep s1 s2 t)
  then have I: "sched_inv s1" "awake s1 idle" "same_tables s s1" "current s1 \<noteq> None" by auto
  then obtain c where c: "current s1 = Some c" by blast
  obtain n q where q: "ready_queue s1 = n # q" using sleeper_has_successor [OF I(2) sleep.hyps(2)] .
  obtain s2' where s2': "Scheduler.sleep s1 = Ok (s2', n)" "sched_inv s2'" "same_tables s1 s2'" "current s2' = Some n" "ready_queue s2' = q"
    using sleep_inv [OF I(1) c q] by metis
  moreover have "awake s2' idle" using I(2) c q s2'(4,5) sleep.hyps(2) by (auto simp: awake_def)
  ultimately show ?case using sleep I(3) same_tables_trans by auto
next
  case (wake s1 t s2)
  then have I: "sched_inv s1" "awake s1 idle" "same_tables s s1" "current s1 \<noteq> None" by auto
  obtain st where "state_of s1 t = Some st"
    using wake.hyps(2) by (cases "state_of s1 t") (auto simp: wake_up_def uninterruptibly_def split_def rbind_Ok_iff get_state_eq
        state_of_def get_task_by_id_def)
  then obtain s2' where "wake_up s1 t = Ok (s2', ())" "sched_inv s2'" "same_tables s1 s2'" "current s2' = current s1"
      "ready_queue s2' = (if ss_run_state st = Sleeping then ready_queue s1 @ [t] else ready_queue s1)"
    using wake_inv [OF I(1)] by metis
  then show ?case using wake I same_tables_trans by (auto simp: awake_def)
qed auto

text \<open>C24: with an idle task the scheduler never fails. As long as the idle task does not sleep, in every state
  reached by timer ticks, sleeping and waking tasks the invariant holds and every next call returns: a
  tick, a call of \<^verbatim>\<open>sleep\<close> by any other task, and waking any existing task. In particular the queue is
  never found empty, and no assertion on a task's run state fails.\<close>

theorem scheduler_never_stuck:
  assumes "sched_inv s" and "current s \<noteq> None" and "awake s idle" and "sched_reach idle s s'"
  shows "sched_inv s' \<and> (\<exists>s2 t. timer_tick s' = Ok (s2, t))
    \<and> (current s' \<noteq> Some idle \<longrightarrow> (\<exists>s2 t. sleep s' = Ok (s2, t)))
    \<and> (\<forall>t. get_task_by_id s t \<noteq> None \<longrightarrow> (\<exists>s2. wake_up s' t = Ok (s2, ())))"
proof -
  have I: "sched_inv s'" "awake s' idle" "same_tables s s'" "current s' \<noteq> None"
    using sched_reach_inv [OF assms(4,1-3)] by auto
  then obtain c where c: "current s' = Some c" by blast
  have "\<exists>s2 t. sleep s' = Ok (s2, t)" if "current s' \<noteq> Some idle"
    using sleeper_has_successor [OF I(2) that] sleep_inv [OF I(1) c] by metis
  moreover have "\<exists>s2. wake_up s' t = Ok (s2, ())" if ex: "get_task_by_id s t \<noteq> None" for t
  proof -
    have "get_task_by_id s' t \<noteq> None" using ex same_tables_tasks(1) [OF I(3)] by simp
    then obtain x where "get_task_by_id s' t = Some x" by blast
    then have "state_of s' t = Some (tk_sched x)" by (simp add: state_of_def)
    then show ?thesis using wake_inv [OF I(1)] by metis
  qed
  ultimately show ?thesis using I(1) tick_inv [OF I(1) c] by metis
qed

theorem scheduler_never_stuck_witness:
  "\<exists>s1. sleep demo_sys = Ok (s1, 2) \<and> sched_inv s1 \<and> (\<exists>s2 t. timer_tick s1 = Ok (s2, t))
    \<and> (\<exists>s2. wake_up s1 3 = Ok (s2, ()))"
proof -
  obtain s1 where s1: "sleep demo_sys = Ok (s1, 2)" using sleep_inv [OF demo_inv] by metis
  have a: "awake demo_sys 1" "current demo_sys \<noteq> None" "current demo_sys \<noteq> Some 1" by (simp_all add: awake_def demo_inv(2,3))
  have "sched_reach 1 demo_sys s1" by (rule sched_reach.sleep [OF sched_reach.start a(3) s1])
  from scheduler_never_stuck [OF demo_inv(1) a(2,1) this]
  have "sched_inv s1" "\<exists>s2 t. timer_tick s1 = Ok (s2, t)" "get_task_by_id demo_sys 3 \<noteq> None \<longrightarrow> (\<exists>s2. wake_up s1 3 = Ok (s2, ()))"
    by blast+
  moreover have "get_task_by_id demo_sys 3 \<noteq> None" by (simp add: get_task_by_id_def bt_get_def demo_sys_def demo_task_def)
  ultimately show ?thesis using s1 by blast
qed

end
