(* ===== verification/Gic.thy ===== *)
theory Gic
  imports Exceptions Interrupts Scheduler
begin

unbundle bit_operations_syntax

text \<open>
  \<^verbatim>\<open>modules/gic\<close> and \<^verbatim>\<open>modules/gic-timer\<close>: the interrupt controller, with the registers of the distributor
  and of the CPU interface as the source lays them out, the stack of acknowledged interrupts, the table
  of handlers, and the timer. A register holds the value last written to it; what the controller puts
  in \<^verbatim>\<open>IAR\<close> is an argument of \<^verbatim>\<open>interrupt_begin\<close>.
\<close>

section \<open>Registers\<close>

definition IRQ_LINES :: usize where
  "IRQ_LINES = 256"

text \<open>\<^verbatim>\<open>VolatileArrayForRange\<close> and \<^verbatim>\<open>PaddingForRange\<close>.\<close>

definition array_for_range :: "nat \<Rightarrow> nat \<Rightarrow> nat" where
  "array_for_range start end = (end - start) div 4"

definition padding_for_range :: "nat \<Rightarrow> nat \<Rightarrow> nat" where
  "padding_for_range start end = end - start"

definition gicd_fields :: "(string \<times> nat) list" where
  "gicd_fields =
     [(''CTLR'', 4), (''_0'', padding_for_range 0x0004 0x0080),
      (''IGROUPR'', 4 * array_for_range 0x0080 0x00FC), (''_1'', padding_for_range 0x00FC 0x0100),
      (''ISENABLER'', 4 * array_for_range 0x0100 0x017C), (''_2'', padding_for_range 0x017C 0x0180),
      (''ICENABLER'', 4 * array_for_range 0x0180 0x01FC), (''_3'', padding_for_range 0x01FC 0x0200),
      (''ISPENDR'', 4 * array_for_range 0x0200 0x027C), (''_4'', padding_for_range 0x027C 0x0280),
      (''ICPENDR'', 4 * array_for_range 0x0280 0x02FC), (''_5'', padding_for_range 0x02FC 0x0300),
      (''ISACTIVER'', 4 * array_for_range 0x0300 0x037C), (''_6'', padding_for_range 0x037C 0x0380),
      (''ICACTIVER'', 4 * array_for_range 0x0380 0x03FC), (''_7'', padding_for_range 0x03FC 0x0400),
      (''IPRIORITYR'', 4 * array_for_range 0x0400 0x07E0), (''_8'', padding_for_range 0x07E0 0x0800),
      (''ITARGETSR'', 4 * array_for_range 0x0800 0x0BE0), (''_9'', padding_for_range 0x0BE0 0x0C00),
      (''ICFGR'', 4 * array_for_range 0x0C00 0x0CF8), (''_10'', padding_for_range 0x0CF8 0x0F00),
      (''SGIR'', 4)]"

definition gicc_fields :: "(string \<times> nat) list" where
  "gicc_fields = [(''CTLR'', 4), (''PMR'', 4), (''_0'', padding_for_range 0x0008 0x00C), (''IAR'', 4), (''EOIR'', 4)]"

record gicd =
  gd_ctlr :: "32 word"
  gd_isenabler :: "32 word list"
  gd_icenabler :: "32 word list"
  gd_icpendr :: "32 word list"
  gd_icactiver :: "32 word list"
  gd_ipriorityr :: "32 word list"
  gd_itargetsr :: "32 word list"
  gd_icfgr :: "32 word list"

record gicc =
  gc_ctlr :: "32 word"
  gc_pmr :: "32 word"
  gc_eoir :: "32 word"

definition GICD_CTLR_DISABLE :: "32 word" where "GICD_CTLR_DISABLE = push_bit 0 0"
definition GICD_CTLR_ENABLE :: "32 word" where "GICD_CTLR_ENABLE = push_bit 0 1"
definition IPRIORITYRAULT :: "32 word" where "IPRIORITYRAULT = 0xA0"
definition GICC_CTLR_ENABLE :: "32 word" where "GICC_CTLR_ENABLE = push_bit 0 1"
definition PMR_PRIORITY :: "32 word" where "PMR_PRIORITY = push_bit 0 0xF0"
definition IAR_INTERRUPT_ID_MASK :: "32 word" where "IAR_INTERRUPT_ID_MASK = 0x3FF"

text \<open>The handlers are closures of other modules; \<open>'h\<close> stands for them.\<close>

record 'h gic =
  gi_gicd :: gicd
  gi_gicc :: gicc
  gi_iar :: "32 word list list"
  gi_handlers :: "'h option list"

section \<open>Operations\<close>

definition set_core :: "'h gic \<Rightarrow> usize \<Rightarrow> nat \<Rightarrow> 'h gic res" where
  "set_core g irq core =
     (let index = irq div 4; shift = (irq mod 4) * 8; d = gi_gicd g in
      rbind (idx (gd_itargetsr d) index) (\<lambda>value.
      let value1 = value AND NOT (push_bit shift 0xff);
          value2 = value1 OR push_bit shift (push_bit core 1) in
      rbind (upd (gd_itargetsr d) index value2) (\<lambda>t.
      Ok (g\<lparr>gi_gicd := d\<lparr>gd_itargetsr := t\<rparr>\<rparr>))))"

fun clear_lines :: "nat \<Rightarrow> gicd \<Rightarrow> gicd res" where
  "clear_lines 0 d = Ok d"
| "clear_lines (Suc n) d =
     rbind (clear_lines n d) (\<lambda>d1.
     rbind (upd (gd_icenabler d1) n (NOT 0)) (\<lambda>e.
     rbind (upd (gd_icpendr d1) n (NOT 0)) (\<lambda>p.
     rbind (upd (gd_icactiver d1) n (NOT 0)) (\<lambda>a.
     Ok (d1\<lparr>gd_icenabler := e, gd_icpendr := p, gd_icactiver := a\<rparr>)))))"

fun set_registers :: "nat \<Rightarrow> 32 word \<Rightarrow> 32 word list \<Rightarrow> 32 word list res" where
  "set_registers 0 v rs = Ok rs"
| "set_registers (Suc n) v rs = rbind (set_registers n v rs) (\<lambda>rs1. upd rs1 n v)"

definition default_priority :: "32 word" where
  "default_priority = IPRIORITYRAULT OR push_bit 8 IPRIORITYRAULT OR push_bit 16 IPRIORITYRAULT OR push_bit 24 IPRIORITYRAULT"

definition init_gic :: "bool \<Rightarrow> 'h gic \<Rightarrow> 'h gic res" where
  "init_gic bsp g =
     (let d0 = (gi_gicd g)\<lparr>gd_ctlr := GICD_CTLR_DISABLE\<rparr> in
      rbind (if bsp then clear_lines (IRQ_LINES div 32) d0 else Ok d0) (\<lambda>d1.
      rbind (set_registers (IRQ_LINES div 4) default_priority (gd_ipriorityr d1)) (\<lambda>p.
      rbind (set_registers (IRQ_LINES div 16) 0 (gd_icfgr d1)) (\<lambda>c.
      Ok (g\<lparr>gi_gicd := d1\<lparr>gd_ipriorityr := p, gd_icfgr := c, gd_ctlr := GICD_CTLR_ENABLE\<rparr>,
        gi_gicc := (gi_gicc g)\<lparr>gc_pmr := PMR_PRIORITY, gc_ctlr := GICC_CTLR_ENABLE\<rparr>\<rparr>)))))"

text \<open>\<^verbatim>\<open>GIC::init\<close> on the mapped register pages \<open>d\<close> and \<open>c\<close>.\<close>

definition gic_init :: "gicd \<Rightarrow> gicc \<Rightarrow> 'h gic res" where
  "gic_init d c = init_gic True \<lparr>gi_gicd = d, gi_gicc = c, gi_iar = replicate num_cores [], gi_handlers = replicate IRQ_LINES None\<rparr>"

definition get_active_irq :: "'h gic \<Rightarrow> usize option res" where
  "get_active_irq g =
     rbind (idx (gi_iar g) current_core) (\<lambda>iars.
     Ok (if iars = [] then None else Some (unat (last iars AND IAR_INTERRUPT_ID_MASK))))"

definition enable_irq :: "usize \<Rightarrow> 'h gic \<Rightarrow> 'h gic res" where
  "enable_irq irq g =
     rbind (set_core g (irq mod 2 ^ 32) current_core) (\<lambda>g1.
     rbind (upd (gd_isenabler (gi_gicd g1)) (irq div 32) (push_bit (irq AND (32 - 1)) 1)) (\<lambda>e.
     Ok (g1\<lparr>gi_gicd := (gi_gicd g1)\<lparr>gd_isenabler := e\<rparr>\<rparr>)))"

definition interrupt_begin :: "32 word \<Rightarrow> 'h gic \<Rightarrow> 'h gic res" where
  "interrupt_begin iar g =
     rbind (idx (gi_iar g) current_core) (\<lambda>iars.
     Ok (g\<lparr>gi_iar := (gi_iar g)[current_core := iars @ [iar]]\<rparr>))"

definition interrupt_end :: "'h gic \<Rightarrow> 'h gic res" where
  "interrupt_end g =
     rbind (idx (gi_iar g) current_core) (\<lambda>iars.
     rbind (unwrap (if iars = [] then None else Some (last iars))) (\<lambda>iar.
     Ok (g\<lparr>gi_iar := (gi_iar g)[current_core := butlast iars], gi_gicc := (gi_gicc g)\<lparr>gc_eoir := iar\<rparr>\<rparr>)))"

definition get_irq_handler :: "'h gic \<Rightarrow> usize \<Rightarrow> 'h option res" where
  "get_irq_handler g irq = idx (gi_handlers g) irq"

definition set_irq_handler :: "usize \<Rightarrow> 'h \<Rightarrow> 'h gic \<Rightarrow> 'h gic res" where
  "set_irq_handler irq h g = rbind (upd (gi_handlers g) irq (Some h)) (\<lambda>hs. Ok (g\<lparr>gi_handlers := hs\<rparr>))"

section \<open>The timer\<close>

definition TIMER_INTERRUPT_FREQUENCY :: nat where
  "TIMER_INTERRUPT_FREQUENCY = 60"

record timer =
  tm_frequency :: nat
  tm_tval :: nat
  tm_ctl :: nat

definition timer_step :: "timer \<Rightarrow> timer" where
  "timer_step t = t\<lparr>tm_tval := tm_frequency t div TIMER_INTERRUPT_FREQUENCY\<rparr>"

definition start_timer :: "usize \<Rightarrow> timer \<Rightarrow> 'h gic \<Rightarrow> (timer \<times> 'h gic) res" where
  "start_timer irq t g =
     rbind (enable_irq irq g) (\<lambda>g1.
     Ok (t\<lparr>tm_tval := tm_frequency t div TIMER_INTERRUPT_FREQUENCY, tm_ctl := 1\<rparr>, g1))"

definition timer_init :: "'h \<Rightarrow> usize \<Rightarrow> timer \<Rightarrow> 'h gic \<Rightarrow> (timer \<times> 'h gic) res" where
  "timer_init handler irq t g = rbind (set_irq_handler irq handler g) (start_timer irq t)"

section \<open>Lemmas\<close>

text \<open>The registers are where the architecture puts them.\<close>

lemma gicd_layout:
  "map (offset_in gicd_fields) [''CTLR'', ''IGROUPR'', ''ISENABLER'', ''ICENABLER'', ''ISPENDR'', ''ICPENDR'', ''ISACTIVER'', ''ICACTIVER'',
     ''IPRIORITYR'', ''ITARGETSR'', ''ICFGR'', ''SGIR'']
   = [0, 0x80, 0x100, 0x180, 0x200, 0x280, 0x300, 0x380, 0x400, 0x800, 0xC00, 0xF00]"
  "map (offset_in gicc_fields) [''CTLR'', ''PMR'', ''IAR'', ''EOIR''] = [0, 4, 0xC, 0x10]"
  by (simp_all add: gicd_fields_def gicc_fields_def padding_for_range_def array_for_range_def)

definition gic_ok :: "'h gic \<Rightarrow> bool" where
  "gic_ok g \<longleftrightarrow> length (gd_isenabler (gi_gicd g)) = array_for_range 0x0100 0x017C
     \<and> length (gd_icenabler (gi_gicd g)) = array_for_range 0x0180 0x01FC
     \<and> length (gd_icpendr (gi_gicd g)) = array_for_range 0x0280 0x02FC
     \<and> length (gd_icactiver (gi_gicd g)) = array_for_range 0x0380 0x03FC
     \<and> length (gd_ipriorityr (gi_gicd g)) = array_for_range 0x0400 0x07E0
     \<and> length (gd_itargetsr (gi_gicd g)) = array_for_range 0x0800 0x0BE0
     \<and> length (gd_icfgr (gi_gicd g)) = array_for_range 0x0C00 0x0CF8
     \<and> length (gi_iar g) = num_cores \<and> length (gi_handlers g) = IRQ_LINES"

lemma set_registers_Ok:
  "n \<le> length rs \<Longrightarrow> \<exists>rs'. set_registers n v rs = Ok rs' \<and> length rs' = length rs \<and> (\<forall>i < length rs. rs' ! i = (if i < n then v else rs ! i))"
  by (induction n) (auto simp: nth_list_update less_Suc_eq)

lemma clear_lines_Ok:
  "n \<le> length (gd_icenabler d) \<Longrightarrow> n \<le> length (gd_icpendr d) \<Longrightarrow> n \<le> length (gd_icactiver d) \<Longrightarrow>
   \<exists>e p a. clear_lines n d = Ok (d\<lparr>gd_icenabler := e, gd_icpendr := p, gd_icactiver := a\<rparr>)
     \<and> length e = length (gd_icenabler d) \<and> length p = length (gd_icpendr d) \<and> length a = length (gd_icactiver d)
     \<and> (\<forall>i < n. e ! i = NOT 0 \<and> p ! i = NOT 0 \<and> a ! i = NOT 0)"
proof (induction n)
  case 0
  show ?case by (intro exI [of _ "gd_icenabler d"] exI [of _ "gd_icpendr d"] exI [of _ "gd_icactiver d"]) simp
next
  case (Suc n)
  then obtain e p a where "clear_lines n d = Ok (d\<lparr>gd_icenabler := e, gd_icpendr := p, gd_icactiver := a\<rparr>)"
      "length e = length (gd_icenabler d)" "length p = length (gd_icpendr d)" "length a = length (gd_icactiver d)"
      "\<forall>i < n. e ! i = NOT 0 \<and> p ! i = NOT 0 \<and> a ! i = NOT 0"
    by auto
  then show ?case using Suc.prems
    by (intro exI [of _ "e[n := NOT 0]"] exI [of _ "p[n := NOT 0]"] exI [of _ "a[n := NOT 0]"]) (simp add: nth_list_update less_Suc_eq)
qed

lemma init_gic_Ok:
  assumes "gic_ok g"
  shows "\<exists>g'. init_gic True g = Ok g' \<and> gic_ok g' \<and> gi_handlers g' = gi_handlers g \<and> gi_iar g' = gi_iar g
    \<and> (\<forall>i < 8. gd_icenabler (gi_gicd g') ! i = NOT 0) \<and> (\<forall>i < 64. gd_ipriorityr (gi_gicd g') ! i = default_priority)
    \<and> gd_ctlr (gi_gicd g') = GICD_CTLR_ENABLE \<and> gc_ctlr (gi_gicc g') = GICC_CTLR_ENABLE"
proof -
  let ?d = "(gi_gicd g)\<lparr>gd_ctlr := GICD_CTLR_DISABLE\<rparr>"
  have lens: "length (gd_icenabler ?d) = 31" "length (gd_icpendr ?d) = 31" "length (gd_icactiver ?d) = 31" "length (gd_ipriorityr ?d) = 248" "length (gd_icfgr ?d) = 62"
    using assms by (simp_all add: gic_ok_def array_for_range_def)
  obtain e p a where c: "clear_lines 8 ?d = Ok (?d\<lparr>gd_icenabler := e, gd_icpendr := p, gd_icactiver := a\<rparr>)"
      "length e = 31" "length p = 31" "length a = 31" "\<forall>i < 8. e ! i = NOT 0"
    using clear_lines_Ok [of 8 ?d] lens by auto
  obtain q where q: "set_registers 64 default_priority (gd_ipriorityr (gi_gicd g)) = Ok q" "length q = 248" "\<forall>i < 64. q ! i = default_priority"
    using set_registers_Ok [of 64 "gd_ipriorityr (gi_gicd g)" default_priority] lens(4) by auto
  obtain f where f: "set_registers 16 0 (gd_icfgr (gi_gicd g)) = Ok f" "length f = 62"
    using set_registers_Ok [of 16 "gd_icfgr (gi_gicd g)" 0] lens(5) by auto
  have "IRQ_LINES div 32 = 8" "IRQ_LINES div 4 = 64" "IRQ_LINES div 16 = 16" by (simp_all add: IRQ_LINES_def)
  then show ?thesis using c q f assms by (simp add: init_gic_def Let_def gic_ok_def array_for_range_def)
qed

text \<open>The byte of \<^verbatim>\<open>ITARGETSR\<close> that routes a line.\<close>

definition target :: "'h gic \<Rightarrow> usize \<Rightarrow> 32 word" where
  "target g irq = drop_bit ((irq mod 4) * 8) (gd_itargetsr (gi_gicd g) ! (irq div 4)) AND 0xff"

lemma bit_ff: "bit (255 :: int) n \<longleftrightarrow> n < 8"
proof -
  have "bit (mask 8 :: int) n \<longleftrightarrow> n < 8" by (simp only: bit_mask_iff) simp
  moreover have "(mask 8 :: int) = 255" by (simp add: mask_eq_exp_minus_1)
  ultimately show ?thesis by simp
qed

lemma route_byte:
  fixes v :: "32 word"
  assumes "s < 4" and "k < 4"
  shows "drop_bit (k * 8) (v AND NOT (push_bit (s * 8) 0xff) OR push_bit (s * 8) 1) AND 0xff
    = (if k = s then 1 else drop_bit (k * 8) v AND 0xff)"
proof (rule bit_word_eqI)
  fix n assume "n < LENGTH(32)"
  show "bit (drop_bit (k * 8) (v AND NOT (push_bit (s * 8) 0xff) OR push_bit (s * 8) 1) AND 0xff) n
    = bit (if k = s then 1 else drop_bit (k * 8) v AND 0xff) n"
    using assms by (auto simp: bit_simps bit_ff)
qed

lemma target_set_core:
  assumes "gic_ok g" and "irq < 992"
  obtains g' where "set_core g irq current_core = Ok g'" and "gic_ok g'" and "gd_isenabler (gi_gicd g') = gd_isenabler (gi_gicd g)"
    and "\<forall>j < 992. target g' j = (if j = irq then 1 else target g j)" and "gi_iar g' = gi_iar g" and "gi_handlers g' = gi_handlers g"
proof -
  let ?t = "gd_itargetsr (gi_gicd g)" and ?s = "(irq mod 4) * 8"
  let ?v = "?t ! (irq div 4) AND NOT (push_bit ?s 0xff) OR push_bit ?s 1"
  let ?g = "g\<lparr>gi_gicd := (gi_gicd g)\<lparr>gd_itargetsr := ?t[irq div 4 := ?v]\<rparr>\<rparr>"
  have len: "length ?t = 248" "irq div 4 < length ?t" using assms by (simp_all add: gic_ok_def array_for_range_def)
  have "set_core g irq current_core = Ok ?g" using len(2) by (simp add: set_core_def current_core_def Let_def)
  moreover have "target ?g j = (if j = irq then 1 else target g j)" if "j < 992" for j
  proof (cases "j div 4 = irq div 4")
    case True
    have "j = irq \<longleftrightarrow> j mod 4 = irq mod 4" using True by (metis div_mult_mod_eq)
    then show ?thesis using True len(2) route_byte [of "irq mod 4" "j mod 4" "?t ! (irq div 4)"] by (simp add: target_def)
  qed (auto simp: target_def)
  ultimately show ?thesis using that [of ?g] assms(1) by (simp add: gic_ok_def)
qed

lemma enable_irq_Ok:
  assumes "gic_ok g" and "irq < 992"
  obtains g' where "enable_irq irq g = Ok g'" and "gic_ok g'" and "gd_isenabler (gi_gicd g') ! (irq div 32) = push_bit (irq mod 32) 1"
    and "\<forall>j < 992. target g' j = (if j = irq then 1 else target g j)" and "gi_iar g' = gi_iar g" and "gi_handlers g' = gi_handlers g"
proof -
  have mask: "irq AND 31 = irq mod 32" using take_bit_eq_mask [of 5 irq] by (simp add: take_bit_eq_mod mask_eq_exp_minus_1)
  obtain g1 where g1: "set_core g irq current_core = Ok g1" "gic_ok g1" "gd_isenabler (gi_gicd g1) = gd_isenabler (gi_gicd g)"
      "\<forall>j < 992. target g1 j = (if j = irq then 1 else target g j)" "gi_iar g1 = gi_iar g" "gi_handlers g1 = gi_handlers g"
    using target_set_core [OF assms] .
  have len: "length (gd_isenabler (gi_gicd g1)) = 31" using g1(2) by (simp add: gic_ok_def array_for_range_def)
  then show ?thesis using that g1 assms(2) by (auto simp: enable_irq_def mask gic_ok_def target_def)
qed

section \<open>Properties\<close>

text \<open>C30: the controller's tables bound the interrupt numbers it can serve. On a controller with the register
  arrays of the source, enabling a line returns exactly below 992; it then routes that line to the current core
  and no other line, and writes exactly its bit to the enable register. A handler lookup returns exactly
  below 256, so acknowledging the architecture's spurious number 1023, or any line between the two bounds,
  makes the interrupt entry panic on the handler table.\<close>

theorem irq_bounds:
  assumes "gic_ok g"
  shows "(\<exists>g'. enable_irq irq g = Ok g') = (irq < 992)
    \<and> (\<forall>g'. enable_irq irq g = Ok g' \<longrightarrow> gic_ok g' \<and> gd_isenabler (gi_gicd g') ! (irq div 32) = push_bit (irq mod 32) 1
        \<and> (\<forall>j < 992. target g' j = (if j = irq then 1 else target g j)))
    \<and> (\<exists>h. get_irq_handler g irq = Ok h) = (irq < 256)
    \<and> (\<exists>g'. interrupt_begin 1023 g = Ok g' \<and> get_active_irq g' = Ok (Some 1023) \<and> get_irq_handler g' 1023 = Panic IndexOutOfBounds)"
proof -
  have ok: "\<exists>g'. enable_irq irq g = Ok g' \<and> gic_ok g' \<and> gd_isenabler (gi_gicd g') ! (irq div 32) = push_bit (irq mod 32) 1
      \<and> (\<forall>j < 992. target g' j = (if j = irq then 1 else target g j))" if i: "irq < 992"
    using enable_irq_Ok [OF assms i] by metis
  moreover have "irq < 992" if "enable_irq irq g = Ok g'" for g'
    using that assms by (auto simp: enable_irq_def set_core_def Let_def rbind_Ok_iff upd_Ok_iff gic_ok_def array_for_range_def)
  moreover have "(\<exists>h. get_irq_handler g irq = Ok h) = (irq < 256)"
    using assms by (auto simp: get_irq_handler_def idx_Ok_iff gic_ok_def IRQ_LINES_def)
  moreover have "\<exists>g'. interrupt_begin 1023 g = Ok g' \<and> get_active_irq g' = Ok (Some 1023) \<and> get_irq_handler g' 1023 = Panic IndexOutOfBounds"
    using assms by (auto simp: interrupt_begin_def get_active_irq_def get_irq_handler_def gic_ok_def current_core_def num_cores_def
        IRQ_LINES_def IAR_INTERRUPT_ID_MASK_def)
  ultimately show ?thesis by fastforce
qed

text \<open>Initialising the controller and then the timer on a line below 256 succeeds on any register contents of
  the architecture's size: both controllers are enabled, every line of the table was disabled first and has the
  default priority, the timer's line is the only one whose routing changed, it is routed to the boot core and
  enabled, its handler is the only one registered, no interrupt is active, and the timer counts down a
  sixtieth of a second.\<close>

lemma timer_started:
  fixes h :: 'h
  assumes "gic_ok \<lparr>gi_gicd = d, gi_gicc = c, gi_iar = replicate num_cores [], gi_handlers = replicate IRQ_LINES (None :: 'h option)\<rparr>" and "irq < 256"
  shows "\<exists>g g' t'. gic_init d c = Ok g \<and> timer_init h irq t g = Ok (t', g') \<and> gic_ok g' \<and> gi_iar g' = [[]]
    \<and> gd_ctlr (gi_gicd g) = 1 \<and> gc_ctlr (gi_gicc g) = 1 \<and> (\<forall>i < 8. gd_icenabler (gi_gicd g) ! i = NOT 0)
    \<and> (\<forall>i < 64. gd_ipriorityr (gi_gicd g) ! i = 0xA0A0A0A0)
    \<and> (\<forall>j < 256. get_irq_handler g' j = Ok (if j = irq then Some h else None))
    \<and> (\<forall>j < 992. target g' j = (if j = irq then 1 else target g j)) \<and> gd_isenabler (gi_gicd g') ! (irq div 32) = push_bit (irq mod 32) 1
    \<and> tm_ctl t' = 1 \<and> tm_tval t' = tm_frequency t div 60"
proof -
  obtain g :: "'h gic" where g: "gic_init d c = Ok g" "gic_ok g" "gi_handlers g = replicate IRQ_LINES None" "gi_iar g = replicate num_cores []"
      "\<forall>i < 8. gd_icenabler (gi_gicd g) ! i = NOT 0" "\<forall>i < 64. gd_ipriorityr (gi_gicd g) ! i = default_priority"
      "gd_ctlr (gi_gicd g) = GICD_CTLR_ENABLE" "gc_ctlr (gi_gicc g) = GICC_CTLR_ENABLE"
    using init_gic_Ok [OF assms(1)] unfolding gic_init_def by auto
  let ?g1 = "g\<lparr>gi_handlers := (gi_handlers g)[irq := Some h]\<rparr>"
  have ok1: "gic_ok ?g1" using g(2) by (simp add: gic_ok_def)
  obtain g2 where g2: "enable_irq irq ?g1 = Ok g2" "gic_ok g2" "gi_iar g2 = gi_iar g" "gi_handlers g2 = (gi_handlers g)[irq := Some h]"
      "\<forall>j < 992. target g2 j = (if j = irq then 1 else target ?g1 j)" "gd_isenabler (gi_gicd g2) ! (irq div 32) = push_bit (irq mod 32) 1"
    using enable_irq_Ok [OF ok1, of irq] assms(2) by auto
  have t1: "target ?g1 = target g" by (simp add: target_def fun_eq_iff)
  have p: "default_priority = 0xA0A0A0A0" by (simp add: default_priority_def IPRIORITYRAULT_def)
  have "timer_init h irq t g = Ok (t\<lparr>tm_tval := tm_frequency t div 60, tm_ctl := 1\<rparr>, g2)"
    using g2(1) g(2) assms(2) by (simp add: timer_init_def set_irq_handler_def start_timer_def gic_ok_def IRQ_LINES_def TIMER_INTERRUPT_FREQUENCY_def)
  moreover have "\<forall>j < 256. get_irq_handler g2 j = Ok (if j = irq then Some h else None)"
    using assms(2) g(3) g2(4) by (auto simp: get_irq_handler_def IRQ_LINES_def)
  ultimately show ?thesis
    using g g2 t1 p by (simp add: num_cores_def GICD_CTLR_ENABLE_def GICC_CTLR_ENABLE_def)
qed

definition demo_gic :: "nat gic" where
  "demo_gic = \<lparr>gi_gicd = \<lparr>gd_ctlr = 0, gd_isenabler = replicate 31 0, gd_icenabler = replicate 31 0, gd_icpendr = replicate 31 0,
     gd_icactiver = replicate 31 0, gd_ipriorityr = replicate 248 0, gd_itargetsr = replicate 248 0x02020202, gd_icfgr = replicate 62 0\<rparr>,
     gi_gicc = \<lparr>gc_ctlr = 0, gc_pmr = 0, gc_eoir = 0\<rparr>, gi_iar = [[]], gi_handlers = replicate 256 None\<rparr>"

theorem irq_bounds_witness: "\<exists>g'. enable_irq 33 demo_gic = Ok g' \<and> target g' 33 = 1 \<and> target g' 34 = 2"
proof -
  have ok: "gic_ok demo_gic" by (simp add: gic_ok_def demo_gic_def array_for_range_def num_cores_def IRQ_LINES_def)
  have "target demo_gic 34 = 2" by (simp add: target_def demo_gic_def)
  then show ?thesis using irq_bounds [OF ok, of 33] by auto
qed

end
