(* ===== verification/Process_Manager.thy ===== *)
theory Process_Manager
  imports Scheduler
begin

text \<open>
  \<^verbatim>\<open>modules/pm\<close> and \<^verbatim>\<open>libs/sync\<close>: tasks, processes, mutexes, condition variables and monitors over
  the scheduler. A call that may block returns an \<open>outcome\<close>: \<open>Blocked t\<close> means that the calling task was
  put to sleep and task \<open>t\<close> runs. A woken task takes the blocked call up at the top of its loop, which
  is where the call starts, so resuming it is calling the function again; the one exception,
  \<^verbatim>\<open>RawCondvar::wait\<close>, resumes with \<^verbatim>\<open>lock\<close>.
\<close>

datatype 'a outcome = Done 'a | Blocked task_id

section \<open>Lookup\<close>

definition task_current :: "('f, 'm) sys \<Rightarrow> task option res" where
  "task_current s =
     rbind (get_current_task_id s) (\<lambda>c. Ok (case c of None \<Rightarrow> None | Some t \<Rightarrow> get_task_by_id s t))"

definition process_by_id :: "('f, 'm) sys \<Rightarrow> proc_id \<Rightarrow> ('f, 'm) process option" where
  "process_by_id s p = bt_get (sy_procs s) p"

text \<open>\<^verbatim>\<open>Weak::upgrade\<close> finds the process in the table, which holds the reference that keeps it alive.\<close>

definition process_current :: "('f, 'm) sys \<Rightarrow> ('f, 'm) process option res" where
  "process_current s =
     rbind (task_current s) (\<lambda>c.
     case c of
       None \<Rightarrow> Ok None
     | Some x \<Rightarrow> rbind (unwrap (process_by_id s (tk_proc x))) (\<lambda>p. Ok (Some p)))"

definition put_process :: "('f, 'm) sys \<Rightarrow> ('f, 'm) process \<Rightarrow> ('f, 'm) sys" where
  "put_process s p = s\<lparr>sy_procs := bt_insert (pr_id p) p (sy_procs s)\<rparr>"

section \<open>Mutexes and condition variables\<close>

definition mutex_new :: raw_mutex where
  "mutex_new = \<lparr>rm_is_locked = False, rm_waiters = []\<rparr>"

definition mutex_lock :: "('f, 'm) sys \<Rightarrow> raw_mutex \<Rightarrow> (('f, 'm) sys \<times> raw_mutex \<times> unit outcome) res" where
  "mutex_lock s0 m =
     (let (g, c) = uninterruptible (sy_cpu s0); s = s0\<lparr>sy_cpu := c\<rparr> in
      rbind (get_current_task_id s) (\<lambda>cur.
      rbind (unwrap cur) (\<lambda>task.
      if \<not> rm_is_locked m then
        Ok (s\<lparr>sy_cpu := uninterruptible_drop g (sy_cpu s)\<rparr>, m\<lparr>rm_is_locked := True\<rparr>, Done ())
      else
        rbind (sleep s) (\<lambda>(s', t).
        Ok (s', m\<lparr>rm_is_locked := True, rm_waiters := rm_waiters m @ [task]\<rparr>, Blocked t)))))"

fun wake_all :: "('f, 'm) sys \<Rightarrow> task_id list \<Rightarrow> ('f, 'm) sys res" where
  "wake_all s [] = Ok s"
| "wake_all s (t # ts) = rbind (wake_up s t) (\<lambda>(s', _). wake_all s' ts)"

definition mutex_unlock :: "('f, 'm) sys \<Rightarrow> raw_mutex \<Rightarrow> (('f, 'm) sys \<times> raw_mutex) res" where
  "mutex_unlock s m =
     uninterruptibly (\<lambda>s. rbind (wake_all s (rm_waiters m)) (\<lambda>s'.
       Ok (s', m\<lparr>rm_is_locked := False, rm_waiters := []\<rparr>))) s"

definition condvar_new :: raw_condvar where
  "condvar_new = \<lparr>rc_waiters = []\<rparr>"

text \<open>\<^verbatim>\<open>wait\<close> up to the point where the task sleeps; the guard on the interrupt flag is not dropped there.\<close>

definition condvar_wait ::
  "('f, 'm) sys \<Rightarrow> raw_condvar \<Rightarrow> raw_mutex \<Rightarrow> (('f, 'm) sys \<times> raw_condvar \<times> raw_mutex \<times> task_id) res" where
  "condvar_wait s0 c m =
     (let s = s0\<lparr>sy_cpu := snd (uninterruptible (sy_cpu s0))\<rparr> in
      rbind (get_current_task_id s) (\<lambda>cur.
      rbind (unwrap cur) (\<lambda>task.
      rbind (mutex_unlock s m) (\<lambda>(s1, m1).
      rbind (sleep s1) (\<lambda>(s2, t).
      Ok (s2, c\<lparr>rc_waiters := rc_waiters c @ [task]\<rparr>, m1, t))))))"

definition condvar_notify_all :: "('f, 'm) sys \<Rightarrow> raw_condvar \<Rightarrow> (('f, 'm) sys \<times> raw_condvar) res" where
  "condvar_notify_all s c =
     uninterruptibly (\<lambda>s. rbind (wake_all s (rc_waiters c)) (\<lambda>s'. Ok (s', c\<lparr>rc_waiters := []\<rparr>))) s"

section \<open>Monitors\<close>

definition monitor_new :: "bool \<Rightarrow> monitor" where
  "monitor_new x = \<lparr>mn_lock = mutex_new, mn_cond = condvar_new, mn_data = x\<rparr>"

definition monitor_lock :: "('f, 'm) sys \<Rightarrow> monitor \<Rightarrow> (('f, 'm) sys \<times> monitor \<times> unit outcome) res" where
  "monitor_lock s mn = rbind (mutex_lock s (mn_lock mn)) (\<lambda>(s', m, r). Ok (s', mn\<lparr>mn_lock := m\<rparr>, r))"

definition monitor_unlock :: "('f, 'm) sys \<Rightarrow> monitor \<Rightarrow> (('f, 'm) sys \<times> monitor) res" where
  "monitor_unlock s mn = rbind (mutex_unlock s (mn_lock mn)) (\<lambda>(s', m). Ok (s', mn\<lparr>mn_lock := m\<rparr>))"

definition monitor_wait :: "('f, 'm) sys \<Rightarrow> monitor \<Rightarrow> (('f, 'm) sys \<times> monitor \<times> task_id) res" where
  "monitor_wait s mn =
     rbind (condvar_wait s (mn_cond mn) (mn_lock mn)) (\<lambda>(s', c, m, t). Ok (s', mn\<lparr>mn_cond := c, mn_lock := m\<rparr>, t))"

definition monitor_notify_all :: "('f, 'm) sys \<Rightarrow> monitor \<Rightarrow> (('f, 'm) sys \<times> monitor) res" where
  "monitor_notify_all s mn = rbind (condvar_notify_all s (mn_cond mn)) (\<lambda>(s', c). Ok (s', mn\<lparr>mn_cond := c\<rparr>))"

text \<open>\<^verbatim>\<open>wait_for_completion\<close>: lock, and wait while the flag is set.\<close>

definition wait_live :: "('f, 'm) sys \<Rightarrow> monitor \<Rightarrow> (('f, 'm) sys \<times> monitor \<times> unit outcome) res" where
  "wait_live s mn =
     rbind (monitor_lock s mn) (\<lambda>(s1, mn1, r).
     case r of
       Blocked t \<Rightarrow> Ok (s1, mn1, Blocked t)
     | Done _ \<Rightarrow>
         if mn_data mn1 then rbind (monitor_wait s1 mn1) (\<lambda>(s2, mn2, t). Ok (s2, mn2, Blocked t))
         else rbind (monitor_unlock s1 mn1) (\<lambda>(s2, mn2). Ok (s2, mn2, Done ())))"

text \<open>The block that marks a task or a process as dead.\<close>

definition mark_dead :: "('f, 'm) sys \<Rightarrow> monitor \<Rightarrow> (('f, 'm) sys \<times> monitor \<times> unit outcome) res" where
  "mark_dead s mn =
     rbind (monitor_lock s mn) (\<lambda>(s1, mn1, r).
     case r of
       Blocked t \<Rightarrow> Ok (s1, mn1, Blocked t)
     | Done _ \<Rightarrow>
         rbind (monitor_notify_all s1 (mn1\<lparr>mn_data := False\<rparr>)) (\<lambda>(s2, mn2).
         rbind (monitor_unlock s2 mn2) (\<lambda>(s3, mn3). Ok (s3, mn3, Done ()))))"

section \<open>Tasks\<close>

text \<open>Counters are atomic words: \<^verbatim>\<open>fetch_add\<close> wraps.\<close>

definition task_create :: "('f, 'm) sys \<Rightarrow> proc_id \<Rightarrow> ('f, 'm) sys \<times> task_id" where
  "task_create s p =
     (let id = sy_task_count s;
          s1 = s\<lparr>sy_task_count := (id + 1) mod USIZE_LIMIT, sy_task_live := bt_insert id (monitor_new True) (sy_task_live s)\<rparr> in
      (put_task s1 id \<lparr>tk_id = id, tk_proc = p, tk_sched = new_state\<rparr>, id))"

definition task_exit :: "('f, 'm) sys \<Rightarrow> task_id \<Rightarrow> (('f, 'm) sys \<times> unit outcome) res" where
  "task_exit s self =
     rbind (rassert (\<not> interrupt_is_enabled (sy_cpu s))) (\<lambda>_.
     rbind (task_current s) (\<lambda>c.
     rbind (unwrap c) (\<lambda>cur.
     rbind (rassert (self = tk_id cur)) (\<lambda>_.
     rbind (unwrap (bt_get (sy_task_live s) self)) (\<lambda>live.
     rbind (mark_dead s live) (\<lambda>(s1, live1, r).
     let s2 = s1\<lparr>sy_task_live := bt_insert self live1 (sy_task_live s1)\<rparr> in
     case r of
       Blocked t \<Rightarrow> Ok (s2, Blocked t)
     | Done _ \<Rightarrow>
         rbind (unwrap (process_by_id s2 (tk_proc cur))) (\<lambda>p.
         let s3 = put_process s2 (p\<lparr>pr_threads := filter (\<lambda>t. t \<noteq> self) (pr_threads p)\<rparr>) in
         rbind (task_current s3) (\<lambda>c3.
         rbind (unwrap c3) (\<lambda>cur3.
         rbind (remove_task s3 (tk_id cur3)) (\<lambda>s4.
         rbind (unwrap (get_task_by_id s4 self)) (\<lambda>_.
         Ok (s4\<lparr>sy_tasks := bt_remove self (sy_tasks s4)\<rparr>, Done ()))))))))))))"

definition task_wait_for_completion :: "('f, 'm) sys \<Rightarrow> task_id \<Rightarrow> (('f, 'm) sys \<times> unit outcome) res" where
  "task_wait_for_completion s t =
     rbind (unwrap (bt_get (sy_task_live s) t)) (\<lambda>live.
     rbind (wait_live s live) (\<lambda>(s1, live1, r).
     Ok (s1\<lparr>sy_task_live := bt_insert t live1 (sy_task_live s1)\<rparr>, r)))"

section \<open>Processes\<close>

text \<open>The state of the other modules in the process, \<^verbatim>\<open>fs\<close> and \<^verbatim>\<open>mm\<close>, is passed in: it is what
  \<^verbatim>\<open>register_process\<close> and \<^verbatim>\<open>create_mm_state\<close> return.\<close>

definition process_create :: "('f, 'm) sys \<Rightarrow> 'f \<Rightarrow> 'm \<Rightarrow> (('f, 'm) sys \<times> proc_id) res" where
  "process_create s vfs_state mm = uninterruptibly (\<lambda>s.
     let id = sy_proc_count s;
         s1 = s\<lparr>sy_proc_count := (id + 1) mod USIZE_LIMIT, sy_proc_live := bt_insert id (monitor_new True) (sy_proc_live s)\<rparr>;
         (s2, t) = task_create s1 id;
         proc = \<lparr>pr_id = id, pr_threads = [t], pr_fs = vfs_state, pr_mm = mm, pr_locks = [], pr_cvars = []\<rparr>;
         s3 = put_process s2 proc in
     rbind (register_new_task s3 t) (\<lambda>(s4, _). Ok (s4, id))) s"

definition spawn_task :: "('f, 'm) sys \<Rightarrow> proc_id \<Rightarrow> (('f, 'm) sys \<times> task_id) res" where
  "spawn_task s p = uninterruptibly (\<lambda>s.
     let (s1, t) = task_create s p in
     rbind (unwrap (process_by_id s1 p)) (\<lambda>proc.
     let s2 = put_process s1 (proc\<lparr>pr_threads := pr_threads proc @ [t]\<rparr>) in
     rbind (register_new_task s2 t) (\<lambda>(s3, _). Ok (s3, t)))) s"

fun remove_threads :: "('f, 'm) sys \<Rightarrow> task_id list \<Rightarrow> ('f, 'm) sys res" where
  "remove_threads s [] = Ok s"
| "remove_threads s (t # ts) =
     rbind (unwrap (get_task_by_id s t)) (\<lambda>_.
     rbind (remove_task (s\<lparr>sy_tasks := bt_remove t (sy_tasks s)\<rparr>) t) (\<lambda>s'. remove_threads s' ts))"

text \<open>\<^verbatim>\<open>deregister_process\<close> does nothing.\<close>

definition process_exit :: "('f, 'm) sys \<Rightarrow> proc_id \<Rightarrow> (('f, 'm) sys \<times> unit outcome) res" where
  "process_exit s0 self =
     (let (g, c) = uninterruptible (sy_cpu s0); s = s0\<lparr>sy_cpu := c\<rparr> in
      rbind (unwrap (bt_get (sy_proc_live s) self)) (\<lambda>live.
      rbind (mark_dead s live) (\<lambda>(s1, live1, r).
      let s2 = s1\<lparr>sy_proc_live := bt_insert self live1 (sy_proc_live s1)\<rparr> in
      case r of
        Blocked t \<Rightarrow> Ok (s2, Blocked t)
      | Done _ \<Rightarrow>
          rbind (unwrap (process_by_id s2 self)) (\<lambda>p.
          rbind (remove_threads s2 (pr_threads p)) (\<lambda>s3.
          let s4 = s3\<lparr>sy_procs := bt_remove self (sy_procs s3)\<rparr> in
          Ok (s4\<lparr>sy_cpu := uninterruptible_drop g (sy_cpu s4)\<rparr>, Done ()))))))"

definition process_wait_for_completion :: "('f, 'm) sys \<Rightarrow> proc_id \<Rightarrow> (('f, 'm) sys \<times> unit outcome) res" where
  "process_wait_for_completion s p =
     rbind (unwrap (bt_get (sy_proc_live s) p)) (\<lambda>live.
     rbind (wait_live s live) (\<lambda>(s1, live1, r).
     Ok (s1\<lparr>sy_proc_live := bt_insert p live1 (sy_proc_live s1)\<rparr>, r)))"

section \<open>Requests of the module\<close>

datatype proc_request =
    MutexCreate
  | MutexLock address
  | MutexUnlock address
  | MutexDestroy address
  | CondvarCreate
  | CondvarWait address address
  | CondvarNotifyAll address
  | CondvarDestroy address

text \<open>An opaque pointer is dereferenced without a check; the model panics where no object lives.\<close>

definition mutex_at :: "('f, 'm) sys \<Rightarrow> address \<Rightarrow> raw_mutex res" where
  "mutex_at s a = unwrap (bt_get (sy_mutexes s) a)"

definition put_mutex :: "('f, 'm) sys \<Rightarrow> address \<Rightarrow> raw_mutex \<Rightarrow> ('f, 'm) sys" where
  "put_mutex s a m = s\<lparr>sy_mutexes := bt_insert a m (sy_mutexes s)\<rparr>"

definition cvar_at :: "('f, 'm) sys \<Rightarrow> address \<Rightarrow> raw_condvar res" where
  "cvar_at s a = unwrap (bt_get (sy_cvars s) a)"

definition put_cvar :: "('f, 'm) sys \<Rightarrow> address \<Rightarrow> raw_condvar \<Rightarrow> ('f, 'm) sys" where
  "put_cvar s a c = s\<lparr>sy_cvars := bt_insert a c (sy_cvars s)\<rparr>"

text \<open>\<open>box\<close> is the address the global allocator returns for the new object.\<close>

definition mutex_create :: "bool \<Rightarrow> address \<Rightarrow> ('f, 'm) sys \<Rightarrow> (('f, 'm) sys \<times> int) res" where
  "mutex_create privileged box s =
     (let s1 = put_mutex s box mutex_new in
      if privileged then Ok (s1, to_isize box)
      else
        rbind (process_current s1) (\<lambda>c.
        rbind (unwrap c) (\<lambda>p.
        Ok (put_process s1 (p\<lparr>pr_locks := pr_locks p @ [box]\<rparr>), to_isize box))))"

definition mutex_destroy :: "('f, 'm) sys \<Rightarrow> address \<Rightarrow> (('f, 'm) sys \<times> int) res" where
  "mutex_destroy s a =
     rbind (process_current s) (\<lambda>c.
     rbind (unwrap c) (\<lambda>p.
     let s1 = put_process s (p\<lparr>pr_locks := filter (\<lambda>x. x \<noteq> a) (pr_locks p)\<rparr>) in
     if a \<in> set (pr_locks p) then Ok (s1\<lparr>sy_mutexes := bt_remove a (sy_mutexes s1)\<rparr>, 0) else Ok (s1, 0)))"

definition condvar_create :: "bool \<Rightarrow> address \<Rightarrow> ('f, 'm) sys \<Rightarrow> (('f, 'm) sys \<times> int) res" where
  "condvar_create privileged box s =
     (let s1 = put_cvar s box condvar_new in
      if privileged then Ok (s1, to_isize box)
      else
        rbind (process_current s1) (\<lambda>c.
        rbind (unwrap c) (\<lambda>p.
        Ok (put_process s1 (p\<lparr>pr_cvars := pr_cvars p @ [box]\<rparr>), to_isize box))))"

definition condvar_destroy :: "('f, 'm) sys \<Rightarrow> address \<Rightarrow> (('f, 'm) sys \<times> int) res" where
  "condvar_destroy s a =
     rbind (process_current s) (\<lambda>c.
     rbind (unwrap c) (\<lambda>p.
     let s1 = put_process s (p\<lparr>pr_cvars := filter (\<lambda>x. x \<noteq> a) (pr_cvars p)\<rparr>) in
     if a \<in> set (pr_cvars p) then Ok (s1\<lparr>sy_cvars := bt_remove a (sy_cvars s1)\<rparr>, 0) else Ok (s1, 0)))"

definition finished :: "(('f, 'm) sys \<times> int) res \<Rightarrow> (('f, 'm) sys \<times> int outcome) res" where
  "finished m = rbind m (\<lambda>(s, r). Ok (s, Done r))"

definition pm_handle :: "bool \<Rightarrow> address \<Rightarrow> proc_request \<Rightarrow> ('f, 'm) sys \<Rightarrow> (('f, 'm) sys \<times> int outcome) res" where
  "pm_handle privileged box request s =
     (case request of
        MutexCreate \<Rightarrow> finished (mutex_create privileged box s)
      | MutexLock a \<Rightarrow>
          rbind (mutex_at s a) (\<lambda>m.
          rbind (mutex_lock s m) (\<lambda>(s1, m1, r).
          Ok (put_mutex s1 a m1, case r of Done _ \<Rightarrow> Done 0 | Blocked t \<Rightarrow> Blocked t)))
      | MutexUnlock a \<Rightarrow>
          rbind (mutex_at s a) (\<lambda>m.
          rbind (mutex_unlock s m) (\<lambda>(s1, m1). Ok (put_mutex s1 a m1, Done 0)))
      | MutexDestroy a \<Rightarrow> finished (mutex_destroy s a)
      | CondvarCreate \<Rightarrow> finished (condvar_create privileged box s)
      | CondvarWait ca ma \<Rightarrow>
          rbind (cvar_at s ca) (\<lambda>c.
          rbind (mutex_at s ma) (\<lambda>m.
          rbind (condvar_wait s c m) (\<lambda>(s1, c1, m1, t). Ok (put_cvar (put_mutex s1 ma m1) ca c1, Blocked t))))
      | CondvarNotifyAll ca \<Rightarrow>
          rbind (cvar_at s ca) (\<lambda>c.
          rbind (condvar_notify_all s c) (\<lambda>(s1, c1). Ok (put_cvar s1 ca c1, Done 0)))
      | CondvarDestroy ca \<Rightarrow> finished (condvar_destroy s ca))"

end
