(* ===== verification/Monitors.thy ===== *)
theory Monitors
  imports Process_Manager
begin

text \<open>
  What mutexes, condition variables and monitors guarantee. Handlers run with interrupts masked, which is
  part of \<^const>\<open>sched_inv\<close>; guards then change nothing.
\<close>

section \<open>Waking and sleeping\<close>

lemma masked_guard: "\<not> interrupt_is_enabled c \<Longrightarrow> uninterruptible c = (False, c)"
  by (simp add: uninterruptible_def)

lemma uninterruptibly_masked [simp]:
  assumes "\<not> interrupt_is_enabled (sy_cpu s)"
  shows "uninterruptibly body s = body s"
proof (cases "body s")
  case (Ok r)
  then show ?thesis using assms by (cases r) (simp add: uninterruptibly_def masked_guard uninterruptible_drop_def)
qed (use assms in \<open>simp add: uninterruptibly_def masked_guard\<close>)

lemma sched_inv_masked [simp]: "sched_inv s \<Longrightarrow> \<not> interrupt_is_enabled (sy_cpu s)"
  by (simp add: sched_inv_def)

definition asleep :: "('f, 'm) sys \<Rightarrow> task_id set" where
  "asleep s = {t. \<exists>st. state_of s t = Some st \<and> ss_run_state st = Sleeping}"

lemma current_awake: "sched_inv s \<Longrightarrow> current s = Some t \<Longrightarrow> t \<notin> asleep s"
  by (auto simp: sched_inv_def view_def asleep_def running_def)

lemma current_not_queued: "sched_inv s \<Longrightarrow> current s = Some t \<Longrightarrow> t \<notin> set (ready_queue s)"
  by (auto simp: sched_inv_def view_def running_def)

lemma queue_awake: "sched_inv s \<Longrightarrow> t \<in> set (ready_queue s) \<Longrightarrow> t \<notin> asleep s"
  by (auto simp: sched_inv_def view_def asleep_def)

lemma wake_up_asleep:
  assumes "sched_inv s" and "t \<in> asleep s"
  obtains s' where "wake_up s t = Ok (s', ())" and "sched_inv s'" and "same_tables s s'" and "current s' = current s"
    and "ready_queue s' = ready_queue s @ [t]" and "asleep s' = asleep s - {t}"
proof -
  obtain st where st: "state_of s t = Some st" "ss_run_state st = Sleeping" using assms(2) by (auto simp: asleep_def)
  obtain s' where s': "wake_up s t = Ok (s', ())" "sched_inv s'" "same_tables s s'" "current s' = current s"
      "ready_queue s' = ready_queue s @ [t]" "state_of s' = (state_of s)(t \<mapsto> st\<lparr>ss_run_state := Ready\<rparr>)"
    using wake_inv [OF assms(1) st(1)] st(2) by auto
  moreover have "asleep s' = asleep s - {t}" using s'(6) by (auto simp: asleep_def)
  ultimately show ?thesis using that by blast
qed

lemma wake_all_asleep:
  assumes "sched_inv s" and "set ts \<subseteq> asleep s" and "distinct ts"
  shows "\<exists>s'. wake_all s ts = Ok s' \<and> sched_inv s' \<and> same_tables s s' \<and> current s' = current s
    \<and> ready_queue s' = ready_queue s @ ts \<and> asleep s' = asleep s - set ts"
  using assms
proof (induction ts arbitrary: s)
  case (Cons t ts)
  obtain s1 where s1: "wake_up s t = Ok (s1, ())" "sched_inv s1" "same_tables s s1" "current s1 = current s"
      "ready_queue s1 = ready_queue s @ [t]" "asleep s1 = asleep s - {t}"
    using wake_up_asleep [OF Cons.prems(1), of t] Cons.prems(2) by auto
  have "set ts \<subseteq> asleep s1" using Cons.prems(2,3) s1(6) by auto
  with Cons.IH [OF s1(2)] Cons.prems(3) obtain s' where "wake_all s1 ts = Ok s'" "sched_inv s'" "same_tables s1 s'"
      "current s' = current s1" "ready_queue s' = ready_queue s1 @ ts" "asleep s' = asleep s1 - set ts" by auto
  with s1 same_tables_trans [OF s1(3)] show ?case by auto
qed simp

lemma sleep_asleep:
  assumes "sched_inv s" and "current s = Some t" and "ready_queue s = n # q"
  obtains s' where "sleep s = Ok (s', n)" and "sched_inv s'" and "same_tables s s'" and "current s' = Some n"
    and "ready_queue s' = q" and "asleep s' = insert t (asleep s)"
proof -
  obtain s' where s': "sleep s = Ok (s', n)" "sched_inv s'" "same_tables s s'" "current s' = Some n" "ready_queue s' = q"
      "state_of s' = (state_of s)(t \<mapsto> running\<lparr>ss_run_state := Sleeping\<rparr>, n \<mapsto> running)"
    using sleep_inv [OF assms] .
  have "n \<notin> asleep s" "n \<noteq> t" using queue_awake [OF assms(1), of n] current_not_queued [OF assms(1,2)] assms(3) by auto
  then have "asleep s' = insert t (asleep s)" using s'(6) by (auto simp: asleep_def running_def)
  with s' show ?thesis using that by blast
qed

section \<open>Locks\<close>

lemma mutex_lock_free:
  assumes "sched_inv s" and "current s = Some t" and "\<not> rm_is_locked m"
  shows "mutex_lock s m = Ok (s, m\<lparr>rm_is_locked := True\<rparr>, Done ())"
  using assms by (simp add: mutex_lock_def masked_guard current_Ok sched_inv_def uninterruptible_drop_def)

lemma mutex_lock_taken:
  assumes "sched_inv s" and "current s = Some t" and "rm_is_locked m"
  shows "mutex_lock s m = rbind (sleep s) (\<lambda>(s', n). Ok (s', m\<lparr>rm_waiters := rm_waiters m @ [t]\<rparr>, Blocked n))"
proof -
  have e: "m\<lparr>rm_is_locked := True, rm_waiters := rm_waiters m @ [t]\<rparr> = m\<lparr>rm_waiters := rm_waiters m @ [t]\<rparr>"
    using assms(3) by (cases m) simp
  show ?thesis
    using assms by (simp add: mutex_lock_def masked_guard current_Ok sched_inv_def e)
qed

lemma mutex_unlock_asleep:
  assumes "sched_inv s" and "set (rm_waiters m) \<subseteq> asleep s" and "distinct (rm_waiters m)"
  obtains s' where "mutex_unlock s m = Ok (s', m\<lparr>rm_is_locked := False, rm_waiters := []\<rparr>)" and "sched_inv s'"
    and "same_tables s s'" and "current s' = current s" and "ready_queue s' = ready_queue s @ rm_waiters m"
    and "asleep s' = asleep s - set (rm_waiters m)"
proof -
  obtain s' where s': "wake_all s (rm_waiters m) = Ok s'" "sched_inv s'" "same_tables s s'" "current s' = current s"
      "ready_queue s' = ready_queue s @ rm_waiters m" "asleep s' = asleep s - set (rm_waiters m)"
    using wake_all_asleep [OF assms] by blast
  have "mutex_unlock s m = Ok (s', m\<lparr>rm_is_locked := False, rm_waiters := []\<rparr>)" using s'(1) assms(1) by (simp add: mutex_unlock_def)
  with s' show ?thesis using that by blast
qed

section \<open>Monitors\<close>

text \<open>The steps of tasks that use one monitor, and of the timer between them. \<open>h\<close> is the task that
  holds the monitor and \<open>p\<close> says that the holder has cleared the data and has not yet notified: \<^verbatim>\<open>wait\<close>,
  \<^verbatim>\<open>notify_all\<close>, the store and the unlock are reached through a guard of the holder, \<^verbatim>\<open>wait\<close> only in the
  loop that found the data set. Idle tasks take no locks.\<close>

inductive monitor_reach :: "task_id \<Rightarrow> ('f, 'm) sys \<Rightarrow> ('f, 'm) sys \<Rightarrow> monitor \<Rightarrow> task_id option \<Rightarrow> bool \<Rightarrow> bool" for idle s0 where
  start: "monitor_reach idle s0 s0 (monitor_new True) None False"
| tick: "monitor_reach idle s0 s mn h p \<Longrightarrow> timer_tick s = Ok (s', t) \<Longrightarrow> monitor_reach idle s0 s' mn h p"
| lock: "monitor_reach idle s0 s mn h p \<Longrightarrow> current s \<noteq> Some idle \<Longrightarrow> monitor_lock s mn = Ok (s', mn', Done ())
    \<Longrightarrow> monitor_reach idle s0 s' mn' (current s) p"
| block: "monitor_reach idle s0 s mn h p \<Longrightarrow> current s \<noteq> Some idle \<Longrightarrow> monitor_lock s mn = Ok (s', mn', Blocked t)
    \<Longrightarrow> monitor_reach idle s0 s' mn' h p"
| wait: "monitor_reach idle s0 s mn h p \<Longrightarrow> h = current s \<Longrightarrow> mn_data mn \<Longrightarrow> monitor_wait s mn = Ok (s', mn', t)
    \<Longrightarrow> monitor_reach idle s0 s' mn' None p"
| store: "monitor_reach idle s0 s mn h p \<Longrightarrow> h = current s \<Longrightarrow> monitor_reach idle s0 s (mn\<lparr>mn_data := False\<rparr>) h True"
| notify: "monitor_reach idle s0 s mn h p \<Longrightarrow> h = current s \<Longrightarrow> monitor_notify_all s mn = Ok (s', mn')
    \<Longrightarrow> monitor_reach idle s0 s' mn' h False"
| unlock: "monitor_reach idle s0 s mn h p \<Longrightarrow> h = current s \<Longrightarrow> \<not> p \<Longrightarrow> monitor_unlock s mn = Ok (s', mn')
    \<Longrightarrow> monitor_reach idle s0 s' mn' None p"

abbreviation lock_waiters :: "monitor \<Rightarrow> task_id list" where
  "lock_waiters mn \<equiv> rm_waiters (mn_lock mn)"

abbreviation cond_waiters :: "monitor \<Rightarrow> task_id list" where
  "cond_waiters mn \<equiv> rc_waiters (mn_cond mn)"

definition on_core :: "task_id \<Rightarrow> ('f, 'm) sys \<Rightarrow> ('f, 'm) sys \<Rightarrow> bool" where
  "on_core idle s0 s \<longleftrightarrow> sched_inv s \<and> current s \<noteq> None \<and> awake s idle \<and> same_tables s0 s"

definition monitor_inv :: "task_id \<Rightarrow> ('f, 'm) sys \<Rightarrow> ('f, 'm) sys \<Rightarrow> monitor \<Rightarrow> task_id option \<Rightarrow> bool \<Rightarrow> bool" where
  "monitor_inv idle s0 s mn h p \<longleftrightarrow> on_core idle s0 s \<and> h \<noteq> Some idle \<and> rm_is_locked (mn_lock mn) = (h \<noteq> None)
     \<and> distinct (lock_waiters mn @ cond_waiters mn) \<and> asleep s0 \<subseteq> asleep s
     \<and> set (lock_waiters mn) \<union> set (cond_waiters mn) = asleep s - asleep s0
     \<and> (lock_waiters mn \<noteq> [] \<longrightarrow> h \<noteq> None) \<and> (cond_waiters mn \<noteq> [] \<longrightarrow> mn_data mn \<or> p) \<and> (p \<longrightarrow> h \<noteq> None \<and> \<not> mn_data mn)"

lemma asleep_eq:
  assumes "sched_inv s"
  shows "asleep s = {t. get_task_by_id s t \<noteq> None \<and> \<not> awake s t}"
proof (rule set_eqI)
  fix t
  have inv: "inv_view (ready_queue s, current s, state_of s)" using assms by (simp add: sched_inv_def view_def)
  show "t \<in> asleep s \<longleftrightarrow> t \<in> {t. get_task_by_id s t \<noteq> None \<and> \<not> awake s t}"
  proof (cases "get_task_by_id s t")
    case (Some x)
    then have st: "state_of s t = Some (tk_sched x)" by (simp add: state_of_def)
    have "(\<exists>st. state_of s t = Some st \<and> ss_run_state st = Running) \<longleftrightarrow> current s = Some t" using inv by simp
    moreover have "t \<in> set (ready_queue s) \<longleftrightarrow> ss_run_state (tk_sched x) = Ready" using inv st by simp
    ultimately have "awake s t \<longleftrightarrow> ss_run_state (tk_sched x) = Ready \<or> ss_run_state (tk_sched x) = Running"
      using st by (auto simp: awake_def)
    then show ?thesis using st Some by (cases "ss_run_state (tk_sched x)") (auto simp: asleep_def)
  qed (simp add: asleep_def state_of_def)
qed

lemma tick_asleep:
  assumes "on_core idle s0 s" and "timer_tick s = Ok (s', t)"
  shows "on_core idle s0 s'" and "asleep s' = asleep s"
proof -
  have I: "sched_inv s" "awake s idle" "same_tables s0 s" using assms(1) by (simp_all add: on_core_def)
  obtain c where c: "current s = Some c" using assms(1) by (auto simp: on_core_def)
  obtain s1 where "timer_tick s = Ok (s1, hd (ready_queue s @ [c]))" "sched_inv s1" "same_tables s s1"
      "current s1 = Some (hd (ready_queue s @ [c]))" "ready_queue s1 = tl (ready_queue s @ [c])"
    using tick_inv [OF I(1) c] .
  with assms(2) have s': "sched_inv s'" "same_tables s s'" "current s' = Some (hd (ready_queue s @ [c]))"
      "ready_queue s' = tl (ready_queue s @ [c])" by simp_all
  have aw: "awake s' u \<longleftrightarrow> awake s u" for u
    using s'(3,4) c by (cases "ready_queue s") (auto simp: awake_def)
  show "on_core idle s0 s'" using s' aw I same_tables_trans [OF I(3)] by (simp add: on_core_def)
  show "asleep s' = asleep s"
    unfolding asleep_eq [OF I(1)] asleep_eq [OF s'(1)] aw same_tables_tasks(1) [OF s'(2)] ..
qed

lemma sleep_on_core:
  assumes "on_core idle s0 s" and "current s = Some c" and "c \<noteq> idle"
  obtains s' n where "sleep s = Ok (s', n)" and "on_core idle s0 s'" and "asleep s' = insert c (asleep s)"
proof -
  have I: "sched_inv s" "awake s idle" "same_tables s0 s" using assms(1) by (simp_all add: on_core_def)
  obtain n q where q: "ready_queue s = n # q" using sleeper_has_successor [OF I(2)] assms(2,3) by auto
  obtain s' where s': "sleep s = Ok (s', n)" "sched_inv s'" "same_tables s s'" "current s' = Some n"
      "ready_queue s' = q" "asleep s' = insert c (asleep s)"
    using sleep_asleep [OF I(1) assms(2) q] .
  have "awake s' idle" using I(2) assms(2,3) s'(4,5) q by (auto simp: awake_def)
  then have "on_core idle s0 s'" using s' same_tables_trans [OF I(3) s'(3)] by (simp add: on_core_def)
  with s'(1,6) show ?thesis using that by blast
qed

lemma woken_on_core:
  assumes "on_core idle s0 s" and "sched_inv s'" and "same_tables s s'" and "current s' = current s"
    and "ready_queue s' = ready_queue s @ ts"
  shows "on_core idle s0 s'"
  using assms same_tables_trans [of s0 s s'] by (auto simp: on_core_def awake_def)

lemma unlock_on_core:
  assumes "on_core idle s0 s" and "set (rm_waiters m) \<subseteq> asleep s" and "distinct (rm_waiters m)"
  obtains s' where "mutex_unlock s m = Ok (s', m\<lparr>rm_is_locked := False, rm_waiters := []\<rparr>)" and "on_core idle s0 s'"
    and "current s' = current s" and "ready_queue s' = ready_queue s @ rm_waiters m"
    and "asleep s' = asleep s - set (rm_waiters m)"
proof -
  have I: "sched_inv s" using assms(1) by (simp add: on_core_def)
  obtain s' where s': "mutex_unlock s m = Ok (s', m\<lparr>rm_is_locked := False, rm_waiters := []\<rparr>)" "sched_inv s'" "same_tables s s'"
      "current s' = current s" "ready_queue s' = ready_queue s @ rm_waiters m" "asleep s' = asleep s - set (rm_waiters m)"
    using mutex_unlock_asleep [OF I assms(2,3)] .
  then show ?thesis using that woken_on_core [OF assms(1) s'(2-5)] by blast
qed

lemma notify_on_core:
  assumes "on_core idle s0 s" and "set (rc_waiters c) \<subseteq> asleep s" and "distinct (rc_waiters c)"
  obtains s' where "condvar_notify_all s c = Ok (s', c\<lparr>rc_waiters := []\<rparr>)" and "on_core idle s0 s'"
    and "current s' = current s" and "ready_queue s' = ready_queue s @ rc_waiters c"
    and "asleep s' = asleep s - set (rc_waiters c)"
proof -
  have I: "sched_inv s" using assms(1) by (simp add: on_core_def)
  obtain s' where s': "wake_all s (rc_waiters c) = Ok s'" "sched_inv s'" "same_tables s s'"
      "current s' = current s" "ready_queue s' = ready_queue s @ rc_waiters c" "asleep s' = asleep s - set (rc_waiters c)"
    using wake_all_asleep [OF I assms(2,3)] by blast
  then show ?thesis using that woken_on_core [OF assms(1) s'(2-5)] I by (simp add: condvar_notify_all_def)
qed

lemma condvar_wait_on_core:
  assumes "on_core idle s0 s" and "current s = Some c" and "c \<noteq> idle"
    and "set (rm_waiters m) \<subseteq> asleep s" and "distinct (rm_waiters m)"
  obtains s' n where "condvar_wait s cv m = Ok (s', cv\<lparr>rc_waiters := rc_waiters cv @ [c]\<rparr>, m\<lparr>rm_is_locked := False, rm_waiters := []\<rparr>, n)"
    and "on_core idle s0 s'" and "asleep s' = insert c (asleep s - set (rm_waiters m))"
proof -
  have I: "sched_inv s" "shaped s" using assms(1) by (simp_all add: on_core_def sched_inv_def)
  obtain s1 where s1: "mutex_unlock s m = Ok (s1, m\<lparr>rm_is_locked := False, rm_waiters := []\<rparr>)" "on_core idle s0 s1"
      "current s1 = current s" "asleep s1 = asleep s - set (rm_waiters m)"
    using unlock_on_core [OF assms(1,4,5)] by metis
  obtain s2 n where s2: "sleep s1 = Ok (s2, n)" "on_core idle s0 s2" "asleep s2 = insert c (asleep s1)"
    using sleep_on_core [OF s1(2) _ assms(3)] s1(3) assms(2) by metis
  have "condvar_wait s cv m = Ok (s2, cv\<lparr>rc_waiters := rc_waiters cv @ [c]\<rparr>, m\<lparr>rm_is_locked := False, rm_waiters := []\<rparr>, n)"
    using s1(1) s2(1) I assms(2) by (simp add: condvar_wait_def masked_guard current_Ok)
  with s2 s1(4) show ?thesis using that by metis
qed

lemma monitor_lock_cases:
  assumes inv: "monitor_inv idle s0 s mn h p" and c: "current s = Some c" and "c \<noteq> idle"
  shows "\<exists>s' mn' r. monitor_lock s mn = Ok (s', mn', r) \<and>
    (if h = None then r = Done () \<and> monitor_inv idle s0 s' mn' (current s) p
     else (\<exists>n. r = Blocked n) \<and> monitor_inv idle s0 s' mn' h p)"
proof (cases "h = None")
  case True
  have "sched_inv s" "\<not> rm_is_locked (mn_lock mn)" using inv True by (simp_all add: monitor_inv_def on_core_def)
  then have "monitor_lock s mn = Ok (s, mn\<lparr>mn_lock := (mn_lock mn)\<lparr>rm_is_locked := True\<rparr>\<rparr>, Done ())"
    using c by (simp add: monitor_lock_def mutex_lock_free)
  moreover have "monitor_inv idle s0 s (mn\<lparr>mn_lock := (mn_lock mn)\<lparr>rm_is_locked := True\<rparr>\<rparr>) (current s) p"
    using inv c assms(3) by (simp add: monitor_inv_def)
  ultimately show ?thesis using True by auto
next
  case False
  have I: "on_core idle s0 s" "sched_inv s" "rm_is_locked (mn_lock mn)" using inv False by (simp_all add: monitor_inv_def on_core_def)
  obtain s' n where s': "sleep s = Ok (s', n)" "on_core idle s0 s'" "asleep s' = insert c (asleep s)"
    using sleep_on_core [OF I(1) c assms(3)] .
  let ?mn = "mn\<lparr>mn_lock := (mn_lock mn)\<lparr>rm_waiters := lock_waiters mn @ [c]\<rparr>\<rparr>"
  have "monitor_lock s mn = Ok (s', ?mn, Blocked n)"
    using s'(1) by (simp add: monitor_lock_def mutex_lock_taken [OF I(2) c I(3)])
  moreover have "c \<notin> asleep s" using current_awake [OF I(2) c] .
  then have "monitor_inv idle s0 s' ?mn h p" using inv s' False by (auto simp: monitor_inv_def)
  ultimately show ?thesis using False by auto
qed

lemma monitor_wait_inv:
  assumes inv: "monitor_inv idle s0 s mn h p" and c: "h = current s" "mn_data mn"
  shows "\<exists>s' mn' t. monitor_wait s mn = Ok (s', mn', t) \<and> monitor_inv idle s0 s' mn' None p"
proof -
  have I: "on_core idle s0 s" "sched_inv s" "\<not> p" "set (lock_waiters mn) \<subseteq> asleep s" "distinct (lock_waiters mn)"
    using inv c(2) by (auto simp: monitor_inv_def on_core_def)
  obtain t where t: "current s = Some t" "t \<noteq> idle" "t \<notin> asleep s"
    using inv c(1) current_awake [OF I(2)] by (auto simp: monitor_inv_def on_core_def)
  let ?mn = "mn\<lparr>mn_cond := (mn_cond mn)\<lparr>rc_waiters := cond_waiters mn @ [t]\<rparr>,
    mn_lock := (mn_lock mn)\<lparr>rm_is_locked := False, rm_waiters := []\<rparr>\<rparr>"
  obtain s' n where s': "condvar_wait s (mn_cond mn) (mn_lock mn) = Ok (s', (mn_cond mn)\<lparr>rc_waiters := cond_waiters mn @ [t]\<rparr>,
      (mn_lock mn)\<lparr>rm_is_locked := False, rm_waiters := []\<rparr>, n)" "on_core idle s0 s'"
      "asleep s' = insert t (asleep s - set (lock_waiters mn))"
    using condvar_wait_on_core [OF I(1) t(1,2) I(4,5)] .
  have "monitor_wait s mn = Ok (s', ?mn, n)" using s'(1) by (simp add: monitor_wait_def)
  moreover have "monitor_inv idle s0 s' ?mn None p" using inv I(3) c t s' by (auto simp: monitor_inv_def)
  ultimately show ?thesis by blast
qed

lemma monitor_notify_inv:
  assumes inv: "monitor_inv idle s0 s mn h p" and c: "h = current s"
  shows "\<exists>s' mn'. monitor_notify_all s mn = Ok (s', mn') \<and> monitor_inv idle s0 s' mn' h False \<and> current s' = current s
    \<and> ready_queue s' = ready_queue s @ cond_waiters mn"
proof -
  have I: "on_core idle s0 s" "set (cond_waiters mn) \<subseteq> asleep s" "distinct (cond_waiters mn)"
    using inv by (auto simp: monitor_inv_def)
  obtain s' where s': "condvar_notify_all s (mn_cond mn) = Ok (s', (mn_cond mn)\<lparr>rc_waiters := []\<rparr>)" "on_core idle s0 s'"
      "current s' = current s" "ready_queue s' = ready_queue s @ cond_waiters mn" "asleep s' = asleep s - set (cond_waiters mn)"
    using notify_on_core [OF I] .
  then have "monitor_inv idle s0 s' (mn\<lparr>mn_cond := (mn_cond mn)\<lparr>rc_waiters := []\<rparr>\<rparr>) h False"
    using inv by (auto simp: monitor_inv_def)
  with s' show ?thesis by (simp add: monitor_notify_all_def)
qed

lemma monitor_unlock_inv:
  assumes inv: "monitor_inv idle s0 s mn h p" and c: "\<not> p"
  shows "\<exists>s' mn'. monitor_unlock s mn = Ok (s', mn') \<and> monitor_inv idle s0 s' mn' None p \<and> current s' = current s
    \<and> ready_queue s' = ready_queue s @ lock_waiters mn"
proof -
  have I: "on_core idle s0 s" "set (lock_waiters mn) \<subseteq> asleep s" "distinct (lock_waiters mn)"
    using inv by (auto simp: monitor_inv_def)
  obtain s' where s': "mutex_unlock s (mn_lock mn) = Ok (s', (mn_lock mn)\<lparr>rm_is_locked := False, rm_waiters := []\<rparr>)" "on_core idle s0 s'"
      "current s' = current s" "ready_queue s' = ready_queue s @ lock_waiters mn" "asleep s' = asleep s - set (lock_waiters mn)"
    using unlock_on_core [OF I] .
  then have "monitor_inv idle s0 s' (mn\<lparr>mn_lock := (mn_lock mn)\<lparr>rm_is_locked := False, rm_waiters := []\<rparr>\<rparr>) None p"
    using inv c by (auto simp: monitor_inv_def)
  with s' show ?thesis by (simp add: monitor_unlock_def)
qed

lemma monitor_reach_inv:
  assumes "monitor_reach idle s0 s mn h p" and "sched_inv s0" and "current s0 \<noteq> None" and "awake s0 idle"
  shows "monitor_inv idle s0 s mn h p"
  using assms
proof (induction rule: monitor_reach.induct)
  case start
  then show ?case by (simp add: monitor_inv_def on_core_def monitor_new_def mutex_new_def condvar_new_def)
next
  case (tick s mn h p s' t)
  then show ?case using tick_asleep [of idle s0 s s' t] by (simp add: monitor_inv_def)
next
  case (lock s mn h p s' mn')
  have "current s \<noteq> None" using lock by (simp add: monitor_inv_def on_core_def)
  with lock show ?case using monitor_lock_cases [of idle s0 s mn h p] by (auto split: if_splits)
next
  case (block s mn h p s' mn' t)
  have "current s \<noteq> None" using block by (simp add: monitor_inv_def on_core_def)
  with block show ?case using monitor_lock_cases [of idle s0 s mn h p] by (auto split: if_splits)
next
  case (wait s mn h p s' mn' t)
  then show ?case using monitor_wait_inv [of idle s0 s mn h p] by auto
next
  case (store s mn h p)
  then show ?case by (auto simp: monitor_inv_def on_core_def)
next
  case (notify s mn h p s' mn')
  then show ?case using monitor_notify_inv [of idle s0 s mn h p] by auto
next
  case (unlock s mn h p s' mn')
  then show ?case using monitor_unlock_inv [of idle s0 s mn h p] by auto
qed

lemma monitor_quiet: "monitor_inv idle s0 s mn None False \<Longrightarrow> \<not> mn_data mn \<Longrightarrow> asleep s = asleep s0"
  by (auto simp: monitor_inv_def)

text \<open>Marking as dead, on a monitor nobody holds.\<close>

lemma mark_dead_free:
  assumes "sched_inv s" and "current s = Some c" and "mn_lock mn = mutex_new"
    and "set (cond_waiters mn) \<subseteq> asleep s" and "distinct (cond_waiters mn)"
  obtains s' where "mark_dead s mn = Ok (s', monitor_new False, Done ())" and "sched_inv s'" and "same_tables s s'"
    and "current s' = current s" and "ready_queue s' = ready_queue s @ cond_waiters mn"
    and "asleep s' = asleep s - set (cond_waiters mn)"
proof -
  obtain s' where s': "wake_all s (cond_waiters mn) = Ok s'" "sched_inv s'" "same_tables s s'" "current s' = current s"
      "ready_queue s' = ready_queue s @ cond_waiters mn" "asleep s' = asleep s - set (cond_waiters mn)"
    using wake_all_asleep [OF assms(1,4,5)] by blast
  have "monitor_lock s mn = Ok (s, mn\<lparr>mn_lock := mutex_new\<lparr>rm_is_locked := True\<rparr>\<rparr>, Done ())"
    using mutex_lock_free [OF assms(1,2)] assms(3) by (simp add: monitor_lock_def mutex_new_def)
  then have "mark_dead s mn = Ok (s', monitor_new False, Done ())"
    using s'(1,2) assms(1) by (simp add: mark_dead_def monitor_notify_all_def condvar_notify_all_def monitor_unlock_def
        mutex_unlock_def monitor_new_def mutex_new_def condvar_new_def)
  with s' show ?thesis using that by blast
qed

lemma mark_dead_inv:
  assumes inv: "monitor_inv idle s0 s mn None False" and c: "current s = Some c" "c \<noteq> idle"
  shows "\<exists>s'. mark_dead s mn = Ok (s', monitor_new False, Done ()) \<and> monitor_inv idle s0 s' (monitor_new False) None False
    \<and> current s' = current s \<and> ready_queue s' = ready_queue s @ cond_waiters mn"
proof -
  have I: "on_core idle s0 s" "sched_inv s" "mn_lock mn = mutex_new" "set (cond_waiters mn) \<subseteq> asleep s" "distinct (cond_waiters mn)"
    using inv by (auto simp: monitor_inv_def on_core_def mutex_new_def)
  obtain s' where s': "mark_dead s mn = Ok (s', monitor_new False, Done ())" "sched_inv s'" "same_tables s s'" "current s' = current s"
      "ready_queue s' = ready_queue s @ cond_waiters mn" "asleep s' = asleep s - set (cond_waiters mn)"
    using mark_dead_free [OF I(2) c(1) I(3-5)] .
  have "monitor_inv idle s0 s' (monitor_new False) None False"
    using inv s'(6) woken_on_core [OF I(1) s'(2-5)] by (auto simp: monitor_inv_def monitor_new_def mutex_new_def condvar_new_def)
  with s' show ?thesis by blast
qed

lemma wait_live_inv:
  assumes inv: "monitor_inv idle s0 s mn None False" and c: "current s = Some c" "c \<noteq> idle"
  shows "\<exists>s' mn' r. wait_live s mn = Ok (s', mn', r) \<and> monitor_inv idle s0 s' mn' None False
    \<and> (if mn_data mn then (\<exists>n. r = Blocked n) else r = Done ())"
proof -
  have I: "sched_inv s" "\<not> rm_is_locked (mn_lock mn)" using inv by (simp_all add: monitor_inv_def on_core_def)
  let ?m1 = "mn\<lparr>mn_lock := (mn_lock mn)\<lparr>rm_is_locked := True\<rparr>\<rparr>"
  have l: "monitor_lock s mn = Ok (s, ?m1, Done ())" using mutex_lock_free [OF I(1) c(1) I(2)] by (simp add: monitor_lock_def)
  have i1: "monitor_inv idle s0 s ?m1 (current s) False" using inv c by (auto simp: monitor_inv_def)
  show ?thesis
  proof (cases "mn_data mn")
    case True
    then show ?thesis using monitor_wait_inv [OF i1] l by (auto simp: wait_live_def)
  next
    case False
    then show ?thesis using monitor_unlock_inv [OF i1] l by (auto simp: wait_live_def)
  qed
qed

text \<open>C25: monitors exclude each other and lose no wake-up. In every state reached by tasks that lock, wait,
  clear the data, notify and unlock, in any interleaving with the timer: a lock is granted only while
  nobody holds the monitor, and no call fails; every task put to sleep is registered, on the lock while
  somebody holds it or on the condition while the data is still set or the holder is about to notify;
  and the holder's unlock and notification return with all the tasks registered there in the ready queue.\<close>

theorem monitor_sound:
  assumes "sched_inv s0" and "current s0 \<noteq> None" and "awake s0 idle" and "monitor_reach idle s0 s mn h p"
  shows "(current s \<noteq> Some idle \<longrightarrow> (\<exists>s' mn' r. monitor_lock s mn = Ok (s', mn', r) \<and> (r = Done () \<longleftrightarrow> h = None)))
    \<and> (\<forall>t \<in> asleep s - asleep s0. t \<in> set (lock_waiters mn) \<and> h \<noteq> None \<or> t \<in> set (cond_waiters mn) \<and> (mn_data mn \<or> p \<and> h \<noteq> None))
    \<and> (h = current s \<and> \<not> p \<longrightarrow> (\<exists>s' mn'. monitor_unlock s mn = Ok (s', mn') \<and> set (lock_waiters mn) \<subseteq> set (ready_queue s')))
    \<and> (h = current s \<longrightarrow> (\<exists>s' mn'. monitor_notify_all s mn = Ok (s', mn') \<and> set (cond_waiters mn) \<subseteq> set (ready_queue s')))"
proof -
  have inv: "monitor_inv idle s0 s mn h p" by (rule monitor_reach_inv [OF assms(4,1-3)])
  then obtain c where c: "current s = Some c" by (auto simp: monitor_inv_def on_core_def)
  have "\<exists>s' mn' r. monitor_lock s mn = Ok (s', mn', r) \<and> (r = Done () \<longleftrightarrow> h = None)" if "current s \<noteq> Some idle"
    using monitor_lock_cases [OF inv c] that c by (auto split: if_splits)
  moreover have "\<forall>t \<in> asleep s - asleep s0. t \<in> set (lock_waiters mn) \<and> h \<noteq> None \<or> t \<in> set (cond_waiters mn) \<and> (mn_data mn \<or> p \<and> h \<noteq> None)"
  proof
    fix t assume "t \<in> asleep s - asleep s0"
    then have "t \<in> set (lock_waiters mn) \<or> t \<in> set (cond_waiters mn)" using inv by (auto simp: monitor_inv_def)
    moreover have "lock_waiters mn \<noteq> [] \<longrightarrow> h \<noteq> None" "cond_waiters mn \<noteq> [] \<longrightarrow> mn_data mn \<or> p" "p \<longrightarrow> h \<noteq> None"
      using inv by (simp_all add: monitor_inv_def)
    ultimately show "t \<in> set (lock_waiters mn) \<and> h \<noteq> None \<or> t \<in> set (cond_waiters mn) \<and> (mn_data mn \<or> p \<and> h \<noteq> None)"
      by (cases "lock_waiters mn"; cases "cond_waiters mn") auto
  qed
  ultimately show ?thesis using monitor_unlock_inv [OF inv] monitor_notify_inv [OF inv] by fastforce
qed

lemma demo_core: "current demo_sys \<noteq> None" "awake demo_sys 1" "current demo_sys \<noteq> Some 1"
  by (simp_all add: awake_def demo_inv(2,3))

theorem monitor_sound_witness:
  "\<exists>s1 m1 s2 s3 m3 n. monitor_lock demo_sys (monitor_new True) = Ok (s1, m1, Done ()) \<and> timer_tick s1 = Ok (s2, 2)
    \<and> monitor_lock s2 m1 = Ok (s3, m3, Blocked n)
    \<and> (\<forall>t \<in> asleep s3 - asleep demo_sys. t \<in> set (lock_waiters m3) \<or> t \<in> set (cond_waiters m3) \<and> mn_data m3)"
proof -
  let ?m1 = "(monitor_new True)\<lparr>mn_lock := mutex_new\<lparr>rm_is_locked := True\<rparr>\<rparr>"
  note sound = monitor_sound [OF demo_inv(1) demo_core(1,2)]
  have l: "monitor_lock demo_sys (monitor_new True) = Ok (demo_sys, ?m1, Done ())"
    using mutex_lock_free [OF demo_inv(1,2)] by (simp add: monitor_lock_def monitor_new_def mutex_new_def)
  have r1: "monitor_reach 1 demo_sys demo_sys ?m1 (Some 0) False"
    using monitor_reach.lock [OF monitor_reach.start demo_core(3) l] by (simp add: demo_inv(2))
  obtain s2 where s2: "timer_tick demo_sys = Ok (s2, 2)" "current s2 = Some 2"
    using tick_inv [OF demo_inv(1,2)] unfolding demo_inv(3) by auto
  have r2: "monitor_reach 1 demo_sys s2 ?m1 (Some 0) False" by (rule monitor_reach.tick [OF r1 s2(1)])
  have c2: "current s2 \<noteq> Some 1" using s2(2) by simp
  obtain s3 m3 r where "monitor_lock s2 ?m1 = Ok (s3, m3, r)" "r \<noteq> Done ()" using sound [OF r2] c2 by auto
  then obtain n where n: "monitor_lock s2 ?m1 = Ok (s3, m3, Blocked n)" by (cases r) auto
  have r3: "monitor_reach 1 demo_sys s3 m3 (Some 0) False" by (rule monitor_reach.block [OF r2 c2 n])
  from sound [OF this] have "\<forall>t \<in> asleep s3 - asleep demo_sys. t \<in> set (lock_waiters m3) \<or> t \<in> set (cond_waiters m3) \<and> mn_data m3"
    by simp
  with l s2(1) n show ?thesis by blast
qed

text \<open>C26: completion wakes everybody who waits for it. Whenever nobody holds the \<^verbatim>\<open>live\<close> monitor, marking the
  task or process dead runs to its end, puts all the tasks that wait for its completion in the ready queue
  and leaves nobody asleep on the monitor; a call of \<^verbatim>\<open>wait_for_completion\<close> returns at once when the flag
  is already cleared and goes to sleep otherwise.\<close>

theorem completion_wakes_waiters:
  assumes "sched_inv s0" and "current s0 \<noteq> None" and "awake s0 idle" and "monitor_reach idle s0 s mn None False"
    and "current s \<noteq> Some idle"
  shows "(\<exists>s' mn'. mark_dead s mn = Ok (s', mn', Done ()) \<and> \<not> mn_data mn' \<and> asleep s' = asleep s0
      \<and> ready_queue s' = ready_queue s @ cond_waiters mn)
    \<and> (\<exists>s' mn' r. wait_live s mn = Ok (s', mn', r) \<and> (r = Done () \<longleftrightarrow> \<not> mn_data mn))"
proof -
  have inv: "monitor_inv idle s0 s mn None False" by (rule monitor_reach_inv [OF assms(4,1-3)])
  then obtain c where c: "current s = Some c" "c \<noteq> idle" using assms(5) by (auto simp: monitor_inv_def on_core_def)
  show ?thesis using mark_dead_inv [OF inv c] wait_live_inv [OF inv c] monitor_quiet [of idle s0 _ "monitor_new False"]
    by (fastforce simp: monitor_new_def split: if_splits)
qed

theorem completion_wakes_waiters_witness:
  "\<exists>s1 m1. wait_live demo_sys (monitor_new True) = Ok (s1, m1, Blocked 2) \<and>
    (\<exists>s2 m2. mark_dead s1 m1 = Ok (s2, m2, Done ()) \<and> asleep s2 = asleep demo_sys \<and> ready_queue s2 = [1, 0])"
proof -
  let ?m1 = "(monitor_new True)\<lparr>mn_lock := mutex_new\<lparr>rm_is_locked := True\<rparr>\<rparr>"
  have l: "monitor_lock demo_sys (monitor_new True) = Ok (demo_sys, ?m1, Done ())"
    using mutex_lock_free [OF demo_inv(1,2)] by (simp add: monitor_lock_def monitor_new_def mutex_new_def)
  obtain s1 where s1: "sleep demo_sys = Ok (s1, 2)" "current s1 = Some 2" "ready_queue s1 = [1]"
    using sleep_inv [OF demo_inv] by metis
  let ?m2 = "(monitor_new True)\<lparr>mn_cond := \<lparr>rc_waiters = [0]\<rparr>\<rparr>"
  have w: "monitor_wait demo_sys ?m1 = Ok (s1, ?m2, 2)"
    using s1(1) demo_inv by (simp add: monitor_wait_def condvar_wait_def mutex_unlock_def masked_guard current_Ok sched_inv_def
        monitor_new_def mutex_new_def condvar_new_def)
  have r1: "monitor_reach 1 demo_sys demo_sys ?m1 (Some 0) False"
    using monitor_reach.lock [OF monitor_reach.start demo_core(3) l] by (simp add: demo_inv(2))
  have r2: "monitor_reach 1 demo_sys s1 ?m2 None False"
    by (rule monitor_reach.wait [OF r1 _ _ w]) (simp_all add: demo_inv(2) monitor_new_def)
  have c: "current s1 \<noteq> Some 1" using s1(2) by simp
  have "wait_live demo_sys (monitor_new True) = Ok (s1, ?m2, Blocked 2)"
    using l w by (simp add: wait_live_def monitor_new_def)
  with completion_wakes_waiters [OF demo_inv(1) demo_core(1,2) r2 c] s1(3) show ?thesis by auto
qed

end
