(* ===== verification/Ramfs.thy ===== *)
theory Ramfs
  imports Collections "HOL-Library.Sublist"
begin

text \<open>
  \<^verbatim>\<open>libs/vfs/src/ramfs.rs\<close>: the in-memory file tree. A directory is a \<open>btree\<close> of entries; a path is
  consumed one \<^verbatim>\<open>split_once('/')\<close> at a time. Serialisation is left to an external crate and is not
  modelled.
\<close>

section \<open>Entries\<close>

type_synonym byte = "8 word"

type_synonym file_data = "byte list"

datatype entry =
    EFile file_data
  | EDir "(string, entry) btree"
  | EMount usize

type_synonym dir = "(string, entry) btree"

definition as_file :: "entry \<Rightarrow> file_data option" where
  "as_file e = (case e of EFile f \<Rightarrow> Some f | _ \<Rightarrow> None)"

definition as_dir :: "entry \<Rightarrow> dir option" where
  "as_dir e = (case e of EDir d \<Rightarrow> Some d | _ \<Rightarrow> None)"

definition as_mnt :: "entry \<Rightarrow> usize option" where
  "as_mnt e = (case e of EMount key \<Rightarrow> Some key | _ \<Rightarrow> None)"

abbreviation slash :: char where
  "slash \<equiv> CHR ''/''"

text \<open>The \<^verbatim>\<open>match path.split_once('/')\<close> that opens \<^verbatim>\<open>get\<close>, \<^verbatim>\<open>insert\<close> and \<^verbatim>\<open>mount\<close>.\<close>

definition next_name :: "string \<Rightarrow> string \<times> string" where
  "next_name path = (case split_once slash path of Some x \<Rightarrow> x | None \<Rightarrow> (path, []))"

lemma next_name_shorter: "next_name path = (name, rest) \<Longrightarrow> rest \<noteq> [] \<Longrightarrow> length rest < length path"
  by (auto simp: next_name_def split_once_Some split: option.splits)

section \<open>Directories\<close>

function dir_get :: "dir \<Rightarrow> string \<Rightarrow> entry option" where
  "dir_get d path =
     (let (name, path') = next_name path in
      if \<not> bt_contains_key d name then None
      else case (bt_get d name, path') of
        (Some entry, []) \<Rightarrow> Some entry
      | (Some (EDir d'), _) \<Rightarrow> dir_get d' path'
      | _ \<Rightarrow> None)"
  by pat_completeness auto
termination
  by (relation "measure (\<lambda>(d, path). length path)") (auto dest!: next_name_shorter [OF sym])

definition dir_entries :: "dir \<Rightarrow> string list" where
  "dir_entries d = bt_keys d"

text \<open>\<^verbatim>\<open>insert\<close> and \<^verbatim>\<open>mount\<close> have the same body but for the entry they leave at the end of the path.\<close>

function dir_place :: "entry \<Rightarrow> dir \<Rightarrow> string \<Rightarrow> dir res" where
  "dir_place e d path =
     (let (name, path') = next_name path in
      if path' = [] then
        rbind (rassert (\<not> bt_contains_key d name)) (\<lambda>_. Ok (bt_insert name e d))
      else
        case bt_get d name of
          Some (EDir d') \<Rightarrow> rbind (dir_place e d' path') (\<lambda>d''. Ok (bt_insert name (EDir d'') d))
        | Some _ \<Rightarrow> Panic Unreachable
        | None \<Rightarrow> rbind (dir_place e bt_new path') (\<lambda>d''. Ok (bt_insert name (EDir d'') d)))"
  by pat_completeness auto
termination
  by (relation "measure (\<lambda>(e, d, path). length path)") (auto dest!: next_name_shorter [OF sym])

declare dir_get.simps [simp del] dir_place.simps [simp del]

definition dir_insert :: "dir \<Rightarrow> string \<Rightarrow> file_data \<Rightarrow> dir res" where
  "dir_insert d path f = dir_place (EFile f) d path"

definition dir_mount :: "dir \<Rightarrow> string \<Rightarrow> usize \<Rightarrow> dir res" where
  "dir_mount d path key = dir_place (EMount key) d path"

section \<open>The file system\<close>

record ramfs =
  rf_root :: entry

definition ramfs_new :: ramfs where
  "ramfs_new = \<lparr>rf_root = EDir bt_new\<rparr>"

definition ramfs_get :: "ramfs \<Rightarrow> string \<Rightarrow> entry option res" where
  "ramfs_get fs path =
     rbind (rassert (starts_with slash path)) (\<lambda>_.
     case strip_prefix slash path of
       None \<Rightarrow> Ok None
     | Some path' \<Rightarrow>
         if path' = [] then Ok (Some (rf_root fs))
         else rbind (unwrap (as_dir (rf_root fs))) (\<lambda>d. Ok (dir_get d path')))"

text \<open>\<^verbatim>\<open>Result<(), ()>\<close> is a boolean.\<close>

definition ramfs_mount :: "ramfs \<Rightarrow> string \<Rightarrow> usize \<Rightarrow> (ramfs \<times> bool) res" where
  "ramfs_mount fs path key =
     rbind (rassert (starts_with slash path)) (\<lambda>_.
     case strip_prefix slash path of
       None \<Rightarrow> Ok (fs, False)
     | Some path' \<Rightarrow>
         (case rf_root fs of
            EDir d \<Rightarrow> rbind (dir_mount d path' key) (\<lambda>d'. Ok (fs\<lparr>rf_root := EDir d'\<rparr>, True))
          | _ \<Rightarrow> Ok (fs, False)))"

definition ramfs_insert :: "ramfs \<Rightarrow> string \<Rightarrow> file_data \<Rightarrow> ramfs res" where
  "ramfs_insert fs path f =
     rbind (rassert (starts_with slash path)) (\<lambda>_.
     rbind (unwrap (strip_prefix slash path)) (\<lambda>path'.
     case rf_root fs of
       EDir d \<Rightarrow> rbind (dir_insert d path' f) (\<lambda>d'. Ok (fs\<lparr>rf_root := EDir d'\<rparr>))
     | _ \<Rightarrow> Panic Unreachable))"

section \<open>Paths as lists of names\<close>

text \<open>The names a path visits: a single trailing slash is ignored, any other empty name counts.\<close>

function names :: "string \<Rightarrow> string list" where
  "names path = (let (name, path') = next_name path in if path' = [] then [name] else name # names path')"
  by pat_completeness auto
termination
  by (relation "measure length") (auto dest!: next_name_shorter [OF sym])

declare names.simps [simp del]

fun lookup :: "dir \<Rightarrow> string list \<Rightarrow> entry option" where
  "lookup d [] = Some (EDir d)"
| "lookup d [n] = bt_get d n"
| "lookup d (n # ns) = (case bt_get d n of Some (EDir d') \<Rightarrow> lookup d' ns | _ \<Rightarrow> None)"

lemma names_Nil [simp]: "names p \<noteq> []"
  by (subst names.simps) (simp add: Let_def split: prod.splits)

lemma lookup_Cons: "ns \<noteq> [] \<Longrightarrow> lookup d (n # ns) = (case bt_get d n of Some (EDir d') \<Rightarrow> lookup d' ns | _ \<Rightarrow> None)"
  by (cases ns) (simp_all split: option.split entry.split)

lemma dir_get_lookup: "dir_get d path = lookup d (names path)"
proof (induction d path rule: dir_get.induct)
  case (1 d path)
  obtain name rest where n: "next_name path = (name, rest)" by (cases "next_name path")
  show ?case
  proof (cases "rest = []")
    case False
    then show ?thesis using 1 [OF n [symmetric]] n
      by (subst dir_get.simps, subst names.simps)
        (auto simp: lookup_Cons bt_contains_key_def split: option.splits entry.splits list.splits)
  qed (subst dir_get.simps, subst names.simps, simp add: n bt_contains_key_def split: option.split entry.split)
qed

text \<open>What \<^verbatim>\<open>insert\<close> and \<^verbatim>\<open>mount\<close> do to the tree: it is refused when a directory of the path is something
  else or the last name is taken; otherwise only lookups of the path and of its ancestors change.\<close>

fun can_place :: "dir \<Rightarrow> string list \<Rightarrow> bool" where
  "can_place d [] = False"
| "can_place d [n] = (bt_get d n = None)"
| "can_place d (n # ns) =
     (case bt_get d n of Some (EDir d') \<Rightarrow> can_place d' ns | Some _ \<Rightarrow> False | None \<Rightarrow> True)"

lemma can_place_Cons: "ns \<noteq> [] \<Longrightarrow> can_place d (n # ns) =
     (case bt_get d n of Some (EDir d') \<Rightarrow> can_place d' ns | Some _ \<Rightarrow> False | None \<Rightarrow> True)"
  by (cases ns) (simp_all split: option.split entry.split)

definition leaf_entry :: "entry \<Rightarrow> bool" where
  "leaf_entry e \<longleftrightarrow> as_dir e = None"

lemma leaf_entry_iff: "leaf_entry e \<longleftrightarrow> (\<forall>d. e \<noteq> EDir d)"
  by (cases e) (simp_all add: leaf_entry_def as_dir_def)

text \<open>The directory that takes the place of what is at a name, when a path leads through it.\<close>

definition sub_dir :: "dir \<Rightarrow> string \<Rightarrow> dir" where
  "sub_dir d n = (case bt_get d n of Some (EDir d') \<Rightarrow> d' | _ \<Rightarrow> bt_new)"

definition placed :: "entry \<Rightarrow> dir \<Rightarrow> string list \<Rightarrow> dir \<Rightarrow> bool" where
  "placed e d ns d' \<longleftrightarrow> lookup d' ns = Some e
     \<and> (\<forall>ms. strict_prefix ms ns \<longrightarrow> (\<exists>dd. lookup d' ms = Some (EDir dd)))
     \<and> (\<forall>ms. \<not> prefix ms ns \<longrightarrow> lookup d' ms = lookup d ms)"

lemma lookup_new [simp]: "ns \<noteq> [] \<Longrightarrow> lookup bt_new ns = None"
  by (cases ns; cases "tl ns") auto

lemma can_place_new [simp]: "ns \<noteq> [] \<Longrightarrow> can_place bt_new ns"
  by (cases ns; cases "tl ns") auto

lemma placed_last:
  assumes "leaf_entry e" and "bt_get d n = None"
  shows "placed e d [n] (bt_insert n e d)"
proof -
  have "lookup (bt_insert n e d) ms = lookup d ms" if "\<not> prefix ms [n]" for ms
  proof (cases ms)
    case (Cons m ms')
    then show ?thesis using that assms
      by (cases ms') (auto simp: leaf_entry_def as_dir_def split: entry.splits)
  qed (use that in simp)
  then show ?thesis by (auto simp: placed_def strict_prefix_def prefix_Cons)
qed

lemma placed_step:
  assumes "placed e (sub_dir d n) ns d''" and "ns \<noteq> []" and "can_place d (n # ns)"
  shows "placed e d (n # ns) (bt_insert n (EDir d'') d)"
proof -
  have l: "lookup (bt_insert n (EDir d'') d) (n # ms) = lookup d'' ms" if "ms \<noteq> []" for ms
    using that by (simp add: lookup_Cons)
  have "lookup (bt_insert n (EDir d'') d) ms = lookup d ms" if np: "\<not> prefix ms (n # ns)" for ms
  proof (cases ms)
    case (Cons m ms')
    show ?thesis
    proof (cases "m = n")
      case True
      then have m: "ms' \<noteq> []" "\<not> prefix ms' ns" using np Cons by auto
      then have "lookup d (n # ms') = lookup (sub_dir d n) ms'"
        using assms(2,3) by (auto simp: lookup_Cons sub_dir_def can_place_Cons split: option.splits entry.splits)
      then show ?thesis using m True Cons l assms(1) by (simp add: placed_def)
    next
      case False
      then show ?thesis using Cons by (cases ms') simp_all
    qed
  qed (use np in simp)
  moreover have "\<exists>dd. lookup (bt_insert n (EDir d'') d) ms = Some (EDir dd)" if sp: "strict_prefix ms (n # ns)" for ms
  proof (cases ms)
    case (Cons m ms')
    then have "m = n" "strict_prefix ms' ns" using sp by auto
    then show ?thesis using Cons assms(1) l [of ms'] by (cases "ms' = []") (auto simp: placed_def)
  qed simp
  ultimately show ?thesis using assms(1,2) l by (simp add: placed_def)
qed

lemma dir_place_cases:
  assumes "leaf_entry e"
  shows "if can_place d (names path) then \<exists>d'. dir_place e d path = Ok d' \<and> placed e d (names path) d'
    else \<exists>f. dir_place e d path = Panic f"
  using assms
proof (induction e d path rule: dir_place.induct)
  case (1 e d path)
  obtain n rest where n: "next_name path = (n, rest)" by (cases "next_name path")
  show ?case
  proof (cases "rest = []")
    case True
    then have "names path = [n]" by (subst names.simps) (simp add: n)
    moreover have "dir_place e d path = rbind (rassert (\<not> bt_contains_key d n)) (\<lambda>_. Ok (bt_insert n e d))"
      using True by (subst dir_place.simps) (simp add: n)
    ultimately show ?thesis
      using placed_last [OF "1.prems"] by (simp add: bt_contains_key_def rassert_def)
  next
    case False
    then have ns: "names path = n # names rest" by (subst names.simps) (simp add: n)
    show ?thesis
    proof (cases "\<exists>e'. bt_get d n = Some e' \<and> leaf_entry e'")
      case True
      then obtain e' where e': "bt_get d n = Some e'" "\<forall>d'. e' \<noteq> EDir d'" by (auto simp: leaf_entry_iff)
      then have "dir_place e d path = Panic Unreachable"
        using False by (subst dir_place.simps) (simp add: n split: entry.split)
      then show ?thesis using e' ns by (simp add: can_place_Cons split: entry.split)
    next
      case dirs: False
      then have eq: "dir_place e d path = rbind (dir_place e (sub_dir d n) rest) (\<lambda>d''. Ok (bt_insert n (EDir d'') d))"
        using False by (subst dir_place.simps) (auto simp: n sub_dir_def leaf_entry_def as_dir_def split: option.splits entry.splits)
      have cp: "can_place d (names path) \<longleftrightarrow> can_place (sub_dir d n) (names rest)"
        using dirs ns by (auto simp: can_place_Cons sub_dir_def leaf_entry_def as_dir_def split: option.splits entry.splits)
      have IH: "if can_place (sub_dir d n) (names rest)
          then \<exists>d'. dir_place e (sub_dir d n) rest = Ok d' \<and> placed e (sub_dir d n) (names rest) d'
          else \<exists>f. dir_place e (sub_dir d n) rest = Panic f"
      proof (cases "bt_get d n")
        case None
        then show ?thesis using "1.IH"(1) [OF n [symmetric] refl False None "1.prems"] by (simp add: sub_dir_def)
      next
        case (Some e')
        then obtain d' where "bt_get d n = Some (EDir d')" using dirs by (cases e') (auto simp: leaf_entry_def as_dir_def)
        then show ?thesis using "1.IH"(2) [OF n [symmetric] refl False _ refl "1.prems"] by (simp add: sub_dir_def)
      qed
      show ?thesis
      proof (cases "can_place d (names path)")
        case True
        then obtain d' where d': "dir_place e (sub_dir d n) rest = Ok d'" "placed e (sub_dir d n) (names rest) d'"
          using IH cp by auto
        then show ?thesis using True placed_step [OF d'(2) names_Nil] eq ns by simp
      qed (use IH cp eq in auto)
    qed
  qed
qed

lemma can_place_iff:
  "can_place d ns \<longleftrightarrow> ns \<noteq> [] \<and> lookup d ns = None
     \<and> (\<forall>ms e. strict_prefix ms ns \<longrightarrow> lookup d ms = Some e \<longrightarrow> (\<exists>dd. e = EDir dd))"
proof (induction d ns rule: can_place.induct)
  case (2 d n)
  then show ?case by (auto simp: strict_prefix_def prefix_Cons)
next
  case (3 d n m ns)
  have sp: "strict_prefix ms (n # m # ns) \<longleftrightarrow> ms = [] \<or> (\<exists>ms'. ms = n # ms' \<and> strict_prefix ms' (m # ns))" for ms
    by (cases ms) auto
  show ?case
  proof (cases "bt_get d n")
    case None
    then have "lookup d (n # ms) = None" for ms by (cases ms) simp_all
    then show ?thesis using None by (auto simp: sp)
  next
    case (Some e)
    show ?thesis
    proof (cases e)
      case (EDir d')
      have "(\<forall>ms e. strict_prefix ms (n # m # ns) \<longrightarrow> lookup d ms = Some e \<longrightarrow> (\<exists>dd. e = EDir dd))
          \<longleftrightarrow> (\<forall>ms e. strict_prefix ms (m # ns) \<longrightarrow> lookup d' ms = Some e \<longrightarrow> (\<exists>dd. e = EDir dd))" (is "?L \<longleftrightarrow> ?R")
      proof
        assume L: ?L
        show ?R
        proof (intro allI impI)
          fix ms e' assume ms: "strict_prefix ms (m # ns)" "lookup d' ms = Some e'"
          then have "lookup d (n # ms) = Some e'" using Some EDir by (cases ms) simp_all
          with ms L sp show "\<exists>dd. e' = EDir dd" by blast
        qed
      next
        assume R: ?R
        show ?L
        proof (intro allI impI)
          fix ms e' assume ms: "strict_prefix ms (n # m # ns)" "lookup d ms = Some e'"
          then consider "ms = []" | ms' where "ms = n # ms'" "strict_prefix ms' (m # ns)" using sp by blast
          then show "\<exists>dd. e' = EDir dd"
          proof cases
            case 2
            have "lookup d' ms' = Some e'" using ms Some EDir 2(1) by (cases ms') simp_all
            with R 2(2) show ?thesis by blast
          qed (use ms in auto)
        qed
      qed
      then show ?thesis using 3 [OF Some EDir] Some EDir by simp
    next
      case (EFile f)
      then have "\<exists>ms e. strict_prefix ms (n # m # ns) \<and> lookup d ms = Some e \<and> (\<forall>dd. e \<noteq> EDir dd)"
        using Some by (intro exI [of _ "[n]"]) auto
      then show ?thesis using Some EFile by auto
    next
      case (EMount k)
      then have "\<exists>ms e. strict_prefix ms (n # m # ns) \<and> lookup d ms = Some e \<and> (\<forall>dd. e \<noteq> EDir dd)"
        using Some by (intro exI [of _ "[n]"]) auto
      then show ?thesis using Some EMount by auto
    qed
  qed
qed simp

lemma ramfs_get_Cons: "q \<noteq> [] \<Longrightarrow> rf_root fs = EDir d \<Longrightarrow> ramfs_get fs (slash # q) = Ok (lookup d (names q))"
  by (simp add: ramfs_get_def as_dir_def dir_get_lookup)

lemma ramfs_place_cases:
  assumes "leaf_entry e"
  shows "(\<exists>d'. dir_place e d p = Ok d' \<and> placed e d (names p) d') \<and> can_place d (names p)
    \<or> (\<exists>f. dir_place e d p = Panic f) \<and> \<not> can_place d (names p)"
  using dir_place_cases [OF assms, of d p] by (auto split: if_splits)

section \<open>Properties\<close>

text \<open>C21: the file tree stores what it is given and nothing else moves. \<^verbatim>\<open>RamFS::insert\<close> succeeds
  exactly when the path is free and every existing ancestor is a directory. Then looking the path up gives the
  file, every ancestor is a directory, and every lookup that is neither the path nor an ancestor of it
  is what it was before.\<close>

theorem ramfs_insert_get:
  assumes "rf_root fs = EDir d" and "p \<noteq> []"
  shows "case ramfs_insert fs (slash # p) f of
      Panic _ \<Rightarrow> lookup d (names p) \<noteq> None \<or> (\<exists>ns e. strict_prefix ns (names p) \<and> lookup d ns = Some e \<and> (\<forall>dd. e \<noteq> EDir dd))
    | Ok fs' \<Rightarrow> lookup d (names p) = None
      \<and> (\<forall>ns e. strict_prefix ns (names p) \<longrightarrow> lookup d ns = Some e \<longrightarrow> (\<exists>dd. e = EDir dd))
      \<and> ramfs_get fs' (slash # p) = Ok (Some (EFile f))
      \<and> (\<forall>q. q \<noteq> [] \<longrightarrow> strict_prefix (names q) (names p) \<longrightarrow> (\<exists>dd. ramfs_get fs' (slash # q) = Ok (Some (EDir dd))))
      \<and> (\<forall>q. q \<noteq> [] \<longrightarrow> \<not> prefix (names q) (names p) \<longrightarrow> ramfs_get fs' (slash # q) = ramfs_get fs (slash # q))"
proof -
  have leaf: "leaf_entry (EFile f)" by (simp add: leaf_entry_iff)
  have eq: "ramfs_insert fs (slash # p) f = rbind (dir_place (EFile f) d p) (\<lambda>d'. Ok (fs\<lparr>rf_root := EDir d'\<rparr>))"
    by (simp add: ramfs_insert_def assms(1) dir_insert_def)
  from ramfs_place_cases [OF leaf, of d p] show ?thesis
  proof (elim disjE exE conjE)
    fix d' assume d': "dir_place (EFile f) d p = Ok d'" "placed (EFile f) d (names p) d'" "can_place d (names p)"
    have "ramfs_get (fs\<lparr>rf_root := EDir d'\<rparr>) (slash # q) = Ok (lookup d' (names q))" if "q \<noteq> []" for q
      using that by (intro ramfs_get_Cons) simp_all
    then show ?thesis
      using d' assms ramfs_get_Cons [OF _ assms(1)] by (auto simp: eq placed_def can_place_iff)
  next
    fix g assume g: "dir_place (EFile f) d p = Panic g" "\<not> can_place d (names p)"
    show ?thesis using g(2) unfolding eq g(1) can_place_iff by auto
  qed
qed

theorem ramfs_insert_get_witness:
  "\<exists>fs'. ramfs_insert ramfs_new ''/etc/motd'' [72, 105] = Ok fs' \<and> ramfs_get fs' ''/etc/motd'' = Ok (Some (EFile [72, 105]))
    \<and> ramfs_get fs' ''/etc/passwd'' = ramfs_get ramfs_new ''/etc/passwd''"
proof -
  have n: "names ''etc/motd'' = [''etc'', ''motd'']" "names ''etc/passwd'' = [''etc'', ''passwd'']" by code_simp+
  have r: "rf_root ramfs_new = EDir bt_new" "''etc/motd'' \<noteq> []" by (simp_all add: ramfs_new_def)
  have "lookup bt_new ns = Some e \<Longrightarrow> e = EDir bt_new" for ns e by (cases "ns = []") auto
  moreover have "lookup bt_new (names ''etc/motd'') = None" by simp
  moreover have "\<not> prefix (names ''etc/passwd'') (names ''etc/motd'')" unfolding n by simp
  ultimately show ?thesis
    using ramfs_insert_get [OF r, of "[72, 105]"] by (cases "ramfs_insert ramfs_new ''/etc/motd'' [72, 105]") auto
qed

end
