(* ===== verification/Vfs.thy ===== *)
theory Vfs
  imports Ramfs Interrupts
begin

text \<open>
  The virtual file system: \<^verbatim>\<open>libs/vfs\<close>, \<^verbatim>\<open>modules/vfs\<close> and \<^verbatim>\<open>modules/dev\<close>. The two
  implementations of the \<^verbatim>\<open>FileSystem\<close> trait are the constructors of \<open>file_system\<close>; their operations
  dispatch on it. The globals of the two modules are the record \<open>vfs\<close>; \<open>vf_proc\<close> is the state of the
  current process. A device is the record of its operations over a world of type \<open>'w\<close>. Operations that
  write into a caller's buffer return the new buffer.
\<close>

section \<open>State\<close>

datatype file_system = RootFS | DevFS

record node =
  nd_name :: string
  nd_path :: string
  nd_fs :: file_system
  nd_mount :: "usize option"
  nd_block :: usize
  nd_offset :: usize

record stat =
  st_fs :: file_system
  st_mount :: "usize option"
  st_is_dir :: bool

record mount_point =
  mp_parent :: node
  mp_root :: node
  mp_dev :: usize
  mp_fs :: file_system

record file_descriptor =
  fd_node :: node
  fd_offset :: usize

record proc_data =
  pd_nodes :: "file_descriptor option list"
  pd_cwd :: string
  pd_files :: usize

record 'w device =
  dv_name :: string
  dv_read :: "usize \<Rightarrow> byte list \<Rightarrow> 'w \<Rightarrow> (usize option \<times> byte list \<times> 'w) res"
  dv_write :: "usize \<Rightarrow> byte list \<Rightarrow> 'w \<Rightarrow> (usize option \<times> 'w) res"

record 'w vfs =
  vf_ramfs :: ramfs
  vf_initialized :: bool
  vf_devices :: "(string, 'w device) btree"
  vf_mounts :: "mount_point option list"
  vf_systems :: "(string, file_system) btree"
  vf_proc :: "proc_data option"
  vf_world :: 'w

definition child_path :: "node \<Rightarrow> string \<Rightarrow> string" where
  "child_path parent name = nd_path parent @ slash # name"

section \<open>The root file system\<close>

definition root_node :: node where
  "root_node = \<lparr>nd_name = ''/'', nd_path = [], nd_fs = RootFS, nd_mount = None, nd_block = 0, nd_offset = 0\<rparr>"

definition rootfs_init :: "'w vfs \<Rightarrow> ramfs \<Rightarrow> 'w vfs res" where
  "rootfs_init s fs =
     (if vf_initialized s then Ok s
      else
        let s1 = s\<lparr>vf_initialized := True\<rparr> in
        rbind (ramfs_get fs ''/etc'') (\<lambda>etc.
        rbind (rassert (etc \<noteq> None)) (\<lambda>_.
        let s2 = s1\<lparr>vf_ramfs := fs\<rparr> in
        rbind (rassert (vf_initialized s2)) (\<lambda>_.
        Ok (s2\<lparr>vf_systems := bt_insert ''rootfs'' RootFS (vf_systems s2)\<rparr>)))))"

definition rootfs_stat :: "'w vfs \<Rightarrow> node \<Rightarrow> string \<Rightarrow> stat option res" where
  "rootfs_stat s parent name =
     rbind (rassert (vf_initialized s)) (\<lambda>_.
     rbind (ramfs_get (vf_ramfs s) (child_path parent name)) (\<lambda>r.
     Ok (map_option (\<lambda>e. \<lparr>st_fs = RootFS, st_mount = as_mnt e, st_is_dir = as_dir e \<noteq> None\<rparr>) r)))"

definition rootfs_open :: "'w vfs \<Rightarrow> node \<Rightarrow> string \<Rightarrow> node option res" where
  "rootfs_open s parent fname =
     (let path = child_path parent fname in
      rbind (ramfs_get (vf_ramfs s) path) (\<lambda>r.
      Ok (map_option (\<lambda>e. \<lparr>nd_name = fname, nd_path = path, nd_fs = RootFS, nd_mount = as_mnt e,
            nd_block = 0, nd_offset = 0\<rparr>) r)))"

definition rootfs_read :: "'w vfs \<Rightarrow> node \<Rightarrow> usize \<Rightarrow> byte list \<Rightarrow> (usize option \<times> byte list) res" where
  "rootfs_read s node offset buf =
     rbind (ramfs_get (vf_ramfs s) (nd_path node)) (\<lambda>r.
     case Option.bind r as_file of
       None \<Rightarrow> Ok (None, buf)
     | Some f \<Rightarrow>
         if length f \<le> offset then Ok (Some 0, buf)
         else
           rbind (uadd offset (length buf)) (\<lambda>n.
           let start = offset; e = min (length f) n; bytes = e - start in
           Ok (Some bytes, take bytes (drop start f) @ drop bytes buf)))"

definition rootfs_read_dir :: "'w vfs \<Rightarrow> node \<Rightarrow> string list option res" where
  "rootfs_read_dir s node =
     rbind (ramfs_get (vf_ramfs s) (if nd_path node = [] then ''/'' else nd_path node)) (\<lambda>r.
     Ok (map_option dir_entries (Option.bind r as_dir)))"

definition rootfs_mount :: "'w vfs \<Rightarrow> node \<Rightarrow> string \<Rightarrow> usize \<Rightarrow> ('w vfs \<times> node option) res" where
  "rootfs_mount s parent name key =
     (let path = child_path parent name in
      rbind (ramfs_mount (vf_ramfs s) path key) (\<lambda>(fs, done).
      let s1 = s\<lparr>vf_ramfs := fs\<rparr> in
      Ok (s1, if done then Some \<lparr>nd_name = name, nd_path = path, nd_fs = RootFS, nd_mount = Some key,
                nd_block = 0, nd_offset = 0\<rparr> else None)))"

section \<open>The device file system\<close>

definition dev_register :: "bool \<Rightarrow> 'w vfs \<Rightarrow> 'w device \<Rightarrow> ('w vfs \<times> int) res" where
  "dev_register privileged s dev =
     rbind (rassert privileged) (\<lambda>_. Ok (s\<lparr>vf_devices := bt_insert (dv_name dev) dev (vf_devices s)\<rparr>, 0))"

definition devfs_stat :: "'w vfs \<Rightarrow> node \<Rightarrow> string \<Rightarrow> stat option res" where
  "devfs_stat s parent name =
     (if nd_path parent \<noteq> ''/dev'' then Ok None
      else if \<not> bt_contains_key (vf_devices s) name then Ok None
      else Ok (Some \<lparr>st_fs = DevFS, st_mount = None, st_is_dir = False\<rparr>))"

definition devfs_open :: "'w vfs \<Rightarrow> node \<Rightarrow> string \<Rightarrow> node option res" where
  "devfs_open s parent fname =
     (if \<not> bt_contains_key (vf_devices s) fname then Ok None
      else Ok (Some \<lparr>nd_name = fname, nd_path = child_path parent fname, nd_fs = DevFS, nd_mount = None,
                 nd_block = 0, nd_offset = 0\<rparr>))"

definition devfs_read :: "'w vfs \<Rightarrow> node \<Rightarrow> usize \<Rightarrow> byte list \<Rightarrow> ('w vfs \<times> usize option \<times> byte list) res" where
  "devfs_read s node offset buf =
     (if \<not> bt_contains_key (vf_devices s) (nd_name node) then Ok (s, None, buf)
      else rbind (bt_index (vf_devices s) (nd_name node)) (\<lambda>dev.
           rbind (dv_read dev offset buf (vf_world s)) (\<lambda>(r, buf', w). Ok (s\<lparr>vf_world := w\<rparr>, r, buf'))))"

definition devfs_write :: "'w vfs \<Rightarrow> node \<Rightarrow> usize \<Rightarrow> byte list \<Rightarrow> ('w vfs \<times> usize option) res" where
  "devfs_write s node offset buf =
     (if \<not> bt_contains_key (vf_devices s) (nd_name node) then Ok (s, None)
      else rbind (bt_index (vf_devices s) (nd_name node)) (\<lambda>dev.
           rbind (dv_write dev offset buf (vf_world s)) (\<lambda>(r, w). Ok (s\<lparr>vf_world := w\<rparr>, r))))"

definition devfs_read_dir :: "'w vfs \<Rightarrow> node \<Rightarrow> string list option res" where
  "devfs_read_dir s node = (if nd_path node = ''/dev'' then Ok (Some (bt_keys (vf_devices s))) else Ok None)"

section \<open>Dispatch\<close>

definition fs_stat :: "'w vfs \<Rightarrow> node \<Rightarrow> string \<Rightarrow> stat option res" where
  "fs_stat s parent name =
     (case nd_fs parent of RootFS \<Rightarrow> rootfs_stat s parent name | DevFS \<Rightarrow> devfs_stat s parent name)"

definition fs_open :: "'w vfs \<Rightarrow> node \<Rightarrow> string \<Rightarrow> node option res" where
  "fs_open s parent name =
     (case nd_fs parent of RootFS \<Rightarrow> rootfs_open s parent name | DevFS \<Rightarrow> devfs_open s parent name)"

definition fs_read :: "'w vfs \<Rightarrow> node \<Rightarrow> usize \<Rightarrow> byte list \<Rightarrow> ('w vfs \<times> usize option \<times> byte list) res" where
  "fs_read s node offset buf =
     (case nd_fs node of
        RootFS \<Rightarrow> rbind (rootfs_read s node offset buf) (\<lambda>(r, buf'). Ok (s, r, buf'))
      | DevFS \<Rightarrow> devfs_read s node offset buf)"

definition fs_write :: "'w vfs \<Rightarrow> node \<Rightarrow> usize \<Rightarrow> byte list \<Rightarrow> ('w vfs \<times> usize option) res" where
  "fs_write s node offset buf =
     (case nd_fs node of RootFS \<Rightarrow> Panic Unimplemented | DevFS \<Rightarrow> devfs_write s node offset buf)"

definition fs_read_dir :: "'w vfs \<Rightarrow> node \<Rightarrow> string list option res" where
  "fs_read_dir s node = (case nd_fs node of RootFS \<Rightarrow> rootfs_read_dir s node | DevFS \<Rightarrow> devfs_read_dir s node)"

definition fs_mount :: "'w vfs \<Rightarrow> node \<Rightarrow> string \<Rightarrow> usize \<Rightarrow> ('w vfs \<times> node option) res" where
  "fs_mount s parent name key =
     (case nd_fs parent of RootFS \<Rightarrow> rootfs_mount s parent name key | DevFS \<Rightarrow> Panic Unimplemented)"

section \<open>Path resolution\<close>

function vfs_locate_node :: "'w vfs \<Rightarrow> node \<Rightarrow> string \<Rightarrow> (node \<times> string) option res" where
  "vfs_locate_node s parent path =
     rbind (rassert (\<not> starts_with slash path)) (\<lambda>_.
     let (entry, remaining_path) = next_name path in
     rbind (fs_stat s parent entry) (\<lambda>r.
     case r of
       None \<Rightarrow> Ok None
     | Some st \<Rightarrow>
         if remaining_path = [] then Ok (Some (parent, entry))
         else if st_is_dir st then
           vfs_locate_node s (parent\<lparr>nd_name := entry, nd_path := child_path parent entry\<rparr>) remaining_path
         else case st_mount st of
           Some mnt \<Rightarrow>
             rbind (idx (vf_mounts s) mnt) (\<lambda>m.
             case m of
               None \<Rightarrow> Ok None
             | Some mp \<Rightarrow> vfs_locate_node s (mp_root mp) remaining_path)
         | None \<Rightarrow> Ok (Some (parent, entry))))"
  by pat_completeness auto
termination
  by (relation "measure (\<lambda>(s, parent, path). length path)") (auto dest!: next_name_shorter [OF sym])

declare vfs_locate_node.simps [simp del]

text \<open>The edits both callers make: surrounding white space, one trailing and one leading slash go.\<close>

definition bare_path :: "string \<Rightarrow> string" where
  "bare_path path =
     (let p = trim path;
          p1 = (if ends_with slash p then butlast p else p)
      in if starts_with slash p1 then tl p1 else p1)"

definition vfs_locate_node_from_path :: "'w vfs \<Rightarrow> string \<Rightarrow> (node \<times> string) option res" where
  "vfs_locate_node_from_path s path =
     rbind (rassert (starts_with slash path)) (\<lambda>_. vfs_locate_node s root_node (bare_path path))"

definition vfs_open :: "'w vfs \<Rightarrow> string \<Rightarrow> node option res" where
  "vfs_open s path =
     (if \<not> starts_with slash path then Ok None
      else if path = ''/'' then Ok (Some root_node)
      else rbind (vfs_locate_node s root_node (bare_path path)) (\<lambda>r.
           case r of None \<Rightarrow> Ok None | Some (parent, entry) \<Rightarrow> fs_open s parent entry))"

definition dir_or_mnt_exists :: "'w vfs \<Rightarrow> string \<Rightarrow> bool res" where
  "dir_or_mnt_exists s path =
     rbind (vfs_locate_node_from_path s path) (\<lambda>r.
     case r of
       None \<Rightarrow> Ok False
     | Some (parent, entry) \<Rightarrow>
         rbind (fs_stat s parent entry) (\<lambda>q.
         Ok (case q of None \<Rightarrow> False | Some st \<Rightarrow> st_is_dir st \<or> st_mount st \<noteq> None)))"

section \<open>Mounting\<close>

text \<open>Both branches of \<^verbatim>\<open>vfs_mount_impl\<close> that place the mount point.\<close>

definition mount_here :: "'w vfs \<Rightarrow> node \<Rightarrow> string \<Rightarrow> file_system \<Rightarrow> usize \<Rightarrow> ('w vfs \<times> (node \<times> node) option) res" where
  "mount_here s parent entry fs key =
     rbind (fs_mount s parent entry key) (\<lambda>(s', r).
     Ok (s', map_option (\<lambda>p. (p, p\<lparr>nd_mount := None, nd_fs := fs\<rparr>)) r))"

function vfs_mount_impl ::
  "'w vfs \<Rightarrow> node \<Rightarrow> string \<Rightarrow> usize \<Rightarrow> file_system \<Rightarrow> usize \<Rightarrow> ('w vfs \<times> (node \<times> node) option) res" where
  "vfs_mount_impl s parent path dev fs key =
     rbind (rassert (\<not> starts_with slash path)) (\<lambda>_.
     let (entry, remaining_path) = next_name path in
     rbind (fs_stat s parent entry) (\<lambda>r.
     case r of
       Some st \<Rightarrow>
         if st_is_dir st then
           if remaining_path = [] then Ok (s, None)
           else vfs_mount_impl s (parent\<lparr>nd_name := entry, nd_path := child_path parent entry\<rparr>)
                  remaining_path dev fs key
         else mount_here s parent entry fs key
     | None \<Rightarrow>
         if remaining_path = [] then mount_here s parent entry fs key
         else Ok (s, None)))"
  by pat_completeness auto
termination
  by (relation "measure (\<lambda>(s, parent, path, dev, fs, key). length path)") (auto dest!: next_name_shorter [OF sym])

declare vfs_mount_impl.simps [simp del]

function vfs_mount_loop :: "'w vfs \<Rightarrow> string \<Rightarrow> usize \<Rightarrow> file_system \<Rightarrow> usize \<Rightarrow> ('w vfs \<times> node option) res" where
  "vfs_mount_loop s path dev fs i =
     (if i < length (vf_mounts s) then
        if vf_mounts s ! i = None then
          rbind (unwrap (split_once slash path)) (\<lambda>(_, rest).
          rbind (vfs_mount_impl s root_node rest dev fs i) (\<lambda>(s', r).
          case r of
            None \<Rightarrow> Ok (s', None)
          | Some (parent, root) \<Rightarrow>
              Ok (s'\<lparr>vf_mounts := (vf_mounts s')[i := Some \<lparr>mp_parent = parent, mp_root = root, mp_dev = dev, mp_fs = fs\<rparr>]\<rparr>,
                  Some root)))
        else vfs_mount_loop s path dev fs (i + 1)
      else Ok (s, None))"
  by pat_completeness auto
termination
  by (relation "measure (\<lambda>(s, path, dev, fs, i). length (vf_mounts s) - i)") auto

declare vfs_mount_loop.simps [simp del]

definition vfs_mount :: "'w vfs \<Rightarrow> string \<Rightarrow> usize \<Rightarrow> file_system \<Rightarrow> ('w vfs \<times> node option) res" where
  "vfs_mount s path dev fs =
     rbind (rassert (starts_with slash path)) (\<lambda>_.
     if path = ''/'' then Ok (s, None) else vfs_mount_loop s path dev fs 0)"

section \<open>Process state\<close>

fun canon_loop :: "string list \<Rightarrow> string list \<Rightarrow> string list option" where
  "canon_loop buf [] = Some buf"
| "canon_loop buf (seg # segs) =
     (if seg = ''.'' \<or> seg = [] then canon_loop buf segs
      else if seg = ''..'' then (if buf \<noteq> [] then canon_loop (butlast buf) segs else None)
      else canon_loop (buf @ [seg]) segs)"

definition segments :: "string \<Rightarrow> string list" where
  "segments s = filter (\<lambda>x. x \<noteq> []) (split slash s)"

definition canonicalize :: "proc_data \<Rightarrow> string \<Rightarrow> string option res" where
  "canonicalize d s =
     (if starts_with slash s then Ok (Some s)
      else
        let s1 = (case strip_suffix slash s of Some t \<Rightarrow> t | None \<Rightarrow> s) in
        rbind (if starts_with slash s1 then Ok []
               else rbind (unwrap (strip_prefix slash (pd_cwd d))) (\<lambda>c. Ok (segments c))) (\<lambda>buf.
        Ok (map_option (\<lambda>b. slash # join [slash] b) (canon_loop buf (segments s1)))))"

definition set_cwd :: "'w vfs \<Rightarrow> proc_data \<Rightarrow> string \<Rightarrow> (proc_data \<times> bool) res" where
  "set_cwd s d cwd =
     rbind (canonicalize d cwd) (\<lambda>r.
     case r of
       None \<Rightarrow> Ok (d, False)
     | Some path \<Rightarrow>
         rbind (dir_or_mnt_exists s path) (\<lambda>e.
         if \<not> e then Ok (d, False) else Ok (d\<lparr>pd_cwd := path\<rparr>, True)))"

definition proc_data_new :: "'w vfs \<Rightarrow> string \<Rightarrow> proc_data res" where
  "proc_data_new s cwd =
     (let cwd' = (if cwd = [] then (case vf_proc s of Some d \<Rightarrow> pd_cwd d | None \<Rightarrow> ''/'') else cwd);
          data = \<lparr>pd_nodes = replicate 16 None, pd_cwd = cwd', pd_files = 3\<rparr> in
      rbind (vfs_open s ''/dev/tty.serial'') (\<lambda>r.
      rbind (unwrap r) (\<lambda>stdio.
      let d = Some \<lparr>fd_node = stdio, fd_offset = 0\<rparr> in
      rbind (upd (pd_nodes data) 0 d) (\<lambda>n0.
      rbind (upd n0 1 d) (\<lambda>n1.
      rbind (upd n1 2 d) (\<lambda>n2.
      Ok (data\<lparr>pd_nodes := n2\<rparr>)))))))"

definition register_fs :: "'w vfs \<Rightarrow> file_system \<Rightarrow> 'w vfs" where
  "register_fs s fs =
     s\<lparr>vf_systems := bt_insert (case fs of RootFS \<Rightarrow> ''rootfs'' | DevFS \<Rightarrow> ''devfs'') fs (vf_systems s)\<rparr>"

section \<open>Requests\<close>

text \<open>A request carries the contents of the caller's buffer; the handler returns its contents afterwards.\<close>

datatype vfs_request =
    VOpen string
  | VClose usize
  | VRead usize "byte list"
  | VWrite usize "byte list"
  | VReadDir usize usize "byte list"
  | VMount string usize string
  | VGetCwd "byte list"
  | VSetCwd string

type_synonym 'w vfs_reply = "'w vfs \<times> byte list \<times> int"

definition as_bytes :: "string \<Rightarrow> byte list" where
  "as_bytes s = map of_char s"

definition copy_to :: "byte list \<Rightarrow> byte list \<Rightarrow> byte list" where
  "copy_to src buf = src @ drop (length src) buf"

definition follow_mount :: "'w vfs \<Rightarrow> node \<Rightarrow> node res" where
  "follow_mount s node =
     (case nd_mount node of
        Some mnt \<Rightarrow> rbind (idx (vf_mounts s) mnt) (\<lambda>m. rbind (unwrap m) (\<lambda>mp. Ok (mp_root mp)))
      | None \<Rightarrow> Ok node)"

definition handle_open :: "'w vfs \<Rightarrow> string \<Rightarrow> ('w vfs \<times> int) res" where
  "handle_open s path =
     rbind (unwrap (vf_proc s)) (\<lambda>d.
     rbind (canonicalize d path) (\<lambda>r.
     case r of
       None \<Rightarrow> Ok (s, - 1)
     | Some path' \<Rightarrow>
         rbind (vfs_open s path') (\<lambda>q.
         case q of
           None \<Rightarrow> Ok (s, - 1)
         | Some node \<Rightarrow>
             rbind (follow_mount s node) (\<lambda>node'.
             let fd = pd_files d in
             rbind (upd (pd_nodes d) fd (Some \<lparr>fd_node = node', fd_offset = 0\<rparr>)) (\<lambda>nodes.
             rbind (uadd (pd_files d) 1) (\<lambda>files.
             Ok (s\<lparr>vf_proc := Some (d\<lparr>pd_nodes := nodes, pd_files := files\<rparr>)\<rparr>, to_isize fd)))))))"

definition handle_close :: "'w vfs \<Rightarrow> usize \<Rightarrow> ('w vfs \<times> int) res" where
  "handle_close s fd =
     (if fd < 3 then Ok (s, - 1)
      else
        rbind (unwrap (vf_proc s)) (\<lambda>d.
        rbind (idx (pd_nodes d) fd) (\<lambda>n.
        case n of
          None \<Rightarrow> Ok (s, - 1)
        | Some desc \<Rightarrow>
            rbind (usub (pd_files d) 1) (\<lambda>files.
            Ok (s\<lparr>vf_proc := Some (d\<lparr>pd_nodes := (pd_nodes d)[fd := None], pd_files := files\<rparr>)\<rparr>, 0)))))"

text \<open>\<^verbatim>\<open>Read\<close> and \<^verbatim>\<open>Write\<close> look the descriptor up, release the process state, call the file system, and
  look the descriptor up again to advance its offset.\<close>

definition fd_lookup :: "'w vfs \<Rightarrow> usize \<Rightarrow> file_descriptor option res" where
  "fd_lookup s fd = rbind (unwrap (vf_proc s)) (\<lambda>d. idx (pd_nodes d) fd)"

definition fd_advance :: "'w vfs \<Rightarrow> usize \<Rightarrow> usize \<Rightarrow> ('w vfs \<times> int) res" where
  "fd_advance s fd v =
     rbind (unwrap (vf_proc s)) (\<lambda>d.
     rbind (idx (pd_nodes d) fd) (\<lambda>n.
     case n of
       None \<Rightarrow> Ok (s, - 1)
     | Some desc \<Rightarrow>
         rbind (uadd (fd_offset desc) v) (\<lambda>off.
         Ok (s\<lparr>vf_proc := Some (d\<lparr>pd_nodes := (pd_nodes d)[fd := Some (desc\<lparr>fd_offset := off\<rparr>)]\<rparr>)\<rparr>, to_isize v))))"

definition handle_read :: "'w vfs \<Rightarrow> usize \<Rightarrow> byte list \<Rightarrow> 'w vfs_reply res" where
  "handle_read s fd buf =
     rbind (fd_lookup s fd) (\<lambda>n.
     case n of
       None \<Rightarrow> Ok (s, buf, - 1)
     | Some desc \<Rightarrow>
         rbind (fs_read s (fd_node desc) (fd_offset desc) buf) (\<lambda>(s1, r, buf1).
         case r of
           None \<Rightarrow> Ok (s1, buf1, - 1)
         | Some v \<Rightarrow> rbind (fd_advance s1 fd v) (\<lambda>(s2, ret). Ok (s2, buf1, ret))))"

definition handle_write :: "'w vfs \<Rightarrow> usize \<Rightarrow> byte list \<Rightarrow> ('w vfs \<times> int) res" where
  "handle_write s fd buf =
     rbind (fd_lookup s fd) (\<lambda>n.
     case n of
       None \<Rightarrow> Ok (s, - 1)
     | Some desc \<Rightarrow>
         rbind (fs_write s (fd_node desc) (fd_offset desc) buf) (\<lambda>(s1, r).
         case r of None \<Rightarrow> Ok (s1, - 1) | Some v \<Rightarrow> fd_advance s1 fd v))"

definition handle_read_dir :: "'w vfs \<Rightarrow> usize \<Rightarrow> usize \<Rightarrow> byte list \<Rightarrow> (byte list \<times> int) res" where
  "handle_read_dir s fd i buf =
     rbind (fd_lookup s fd) (\<lambda>n.
     case n of
       None \<Rightarrow> Ok (buf, - 1)
     | Some desc \<Rightarrow>
         rbind (fs_read_dir s (fd_node desc)) (\<lambda>r.
         case r of
           None \<Rightarrow> Ok (buf, - 1)
         | Some entries \<Rightarrow>
             if length entries \<le> i then Ok (buf, 0)
             else rbind (idx entries i) (\<lambda>e.
                  let b = as_bytes e; len = min (length b) (length buf) in
                  Ok (copy_to (take len b) buf, 1))))"

definition handle_mount :: "bool \<Rightarrow> 'w vfs \<Rightarrow> string \<Rightarrow> usize \<Rightarrow> string \<Rightarrow> ('w vfs \<times> int) res" where
  "handle_mount privileged s path dev fs =
     rbind (rassert privileged) (\<lambda>_.
     rbind (bt_index (vf_systems s) fs) (\<lambda>f.
     rbind (vfs_mount s path dev f) (\<lambda>(s', r).
     rbind (unwrap r) (\<lambda>_. Ok (s', 0)))))"

definition handle_get_cwd :: "'w vfs \<Rightarrow> byte list \<Rightarrow> (byte list \<times> int) res" where
  "handle_get_cwd s buf =
     rbind (unwrap (vf_proc s)) (\<lambda>d.
     let cwd = as_bytes (pd_cwd d) in
     if length buf < length cwd then Ok (buf, - 1)
     else Ok (copy_to cwd buf, to_isize (length cwd)))"

definition handle_set_cwd :: "'w vfs \<Rightarrow> string \<Rightarrow> ('w vfs \<times> int) res" where
  "handle_set_cwd s path =
     rbind (unwrap (vf_proc s)) (\<lambda>d.
     rbind (set_cwd s d path) (\<lambda>(d', done).
     Ok (s\<lparr>vf_proc := Some d'\<rparr>, if done then 0 else - 1)))"

definition with_buf :: "byte list \<Rightarrow> ('w vfs \<times> int) res \<Rightarrow> 'w vfs_reply res" where
  "with_buf buf m = rbind m (\<lambda>(s, r). Ok (s, buf, r))"

definition vfs_handle :: "cpu \<Rightarrow> bool \<Rightarrow> vfs_request \<Rightarrow> 'w vfs \<Rightarrow> 'w vfs_reply res" where
  "vfs_handle c privileged request s =
     rbind (rassert (\<not> interrupt_is_enabled c)) (\<lambda>_.
     case request of
       VOpen path \<Rightarrow> with_buf [] (handle_open s path)
     | VClose fd \<Rightarrow> with_buf [] (handle_close s fd)
     | VRead fd buf \<Rightarrow> handle_read s fd buf
     | VWrite fd buf \<Rightarrow> with_buf buf (handle_write s fd buf)
     | VReadDir fd i buf \<Rightarrow> rbind (handle_read_dir s fd i buf) (\<lambda>(b, r). Ok (s, b, r))
     | VMount path dev fs \<Rightarrow> with_buf [] (handle_mount privileged s path dev fs)
     | VGetCwd buf \<Rightarrow> rbind (handle_get_cwd s buf) (\<lambda>(b, r). Ok (s, b, r))
     | VSetCwd path \<Rightarrow> with_buf [] (handle_set_cwd s path))"

text \<open>\<^verbatim>\<open>DEV::init\<close>: the device module registers its file system and mounts it at \<^verbatim>\<open>/dev\<close>.\<close>

definition dev_init :: "cpu \<Rightarrow> 'w vfs \<Rightarrow> 'w vfs res" where
  "dev_init c s =
     rbind (vfs_handle c True (VMount ''/dev'' 0 ''devfs'') (register_fs s DevFS)) (\<lambda>(s', _, _). Ok s')"

end
