(* ===== verification/Uart.thy ===== *)
theory Uart
  imports Monitors Vfs
begin

unbundle bit_operations_syntax

text \<open>
  \<^verbatim>\<open>modules/pl011\<close> and the boot logger: the serial port as a device. The port's receive FIFO is the list
  of bytes that reads of \<^verbatim>\<open>dr\<close> return; bytes written to \<^verbatim>\<open>dr\<close> are recorded in order; \<open>ua_delays\<close> gives how
  often the transmit FIFO is found full at each wait.
\<close>

section \<open>Registers\<close>

record uart =
  ua_rx :: "byte list"
  ua_tx :: "byte list"
  ua_delays :: "nat list"
  ua_cr :: "32 word"
  ua_icr :: "32 word"
  ua_ibrd :: "32 word"
  ua_fbrd :: "32 word"
  ua_lcrh :: "32 word"
  ua_imsc :: "32 word"

record pl011 =
  pl_uart :: uart
  pl_buffer :: "byte list"
  pl_monitor :: monitor

text \<open>The flag register.\<close>

definition fr_get :: "uart \<Rightarrow> 32 word" where
  "fr_get u = (case ua_delays u of [] \<Rightarrow> 0 | n # _ \<Rightarrow> if 0 < n then push_bit 5 1 else 0) OR (if ua_rx u = [] then push_bit 4 1 else 0)"

definition transmit_fifo_full :: "uart \<Rightarrow> bool" where
  "transmit_fifo_full u \<longleftrightarrow> fr_get u AND push_bit 5 1 \<noteq> 0"

definition receive_fifo_empty :: "uart \<Rightarrow> bool" where
  "receive_fifo_empty u \<longleftrightarrow> fr_get u AND push_bit 4 1 \<noteq> 0"

lemma transmit_fifo_full_iff: "transmit_fifo_full u \<longleftrightarrow> (case ua_delays u of [] \<Rightarrow> False | n # _ \<Rightarrow> 0 < n)"
  by (simp add: transmit_fifo_full_def fr_get_def split: list.splits)

lemma receive_fifo_empty_iff: "receive_fifo_empty u \<longleftrightarrow> ua_rx u = []"
  by (simp add: receive_fifo_empty_def fr_get_def split: list.splits)

text \<open>One poll of the flag register while the FIFO is full.\<close>

definition poll :: "uart \<Rightarrow> uart" where
  "poll u = u\<lparr>ua_delays := (case ua_delays u of [] \<Rightarrow> [] | n # ns \<Rightarrow> (n - 1) # ns)\<rparr>"

function wait_transmit :: "uart \<Rightarrow> uart" where
  "wait_transmit u = (if transmit_fifo_full u then wait_transmit (poll u) else u\<lparr>ua_delays := tl (ua_delays u)\<rparr>)"
  by pat_completeness auto
termination
  by (relation "measure (\<lambda>u. case ua_delays u of [] \<Rightarrow> 0 | n # _ \<Rightarrow> n)")
    (auto simp: transmit_fifo_full_iff poll_def split: list.splits)

declare wait_transmit.simps [simp del]

definition dr_set :: "byte \<Rightarrow> uart \<Rightarrow> uart" where
  "dr_set b u = u\<lparr>ua_tx := ua_tx u @ [b]\<rparr>"

definition dr_get :: "uart \<Rightarrow> byte \<times> uart" where
  "dr_get u = (case ua_rx u of [] \<Rightarrow> (0, u) | b # bs \<Rightarrow> (b, u\<lparr>ua_rx := bs\<rparr>))"

abbreviation CR :: byte where "CR \<equiv> 13"
abbreviation LF :: byte where "LF \<equiv> 10"

section \<open>The driver\<close>

definition uart_init :: "uart \<Rightarrow> uart" where
  "uart_init u = u\<lparr>ua_cr := 0, ua_icr := 0, ua_ibrd := 26, ua_fbrd := 3, ua_lcrh := push_bit 5 0b11,
     ua_cr := push_bit 0 1 OR push_bit 8 1 OR push_bit 9 1, ua_imsc := push_bit 4 1\<rparr>"

definition putchar :: "byte \<Rightarrow> uart \<Rightarrow> uart" where
  "putchar c u =
     (let u1 = wait_transmit u;
          u2 = (if c = LF then dr_set CR u1 else u1);
          u3 = wait_transmit u2 in
      dr_set c u3)"

definition pop_char :: "pl011 \<Rightarrow> (pl011 \<times> byte) res" where
  "pop_char p =
     rbind (unwrap (case pl_buffer p of [] \<Rightarrow> None | b # bs \<Rightarrow> Some (b, bs))) (\<lambda>(b, bs).
     Ok (p\<lparr>pl_buffer := bs\<rparr>, if b = CR then LF else b))"

text \<open>The blocking part of \<^verbatim>\<open>getchar\<close>: lock the monitor, wait while the buffer is empty, drop the guard. A task
  that is woken, on the lock or on the condition, goes on by taking the lock: it starts here again.\<close>

definition getchar_wait :: "('f, 'm) sys \<Rightarrow> pl011 \<Rightarrow> (('f, 'm) sys \<times> pl011 \<times> unit outcome) res" where
  "getchar_wait s p =
     rbind (monitor_lock s (pl_monitor p)) (\<lambda>(s1, mn, r).
     case r of
       Blocked t \<Rightarrow> Ok (s1, p\<lparr>pl_monitor := mn\<rparr>, Blocked t)
     | Done _ \<Rightarrow>
         if pl_buffer p = [] then rbind (monitor_wait s1 mn) (\<lambda>(s2, mn2, t). Ok (s2, p\<lparr>pl_monitor := mn2\<rparr>, Blocked t))
         else rbind (monitor_unlock s1 mn) (\<lambda>(s2, mn2). Ok (s2, p\<lparr>pl_monitor := mn2\<rparr>, Done ())))"

definition getchar :: "bool \<Rightarrow> ('f, 'm) sys \<Rightarrow> pl011 \<Rightarrow> (('f, 'm) sys \<times> pl011 \<times> byte option outcome) res" where
  "getchar block s p =
     (if pl_buffer p = [] \<and> \<not> block then Ok (s, p, Done None)
      else
        rbind (if pl_buffer p = [] then getchar_wait s p else Ok (s, p, Done ())) (\<lambda>(s1, p1, r).
        case r of
          Blocked t \<Rightarrow> Ok (s1, p1, Blocked t)
        | Done _ \<Rightarrow> rbind (pop_char p1) (\<lambda>(p2, c). Ok (s1, p2, Done (Some c)))))"

text \<open>\<^verbatim>\<open>Device::read\<close> from place \<open>i\<close> of the buffer on; \<open>Blocked\<close> stops there.\<close>

function uart_read :: "('f, 'm) sys \<Rightarrow> pl011 \<Rightarrow> nat \<Rightarrow> byte list \<Rightarrow> (('f, 'm) sys \<times> pl011 \<times> byte list \<times> nat \<times> usize option outcome) res" where
  "uart_read s p i buf =
     (if i < length buf then
        rbind (getchar True s p) (\<lambda>(s1, p1, r).
        case r of
          Blocked t \<Rightarrow> Ok (s1, p1, buf, i, Blocked t)
        | Done c \<Rightarrow> rbind (unwrap c) (\<lambda>b. uart_read s1 p1 (i + 1) (buf[i := b])))
      else Ok (s, p, buf, i, Done (Some (length buf))))"
  by pat_completeness auto
termination
  by (relation "measure (\<lambda>(s, p, i, buf). length buf - i)") auto

declare uart_read.simps [simp del]

fun uart_write :: "byte list \<Rightarrow> uart \<Rightarrow> uart" where
  "uart_write [] u = u"
| "uart_write (b # bs) u = uart_write bs (putchar b u)"

text \<open>The interrupt handler: empty the receive FIFO into the buffer and wake the readers.\<close>

function drain :: "pl011 \<Rightarrow> pl011" where
  "drain p =
     (if receive_fifo_empty (pl_uart p) then p
      else let (c, u) = dr_get (pl_uart p) in drain (p\<lparr>pl_uart := u, pl_buffer := pl_buffer p @ [c]\<rparr>))"
  by pat_completeness auto
termination
  by (relation "measure (\<lambda>p. length (ua_rx (pl_uart p)))")
    (auto simp: receive_fifo_empty_iff dr_get_def split: list.splits)

declare drain.simps [simp del]

definition uart_irq :: "('f, 'm) sys \<Rightarrow> pl011 \<Rightarrow> (('f, 'm) sys \<times> pl011 \<times> int outcome) res" where
  "uart_irq s p =
     rbind (monitor_lock s (pl_monitor p)) (\<lambda>(s1, mn, r).
     let p1 = p\<lparr>pl_monitor := mn\<rparr> in
     case r of
       Blocked t \<Rightarrow> Ok (s1, p1, Blocked t)
     | Done _ \<Rightarrow>
         let p2 = drain p1 in
         rbind (monitor_notify_all s1 (pl_monitor p2)) (\<lambda>(s2, mn2).
         rbind (monitor_unlock s2 mn2) (\<lambda>(s3, mn3). Ok (s3, p2\<lparr>pl_monitor := mn3\<rparr>, Done 0))))"

fun logger_chars :: "byte list \<Rightarrow> uart \<Rightarrow> uart" where
  "logger_chars [] u = u"
| "logger_chars (c # cs) u = logger_chars cs (putchar c (if c = LF then putchar CR u else u))"

definition uart_log :: "string \<Rightarrow> cpu \<Rightarrow> uart \<Rightarrow> cpu \<times> uart" where
  "uart_log s c u = (let (g, c1) = uninterruptible c; u1 = logger_chars (as_bytes s) u in (uninterruptible_drop g c1, u1))"

section \<open>The boot logger\<close>

definition boot_putc :: "byte \<Rightarrow> uart \<Rightarrow> uart" where
  "boot_putc c u = dr_set c (wait_transmit u)"

fun boot_chars :: "byte list \<Rightarrow> uart \<Rightarrow> uart" where
  "boot_chars [] u = u"
| "boot_chars (c # cs) u = boot_chars cs (boot_putc c (if c = LF then boot_putc CR u else u))"

definition boot_log :: "string \<Rightarrow> cpu \<Rightarrow> uart option \<Rightarrow> cpu \<times> uart option" where
  "boot_log s c mmio =
     (let (g, c1) = uninterruptible c;
          r = (case mmio of None \<Rightarrow> None | Some u \<Rightarrow> Some (boot_chars (as_bytes s) u)) in
      (uninterruptible_drop g c1, r))"

section \<open>Transmission\<close>

lemma wait_transmit_same [simp]:
  "ua_tx (wait_transmit u) = ua_tx u" "ua_rx (wait_transmit u) = ua_rx u"
  by (induction u rule: wait_transmit.induct; subst wait_transmit.simps; simp add: poll_def)+

definition on_wire :: "byte \<Rightarrow> byte list" where
  "on_wire c = (if c = LF then [CR, LF] else [c])"

lemma putchar_tx: "ua_tx (putchar c u) = ua_tx u @ on_wire c"
  by (simp add: putchar_def Let_def dr_set_def on_wire_def)

lemma write_tx: "ua_tx (uart_write bs u) = ua_tx u @ concat (map on_wire bs)"
  by (induction bs arbitrary: u) (simp_all add: putchar_tx)

lemma boot_tx: "ua_tx (boot_chars bs u) = ua_tx u @ concat (map on_wire bs)"
  by (induction bs arbitrary: u) (simp_all add: boot_putc_def dr_set_def on_wire_def)

lemma log_tx: "ua_tx (logger_chars bs u) = ua_tx u @ concat (map (\<lambda>c. if c = LF then CR # on_wire c else on_wire c) bs)"
  by (induction bs arbitrary: u) (simp_all add: putchar_tx on_wire_def)

section \<open>Reception\<close>

lemma drain_eq: "drain p = p\<lparr>pl_buffer := pl_buffer p @ ua_rx (pl_uart p), pl_uart := (pl_uart p)\<lparr>ua_rx := []\<rparr>\<rparr>"
proof (induction p rule: drain.induct)
  case (1 p)
  show ?case
  proof (cases "ua_rx (pl_uart p)")
    case Nil
    then show ?thesis by (subst drain.simps) (simp add: receive_fifo_empty_iff)
  next
    case (Cons c cs)
    then show ?thesis using 1 by (subst drain.simps) (simp add: receive_fifo_empty_iff dr_get_def)
  qed
qed

definition received :: "byte \<Rightarrow> byte" where
  "received b = (if b = CR then LF else b)"

lemma getchar_ready: "pl_buffer p = b # bs \<Longrightarrow> getchar block s p = Ok (s, p\<lparr>pl_buffer := bs\<rparr>, Done (Some (received b)))"
  by (simp add: getchar_def pop_char_def received_def)

lemma uart_read_ready:
  assumes "i \<le> length buf" and "length buf - i \<le> length (pl_buffer p)"
  shows "uart_read s p i buf = Ok (s, p\<lparr>pl_buffer := drop (length buf - i) (pl_buffer p)\<rparr>,
    take i buf @ map received (take (length buf - i) (pl_buffer p)), length buf, Done (Some (length buf)))"
  using assms
proof (induction "length buf - i" arbitrary: i buf p)
  case 0
  then show ?case by (subst uart_read.simps) simp
next
  case (Suc n)
  then have i: "i < length buf" "pl_buffer p \<noteq> []" by auto
  then obtain b bs where b: "pl_buffer p = b # bs" by (cases "pl_buffer p") auto
  have n: "length buf - i = Suc n" "length buf - Suc i = n" using Suc.hyps(2) by simp_all
  have "uart_read s (p\<lparr>pl_buffer := bs\<rparr>) (i + 1) (buf[i := received b])
      = Ok (s, p\<lparr>pl_buffer := drop n bs\<rparr>, take (i + 1) (buf[i := received b]) @ map received (take n bs), length buf, Done (Some (length buf)))"
    using Suc.hyps(1) [of "buf[i := received b]" "i + 1" "p\<lparr>pl_buffer := bs\<rparr>"] Suc.prems i n b by simp
  moreover have "take (i + 1) (buf[i := received b]) = take i buf @ [received b]"
    using i(1) by (simp add: take_Suc_conv_app_nth)
  ultimately show ?case using i(1) b n by (subst uart_read.simps) (simp add: getchar_ready [OF b])
qed

lemma uart_irq_Ok:
  assumes "sched_inv s" and "current s = Some c" and "mn_lock (pl_monitor p) = mutex_new"
    and "set (cond_waiters (pl_monitor p)) \<subseteq> asleep s" and "distinct (cond_waiters (pl_monitor p))"
  obtains s' p' where "uart_irq s p = Ok (s', p', Done 0)" and "sched_inv s'" and "current s' = current s"
    and "ready_queue s' = ready_queue s @ cond_waiters (pl_monitor p)" and "asleep s' = asleep s - set (cond_waiters (pl_monitor p))"
    and "pl_buffer p' = pl_buffer p @ ua_rx (pl_uart p)" and "pl_uart p' = (pl_uart p)\<lparr>ua_rx := []\<rparr>"
    and "mn_lock (pl_monitor p') = mutex_new" and "cond_waiters (pl_monitor p') = []"
proof -
  let ?mn = "pl_monitor p"
  obtain s' where s': "wake_all s (cond_waiters ?mn) = Ok s'" "sched_inv s'" "same_tables s s'" "current s' = current s"
      "ready_queue s' = ready_queue s @ cond_waiters ?mn" "asleep s' = asleep s - set (cond_waiters ?mn)"
    using wake_all_asleep [OF assms(1,4,5)] by blast
  let ?m1 = "?mn\<lparr>mn_lock := mutex_new\<lparr>rm_is_locked := True\<rparr>\<rparr>"
  let ?m3 = "?mn\<lparr>mn_lock := mutex_new, mn_cond := (mn_cond ?mn)\<lparr>rc_waiters := []\<rparr>\<rparr>"
  have "monitor_lock s ?mn = Ok (s, ?m1, Done ())"
    using mutex_lock_free [OF assms(1,2)] assms(3) by (simp add: monitor_lock_def mutex_new_def)
  moreover have "monitor_notify_all s ?m1 = Ok (s', ?m1\<lparr>mn_cond := (mn_cond ?mn)\<lparr>rc_waiters := []\<rparr>\<rparr>)"
    using s'(1) assms(1) by (simp add: monitor_notify_all_def condvar_notify_all_def)
  moreover have "monitor_unlock s' (?m1\<lparr>mn_cond := (mn_cond ?mn)\<lparr>rc_waiters := []\<rparr>\<rparr>) = Ok (s', ?m3)"
    using s'(2) by (simp add: monitor_unlock_def mutex_unlock_def mutex_new_def)
  ultimately have "uart_irq s p = Ok (s', p\<lparr>pl_buffer := pl_buffer p @ ua_rx (pl_uart p), pl_uart := (pl_uart p)\<lparr>ua_rx := []\<rparr>, pl_monitor := ?m3\<rparr>, Done 0)"
    by (simp add: uart_irq_def drain_eq)
  then show ?thesis using that s' by simp
qed

section \<open>Properties\<close>

text \<open>C31: the serial port loses and reorders nothing. When nobody holds the driver's monitor, the interrupt handler
  moves the whole receive FIFO behind the bytes already buffered and makes every task waiting for input
  ready; a read of at most that many bytes then returns without blocking, with the oldest bytes in order,
  carriage returns read as newlines, and leaves the rest; a write sends its bytes in order, each newline
  preceded by one carriage return.\<close>

theorem serial_port_fifo:
  assumes "sched_inv s" and "current s = Some c" and "mn_lock (pl_monitor p) = mutex_new"
    and "set (cond_waiters (pl_monitor p)) \<subseteq> asleep s" and "distinct (cond_waiters (pl_monitor p))"
    and "length buf \<le> length (pl_buffer p @ ua_rx (pl_uart p))"
  shows "\<exists>s' p' p2. uart_irq s p = Ok (s', p', Done 0) \<and> sched_inv s'
    \<and> ready_queue s' = ready_queue s @ cond_waiters (pl_monitor p)
    \<and> uart_read s' p' 0 buf = Ok (s', p2, map (\<lambda>b. if b = 13 then 10 else b) (take (length buf) (pl_buffer p @ ua_rx (pl_uart p))),
        length buf, Done (Some (length buf)))
    \<and> pl_buffer p2 = drop (length buf) (pl_buffer p @ ua_rx (pl_uart p))
    \<and> ua_tx (uart_write bs (pl_uart p2)) = ua_tx (pl_uart p) @ concat (map (\<lambda>b. if b = 10 then [13, 10] else [b]) bs)"
proof -
  obtain s' p' where i: "uart_irq s p = Ok (s', p', Done 0)" "sched_inv s'" "ready_queue s' = ready_queue s @ cond_waiters (pl_monitor p)"
      "pl_buffer p' = pl_buffer p @ ua_rx (pl_uart p)" "pl_uart p' = (pl_uart p)\<lparr>ua_rx := []\<rparr>"
    using uart_irq_Ok [OF assms(1-5)] by metis
  let ?p2 = "p'\<lparr>pl_buffer := drop (length buf) (pl_buffer p')\<rparr>"
  have "uart_read s' p' 0 buf = Ok (s', ?p2, map received (take (length buf) (pl_buffer p')), length buf, Done (Some (length buf)))"
    using uart_read_ready [of 0 buf p' s'] assms(6) i(4) by simp
  moreover have "received = (\<lambda>b. if b = 13 then 10 else b)" "on_wire = (\<lambda>b. if b = 10 then [13, 10] else [b])"
    by (simp_all add: fun_eq_iff received_def on_wire_def)
  ultimately show ?thesis using i write_tx [of bs "pl_uart ?p2"] by (intro exI [of _ s'] exI [of _ p'] exI [of _ ?p2]) simp
qed

definition demo_pl011 :: pl011 where
  "demo_pl011 = \<lparr>pl_uart = \<lparr>ua_rx = [98, 13], ua_tx = [], ua_delays = [2, 0, 1], ua_cr = 0, ua_icr = 0, ua_ibrd = 0, ua_fbrd = 0, ua_lcrh = 0, ua_imsc = 0\<rparr>,
     pl_buffer = [97], pl_monitor = (monitor_new True)\<lparr>mn_cond := \<lparr>rc_waiters = [3]\<rparr>\<rparr>\<rparr>"

theorem serial_port_fifo_witness:
  "\<exists>s' p' p2. uart_irq demo_sys demo_pl011 = Ok (s', p', Done 0) \<and> uart_read s' p' 0 [0, 0, 0] = Ok (s', p2, [97, 98, 10], 3, Done (Some 3))
    \<and> ua_tx (uart_write [104, 10] (pl_uart p2)) = [104, 13, 10]"
proof -
  have "3 \<in> asleep demo_sys" using demo_state [of 3] by (simp add: asleep_def)
  then show ?thesis
    using serial_port_fifo [OF demo_inv(1,2), of demo_pl011 "[0, 0, 0]" "[104, 10]"] by (auto simp: demo_pl011_def monitor_new_def)
qed

end
