(* ===== verification/Page_Table.thy ===== *)
theory Page_Table
  imports Cell_Lists
begin

text \<open>
  \<^verbatim>\<open>libs/memory/src/page_table\<close>: flags, entries and the four-level tables of AArch64 with a 4K
  granule. A table is a 4K frame in memory whose entry \<open>i\<close> is the word at \<open>t + 8 * i\<close>. The page
  allocator that \<^verbatim>\<open>map\<close> and \<^verbatim>\<open>unmap\<close> take is given by the arguments \<open>alloc\<close> and \<open>dealloc\<close> on a
  state \<open>'s\<close>, and \<open>mem\<close>/\<open>put\<close> read and replace the memory of that state.
\<close>

section \<open>Flags\<close>

type_synonym page_flags = "64 word"

definition PRESENT :: page_flags where "PRESENT = 0b01"
definition SMALL_PAGE :: page_flags where "SMALL_PAGE = 0b10"
definition USER :: page_flags where "USER = push_bit 6 1"
definition NO_WRITE :: page_flags where "NO_WRITE = push_bit 7 1"
definition ACCESSED :: page_flags where "ACCESSED = push_bit 10 1"
definition NO_EXEC :: page_flags where "NO_EXEC = push_bit 54 1"
definition INNER_SHARE :: page_flags where "INNER_SHARE = push_bit 8 0b10"
definition OUTER_SHARE :: page_flags where "OUTER_SHARE = push_bit 8 0b11"
definition COPY_ON_WRITE :: page_flags where "COPY_ON_WRITE = push_bit 53 1"
definition NORMAL_MEMORY :: page_flags where "NORMAL_MEMORY = push_bit 2 0b001"
definition DEVICE_MEMORY :: page_flags where "DEVICE_MEMORY = push_bit 2 0b000"
definition NO_CACHE :: page_flags where "NO_CACHE = push_bit 2 0b10"

definition flags_contains :: "64 word \<Rightarrow> 64 word \<Rightarrow> bool" where
  "flags_contains x f \<longleftrightarrow> x AND f = f"

definition page_table_flags :: page_flags where
  "page_table_flags = NORMAL_MEMORY OR PRESENT OR SMALL_PAGE OR OUTER_SHARE OR ACCESSED OR USER"

definition kernel_data_flags :: "page_size \<Rightarrow> page_flags" where
  "kernel_data_flags S =
     (let flags = NORMAL_MEMORY OR PRESENT OR ACCESSED OR OUTER_SHARE
      in if BYTES S = BYTES Size4K then flags OR SMALL_PAGE else flags)"

definition kernel_data_flags_1g :: page_flags where
  "kernel_data_flags_1g = kernel_data_flags Size1G"

definition kernel_data_flags_2m :: page_flags where
  "kernel_data_flags_2m = kernel_data_flags Size2M"

definition kernel_data_flags_4k :: page_flags where
  "kernel_data_flags_4k = kernel_data_flags Size4K"

definition kernel_code_flags_2m :: page_flags where
  "kernel_code_flags_2m = NORMAL_MEMORY OR PRESENT OR ACCESSED OR OUTER_SHARE"

definition kernel_code_flags_1g :: page_flags where
  "kernel_code_flags_1g = kernel_code_flags_2m"

definition kernel_code_flags_4k :: page_flags where
  "kernel_code_flags_4k = kernel_code_flags_2m OR SMALL_PAGE"

definition user_code_flags_2m :: page_flags where
  "user_code_flags_2m = kernel_code_flags_2m OR USER"

definition user_code_flags_4k :: page_flags where
  "user_code_flags_4k = kernel_code_flags_4k OR USER"

definition user_data_flags_4k :: page_flags where
  "user_data_flags_4k = kernel_data_flags_4k OR USER"

definition user_stack_flags :: page_flags where
  "user_stack_flags = NORMAL_MEMORY OR PRESENT OR SMALL_PAGE OR OUTER_SHARE OR ACCESSED OR USER"

definition device_flags :: page_flags where
  "device_flags = DEVICE_MEMORY OR PRESENT OR SMALL_PAGE OR OUTER_SHARE OR ACCESSED"

section \<open>Entries\<close>

definition ADDRESS_MASK :: "64 word" where
  "ADDRESS_MASK = 0x0000fffffffff000"

definition FLAGS_MASK :: "64 word" where
  "FLAGS_MASK = NOT ADDRESS_MASK"

definition pte_is_empty :: "64 word \<Rightarrow> bool" where
  "pte_is_empty w \<longleftrightarrow> w = 0"

definition pte_flags :: "64 word \<Rightarrow> page_flags" where
  "pte_flags w = w AND FLAGS_MASK"

definition pte_present :: "64 word \<Rightarrow> bool" where
  "pte_present w \<longleftrightarrow> flags_contains (pte_flags w) PRESENT"

definition pte_is_block :: "64 word \<Rightarrow> bool" where
  "pte_is_block w \<longleftrightarrow> \<not> flags_contains (pte_flags w) SMALL_PAGE"

definition pte_address :: "64 word \<Rightarrow> address" where
  "pte_address w = unat (w AND ADDRESS_MASK)"

definition pte_update_flags :: "64 word \<Rightarrow> page_flags \<Rightarrow> 64 word" where
  "pte_update_flags w new_flags = of_nat (pte_address w) OR new_flags"

definition pte_set :: "page_size \<Rightarrow> frame \<Rightarrow> page_flags \<Rightarrow> 64 word res" where
  "pte_set S frame flags =
     rbind (if BYTES S \<noteq> BYTES Size4K then rassert (flags AND 0b10 = 0)
            else rassert (flags AND 0b10 = 0b10)) (\<lambda>_.
     let a = page_start frame AND usize_not 0xffff000000000000 in
     Ok (of_nat a OR flags))"

section \<open>Levels and indices\<close>

datatype level = L4 | L3 | L2 | L1

fun SHIFT :: "level \<Rightarrow> nat" where
  "SHIFT L4 = 12 + 9 * 3"
| "SHIFT L3 = 12 + 9 * 2"
| "SHIFT L2 = 12 + 9 * 1"
| "SHIFT L1 = 12 + 9 * 0"

definition table_mask :: "level \<Rightarrow> usize" where
  "table_mask L = push_bit (SHIFT L) 0b111111111"

definition get_index :: "level \<Rightarrow> address \<Rightarrow> usize" where
  "get_index L a = drop_bit (SHIFT L) (a AND table_mask L)"

definition entry_at :: "memory \<Rightarrow> address \<Rightarrow> usize \<Rightarrow> 64 word" where
  "entry_at m t i = m (t + 8 * i)"

definition set_entry :: "memory \<Rightarrow> address \<Rightarrow> usize \<Rightarrow> 64 word \<Rightarrow> memory" where
  "set_entry m t i w = m(t + 8 * i := w)"

definition table_is_clear :: "memory \<Rightarrow> address \<Rightarrow> bool" where
  "table_is_clear m t \<longleftrightarrow> list_all (\<lambda>i. pte_is_empty (entry_at m t i)) [0..<512]"

definition get_next_table :: "memory \<Rightarrow> address \<Rightarrow> usize \<Rightarrow> address option" where
  "get_next_table m t i =
     (let e = entry_at m t i in if pte_present e \<and> \<not> pte_is_block e then Some (pte_address e) else None)"

definition frame_zero :: "memory \<Rightarrow> frame \<Rightarrow> memory" where
  "frame_zero m f = (\<lambda>a. if f \<le> a \<and> a < f + BYTES Size4K then 0 else m a)"

section \<open>Translation\<close>

definition pt_translate :: "memory \<Rightarrow> address \<Rightarrow> address \<Rightarrow> address option res" where
  "pt_translate m p4 a =
     (let i4 = get_index L4 a in
      if pte_is_empty (entry_at m p4 i4) then Ok None else
      rbind (unwrap (get_next_table m p4 i4)) (\<lambda>p3.
      let i3 = get_index L3 a; e3 = entry_at m p3 i3 in
      if pte_is_empty e3 then Ok None else
      if pte_is_block e3 then
        rbind (addr_add (pte_address e3) (a AND PAGE_MASK Size1G)) (\<lambda>x. Ok (Some x)) else
      rbind (unwrap (get_next_table m p3 i3)) (\<lambda>p2.
      let i2 = get_index L2 a; e2 = entry_at m p2 i2 in
      if pte_is_empty e2 then Ok None else
      if pte_is_block e2 then
        rbind (addr_add (pte_address e2) (a AND PAGE_MASK Size2M)) (\<lambda>x. Ok (Some x)) else
      rbind (unwrap (get_next_table m p2 i2)) (\<lambda>p1.
      let i1 = get_index L1 a; e1 = entry_at m p1 i1 in
      if pte_is_empty e1 then Ok None
      else rbind (addr_add (pte_address e1) (a AND PAGE_MASK Size4K)) (\<lambda>x. Ok (Some x))))))"

section \<open>Mapping and unmapping\<close>

type_synonym 's frame_alloc = "page_size \<Rightarrow> 's \<Rightarrow> ('s \<times> frame option) res"
type_synonym 's frame_dealloc = "page_size \<Rightarrow> 's \<Rightarrow> frame \<Rightarrow> 's res"

definition alloc_frame4k :: "'s frame_alloc \<Rightarrow> ('s \<Rightarrow> memory) \<Rightarrow> ('s \<Rightarrow> memory \<Rightarrow> 's) \<Rightarrow> 's
    \<Rightarrow> ('s \<times> frame) res" where
  "alloc_frame4k alloc mem put s =
     rbind (alloc Size4K s) (\<lambda>(s1, r).
     rbind (unwrap r) (\<lambda>frame.
     Ok (put s1 (frame_zero (mem s1) frame), frame)))"

definition pt_alloc :: "'s frame_alloc \<Rightarrow> ('s \<Rightarrow> memory) \<Rightarrow> ('s \<Rightarrow> memory \<Rightarrow> 's) \<Rightarrow> 's
    \<Rightarrow> ('s \<times> address) res" where
  "pt_alloc alloc mem put s =
     rbind (alloc_frame4k alloc mem put s) (\<lambda>(s1, frame).
     Ok (put s1 (frame_zero (mem s1) frame), page_start frame))"

text \<open>The step that \<^verbatim>\<open>map\<close> repeats for the tables of level 4, 3 and 2: an empty entry gets a fresh
  zeroed table, and the walk continues in the table the entry points to.\<close>

definition ensure_table :: "'s frame_alloc \<Rightarrow> ('s \<Rightarrow> memory) \<Rightarrow> ('s \<Rightarrow> memory \<Rightarrow> 's) \<Rightarrow> 's \<Rightarrow> address
    \<Rightarrow> usize \<Rightarrow> ('s \<times> address) res" where
  "ensure_table alloc mem put s t i =
     rbind (if pte_is_empty (entry_at (mem s) t i) then
              rbind (alloc_frame4k alloc mem put s) (\<lambda>(s1, frame).
              rbind (pte_set Size4K frame page_table_flags) (\<lambda>w.
              Ok (put s1 (set_entry (mem s1) t i w))))
            else Ok s) (\<lambda>s2.
     rbind (unwrap (get_next_table (mem s2) t i)) (\<lambda>t'. Ok (s2, t')))"

definition set_leaf :: "('s \<Rightarrow> memory) \<Rightarrow> ('s \<Rightarrow> memory \<Rightarrow> 's) \<Rightarrow> page_size \<Rightarrow> 's \<Rightarrow> address \<Rightarrow> usize
    \<Rightarrow> frame \<Rightarrow> page_flags \<Rightarrow> 's res" where
  "set_leaf mem put S s t i frame flags =
     rbind (pte_set S frame flags) (\<lambda>w. Ok (put s (set_entry (mem s) t i w)))"

definition pt_map :: "'s frame_alloc \<Rightarrow> ('s \<Rightarrow> memory) \<Rightarrow> ('s \<Rightarrow> memory \<Rightarrow> 's) \<Rightarrow> page_size \<Rightarrow> 's
    \<Rightarrow> address \<Rightarrow> page \<Rightarrow> frame \<Rightarrow> page_flags \<Rightarrow> ('s \<times> page) res" where
  "pt_map alloc mem put S s p4 page frame flags =
     (let a = page_start page in
      rbind (ensure_table alloc mem put s p4 (get_index L4 a)) (\<lambda>(s1, p3).
      if BYTES S = BYTES Size1G then
        rbind (set_leaf mem put S s1 p3 (get_index L3 a) frame flags) (\<lambda>s'. Ok (s', page)) else
      rbind (ensure_table alloc mem put s1 p3 (get_index L3 a)) (\<lambda>(s2, p2).
      if BYTES S = BYTES Size2M then
        rbind (set_leaf mem put S s2 p2 (get_index L2 a) frame flags) (\<lambda>s'. Ok (s', page)) else
      rbind (ensure_table alloc mem put s2 p2 (get_index L2 a)) (\<lambda>(s3, p1).
      rbind (set_leaf mem put S s3 p1 (get_index L1 a) frame (flags OR SMALL_PAGE)) (\<lambda>s'. Ok (s', page))))))"

definition pt_identity_map :: "'s frame_alloc \<Rightarrow> ('s \<Rightarrow> memory) \<Rightarrow> ('s \<Rightarrow> memory \<Rightarrow> 's) \<Rightarrow> page_size
    \<Rightarrow> 's \<Rightarrow> address \<Rightarrow> frame \<Rightarrow> page_flags \<Rightarrow> ('s \<times> page) res" where
  "pt_identity_map alloc mem put S s p4 frame flags =
     rbind (page_new S (page_start frame)) (\<lambda>page. pt_map alloc mem put S s p4 page frame flags)"

text \<open>Clearing an entry and testing whether the table has become empty; an empty table is handed
  back with the page size \<open>S\<close> of the unmapped page, as the code does.\<close>

definition clear_entry :: "('s \<Rightarrow> memory) \<Rightarrow> ('s \<Rightarrow> memory \<Rightarrow> 's) \<Rightarrow> 's \<Rightarrow> address \<Rightarrow> usize \<Rightarrow> 's" where
  "clear_entry mem put s t i = put s (set_entry (mem s) t i 0)"

definition unmap_p3 :: "'s frame_dealloc \<Rightarrow> ('s \<Rightarrow> memory) \<Rightarrow> ('s \<Rightarrow> memory \<Rightarrow> 's) \<Rightarrow> page_size \<Rightarrow> 's
    \<Rightarrow> address \<Rightarrow> usize \<Rightarrow> address \<Rightarrow> usize \<Rightarrow> 's res" where
  "unmap_p3 dealloc mem put S s p4 i4 p3 i3 =
     (let s1 = clear_entry mem put s p3 i3 in
      if \<not> table_is_clear (mem s1) p3 then Ok s1
      else rbind (page_new S p3) (\<lambda>f.
        rbind (dealloc S s1 f) (\<lambda>s2. Ok (clear_entry mem put s2 p4 i4))))"

definition unmap_p2 :: "'s frame_dealloc \<Rightarrow> ('s \<Rightarrow> memory) \<Rightarrow> ('s \<Rightarrow> memory \<Rightarrow> 's) \<Rightarrow> page_size \<Rightarrow> 's
    \<Rightarrow> address \<Rightarrow> usize \<Rightarrow> address \<Rightarrow> usize \<Rightarrow> address \<Rightarrow> usize \<Rightarrow> 's res" where
  "unmap_p2 dealloc mem put S s p4 i4 p3 i3 p2 i2 =
     (let s1 = clear_entry mem put s p2 i2 in
      if \<not> table_is_clear (mem s1) p2 then Ok s1
      else rbind (page_new S p2) (\<lambda>f.
        rbind (dealloc S s1 f) (\<lambda>s2. unmap_p3 dealloc mem put S s2 p4 i4 p3 i3)))"

definition pt_unmap :: "'s frame_dealloc \<Rightarrow> ('s \<Rightarrow> memory) \<Rightarrow> ('s \<Rightarrow> memory \<Rightarrow> 's) \<Rightarrow> page_size \<Rightarrow> 's
    \<Rightarrow> address \<Rightarrow> page \<Rightarrow> 's res" where
  "pt_unmap dealloc mem put S s p4 page =
     (let a = page_start page; i4 = get_index L4 a; i3 = get_index L3 a; i2 = get_index L2 a in
      rbind (rassert (\<not> pte_is_empty (entry_at (mem s) p4 i4))) (\<lambda>_.
      rbind (unwrap (get_next_table (mem s) p4 i4)) (\<lambda>p3.
      rbind (rassert (\<not> pte_is_empty (entry_at (mem s) p3 i3))) (\<lambda>_.
      if \<not> pte_is_block (entry_at (mem s) p3 i3) then
        rbind (unwrap (get_next_table (mem s) p3 i3)) (\<lambda>p2.
        rbind (rassert (\<not> pte_is_empty (entry_at (mem s) p2 i2))) (\<lambda>_.
        if \<not> pte_is_block (entry_at (mem s) p2 i2) then
          rbind (unwrap (get_next_table (mem s) p2 i2)) (\<lambda>p1.
          let s1 = clear_entry mem put s p1 (get_index L1 a) in
          if \<not> table_is_clear (mem s1) p1 then Ok s1
          else rbind (page_new S p1) (\<lambda>f.
            rbind (dealloc S s1 f) (\<lambda>s2. unmap_p2 dealloc mem put S s2 p4 i4 p3 i3 p2 i2)))
        else unmap_p2 dealloc mem put S s p4 i4 p3 i3 p2 i2))
      else unmap_p3 dealloc mem put S s p4 i4 p3 i3))))"

end
