(* ===== verification/Physical.thy ===== *)
theory Physical
  imports Cell_Lists
begin

text \<open>
  \<^verbatim>\<open>sophon/src/memory/physical/physical_page_resource.rs\<close>: the allocator of physical frames.
  It keeps one intrusive free list per power-of-two size class from 4K up to 2^48 bytes,
  splits larger cells on demand and never merges. The state is the table of list heads
  together with the memory in which the lists live. A \<^verbatim>\<open>loop {}\<close> is \<open>Panic Hang\<close>.
\<close>

section \<open>Operations\<close>

definition LOG_MAX_ADDRESS_SPACE_SIZE :: nat where
  "LOG_MAX_ADDRESS_SPACE_SIZE = 48"

definition NUM_SIZE_CLASS :: nat where
  "NUM_SIZE_CLASS = LOG_MAX_ADDRESS_SPACE_SIZE - LOG_BYTES Size4K + 1"

record phys =
  ph_table :: "address list"
  ph_mem :: memory

definition ppr_new :: "memory \<Rightarrow> phys" where
  "ppr_new m = \<lparr>ph_table = replicate NUM_SIZE_CLASS 0, ph_mem = m\<rparr>"

definition ppr_size :: "nat \<Rightarrow> usize res" where
  "ppr_size sc = ushl 1 (sc + LOG_BYTES Size4K)"

definition ppr_size_class :: "usize \<Rightarrow> nat res" where
  "ppr_size_class bytes =
     rbind (next_power_of_two bytes) (\<lambda>p. usub (trailing_zeros p) (LOG_BYTES Size4K))"

definition ppr_push :: "phys \<Rightarrow> address \<Rightarrow> nat \<Rightarrow> phys res" where
  "ppr_push s cell sc =
     rbind (idx (ph_table s) sc) (\<lambda>head.
     rbind (upd (ph_table s) sc cell) (\<lambda>t.
     Ok (s\<lparr>ph_table := t, ph_mem := addr_store (ph_mem s) cell head\<rparr>)))"

definition ppr_pop :: "phys \<Rightarrow> nat \<Rightarrow> (phys \<times> address option) res" where
  "ppr_pop s sc =
     rbind (idx (ph_table s) sc) (\<lambda>cell.
     if addr_is_zero cell then Ok (s, None)
     else
       rbind (upd (ph_table s) sc (addr_load (ph_mem s) cell)) (\<lambda>t.
       Ok (s\<lparr>ph_table := t\<rparr>, Some cell)))"

definition split_cell :: "address \<Rightarrow> nat \<Rightarrow> (address \<times> address) res" where
  "split_cell parent parent_size_class =
     rbind (usub parent_size_class 1) (\<lambda>child_size_class.
     rbind (ushl 1 (child_size_class + LOG_BYTES Size4K)) (\<lambda>d.
     rbind (uadd parent d) (\<lambda>unit2. Ok (parent, unit2))))"

fun split_loop :: "phys \<Rightarrow> address \<Rightarrow> nat list \<Rightarrow> phys res" where
  "split_loop s parent [] = Ok s"
| "split_loop s parent (parent_size_class # rest) =
     rbind (split_cell parent parent_size_class) (\<lambda>(_, unit2).
     rbind (usub parent_size_class 1) (\<lambda>child_size_class.
     rbind (rassert (child_size_class < NUM_SIZE_CLASS)) (\<lambda>_.
     rbind (ppr_push s unit2 child_size_class) (\<lambda>s'.
     split_loop s' parent rest))))"

fun allocate_cell_slow_loop :: "phys \<Rightarrow> nat \<Rightarrow> nat list \<Rightarrow> (phys \<times> address option) res" where
  "allocate_cell_slow_loop s request [] = Ok (s, None)"
| "allocate_cell_slow_loop s request (sc # rest) =
     rbind (ppr_pop s sc) (\<lambda>(s1, r).
     case r of
       Some unit \<Rightarrow>
         rbind (split_loop s1 unit (rev [request + 1..<sc + 1])) (\<lambda>s2. Ok (s2, Some unit))
     | None \<Rightarrow> allocate_cell_slow_loop s1 request rest)"

definition allocate_cell_slow :: "phys \<Rightarrow> nat \<Rightarrow> (phys \<times> address option) res" where
  "allocate_cell_slow s request = allocate_cell_slow_loop s request [request..<NUM_SIZE_CLASS]"

definition allocate_cell :: "phys \<Rightarrow> nat \<Rightarrow> (phys \<times> address option) res" where
  "allocate_cell s sc =
     rbind (ppr_pop s sc) (\<lambda>(s1, r).
     case r of
       Some cell \<Rightarrow> Ok (s1, Some cell)
     | None \<Rightarrow> allocate_cell_slow s1 sc)"

definition ppr_release_cell :: "phys \<Rightarrow> address \<Rightarrow> nat \<Rightarrow> phys res" where
  "ppr_release_cell s cell sc = ppr_push s cell sc"

lemma ppr_size_pos: "ppr_size sc = Ok n \<Longrightarrow> 0 < n"
  using pow_less_USIZE_LIMIT by (auto simp: ppr_size_def ushl_Ok_iff)

function release_contiguous_loop :: "phys \<Rightarrow> address \<Rightarrow> usize \<Rightarrow> address \<Rightarrow> phys res" where
  "release_contiguous_loop s start bytes limit =
     (if addr_lt start limit then
        rbind (ppr_size_class bytes) (\<lambda>curr_size_class.
        rbind (ppr_size curr_size_class) (\<lambda>c.
        rbind (if bytes = c then Ok curr_size_class else usub curr_size_class 1) (\<lambda>prev_size_class.
        rbind (usub (trailing_zeros start) (LOG_BYTES Size4K)) (\<lambda>align.
        let sc = min prev_size_class align in
        rbind (ppr_size sc) (\<lambda>sz.
        rbind (addr_add start sz) (\<lambda>e.
        if start AND (sz - 1) \<noteq> 0 then Panic Hang
        else if limit < e then Panic Hang
        else
          rbind (ppr_release_cell s start sc) (\<lambda>s'.
          rbind (addr_diff limit e) (\<lambda>bytes'.
          release_contiguous_loop s' e bytes' limit))))))))
      else rbind (rassert (start = limit)) (\<lambda>_. Ok s))"
  by pat_completeness auto
termination
  by (relation "measure (\<lambda>(s, start, bytes, limit). limit - start)")
    (auto simp: addr_add_def uadd_Ok_iff dest!: ppr_size_pos)

declare release_contiguous_loop.simps [simp del]

definition release_contiguous :: "phys \<Rightarrow> address \<Rightarrow> usize \<Rightarrow> phys res" where
  "release_contiguous s start bytes =
     rbind (addr_add start bytes) (\<lambda>limit. release_contiguous_loop s start bytes limit)"

fun ppr_init :: "phys \<Rightarrow> (frame \<times> frame) list \<Rightarrow> phys res" where
  "ppr_init s [] = Ok s"
| "ppr_init s ((a, b) # frames) =
     rbind (addr_diff (page_start b) (page_start a)) (\<lambda>bytes.
     rbind (release_contiguous s (page_start a) bytes) (\<lambda>s'. ppr_init s' frames))"

definition ppr_acquire :: "page_size \<Rightarrow> phys \<Rightarrow> (phys \<times> frame option) res" where
  "ppr_acquire S s =
     rbind (ppr_size_class (2 ^ LOG_BYTES S)) (\<lambda>sc.
     rbind (allocate_cell s sc) (\<lambda>(s', r).
     case r of
       None \<Rightarrow> Ok (s', None)
     | Some addr \<Rightarrow> rbind (page_new S addr) (\<lambda>f. Ok (s', Some f))))"

definition ppr_release :: "page_size \<Rightarrow> phys \<Rightarrow> frame \<Rightarrow> phys res" where
  "ppr_release S s frame =
     rbind (ppr_size_class (2 ^ LOG_BYTES S)) (\<lambda>sc.
     ppr_release_cell s (page_start frame) sc)"

section \<open>The free lists\<close>

definition ppr_rep :: "phys \<Rightarrow> (nat \<Rightarrow> address list) \<Rightarrow> bool" where
  "ppr_rep s L \<longleftrightarrow> length (ph_table s) = 37 \<and> lists_rep (ph_mem s) (ph_table s) L"

lemma NUM_SIZE_CLASS_eq [simp]: "NUM_SIZE_CLASS = 37"
  by (simp add: NUM_SIZE_CLASS_def LOG_MAX_ADDRESS_SPACE_SIZE_def)

interpretation ppr: cell_lists ppr_push ppr_pop ppr_rep ph_mem 37 12
proof unfold_locales
  fix s L and sc :: nat and c
  assume "ppr_rep s L" "sc < 37" "0 < c" "c < USIZE_LIMIT" "\<forall>sc'. c \<notin> set (L sc')"
  then show "\<exists>s'. ppr_push s c sc = Ok s' \<and> ppr_rep s' (L(sc := c # L sc)) \<and> (\<forall>a. a \<noteq> c \<longrightarrow> ph_mem s' a = ph_mem s a)"
    using lists_rep_push [of "ph_mem s" "ph_table s" L sc c]
    by (simp add: ppr_rep_def ppr_push_def addr_store_def)
next
  fix s L and sc :: nat
  assume "ppr_rep s L" "sc < 37" "L sc = []"
  then show "ppr_pop s sc = Ok (s, None)"
    using lists_rep_empty [of "ph_mem s" "ph_table s" L sc] by (simp add: ppr_rep_def ppr_pop_def addr_is_zero_def)
next
  fix s L and sc :: nat and c cs
  assume a: "ppr_rep s L" "sc < 37" "L sc = c # cs"
  show "\<exists>s'. ppr_pop s sc = Ok (s', Some c) \<and> ppr_rep s' (L(sc := cs)) \<and> ph_mem s' = ph_mem s"
    using a lists_rep_pop [of "ph_mem s" "ph_table s" L sc c cs]
    by (simp add: ppr_rep_def ppr_pop_def addr_is_zero_def)
next
  fix s L and sc :: nat
  assume "ppr_rep s L" "37 \<le> sc"
  then show "L sc = []" by (simp add: ppr_rep_def lists_rep_def)
qed

section \<open>Splitting\<close>

lemma split_loop_Ok:
  assumes "req \<le> sc"
  shows "ppr.pool s L \<Longrightarrow> sc < 37 \<Longrightarrow> cell_valid 12 sc u \<Longrightarrow> cell_range 12 sc u \<inter> pool_free 12 L = {}
    \<Longrightarrow> \<exists>s' L'. split_loop s u (rev [req + 1..<sc + 1]) = Ok s' \<and> ppr.pool s' L' \<and> cell_valid 12 req u
      \<and> pool_free 12 L' = pool_free 12 L \<union> (cell_range 12 sc u - cell_range 12 req u)
      \<and> (\<forall>a. a \<notin> cell_range 12 sc u \<longrightarrow> ph_mem s' a = ph_mem s a)"
  using assms
proof (induction sc arbitrary: s L rule: dec_induct)
  case base
  then show ?case by auto
next
  case (step sc)
  let ?u2 = "u + 2 ^ (sc + 12)"
  note v = cell_valid_halves [OF step.prems(3)] and h = cell_range_halves [of 12 sc u]
    and hd = cell_halves_disjoint [of 12 sc u]
  have dj: "cell_range 12 sc ?u2 \<inter> pool_free 12 L = {}" using step.prems(4) h by blast
  obtain s1 where s1: "ppr_push s ?u2 sc = Ok s1" "ppr.pool s1 (L(sc := ?u2 # L sc))"
      "pool_free 12 (L(sc := ?u2 # L sc)) = pool_free 12 L \<union> cell_range 12 sc ?u2"
      "\<And>a. a \<notin> cell_range 12 sc ?u2 \<Longrightarrow> ph_mem s1 a = ph_mem s a"
    by (rule ppr.push_pool [OF step.prems(1) _ v(2) dj]) (use step.prems(2) in auto)
  have dj': "cell_range 12 sc u \<inter> pool_free 12 (L(sc := ?u2 # L sc)) = {}"
    unfolding s1(3) using step.prems(4) h hd by blast
  have "sc < 37" using step.prems(2) by simp
  then obtain s' L' where s': "split_loop s1 u (rev [req + 1..<sc + 1]) = Ok s'" "ppr.pool s' L'"
      "cell_valid 12 req u"
      "pool_free 12 L' = pool_free 12 (L(sc := ?u2 # L sc)) \<union> (cell_range 12 sc u - cell_range 12 req u)"
      "\<forall>a. a \<notin> cell_range 12 sc u \<longrightarrow> ph_mem s' a = ph_mem s1 a"
    using step.IH [OF s1(2) _ v(1) dj'] by blast
  have "?u2 < USIZE_LIMIT" using v(2) by (rule cell_valid_less)
  moreover have "rev [req + 1..<Suc sc + 1] = Suc sc # rev [req + 1..<sc + 1]" using step.hyps by simp
  ultimately have "split_loop s u (rev [req + 1..<Suc sc + 1]) = Ok s'"
    using s1(1) s'(1) step.prems(2) by (simp add: split_cell_def del: upt_Suc)
  moreover have "pool_free 12 L' = pool_free 12 L \<union> (cell_range 12 (Suc sc) u - cell_range 12 req u)"
    unfolding s'(4) s1(3) using h hd cell_range_mono [OF step.hyps(1), of 12 u] by blast
  moreover have "\<forall>a. a \<notin> cell_range 12 (Suc sc) u \<longrightarrow> ph_mem s' a = ph_mem s a"
    using s'(5) s1(4) h by auto
  ultimately show ?case using s'(2,3) by blast
qed

section \<open>Acquiring and releasing cells\<close>

definition ph_took :: "phys \<Rightarrow> (nat \<Rightarrow> address list) \<Rightarrow> nat \<Rightarrow> address \<Rightarrow> phys \<Rightarrow> bool" where
  "ph_took s L sc c s' \<longleftrightarrow> (\<exists>L'. ppr.pool s' L' \<and> cell_valid 12 sc c \<and> cell_range 12 sc c \<subseteq> pool_free 12 L
    \<and> pool_free 12 L' = pool_free 12 L - cell_range 12 sc c)
    \<and> (\<forall>a. a \<notin> pool_free 12 L \<longrightarrow> ph_mem s' a = ph_mem s a)"

lemma alloc_loop_cases:
  assumes "ppr.pool s L"
  shows "req \<le> lo \<Longrightarrow> (\<forall>sc \<in> {lo..<37}. L sc = []) \<and> allocate_cell_slow_loop s req [lo..<37] = Ok (s, None)
    \<or> (\<exists>s' c. allocate_cell_slow_loop s req [lo..<37] = Ok (s', Some c) \<and> ph_took s L req c s')"
proof (induction "37 - lo" arbitrary: lo)
  case 0
  then show ?case by simp
next
  case (Suc n)
  then have lo: "lo < 37" by simp
  then have up: "[lo..<37] = lo # [Suc lo..<37]" by (rule upt_conv_Cons)
  show ?case
  proof (cases "L lo")
    case Nil
    then have "ppr_pop s lo = Ok (s, None)" by (rule ppr.pop_pool_none [OF assms lo])
    moreover have "(\<forall>sc \<in> {Suc lo..<37}. L sc = []) \<longrightarrow> (\<forall>sc \<in> {lo..<37}. L sc = [])"
      using Nil by (metis atLeastLessThan_iff le_neq_implies_less Suc_leI)
    moreover have "n = 37 - Suc lo" "req \<le> Suc lo" using Suc.hyps(2) Suc.prems by auto
    ultimately show ?thesis using Suc.hyps(1) [of "Suc lo"] unfolding up by auto
  next
    case (Cons u us)
    obtain s1 where s1: "ppr_pop s lo = Ok (s1, Some u)" "ppr.pool s1 (L(lo := us))" "cell_valid 12 lo u"
        "cell_range 12 lo u \<subseteq> pool_free 12 L" "pool_free 12 (L(lo := us)) = pool_free 12 L - cell_range 12 lo u"
        "ph_mem s1 = ph_mem s"
      by (rule ppr.pop_pool [OF assms lo Cons])
    obtain s' L' where s': "split_loop s1 u (rev [req + 1..<lo + 1]) = Ok s'" "ppr.pool s' L'" "cell_valid 12 req u"
        "pool_free 12 L' = pool_free 12 (L(lo := us)) \<union> (cell_range 12 lo u - cell_range 12 req u)"
        "\<forall>a. a \<notin> cell_range 12 lo u \<longrightarrow> ph_mem s' a = ph_mem s1 a"
      using split_loop_Ok [OF Suc.prems s1(2) lo s1(3)] s1(5) by auto
    have sub: "cell_range 12 req u \<subseteq> cell_range 12 lo u" using Suc.prems by (rule cell_range_mono)
    have "pool_free 12 L' = pool_free 12 L - cell_range 12 req u"
      unfolding s'(4) s1(5) using s1(4) sub by blast
    moreover have "\<forall>a. a \<notin> pool_free 12 L \<longrightarrow> ph_mem s' a = ph_mem s a" using s'(5) s1(4,6) by auto
    ultimately have "ph_took s L req u s'" using s'(2,3) s1(4) sub unfolding ph_took_def by blast
    then show ?thesis using s1(1) s'(1) unfolding up by (simp del: upt_Suc)
  qed
qed

lemma allocate_cell_cases:
  assumes "ppr.pool s L" and "sc < 37"
  obtains (none) "allocate_cell s sc = Ok (s, None)" and "\<forall>k \<ge> sc. L k = []"
  | (some) s' c where "allocate_cell s sc = Ok (s', Some c)" and "ph_took s L sc c s'"
proof (cases "L sc")
  case Nil
  then have pop: "ppr_pop s sc = Ok (s, None)" by (rule ppr.pop_pool_none [OF assms])
  have "\<forall>k \<ge> sc. L k = []" if "\<forall>k \<in> {sc..<37}. L k = []"
    using that ppr.rep_classes assms(1) by (metis atLeastLessThan_iff not_le ppr.pool_def)
  then show ?thesis
    using alloc_loop_cases [OF assms(1), of sc sc] none some pop
    by (auto simp: allocate_cell_def allocate_cell_slow_def simp del: upt_Suc)
next
  case (Cons u us)
  obtain s1 where "ppr_pop s sc = Ok (s1, Some u)" "ppr.pool s1 (L(sc := us))" "cell_valid 12 sc u"
      "cell_range 12 sc u \<subseteq> pool_free 12 L" "pool_free 12 (L(sc := us)) = pool_free 12 L - cell_range 12 sc u"
      "ph_mem s1 = ph_mem s"
    by (rule ppr.pop_pool [OF assms Cons])
  then show ?thesis using some [of s1 u] by (auto simp: allocate_cell_def ph_took_def)
qed

section \<open>Releasing a contiguous range\<close>

lemma ppr_size_Ok: "sc < 52 \<Longrightarrow> ppr_size sc = Ok (2 ^ (sc + 12))"
  by (simp add: ppr_size_def)

lemma ppr_size_class_Ok: "clog2 n < 64 \<Longrightarrow> 12 \<le> clog2 n \<Longrightarrow> ppr_size_class n = Ok (clog2 n - 12)"
  by (simp add: ppr_size_class_def)

lemma clog2_page:
  assumes "(4096::nat) dvd n" and "0 < n"
  shows "12 \<le> clog2 n" and "n \<noteq> 2 ^ clog2 n \<Longrightarrow> 12 < clog2 n" and "2 ^ (clog2 n - 1) \<le> n"
proof -
  have n: "4096 \<le> n" using assms by (rule dvd_imp_le)
  then have "clog2 (2 ^ 12) \<le> clog2 n" by (intro clog2_mono) simp
  then show ge: "12 \<le> clog2 n" by (simp only: clog2_pow)
  have "2 ^ clog2 n < 2 * n" using n by (intro clog2_pow_less) simp
  moreover have "(2::nat) ^ clog2 n = 2 ^ (clog2 n - 1) * 2 ^ 1" using ge by (intro pow_split) simp
  ultimately show "2 ^ (clog2 n - 1) \<le> n" by simp
  assume ne: "n \<noteq> 2 ^ clog2 n"
  show "12 < clog2 n"
  proof (rule ccontr)
    assume "\<not> 12 < clog2 n"
    then have "clog2 n = 12" using ge by simp
    then have "n \<le> 4096" using clog2_le_pow [of n] by simp
    then show False using n ne \<open>clog2 n = 12\<close> by simp
  qed
qed

lemma trailing_zeros_page: "(4096::nat) dvd start \<Longrightarrow> 12 \<le> trailing_zeros start"
  using trailing_zeros_greatest [of start 12] by (cases "start = 0") (auto simp: trailing_zeros.simps)

lemma release_size_choice:
  assumes "4096 dvd start" "0 < start" and "4096 dvd n" "0 < n" "n \<le> 2 ^ 48" and "start + n < USIZE_LIMIT"
  obtains c prev sc where "ppr_size_class n = Ok c" and "ppr_size c = Ok (2 ^ (c + 12))"
    and "(if n = 2 ^ (c + 12) then Ok c else usub c 1) = Ok prev"
    and "usub (trailing_zeros start) 12 = Ok (trailing_zeros start - 12)"
    and "sc = min prev (trailing_zeros start - 12)" and "sc < 37" and "2 ^ (sc + 12) \<le> n"
    and "cell_valid 12 sc start"
proof -
  note cl = clog2_page [OF assms(3,4)]
  have c48: "clog2 n \<le> 48" using assms(5) by (rule clog2_least)
  define c where "c = clog2 n - 12"
  have c12: "c + 12 = clog2 n" using cl(1) by (simp add: c_def)
  define prev where "prev = (if n = 2 ^ (c + 12) then c else c - 1)"
  have prev: "(if n = 2 ^ (c + 12) then Ok c else usub c 1) = Ok prev"
    using cl(2) by (auto simp: prev_def c12) (simp add: c_def)
  have "2 ^ (prev + 12) \<le> n"
  proof (cases "n = 2 ^ (c + 12)")
    case False
    then have "prev + 12 = clog2 n - 1" using cl(2) c12 by (simp add: prev_def)
    then show ?thesis using cl(3) by simp
  qed (simp add: prev_def)
  moreover define sc where "sc = min prev (trailing_zeros start - 12)"
  moreover have "(2::nat) ^ (sc + 12) \<le> 2 ^ (prev + 12)" by (rule power_increasing) (simp_all add: sc_def)
  ultimately have size: "2 ^ (sc + 12) \<le> n" by linarith
  have "sc + 12 \<le> trailing_zeros start" using trailing_zeros_page [OF assms(1)] by (simp add: sc_def)
  then have "(2::nat) ^ (sc + 12) dvd 2 ^ trailing_zeros start" by (rule le_imp_power_dvd)
  moreover have "2 ^ trailing_zeros start dvd start" using assms(2) by (intro trailing_zeros_dvd) simp
  ultimately have "2 ^ (sc + 12) dvd start" by (rule dvd_trans)
  then have v: "cell_valid 12 sc start" using assms(2,6) size by (simp add: cell_valid_def)
  have "prev \<le> c" by (simp add: prev_def)
  then have sc: "sc < 37" and c52: "c < 52" using c48 c12 by (auto simp: sc_def)
  show ?thesis
    using that [OF _ ppr_size_Ok [OF c52] prev _ sc_def sc size v]
      ppr_size_class_Ok [of n] cl(1) c48 trailing_zeros_page [OF assms(1)] by (simp add: c_def)
qed

lemma release_contiguous_loop_Ok:
  "ppr.pool s L \<Longrightarrow> 4096 dvd start \<Longrightarrow> 0 < start \<Longrightarrow> 4096 dvd n \<Longrightarrow> n \<le> 2 ^ 48
    \<Longrightarrow> start + n < USIZE_LIMIT \<Longrightarrow> {start..<start + n} \<inter> pool_free 12 L = {} \<Longrightarrow>
    \<exists>s' L'. release_contiguous_loop s start n (start + n) = Ok s' \<and> ppr.pool s' L'
      \<and> pool_free 12 L' = pool_free 12 L \<union> {start..<start + n}
      \<and> (\<forall>a. a \<notin> {start..<start + n} \<longrightarrow> ph_mem s' a = ph_mem s a)"
proof (induction n arbitrary: s L start rule: less_induct)
  case (less n)
  show ?case
  proof (cases "n = 0")
    case True
    then show ?thesis using less.prems(1) by (auto simp: release_contiguous_loop.simps)
  next
    case False
    obtain c prev sc where c: "ppr_size_class n = Ok c" "ppr_size c = Ok (2 ^ (c + 12))"
      "(if n = 2 ^ (c + 12) then Ok c else usub c 1) = Ok prev"
      "usub (trailing_zeros start) 12 = Ok (trailing_zeros start - 12)"
      "sc = min prev (trailing_zeros start - 12)" "sc < 37" "2 ^ (sc + 12) \<le> n" "cell_valid 12 sc start"
      by (rule release_size_choice [of start n]) (use less.prems False in auto)
    let ?z = "2 ^ (sc + 12) :: nat"
    have rng: "cell_range 12 sc start = {start..<start + ?z}" by (simp add: cell_range_def)
    have dj: "cell_range 12 sc start \<inter> pool_free 12 L = {}"
      using less.prems(7) c(7) unfolding rng by fastforce
    obtain s1 L1 where s1: "ppr_push s start sc = Ok s1" "ppr.pool s1 L1"
        "pool_free 12 L1 = pool_free 12 L \<union> cell_range 12 sc start"
        "\<And>a. a \<notin> cell_range 12 sc start \<Longrightarrow> ph_mem s1 a = ph_mem s a"
      by (rule ppr.push_pool [OF less.prems(1) c(6,8) dj]) blast
    let ?n' = "n - ?z"
    have z: "4096 dvd ?z" using le_imp_power_dvd [of 12 "sc + 12" "2::nat"] by simp
    have e: "start + ?z + ?n' = start + n" using c(7) by simp
    have d1: "{start + ?z..<start + ?z + ?n'} \<inter> pool_free 12 L1 = {}"
      unfolding e s1(3) rng using less.prems(7) by (auto simp: disjoint_iff)
    have h: "?n' < n" "4096 dvd start + ?z" "0 < start + ?z" "4096 dvd ?n'" "?n' \<le> 2 ^ 48"
        "start + ?z + ?n' < USIZE_LIMIT"
      unfolding e using False less.prems(2-6) z by (auto simp: dvd_diff_nat)
    obtain s' L' where s': "release_contiguous_loop s1 (start + ?z) ?n' (start + n) = Ok s'" "ppr.pool s' L'"
        "pool_free 12 L' = pool_free 12 L1 \<union> {start + ?z..<start + n}"
        "\<forall>a. a \<notin> {start + ?z..<start + n} \<longrightarrow> ph_mem s' a = ph_mem s1 a"
      using less.IH [OF h(1) s1(2) h(2-6) d1, unfolded e] by (elim exE conjE)
    have lim: "start + ?z < USIZE_LIMIT" using c(7) less.prems(6) by linarith
    have "start AND (?z - 1) = 0"
      using and_mask_eq_mod [of start "sc + 12"] c(8) by (simp add: cell_valid_def)
    then have "release_contiguous_loop s start n (start + n) = Ok s'"
      using c(1-4,6-8) s1(1) s'(1) lim False
      by (subst release_contiguous_loop.simps)
        (simp add: ppr_size_Ok ppr_release_cell_def addr_add_def addr_diff_def c(5) [symmetric])
    moreover have "pool_free 12 L' = pool_free 12 L \<union> {start..<start + n}"
      unfolding s'(3) s1(3) rng using c(7) by auto
    moreover have "\<forall>a. a \<notin> {start..<start + n} \<longrightarrow> ph_mem s' a = ph_mem s a"
      using s'(4) s1(4) c(7) unfolding rng by auto
    ultimately show ?thesis using s'(2) by blast
  qed
qed

section \<open>The free set of a state\<close>

lemma chain_unique: "chain m h xs \<Longrightarrow> chain m h ys \<Longrightarrow> xs = ys"
proof (induction xs arbitrary: h ys)
  case Nil
  then show ?case by (cases ys) auto
next
  case (Cons x xs)
  then show ?case by (cases ys) auto
qed

definition ph_inv :: "phys \<Rightarrow> bool" where
  "ph_inv s \<longleftrightarrow> (\<exists>L. ppr.pool s L)"

definition ph_free :: "phys \<Rightarrow> address set" where
  "ph_free s = (\<Union>L \<in> {L. ppr.pool s L}. pool_free 12 L)"

lemma ppr_pool_unique: "ppr.pool s L \<Longrightarrow> ppr.pool s L' \<Longrightarrow> L = L'"
proof (rule ext)
  fix sc
  assume "ppr.pool s L" "ppr.pool s L'"
  then show "L sc = L' sc"
    using chain_unique [of "ph_mem s" "ph_table s ! sc" "L sc" "L' sc"]
    by (cases "sc < 37") (auto simp: ppr.pool_def ppr_rep_def lists_rep_def)
qed

lemma ph_free_eq: "ppr.pool s L \<Longrightarrow> ph_free s = pool_free 12 L"
  using ppr_pool_unique unfolding ph_free_def by blast

lemma cell_range_frame: "cell_range 12 (LOG_BYTES S - 12) f = {f..<f + BYTES S}"
  by (cases S) (simp_all add: cell_range_def BYTES_def)

lemma cell_valid_frame:
  "cell_valid 12 (LOG_BYTES S - 12) f \<longleftrightarrow> 0 < f \<and> BYTES S dvd f \<and> f + BYTES S \<le> USIZE_LIMIT"
  by (cases S) (simp_all add: cell_valid_def BYTES_def)

lemma frame_size_class: "ppr_size_class (2 ^ LOG_BYTES S) = Ok (LOG_BYTES S - 12)" "LOG_BYTES S - 12 < 37"
  by (cases S; simp add: ppr_size_class_Ok clog2_pow del: power_numeral)+

end
