(* ===== verification/Frames.thy ===== *)
theory Frames
  imports Physical
begin

text \<open>
  The contract of \<^verbatim>\<open>PageAllocator\<close> (\<^verbatim>\<open>libs/memory/src/page.rs\<close>) as the locale
  \<open>frame_allocator\<close>, its interpretation on the physical page resource, and the runs of its
  clients: frames that are handed out are aligned, disjoint and never written by the allocator
  while they are in use.
\<close>

section \<open>Client runs\<close>

datatype frame_op = Alloc page_size | Dealloc nat

fun frame_step :: "(page_size \<Rightarrow> 's \<Rightarrow> ('s \<times> frame option) res) \<Rightarrow> (page_size \<Rightarrow> 's \<Rightarrow> frame \<Rightarrow> 's res)
    \<Rightarrow> frame_op \<Rightarrow> 's \<times> (page_size \<times> frame) list \<Rightarrow> ('s \<times> (page_size \<times> frame) list) res" where
  "frame_step alloc dealloc (Alloc S) (s, live) =
     rbind (alloc S s) (\<lambda>(s', r). Ok (s', case r of None \<Rightarrow> live | Some f \<Rightarrow> (S, f) # live))"
| "frame_step alloc dealloc (Dealloc i) (s, live) =
     rbind (idx live i) (\<lambda>(S, f).
     rbind (dealloc S s f) (\<lambda>s'. Ok (s', take i live @ drop (Suc i) live)))"

fun frame_run :: "(page_size \<Rightarrow> 's \<Rightarrow> ('s \<times> frame option) res) \<Rightarrow> (page_size \<Rightarrow> 's \<Rightarrow> frame \<Rightarrow> 's res)
    \<Rightarrow> frame_op list \<Rightarrow> 's \<times> (page_size \<times> frame) list \<Rightarrow> ('s \<times> (page_size \<times> frame) list) res" where
  "frame_run alloc dealloc [] st = Ok st"
| "frame_run alloc dealloc (c # cs) st = rbind (frame_step alloc dealloc c st) (frame_run alloc dealloc cs)"

definition frame_set :: "page_size \<times> frame \<Rightarrow> address set" where
  "frame_set r = (case r of (S, f) \<Rightarrow> {f..<f + BYTES S})"

definition frame_ok :: "address set \<Rightarrow> page_size \<times> frame \<Rightarrow> bool" where
  "frame_ok region r \<longleftrightarrow> (case r of (S, f) \<Rightarrow>
     0 < f \<and> BYTES S dvd f \<and> f + BYTES S \<le> USIZE_LIMIT \<and> {f..<f + BYTES S} \<subseteq> region)"

definition live_frames :: "('s \<Rightarrow> bool) \<Rightarrow> ('s \<Rightarrow> address set) \<Rightarrow> address set
    \<Rightarrow> 's \<times> (page_size \<times> frame) list \<Rightarrow> bool" where
  "live_frames invar free region st \<longleftrightarrow> (case st of (s, live) \<Rightarrow>
     invar s \<and> apart (map frame_set live) \<and> (\<forall>r \<in> set live. frame_ok region r)
     \<and> free s = region - \<Union> (frame_set ` set live))"

section \<open>The contract of a frame allocator\<close>

text \<open>
  \<^verbatim>\<open>PageAllocator\<close> of \<^verbatim>\<open>libs/memory/src/page.rs\<close>, as its clients (the page tables, the
  kernel heap, the process loader) rely on it. A source only hands frames out; \<open>put_mem\<close> is a client writing memory it
  owns.
\<close>

locale frame_source =
  fixes alloc :: "page_size \<Rightarrow> 's \<Rightarrow> ('s \<times> frame option) res"
    and invar :: "'s \<Rightarrow> bool"
    and free :: "'s \<Rightarrow> address set"
    and mem :: "'s \<Rightarrow> memory"
    and put_mem :: "'s \<Rightarrow> memory \<Rightarrow> 's"
  assumes alloc_cases: "invar s \<Longrightarrow> alloc S s = Ok (s, None) \<or>
      (\<exists>s' f. alloc S s = Ok (s', Some f) \<and> invar s' \<and> 0 < f \<and> BYTES S dvd f \<and> f + BYTES S \<le> USIZE_LIMIT
        \<and> {f..<f + BYTES S} \<subseteq> free s \<and> free s' = free s - {f..<f + BYTES S}
        \<and> (\<forall>a. a \<notin> free s \<longrightarrow> mem s' a = mem s a))"
    and alloc_4k: "invar s \<Longrightarrow> alloc Size4K s = Ok (s, None) \<Longrightarrow> free s = {}"
    and put_mem_Ok: "invar s \<Longrightarrow> \<forall>a \<in> free s. m a = mem s a \<Longrightarrow>
      invar (put_mem s m) \<and> free (put_mem s m) = free s \<and> mem (put_mem s m) = m"

text \<open>An allocator also takes frames back.\<close>

locale frame_allocator = frame_source alloc invar free mem put_mem
  for alloc :: "page_size \<Rightarrow> 's \<Rightarrow> ('s \<times> frame option) res"
    and dealloc :: "page_size \<Rightarrow> 's \<Rightarrow> frame \<Rightarrow> 's res"
    and invar :: "'s \<Rightarrow> bool"
    and free :: "'s \<Rightarrow> address set"
    and mem :: "'s \<Rightarrow> memory"
    and put_mem :: "'s \<Rightarrow> memory \<Rightarrow> 's" +
  assumes dealloc_Ok: "invar s \<Longrightarrow> 0 < f \<Longrightarrow> BYTES S dvd f \<Longrightarrow> f + BYTES S \<le> USIZE_LIMIT
      \<Longrightarrow> {f..<f + BYTES S} \<inter> free s = {} \<Longrightarrow>
      \<exists>s'. dealloc S s f = Ok s' \<and> invar s' \<and> free s' = free s \<union> {f..<f + BYTES S}
        \<and> (\<forall>a. a \<notin> {f..<f + BYTES S} \<longrightarrow> mem s' a = mem s a)"
begin

abbreviation frames_ok :: "address set \<Rightarrow> 's \<times> (page_size \<times> frame) list \<Rightarrow> bool" where
  "frames_ok \<equiv> live_frames invar free"

lemma alloc_step:
  assumes "frames_ok region (s, live)"
  shows "alloc S s = Ok (s, None)
    \<or> (\<exists>s' f. alloc S s = Ok (s', Some f) \<and> frames_ok region (s', (S, f) # live)
        \<and> (\<forall>a. a \<notin> free s \<longrightarrow> mem s' a = mem s a))"
proof -
  have inv: "invar s" and ap: "apart (map frame_set live)" and fr: "free s = region - \<Union> (frame_set ` set live)"
    and lr: "\<forall>r \<in> set live. frame_ok region r"
    using assms by (auto simp: live_frames_def)
  from alloc_cases [OF inv, of S] show ?thesis
  proof (elim disjE exE conjE)
    fix s' f
    assume a: "alloc S s = Ok (s', Some f)" "invar s'" "0 < f" "BYTES S dvd f" "f + BYTES S \<le> USIZE_LIMIT"
      "{f..<f + BYTES S} \<subseteq> free s" "free s' = free s - {f..<f + BYTES S}"
      "\<forall>a. a \<notin> free s \<longrightarrow> mem s' a = mem s a"
    have "apart (map frame_set ((S, f) # live))" using ap a(6) fr by (auto simp: frame_set_def)
    moreover have "frame_ok region (S, f)" using a(3-6) fr by (auto simp: frame_ok_def)
    moreover have "free s' = region - \<Union> (frame_set ` set ((S, f) # live))"
      using a(7) fr by (auto simp: frame_set_def)
    ultimately have "frames_ok region (s', (S, f) # live)" using a(2) lr by (simp add: live_frames_def)
    with a(1,8) show ?thesis by blast
  qed simp
qed

lemma dealloc_step:
  assumes "frames_ok region (s, live)" and "i < length live" and i: "live ! i = (S, f)"
  shows "\<exists>s'. dealloc S s f = Ok s' \<and> frames_ok region (s', take i live @ drop (Suc i) live)
    \<and> (\<forall>a. a \<notin> {f..<f + BYTES S} \<longrightarrow> mem s' a = mem s a)"
proof -
  have inv: "invar s" and ap: "apart (map frame_set live)" and fr: "free s = region - \<Union> (frame_set ` set live)"
    and lr: "\<forall>r \<in> set live. frame_ok region r"
    using assms(1) by (auto simp: live_frames_def)
  let ?rest = "take i live @ drop (Suc i) live"
  have ap': "apart (map frame_set ?rest)" and dj: "\<forall>r \<in> set ?rest. {f..<f + BYTES S} \<inter> frame_set r = {}"
    and sub: "set live = insert (S, f) (set ?rest)"
    using apart_remove [OF ap assms(2)] by (auto simp: i frame_set_def)
  have f: "0 < f" "BYTES S dvd f" "f + BYTES S \<le> USIZE_LIMIT" and reg: "{f..<f + BYTES S} \<subseteq> region"
    using lr sub by (auto simp: frame_ok_def)
  have "{f..<f + BYTES S} \<inter> free s = {}" unfolding fr sub by (auto simp: frame_set_def)
  then obtain s' where s': "dealloc S s f = Ok s'" "invar s'" "free s' = free s \<union> {f..<f + BYTES S}"
      "\<forall>a. a \<notin> {f..<f + BYTES S} \<longrightarrow> mem s' a = mem s a"
    using dealloc_Ok [OF inv f] by blast
  have "free s' = region - \<Union> (frame_set ` set ?rest)"
    unfolding s'(3) fr sub using dj reg by (auto simp: frame_set_def)
  moreover have "\<forall>r \<in> set ?rest. frame_ok region r" using lr sub by blast
  ultimately show ?thesis using s' ap' by (auto simp: live_frames_def)
qed

lemma frame_run_ok:
  "frames_ok region (s, live) \<Longrightarrow>
    frame_run alloc dealloc cs (s, live) = Panic IndexOutOfBounds
    \<or> (\<exists>s' live'. frame_run alloc dealloc cs (s, live) = Ok (s', live') \<and> frames_ok region (s', live')
        \<and> (\<forall>a. a \<notin> region \<longrightarrow> mem s' a = mem s a))"
proof (induction cs arbitrary: s live)
  case (Cons c cs)
  have "frame_step alloc dealloc c (s, live) = Panic IndexOutOfBounds
    \<or> (\<exists>s' live'. frame_step alloc dealloc c (s, live) = Ok (s', live') \<and> frames_ok region (s', live')
        \<and> (\<forall>a. a \<notin> region \<longrightarrow> mem s' a = mem s a))"
  proof (cases c)
    case (Alloc S)
    have "free s \<subseteq> region" using Cons.prems by (auto simp: live_frames_def)
    with alloc_step [OF Cons.prems, of S] Cons.prems Alloc show ?thesis by (elim disjE exE conjE) auto
  next
    case (Dealloc i)
    show ?thesis
    proof (cases "i < length live")
      case True
      obtain S f where i: "live ! i = (S, f)" by (cases "live ! i")
      have "{f..<f + BYTES S} \<subseteq> region"
        using Cons.prems nth_mem [OF True] i by (fastforce simp: live_frames_def frame_ok_def)
      moreover obtain s' where s': "dealloc S s f = Ok s'"
          "frames_ok region (s', take i live @ drop (Suc i) live)"
          "\<forall>a. a \<notin> {f..<f + BYTES S} \<longrightarrow> mem s' a = mem s a"
        using dealloc_step [OF Cons.prems True i] by blast
      ultimately have "\<forall>a. a \<notin> region \<longrightarrow> mem s' a = mem s a" by blast
      then show ?thesis using s' Dealloc True i by simp
    qed (simp add: Dealloc)
  qed
  then show ?case
  proof (elim disjE exE conjE)
    fix s1 live1
    assume "frame_step alloc dealloc c (s, live) = Ok (s1, live1)" "frames_ok region (s1, live1)"
      "\<forall>a. a \<notin> region \<longrightarrow> mem s1 a = mem s a"
    then show ?thesis using Cons.IH [of s1 live1] by auto
  qed simp
qed simp

end

lemma ppr_alloc_cases:
  assumes "ph_inv s"
  shows "ppr_acquire S s = Ok (s, None) \<or>
      (\<exists>s' f. ppr_acquire S s = Ok (s', Some f) \<and> ph_inv s' \<and> 0 < f \<and> BYTES S dvd f \<and> f + BYTES S \<le> USIZE_LIMIT
        \<and> {f..<f + BYTES S} \<subseteq> ph_free s \<and> ph_free s' = ph_free s - {f..<f + BYTES S}
        \<and> (\<forall>a. a \<notin> ph_free s \<longrightarrow> ph_mem s' a = ph_mem s a))"
proof -
  obtain L where L: "ppr.pool s L" using assms by (auto simp: ph_inv_def)
  show ?thesis
  proof (cases rule: allocate_cell_cases [OF L frame_size_class(2) [of S]])
    case 1
    then show ?thesis by (simp add: ppr_acquire_def frame_size_class)
  next
    case (2 s' c)
    then obtain L' where "ppr.pool s' L'" "cell_valid 12 (LOG_BYTES S - 12) c"
      "cell_range 12 (LOG_BYTES S - 12) c \<subseteq> pool_free 12 L"
      "pool_free 12 L' = pool_free 12 L - cell_range 12 (LOG_BYTES S - 12) c"
      "\<forall>a. a \<notin> pool_free 12 L \<longrightarrow> ph_mem s' a = ph_mem s a"
      by (auto simp: ph_took_def)
    then show ?thesis
      using 2(1) L ph_free_eq [of s L] ph_free_eq [of s' L']
      by (auto simp: ppr_acquire_def frame_size_class cell_valid_frame cell_range_frame ph_inv_def)
  qed
qed

lemma ppr_alloc_4k:
  assumes "ph_inv s" and n: "ppr_acquire Size4K s = Ok (s, None)"
  shows "ph_free s = {}"
proof -
  obtain L where L: "ppr.pool s L" using assms(1) by (auto simp: ph_inv_def)
  show ?thesis
  proof (cases rule: allocate_cell_cases [OF L frame_size_class(2) [of Size4K]])
    case 1
    then show ?thesis by (auto simp: ph_free_eq [OF L] pool_free_def)
  next
    case (2 s' c)
    then have "ppr_acquire Size4K s = Ok (s', Some c)"
      using frame_size_class(1) [of Size4K] by (auto simp: ppr_acquire_def ph_took_def cell_valid_def BYTES_def)
    then show ?thesis using n by simp
  qed
qed

lemma ppr_dealloc_Ok:
  assumes "ph_inv s" "0 < f" "BYTES S dvd f" "f + BYTES S \<le> USIZE_LIMIT" "{f..<f + BYTES S} \<inter> ph_free s = {}"
  shows "\<exists>s'. ppr_release S s f = Ok s' \<and> ph_inv s' \<and> ph_free s' = ph_free s \<union> {f..<f + BYTES S}
        \<and> (\<forall>a. a \<notin> {f..<f + BYTES S} \<longrightarrow> ph_mem s' a = ph_mem s a)"
proof -
  obtain L where L: "ppr.pool s L" using assms(1) by (auto simp: ph_inv_def)
  let ?sc = "LOG_BYTES S - 12"
  have v: "cell_valid 12 ?sc f" using assms by (simp add: cell_valid_frame)
  have d: "cell_range 12 ?sc f \<inter> pool_free 12 L = {}"
    using assms(5) by (simp add: cell_range_frame ph_free_eq [OF L])
  obtain s' where "ppr_push s f ?sc = Ok s'" "ppr.pool s' (L(?sc := f # L ?sc))"
      "pool_free 12 (L(?sc := f # L ?sc)) = pool_free 12 L \<union> cell_range 12 ?sc f"
      "\<And>a. a \<notin> cell_range 12 ?sc f \<Longrightarrow> ph_mem s' a = ph_mem s a"
    by (rule ppr.push_pool [OF L frame_size_class(2) v d]) auto
  then show ?thesis
    using ph_free_eq [OF L] ph_free_eq [of s']
    by (auto simp: ppr_release_def frame_size_class ppr_release_cell_def page_start_def cell_range_frame ph_inv_def)
qed

lemma ph_put_mem:
  assumes "ph_inv s" and "\<forall>a \<in> ph_free s. m a = ph_mem s a"
  shows "ph_inv (s\<lparr>ph_mem := m\<rparr>) \<and> ph_free (s\<lparr>ph_mem := m\<rparr>) = ph_free s \<and> ph_mem (s\<lparr>ph_mem := m\<rparr>) = m"
proof -
  obtain L where L: "ppr.pool s L" using assms(1) by (auto simp: ph_inv_def)
  have "\<forall>sc. \<forall>a \<in> set (L sc). m a = ph_mem s a"
    using assms(2) start_in_pool unfolding ph_free_eq [OF L] by blast
  then have "ppr.pool (s\<lparr>ph_mem := m\<rparr>) L"
    using L lists_rep_cong [of "ph_mem s" "ph_table s" L m] by (simp add: ppr.pool_def ppr_rep_def)
  then show ?thesis using ph_free_eq [OF L] ph_free_eq by (auto simp: ph_inv_def)
qed

interpretation phys: frame_allocator ppr_acquire ppr_release ph_inv ph_free ph_mem "\<lambda>s m. s\<lparr>ph_mem := m\<rparr>"
  by unfold_locales (rule ppr_alloc_cases ppr_alloc_4k ppr_dealloc_Ok ph_put_mem; assumption)+

section \<open>Start-up\<close>

definition frames_sane :: "(frame \<times> frame) list \<Rightarrow> bool" where
  "frames_sane frames \<longleftrightarrow>
     list_all (\<lambda>(a, b). 0 < a \<and> 4096 dvd a \<and> 4096 dvd b \<and> a \<le> b \<and> b - a \<le> 2 ^ 48 \<and> b < USIZE_LIMIT) frames
     \<and> apart (map (\<lambda>(a, b). {a..<b}) frames)"

lemma ppr_init_Ok:
  "ppr.pool s L \<Longrightarrow> frames_sane frames \<Longrightarrow> \<forall>(a, b) \<in> set frames. {a..<b} \<inter> pool_free 12 L = {} \<Longrightarrow>
    \<exists>s' L'. ppr_init s frames = Ok s' \<and> ppr.pool s' L'
      \<and> pool_free 12 L' = pool_free 12 L \<union> (\<Union>(a, b) \<in> set frames. {a..<b})"
proof (induction s frames arbitrary: L rule: ppr_init.induct)
  case (2 s a b frames)
  let ?n = "b - a"
  have ab: "0 < a" "4096 dvd a" "a + ?n = b" "4096 dvd ?n" "?n \<le> 2 ^ 48" "a + ?n < USIZE_LIMIT"
    and sane: "frames_sane frames" and ap: "\<forall>(c, d) \<in> set frames. {a..<b} \<inter> {c..<d} = {}"
    using 2(3) by (auto simp: frames_sane_def dvd_diff_nat)
  obtain s1 L1 where s1: "release_contiguous_loop s a ?n (a + ?n) = Ok s1" "ppr.pool s1 L1"
      "pool_free 12 L1 = pool_free 12 L \<union> {a..<a + ?n}"
    using release_contiguous_loop_Ok [OF 2(2) ab(2,1,4,5,6)] 2(4) ab(3) by auto
  have rc: "release_contiguous s a ?n = Ok s1"
    using s1(1) ab(6) by (simp add: release_contiguous_def addr_add_def)
  have df: "addr_diff (page_start b) (page_start a) = Ok ?n"
    using ab(3) by (simp add: addr_diff_def page_start_def)
  have "\<forall>(c, d) \<in> set frames. {c..<d} \<inter> pool_free 12 L1 = {}"
    using 2(4) ap unfolding s1(3) ab(3) by fastforce
  then obtain s' L' where "ppr_init s1 frames = Ok s'" "ppr.pool s' L'"
      "pool_free 12 L' = pool_free 12 L1 \<union> (\<Union>(a, b) \<in> set frames. {a..<b})"
    using "2.IH" [OF df _ s1(2) sane] rc by (auto simp: page_start_def)
  then show ?case using df rc s1(3) ab(3) by (auto simp: page_start_def)
qed (auto simp: frames_sane_def)

lemma ppr_new_pool: "ppr.pool (ppr_new m) (\<lambda>_. [])" "pool_free 12 (\<lambda>_. []) = {}"
  by (auto simp: ppr.pool_def ppr_rep_def lists_rep_def ppr_new_def pool_ok_def pool_free_def USIZE_LIMIT_def)

section \<open>Properties\<close>

text \<open>C3: the physical frame allocator from boot onwards. For every boot memory map of disjoint,
  page-aligned ranges away from address 0, \<^verbatim>\<open>init\<close> terminates without a failed assertion and
  without entering one of its \<^verbatim>\<open>loop {}\<close> traps; along every sequence of \<^verbatim>\<open>acquire\<close> and
  \<^verbatim>\<open>release\<close> calls that returns only frames it holds, the frames in use are aligned, inside the
  map and disjoint, exactly the rest of the map is free, and no memory outside the map is written.\<close>

theorem physical_runs_safe:
  assumes "frames_sane frames"
  shows "\<exists>s. ppr_init (ppr_new m) frames = Ok s \<and>
    (frame_run ppr_acquire ppr_release cs (s, []) = Panic IndexOutOfBounds
     \<or> (\<exists>s' live. frame_run ppr_acquire ppr_release cs (s, []) = Ok (s', live)
          \<and> apart (map frame_set live) \<and> (\<forall>r \<in> set live. frame_ok (\<Union>(a, b) \<in> set frames. {a..<b}) r)
          \<and> ph_free s' = (\<Union>(a, b) \<in> set frames. {a..<b}) - \<Union> (frame_set ` set live)
          \<and> (\<forall>a. a \<notin> (\<Union>(a, b) \<in> set frames. {a..<b}) \<longrightarrow> ph_mem s' a = ph_mem s a)))"
proof -
  let ?R = "\<Union>(a, b) \<in> set frames. {a..<b}"
  obtain s L where s: "ppr_init (ppr_new m) frames = Ok s" "ppr.pool s L" "pool_free 12 L = ?R"
    using ppr_init_Ok [OF ppr_new_pool(1) assms, of m] unfolding ppr_new_pool(2) by auto
  have "live_frames ph_inv ph_free ?R (s, [])"
    using s ph_free_eq [OF s(2)] by (auto simp: live_frames_def ph_inv_def)
  from phys.frame_run_ok [OF this, of cs] s(1) show ?thesis unfolding live_frames_def by auto
qed

theorem physical_runs_safe_witness:
  "\<exists>s. ppr_init (ppr_new (\<lambda>_. 0)) [(0x80000, 0x400000), (0x600000, 0x3b400000)] = Ok s \<and>
    (frame_run ppr_acquire ppr_release [Alloc Size4K, Alloc Size2M, Dealloc 1, Alloc Size4K] (s, [])
        = Panic IndexOutOfBounds
     \<or> (\<exists>s' live. frame_run ppr_acquire ppr_release [Alloc Size4K, Alloc Size2M, Dealloc 1, Alloc Size4K] (s, [])
            = Ok (s', live)
          \<and> apart (map frame_set live)
          \<and> (\<forall>r \<in> set live. frame_ok (\<Union>(a, b) \<in> set [(0x80000, 0x400000), (0x600000, 0x3b400000)]. {a..<b}) r)
          \<and> ph_free s' = (\<Union>(a, b) \<in> set [(0x80000, 0x400000), (0x600000, 0x3b400000)]. {a..<b})
              - \<Union> (frame_set ` set live)
          \<and> (\<forall>a. a \<notin> (\<Union>(a, b) \<in> set [(0x80000, 0x400000), (0x600000, 0x3b400000)]. {a..<b})
               \<longrightarrow> ph_mem s' a = ph_mem s a)))"
  by (rule physical_runs_safe) (simp add: frames_sane_def USIZE_LIMIT_def dvd_eq_mod_eq_0)

text \<open>C14: acquiring a frame fails only when every list from the frame's size class upwards is empty:
  a state with a large enough free cell always yields a frame.\<close>

theorem acquire_succeeds:
  assumes "ppr_rep s L" and "pool_ok 12 L" and "c \<in> set (L k)" and "LOG_BYTES S - 12 \<le> k"
  shows "\<exists>s' f. ppr_acquire S s = Ok (s', Some f) \<and> BYTES S dvd f \<and> {f..<f + BYTES S} \<subseteq> pool_free 12 L"
proof -
  have P: "ppr.pool s L" using assms(1,2) by (simp add: ppr.pool_def)
  show ?thesis
  proof (cases rule: allocate_cell_cases [OF P frame_size_class(2) [of S]])
    case 1
    then show ?thesis using assms(3,4) by fastforce
  next
    case (2 s' f)
    then show ?thesis
      by (auto simp: ppr_acquire_def frame_size_class ph_took_def cell_valid_frame cell_range_frame)
  qed
qed

theorem acquire_succeeds_witness:
  "\<exists>s' f. ppr_acquire Size4K (ppr_new (\<lambda>_. 0)\<lparr>ph_table := (replicate 37 0)[9 := 0x200000]\<rparr>) = Ok (s', Some f)
    \<and> BYTES Size4K dvd f
    \<and> {f..<f + BYTES Size4K} \<subseteq> pool_free 12 (\<lambda>sc. if sc = 9 then [0x200000] else [])"
proof (rule acquire_succeeds [where c = "0x200000" and k = 9])
  let ?s = "ppr_new (\<lambda>_. 0)\<lparr>ph_table := (replicate 37 0)[9 := 0x200000]\<rparr>"
  show "ppr_rep ?s (\<lambda>sc. if sc = 9 then [0x200000] else [])"
    by (auto simp: ppr_rep_def ppr_new_def lists_rep_def addr_load_def nth_list_update USIZE_LIMIT_def)
qed (auto simp: pool_ok_def cell_valid_def USIZE_LIMIT_def dvd_eq_mod_eq_0)

text \<open>Address 0 is the end marker of every free list, so a frame at address 0 cannot be handed
  back. \<^verbatim>\<open>release\<close> of that frame succeeds and leaves the list of its size class empty: the frame and
  every frame that was free in that class are lost to later \<^verbatim>\<open>pop\<close> calls.\<close>

theorem release_frame_zero_loses_list:
  assumes "ppr_rep s L"
  shows "\<exists>s'. ppr_release S s 0 = Ok s' \<and> ppr_pop s' (LOG_BYTES S - 12) = Ok (s', None)"
  using assms frame_size_class(2) [of S]
  by (simp add: ppr_release_def frame_size_class ppr_release_cell_def ppr_push_def ppr_pop_def ppr_rep_def
      page_start_def addr_is_zero_def)

theorem release_frame_zero_loses_list_witness:
  "\<exists>s'. ppr_release Size4K (ppr_new (\<lambda>_. 0)\<lparr>ph_table := 0x80000 # replicate 36 0\<rparr>) 0 = Ok s'
    \<and> ppr_pop s' (LOG_BYTES Size4K - 12) = Ok (s', None)"
  by (rule release_frame_zero_loses_list [where L = "\<lambda>sc. if sc = 0 then [0x80000] else []"])
    (auto simp: ppr_rep_def ppr_new_def lists_rep_def addr_load_def nth_Cons USIZE_LIMIT_def split: nat.split)

end
