(* ===== verification/Table_Tree.thy ===== *)
theory Table_Tree
  imports Page_Table Frames
begin

text \<open>
  Page tables as trees. \<open>leaf\<close> follows a list of indices to the entry that maps it, \<open>foot\<close> is the
  set of table frames below a table and \<open>tree_ok\<close> says that these frames form a tree: aligned,
  below \<open>2 ^ 48\<close> and without sharing. A write to a frame outside the tree changes nothing, and a
  change inside one subtree changes only what that subtree maps.
\<close>

section \<open>Entries\<close>

lemma of_nat_and_address_mask:
  assumes "4096 dvd f" and "f < 2 ^ 48"
  shows "(of_nat f :: 64 word) AND ADDRESS_MASK = of_nat f" and "(of_nat f :: 64 word) AND FLAGS_MASK = 0"
proof -
  have m: "ADDRESS_MASK = push_bit 12 (mask 36)" by (simp add: ADDRESS_MASK_def mask_eq_exp_minus_1)
  obtain q where q: "f = 2 ^ 12 * q" using assms(1) by auto
  have f: "(of_nat f :: 64 word) = push_bit 12 (of_nat q)" by (simp add: q push_bit_eq_mult)
  have "q < 2 ^ 36" using assms(2) q by simp
  then have "\<not> bit q n" if "36 \<le> n" for n
    using that by (metis bit_take_bit_iff linorder_not_less take_bit_nat_eq_self_iff)
  then show eq: "(of_nat f :: 64 word) AND ADDRESS_MASK = of_nat f"
    unfolding f m by (intro bit_eqI) (auto simp: bit_simps, metis linorder_not_less)
  show "(of_nat f :: 64 word) AND FLAGS_MASK = 0"
    unfolding FLAGS_MASK_def by (subst eq [symmetric]) (simp add: and.assoc)
qed

lemma usize_not_high: "f < 2 ^ 48 \<Longrightarrow> f AND usize_not 0xffff000000000000 = f"
  using and_mask_eq_mod [of f 48] by (simp add: usize_not_def USIZE_LIMIT_def)

definition flags_fit :: "page_size \<Rightarrow> page_flags \<Rightarrow> bool" where
  "flags_fit S flags \<longleftrightarrow> flags AND ADDRESS_MASK = 0 \<and> flags_contains flags PRESENT
     \<and> (flags AND 2 = 0) = (S \<noteq> Size4K)"

lemma pte_set_Ok:
  assumes "4096 dvd f" and "f < 2 ^ 48" and "flags_fit S flags"
  shows "pte_set S f flags = Ok (of_nat f OR flags)"
    and "pte_address (of_nat f OR flags) = f"
    and "pte_flags (of_nat f OR flags) = flags"
    and "of_nat f OR flags \<noteq> 0"
    and "pte_is_block (of_nat f OR flags) \<longleftrightarrow> S \<noteq> Size4K"
    and "pte_present (of_nat f OR flags)"
proof -
  let ?w = "of_nat f OR flags"
  have "flags AND 2 ^ 1 = (if bit flags 1 then 2 ^ 1 else 0)" by (rule bit_eqI) (auto simp: bit_simps)
  then have two: "flags AND 2 = 2 \<longleftrightarrow> \<not> flags AND 2 = 0" by (auto split: if_splits)
  have "flags = flags AND ADDRESS_MASK OR flags AND FLAGS_MASK"
    unfolding FLAGS_MASK_def by (simp flip: bit.conj_disj_distrib)
  then have "flags AND FLAGS_MASK = flags" using assms(3) by (simp add: flags_fit_def)
  then show fl: "pte_flags ?w = flags"
    by (simp add: pte_flags_def bit.conj_disj_distrib2 of_nat_and_address_mask [OF assms(1,2)])
  have "S = Size4K \<longleftrightarrow> BYTES S = BYTES Size4K" by (cases S) (simp_all add: BYTES_def)
  then show "pte_set S f flags = Ok ?w"
    using assms(2,3) two by (auto simp: pte_set_def page_start_def usize_not_high flags_fit_def Let_def)
  have "f < 2 ^ 64" using assms(2) by simp
  then show "pte_address ?w = f"
    using assms(3) by (simp add: pte_address_def bit.conj_disj_distrib2 flags_fit_def unat_of_nat
        of_nat_and_address_mask [OF assms(1,2)])
  show "pte_present ?w" using assms(3) by (simp add: pte_present_def fl flags_fit_def)
  then show "?w \<noteq> 0" by (auto simp: pte_present_def pte_flags_def flags_contains_def PRESENT_def)
  show "pte_is_block ?w \<longleftrightarrow> S \<noteq> Size4K"
    using assms(3) two by (simp add: pte_is_block_def fl flags_fit_def flags_contains_def SMALL_PAGE_def)
qed

lemma flags_fit_table: "flags_fit Size4K page_table_flags"
  by (simp add: flags_fit_def flags_contains_def page_table_flags_def ADDRESS_MASK_def NORMAL_MEMORY_def
      PRESENT_def SMALL_PAGE_def OUTER_SHARE_def ACCESSED_def USER_def)

lemma pte_zero [simp]: "\<not> pte_present 0"
  by (simp add: pte_present_def pte_flags_def flags_contains_def PRESENT_def)

section \<open>Indices\<close>

definition indices :: "address \<Rightarrow> usize list" where
  "indices a = [get_index L4 a, get_index L3 a, get_index L2 a, get_index L1 a]"

lemma get_index_eq: "get_index L a = a div 2 ^ SHIFT L mod 512"
proof -
  have "drop_bit (SHIFT L) (a AND table_mask L) = drop_bit (SHIFT L) a AND 511"
    unfolding table_mask_def by (rule bit_eqI) (auto simp: bit_simps)
  then show ?thesis using and_mask_eq_mod [of "drop_bit (SHIFT L) a" 9] by (simp add: get_index_def drop_bit_eq_div)
qed

lemma get_index_less [simp]: "get_index L a < 512"
  by (simp add: get_index_eq)

lemma length_indices [simp]: "length (indices a) = 4"
  by (simp add: indices_def)

lemma indices_less: "\<forall>i \<in> set (indices a). i < 512"
  by (simp add: indices_def)

lemma indices_take_eq:
  assumes "a < 2 ^ 48" and "b < 2 ^ 48" and "1 \<le> n" and "n \<le> 4"
  shows "take n (indices a) = take n (indices b) \<longleftrightarrow> a div 2 ^ (12 + 9 * (4 - n)) = b div 2 ^ (12 + 9 * (4 - n))"
proof -
  have d: "x div 2 ^ (k + 9) = y div 2 ^ (k + 9) \<and> x div 2 ^ k mod 512 = y div 2 ^ k mod 512
      \<longleftrightarrow> x div 2 ^ k = y div 2 ^ k" for x y k :: nat
    by (auto simp: power_add div_mult2_eq) (metis div_mult_mod_eq)
  have top: "x < 2 ^ 48 \<Longrightarrow> x div 2 ^ 39 mod 512 = x div 2 ^ 39" for x :: nat
    by (simp add: less_mult_imp_div_less)
  have n: "n = 1 \<or> n = 2 \<or> n = 3 \<or> n = 4" using assms(3,4) by linarith
  have t4: "a div 2 ^ 39 mod 512 = b div 2 ^ 39 mod 512 \<longleftrightarrow> a div 2 ^ 39 = b div 2 ^ 39"
    using top assms by simp
  note steps = d [of a 30 b] d [of a 21 b] d [of a 12 b]
  from n show ?thesis
    using t4 steps by (elim disjE) (simp_all add: indices_def get_index_eq, blast+)
qed

section \<open>Trees of tables\<close>

definition table_ok :: "address \<Rightarrow> bool" where
  "table_ok t \<longleftrightarrow> 0 < t \<and> 4096 dvd t \<and> t + 4096 \<le> 2 ^ 48"

definition words :: "address set \<Rightarrow> address set" where
  "words F = (\<Union>t \<in> F. {t..<t + 4096})"

primrec foot :: "nat \<Rightarrow> memory \<Rightarrow> address \<Rightarrow> address set" where
  "foot 0 m t = {t}"
| "foot (Suc d) m t = insert t (\<Union>i<512. case get_next_table m t i of None \<Rightarrow> {} | Some t' \<Rightarrow> foot d m t')"

definition below :: "nat \<Rightarrow> memory \<Rightarrow> address \<Rightarrow> nat \<Rightarrow> address set" where
  "below d m t i = (case get_next_table m t i of None \<Rightarrow> {} | Some t' \<Rightarrow> foot d m t')"

lemma foot_Suc: "foot (Suc d) m t = insert t (\<Union>i<512. below d m t i)"
  by (simp add: below_def)

definition entry_ok :: "nat \<Rightarrow> 64 word \<Rightarrow> bool" where
  "entry_ok d w \<longleftrightarrow> w = 0 \<or> pte_present w \<and> (pte_is_block w \<longrightarrow> d < 2)"

primrec tree_ok :: "nat \<Rightarrow> memory \<Rightarrow> address \<Rightarrow> bool" where
  "tree_ok 0 m t = table_ok t"
| "tree_ok (Suc d) m t \<longleftrightarrow> table_ok t
     \<and> (\<forall>i<512. entry_ok d (entry_at m t i)
          \<and> (\<forall>t'. get_next_table m t i = Some t' \<longrightarrow> tree_ok d m t') \<and> t \<notin> below d m t i
          \<and> (\<forall>j<512. i \<noteq> j \<longrightarrow> below d m t i \<inter> below d m t j = {}))"

declare foot.simps(2) [simp del] tree_ok.simps(2) [simp del]

fun leaf :: "memory \<Rightarrow> address \<Rightarrow> usize list \<Rightarrow> (64 word \<times> nat) option" where
  "leaf m t [] = None"
| "leaf m t (i # is) =
     (let w = entry_at m t i in
      if w = 0 then None else if is = [] \<or> pte_is_block w then Some (w, length is)
      else case get_next_table m t i of None \<Rightarrow> None | Some t' \<Rightarrow> leaf m t' is)"

lemma words_simps [simp]:
  "words {} = {}" "words (insert t F) = {t..<t + 4096} \<union> words F" "words (F \<union> G) = words F \<union> words G"
  by (auto simp: words_def)

lemma words_UN: "words (\<Union>i \<in> I. F i) = (\<Union>i \<in> I. words (F i))"
  by (auto simp: words_def)

lemma words_mono: "F \<subseteq> G \<Longrightarrow> words F \<subseteq> words G"
  by (auto simp: words_def)

lemma entry_in_table: "i < 512 \<Longrightarrow> t + 8 * i \<in> {t..<t + 4096 :: nat}"
  by simp

lemma table_disjoint:
  assumes "table_ok t" "table_ok u" "t \<noteq> u"
  shows "{t..<t + 4096} \<inter> {u..<u + 4096} = {}"
proof -
  have "4096 dvd t" "4096 dvd u" using assms by (simp_all add: table_ok_def)
  then obtain p q where "t = 4096 * p" "u = 4096 * q" by (meson dvdE)
  with assms(3) show ?thesis by auto
qed

lemma words_disjoint:
  assumes "\<forall>t \<in> F. table_ok t" "\<forall>t \<in> G. table_ok t" "F \<inter> G = {}"
  shows "words F \<inter> words G = {}"
proof -
  have "{t..<t + 4096} \<inter> {u..<u + 4096} = {}" if "t \<in> F" "u \<in> G" for t u
    using that assms by (intro table_disjoint) auto
  then show ?thesis unfolding words_def by blast
qed

lemma foot_self [simp]: "t \<in> foot d m t"
  by (cases d) (simp_all add: foot_Suc)

lemma tree_table_ok: "tree_ok d m t \<Longrightarrow> table_ok t"
  by (cases d) (simp_all add: tree_ok.simps)

lemma tree_foot_ok: "tree_ok d m t \<Longrightarrow> u \<in> foot d m t \<Longrightarrow> table_ok u"
proof (induction d arbitrary: t)
  case (Suc d)
  have "table_ok u" if "i < 512" "get_next_table m t i = Some t'" "u \<in> foot d m t'" for i t'
    using Suc.IH [of t'] Suc.prems(1) that by (simp add: tree_ok.simps)
  then show ?case using Suc.prems by (auto simp: foot_Suc below_def tree_ok.simps split: option.splits)
qed simp

lemma below_ok: "tree_ok (Suc d) m t \<Longrightarrow> i < 512 \<Longrightarrow> u \<in> below d m t i \<Longrightarrow> table_ok u"
  by (rule tree_foot_ok [of "Suc d" m t]) (auto simp: foot_Suc)

lemma next_table_cong: "m' (t + 8 * i) = m (t + 8 * i) \<Longrightarrow> get_next_table m' t i = get_next_table m t i"
  by (simp add: get_next_table_def entry_at_def)

lemma next_table_Some:
  "get_next_table m t i = Some t' \<longleftrightarrow>
     pte_present (entry_at m t i) \<and> \<not> pte_is_block (entry_at m t i) \<and> t' = pte_address (entry_at m t i)"
  by (auto simp: get_next_table_def Let_def)

lemma next_table_empty [simp]: "entry_at m t i = 0 \<Longrightarrow> get_next_table m t i = None"
  by (simp add: get_next_table_def)

section \<open>Frame rules\<close>

lemma foot_cong: "\<forall>x \<in> words (foot d m t). m' x = m x \<Longrightarrow> foot d m' t = foot d m t"
proof (induction d arbitrary: t)
  case (Suc d)
  have "below d m' t i = below d m t i" if i: "i < 512" for i
  proof -
    have n: "get_next_table m' t i = get_next_table m t i"
      using Suc.prems i by (intro next_table_cong) (simp add: foot_Suc)
    have "foot d m' u = foot d m u" if "get_next_table m t i = Some u" for u
      by (rule Suc.IH, rule ballI, rule Suc.prems [rule_format], rule subsetD [OF words_mono])
        (use that i in \<open>auto simp: foot_Suc below_def\<close>)
    then show ?thesis by (simp add: below_def n split: option.split)
  qed
  then show ?case by (simp add: foot_Suc)
qed simp

lemma below_cong:
  assumes "m' (t + 8 * i) = m (t + 8 * i)" and "\<forall>x \<in> words (below d m t i). m' x = m x"
  shows "below d m' t i = below d m t i"
proof (cases "get_next_table m t i")
  case (Some u)
  then show ?thesis using assms next_table_cong [of m' t i m] foot_cong [of d m u m'] by (simp add: below_def)
qed (use assms next_table_cong [of m' t i m] in \<open>simp add: below_def\<close>)

lemma tree_cong: "\<forall>x \<in> words (foot d m t). m' x = m x \<Longrightarrow> tree_ok d m t \<Longrightarrow> tree_ok d m' t"
proof (induction d arbitrary: t)
  case (Suc d)
  have e: "m' (t + 8 * i) = m (t + 8 * i)" if "i < 512" for i
    using Suc.prems(1) that by (simp add: foot_Suc)
  have w: "words (below d m t i) \<subseteq> words (foot (Suc d) m t)" if "i < 512" for i
    by (rule words_mono) (use that in \<open>auto simp: foot_Suc\<close>)
  have b: "below d m' t i = below d m t i" if "i < 512" for i
    using Suc.prems(1) w [OF that] e [OF that] by (intro below_cong) blast+
  have "tree_ok d m' u" if i: "i < 512" and u: "get_next_table m t i = Some u" for i u
  proof (rule Suc.IH)
    show "tree_ok d m u" using Suc.prems(2) i u by (simp add: tree_ok.simps)
    show "\<forall>x \<in> words (foot d m u). m' x = m x" using w [OF i] u Suc.prems(1) by (auto simp: below_def)
  qed
  then show ?case
    using Suc.prems(2) next_table_cong [of m' t _ m] by (simp add: tree_ok.simps b e entry_at_def)
qed simp

lemma leaf_cong:
  "\<forall>x \<in> words (foot d m t). m' x = m x \<Longrightarrow> length ks \<le> Suc d \<Longrightarrow> \<forall>k \<in> set ks. k < 512 \<Longrightarrow>
    leaf m' t ks = leaf m t ks"
proof (induction ks arbitrary: t d)
  case (Cons k ks)
  have "t + 8 * k \<in> words (foot d m t)" using Cons.prems(3) by (cases d) (auto simp: foot_Suc)
  then have e: "entry_at m' t k = entry_at m t k" using Cons.prems(1) by (simp add: entry_at_def)
  then have n: "get_next_table m' t k = get_next_table m t k" by (simp add: get_next_table_def)
  have "leaf m' u ks = leaf m u ks" if u: "get_next_table m t k = Some u" and "ks \<noteq> []" for u
  proof (cases d)
    case (Suc d')
    have "foot d' m u \<subseteq> foot d m t" using Cons.prems(3) u by (auto simp: Suc foot_Suc below_def)
    then have "words (foot d' m u) \<subseteq> words (foot d m t)" by (rule words_mono)
    then show ?thesis using Cons.prems by (intro Cons.IH [of d']) (auto simp: Suc)
  qed (use Cons.prems that in auto)
  then show ?case by (auto simp: e n Let_def split: option.split)
qed simp

section \<open>Changing one subtree\<close>

lemma words_disjointD: "words F \<inter> words G = {} \<Longrightarrow> F \<inter> G = {}"
  unfolding words_def by fastforce

definition siblings :: "nat \<Rightarrow> memory \<Rightarrow> address \<Rightarrow> nat \<Rightarrow> address set" where
  "siblings d m t i = insert t (\<Union>j \<in> {..<512} - {i}. below d m t j)"

lemma foot_siblings: "i < 512 \<Longrightarrow> foot (Suc d) m t = below d m t i \<union> siblings d m t i"
  by (auto simp: foot_Suc siblings_def)

lemma below_siblings: "tree_ok (Suc d) m t \<Longrightarrow> i < 512 \<Longrightarrow> below d m t i \<inter> siblings d m t i = {}"
  by (auto simp: siblings_def tree_ok.simps)

lemma words_below_siblings:
  assumes "tree_ok (Suc d) m t" and "i < 512"
  shows "words (below d m t i) \<inter> words (siblings d m t i) = {}"
  using assms below_siblings
  by (intro words_disjoint) (auto simp: siblings_def intro: below_ok tree_table_ok)

lemma tree_upd:
  assumes T: "tree_ok (Suc d) m t" and i: "i < 512"
    and same: "\<forall>x \<in> words (siblings d m t i) - {t + 8 * i}. m' x = m x"
    and e: "entry_ok d (entry_at m' t i)"
    and new: "\<forall>u. get_next_table m' t i = Some u \<longrightarrow> tree_ok d m' u"
    and dj: "below d m' t i \<inter> siblings d m t i = {}"
  shows "tree_ok (Suc d) m' t" and "siblings d m' t i = siblings d m t i"
    and "k < 512 \<Longrightarrow> k \<noteq> i \<Longrightarrow> length ks \<le> Suc d \<Longrightarrow> \<forall>k \<in> set ks. k < 512 \<Longrightarrow>
      leaf m' t (k # ks) = leaf m t (k # ks)"
proof -
  have ent: "m' (t + 8 * j) = m (t + 8 * j)" if "j < 512" "j \<noteq> i" for j
    using same that by (simp add: siblings_def)
  have off: "t + 8 * i \<notin> words (below d m t j)" if "j < 512" for j
  proof -
    have "words {t} \<inter> words (below d m t j) = {}"
      using T that by (intro words_disjoint) (auto simp: tree_ok.simps intro: below_ok [OF T])
    then have "{t..<t + 4096} \<inter> words (below d m t j) = {}" by simp
    then show ?thesis using entry_in_table [OF i, of t] by blast
  qed
  have sub: "\<forall>x \<in> words (below d m t j). m' x = m x" if "j < 512" "j \<noteq> i" for j
    using same that off [OF that(1)] by (auto simp: siblings_def words_UN)
  have b: "below d m' t j = below d m t j" if "j < 512" "j \<noteq> i" for j
    using that ent sub by (intro below_cong) auto
  have n: "get_next_table m' t j = get_next_table m t j" if "j < 512" "j \<noteq> i" for j
    using ent [OF that] by (rule next_table_cong)
  have tr: "tree_ok d m' u" if "j < 512" "j \<noteq> i" "get_next_table m t j = Some u" for j u
    using sub [OF that(1,2)] T that by (intro tree_cong [of d m u m']) (auto simp: tree_ok.simps below_def)
  show "siblings d m' t i = siblings d m t i" by (simp add: siblings_def b)
  have "entry_ok d (entry_at m' t j) \<and> (\<forall>t'. get_next_table m' t j = Some t' \<longrightarrow> tree_ok d m' t')
      \<and> t \<notin> below d m' t j \<and> (\<forall>k<512. j \<noteq> k \<longrightarrow> below d m' t j \<inter> below d m' t k = {})" if j: "j < 512" for j
  proof (cases "j = i")
    case True
    then show ?thesis using e new dj b by (auto simp: siblings_def)
  next
    case False
    have "entry_at m' t j = entry_at m t j" using ent j False by (simp add: entry_at_def)
    moreover have "below d m' t j \<inter> below d m' t k = {}" if "k < 512" "j \<noteq> k" for k
      using dj j False that T b by (cases "k = i") (auto simp: siblings_def tree_ok.simps)
    ultimately show ?thesis using T j False tr n b by (simp add: tree_ok.simps)
  qed
  then show "tree_ok (Suc d) m' t" using tree_table_ok [OF T] by (simp add: tree_ok.simps)
  assume k: "k < 512" "k \<noteq> i" "length ks \<le> Suc d" "\<forall>k \<in> set ks. k < 512"
  have "leaf m' u ks = leaf m u ks" if "get_next_table m t k = Some u" for u
    using sub [OF k(1,2)] that k by (intro leaf_cong [of d]) (auto simp: below_def)
  then show "leaf m' t (k # ks) = leaf m t (k # ks)"
    using ent [OF k(1,2)] n [OF k(1,2)] by (auto simp: entry_at_def Let_def split: option.split)
qed

lemma subtree_upd:
  assumes T: "tree_ok (Suc d) m t" and i: "i < 512" and u: "get_next_table m t i = Some u"
    and A: "A \<inter> words (foot (Suc d) m t) = {}"
    and chg: "\<forall>x. x \<notin> A \<union> words (foot d m u) \<longrightarrow> m' x = m x"
    and T': "tree_ok d m' u" and F': "words (foot d m' u) \<subseteq> A \<union> words (foot d m u)"
  shows "tree_ok (Suc d) m' t" and "siblings d m' t i = siblings d m t i"
    and "get_next_table m' t i = Some u"
    and "k < 512 \<Longrightarrow> length ks = Suc d \<Longrightarrow> \<forall>k \<in> set ks. k < 512 \<Longrightarrow>
      leaf m' t (k # ks) = (if k = i then leaf m' u ks else leaf m t (k # ks))"
proof -
  have bi: "below d m t i = foot d m u" using u by (simp add: below_def)
  have dj: "words (foot d m u) \<inter> words (siblings d m t i) = {}"
    using words_below_siblings [OF T i] by (simp add: bi)
  have A': "A \<inter> words (siblings d m t i) = {}" using A i by (auto simp: foot_siblings)
  have same: "\<forall>x \<in> words (siblings d m t i). m' x = m x" using chg dj A' by blast
  have "t + 8 * i \<in> words (siblings d m t i)" using i by (simp add: siblings_def)
  then have e: "entry_at m' t i = entry_at m t i" using same by (simp add: entry_at_def)
  then show u': "get_next_table m' t i = Some u" using u by (simp add: next_table_Some)
  have "words (foot d m' u) \<inter> words (siblings d m t i) = {}" using F' dj A' by blast
  then have dj': "below d m' t i \<inter> siblings d m t i = {}"
    using words_disjointD by (simp add: below_def u')
  have up: "\<forall>x \<in> words (siblings d m t i) - {t + 8 * i}. m' x = m x" "entry_ok d (entry_at m' t i)"
      "\<forall>v. get_next_table m' t i = Some v \<longrightarrow> tree_ok d m' v"
    using same T i T' u' by (auto simp: e tree_ok.simps)
  note ups = tree_upd [OF T i up dj']
  show "tree_ok (Suc d) m' t" "siblings d m' t i = siblings d m t i" by (fact ups)+
  assume k: "k < 512" "length ks = Suc d" "\<forall>k \<in> set ks. k < 512"
  show "leaf m' t (k # ks) = (if k = i then leaf m' u ks else leaf m t (k # ks))"
  proof (cases "k = i")
    case True
    have "entry_at m' t i \<noteq> 0" "\<not> pte_is_block (entry_at m' t i)" using u' by (auto simp: next_table_Some)
    moreover have "ks \<noteq> []" using k by auto
    ultimately show ?thesis by (simp add: True u' Let_def)
  qed (use ups(3) k in simp)
qed

section \<open>Translation\<close>

lemma tree_entry_ok: "tree_ok (Suc d) m t \<Longrightarrow> i < 512 \<Longrightarrow> entry_ok d (entry_at m t i)"
  by (simp add: tree_ok.simps)

lemma leaf_table:
  assumes "tree_ok (Suc d) m t" and "i < 512" and "entry_at m t i \<noteq> 0" and "\<not> pte_is_block (entry_at m t i)"
  obtains u where "get_next_table m t i = Some u" and "tree_ok d m u"
  using assms by (auto simp: tree_ok.simps entry_ok_def next_table_Some)

lemma pte_address_less: "pte_address w < 2 ^ 48"
proof -
  have "w AND ADDRESS_MASK \<le> ADDRESS_MASK" by (rule word_and_le1)
  then have "unat (w AND ADDRESS_MASK) \<le> unat ADDRESS_MASK" by (simp add: word_le_nat_alt)
  then show ?thesis by (simp add: pte_address_def ADDRESS_MASK_def)
qed

lemma translate_offset: "addr_add (pte_address w) (a AND PAGE_MASK S) = Ok (pte_address w + a mod BYTES S)"
proof -
  have "a AND PAGE_MASK S = a mod BYTES S" using and_mask_eq_mod [of a "LOG_BYTES S"] by (simp add: PAGE_MASK_def BYTES_def)
  moreover have "a mod BYTES S < BYTES S" by simp
  moreover have "BYTES S \<le> 1073741824" by (cases S) (simp_all add: BYTES_def)
  moreover have "pte_address w < 281474976710656" using pte_address_less [of w] by simp
  ultimately have "pte_address w + a mod BYTES S < 18446744073709551616" by linarith
  then have "pte_address w + a mod BYTES S < USIZE_LIMIT" by (simp add: USIZE_LIMIT_def)
  then show ?thesis using \<open>a AND PAGE_MASK S = a mod BYTES S\<close> by (simp add: addr_add_def)
qed

definition walk :: "memory \<Rightarrow> address \<Rightarrow> address \<Rightarrow> address option" where
  "walk m t a = map_option (\<lambda>(w, e). pte_address w + a mod 2 ^ (12 + 9 * e)) (leaf m t (indices a))"

lemma pt_translate_walk:
  assumes T: "tree_ok 3 m t"
  shows "pt_translate m t a = Ok (walk m t a)"
proof (cases "entry_at m t (get_index L4 a) = 0")
  case e4: False
  have T3: "tree_ok (Suc 2) m t" using T by (simp add: numeral_3_eq_3)
  have b4: "\<not> pte_is_block (entry_at m t (get_index L4 a))" and p4: "pte_present (entry_at m t (get_index L4 a))"
    using tree_entry_ok [OF T3 get_index_less] e4 by (auto simp: entry_ok_def)
  then obtain p3 where p3: "get_next_table m t (get_index L4 a) = Some p3" "tree_ok (Suc 1) m p3"
    using leaf_table [OF T3 _ e4 b4] by (auto simp: numeral_2_eq_2)
  let ?e3 = "entry_at m p3 (get_index L3 a)"
  note defs = pt_translate_def walk_def indices_def pte_is_empty_def translate_offset BYTES_def Let_def
  show ?thesis
  proof (cases "?e3 = 0 \<or> pte_is_block ?e3")
    case True
    then show ?thesis using e4 b4 p3(1) by (auto simp: defs)
  next
    case False
    then obtain p2 where p2: "get_next_table m p3 (get_index L3 a) = Some p2" "tree_ok (Suc 0) m p2"
      using leaf_table [OF p3(2) get_index_less [of L3 a]] by auto
    let ?e2 = "entry_at m p2 (get_index L2 a)"
    show ?thesis
    proof (cases "?e2 = 0 \<or> pte_is_block ?e2")
      case True
      then show ?thesis using False e4 b4 p3(1) p2(1) by (auto simp: defs)
    next
      case F2: False
      then obtain p1 where "get_next_table m p2 (get_index L2 a) = Some p1"
        using leaf_table [OF p2(2) get_index_less [of L2 a]] by auto
      then show ?thesis using F2 False e4 b4 p3(1) p2(1) by (auto simp: defs)
    qed
  qed
qed (simp add: pt_translate_def walk_def indices_def pte_is_empty_def)

end
