(* ===== verification/Table_Map.thy ===== *)
theory Table_Map
  imports Table_Tree
begin

text \<open>
  \<^verbatim>\<open>PageTable::map\<close> for any frame allocator: with the table invariant (a tree of table frames
  that are not free) and no larger block over the page, mapping either panics because the allocator
  is exhausted or leaves a tree in which exactly the addresses of the page translate differently.
\<close>

section \<open>The table invariant\<close>

definition table_inv :: "('s \<Rightarrow> bool) \<Rightarrow> ('s \<Rightarrow> address set) \<Rightarrow> ('s \<Rightarrow> memory) \<Rightarrow> nat \<Rightarrow> 's \<Rightarrow> address \<Rightarrow> bool" where
  "table_inv invar free mem d s t \<longleftrightarrow> invar s \<and> free s \<subseteq> {..<2 ^ 48} \<and> tree_ok d (mem s) t
     \<and> free s \<inter> words (foot d (mem s) t) = {}"

lemma clear_table:
  assumes "\<forall>i<512. entry_at m t i = 0"
  shows "foot d m t = {t}" and "table_ok t \<Longrightarrow> tree_ok d m t"
    and "\<forall>k \<in> set ks. k < 512 \<Longrightarrow> leaf m t ks = None"
proof -
  have b: "below d m t i = {}" if "i < 512" for d i using assms that by (simp add: below_def)
  show "foot d m t = {t}" by (cases d) (simp_all add: foot_Suc b)
  show "table_ok t \<Longrightarrow> tree_ok d m t" using assms by (cases d) (auto simp: tree_ok.simps b entry_ok_def)
  show "\<forall>k \<in> set ks. k < 512 \<Longrightarrow> leaf m t ks = None" using assms by (cases ks) (auto simp: Let_def)
qed

lemma leaf_next:
  assumes u: "get_next_table m t i = Some u" and "is \<noteq> []"
  shows "leaf m t (i # is) = leaf m u is"
proof -
  have "entry_at m t i \<noteq> 0" "\<not> pte_is_block (entry_at m t i)" using u by (auto simp: next_table_Some)
  then show ?thesis using assms by (simp add: Let_def)
qed

lemma table_is_clear_iff: "table_is_clear m t \<longleftrightarrow> (\<forall>i<512. entry_at m t i = 0)"
  by (auto simp: table_is_clear_def pte_is_empty_def list_all_iff)

lemma set_entry_eq [simp]: "entry_at (set_entry m t i w) t i = w"
  by (simp add: entry_at_def set_entry_def)

lemma set_entry_apply: "set_entry m t i w x = (if x = t + 8 * i then w else m x)"
  by (simp add: set_entry_def)

lemma card_minus_frame:
  assumes "finite A" and "{f..<f + 4096} \<subseteq> A"
  shows "card A = card (A - {f..<f + 4096 :: nat}) + 4096"
  using card_mono [OF assms] card_Diff_subset [OF _ assms(2)] by simp

context frame_source
begin

abbreviation tinv :: "nat \<Rightarrow> 's \<Rightarrow> address \<Rightarrow> bool" where
  "tinv \<equiv> table_inv invar free mem"

lemma tinv_entry_free:
  assumes "tinv d s t" and "i < 512"
  shows "t + 8 * i \<notin> free s"
proof -
  have "{t..<t + 4096} \<subseteq> words (foot d (mem s) t)" unfolding words_def using foot_self by blast
  then show ?thesis using assms entry_in_table [OF assms(2), of t] unfolding table_inv_def by blast
qed

lemma put_entry:
  assumes "invar s" and "t + 8 * i \<notin> free s"
  shows "invar (put_mem s (set_entry (mem s) t i w))" and "free (put_mem s (set_entry (mem s) t i w)) = free s"
    and "mem (put_mem s (set_entry (mem s) t i w)) = set_entry (mem s) t i w"
  using assms put_mem_Ok [of s "set_entry (mem s) t i w"] by (auto simp: set_entry_apply)

lemma alloc_frame4k_cases:
  assumes inv: "invar s" and bnd: "free s \<subseteq> {..<2 ^ 48}"
  shows "alloc_frame4k alloc mem put_mem s = Panic UnwrapNone \<and> free s = {} \<or>
    (\<exists>s' f. alloc_frame4k alloc mem put_mem s = Ok (s', f) \<and> invar s' \<and> table_ok f
      \<and> {f..<f + 4096} \<subseteq> free s \<and> free s' = free s - {f..<f + 4096}
      \<and> (\<forall>x. x \<notin> free s \<longrightarrow> mem s' x = mem s x) \<and> (\<forall>i<512. entry_at (mem s') f i = 0))"
  using alloc_cases [OF inv, of Size4K]
proof (elim disjE exE conjE)
  fix s1 f
  assume a: "alloc Size4K s = Ok (s1, Some f)" "invar s1" "0 < f" "BYTES Size4K dvd f"
    "{f..<f + BYTES Size4K} \<subseteq> free s" "free s1 = free s - {f..<f + BYTES Size4K}"
    "\<forall>a. a \<notin> free s \<longrightarrow> mem s1 a = mem s a"
  let ?s = "put_mem s1 (frame_zero (mem s1) f)"
  have B: "BYTES Size4K = 4096" by (simp add: BYTES_def)
  have "f + 4095 \<in> free s" using a(5) unfolding B by (rule subsetD) simp
  then have "f + 4095 < 2 ^ 48" using bnd by auto
  then have t: "table_ok f" using a(3,4) by (simp add: table_ok_def B)
  have "\<forall>a \<in> free s1. frame_zero (mem s1) f a = mem s1 a"
    unfolding a(6) by (auto simp: frame_zero_def)
  then have p: "invar ?s" "free ?s = free s1" "mem ?s = frame_zero (mem s1) f"
    using put_mem_Ok [OF a(2)] by auto
  have "mem ?s x = mem s x" if "x \<notin> free s" for x
  proof -
    have "x \<notin> {f..<f + BYTES Size4K}" using a(5) that by blast
    then show ?thesis using a(7) that unfolding p(3) by (auto simp: frame_zero_def)
  qed
  moreover have "\<forall>i<512. entry_at (mem ?s) f i = 0" unfolding p(3) by (simp add: frame_zero_def entry_at_def B)
  ultimately show ?thesis
    using a(1,5,6) p(1,2) t by (intro disjI2 exI [of _ ?s] exI [of _ f]) (simp add: alloc_frame4k_def B)
qed (use alloc_4k [OF inv] in \<open>simp add: alloc_frame4k_def\<close>)

lemma ensure_table_present:
  "get_next_table (mem s) t i = Some u \<Longrightarrow> ensure_table alloc mem put_mem s t i = Ok (s, u)"
  by (auto simp: ensure_table_def pte_is_empty_def)

lemma ensure_table_cases:
  assumes inv: "tinv (Suc d) s t" and i: "i < 512" and e: "entry_at (mem s) t i = 0"
  shows "ensure_table alloc mem put_mem s t i = Panic UnwrapNone \<and> free s = {} \<or>
    (\<exists>s' u. ensure_table alloc mem put_mem s t i = Ok (s', u) \<and> tinv (Suc d) s' t
      \<and> get_next_table (mem s') t i = Some u \<and> free s' \<subseteq> free s \<and> card (free s) = card (free s') + 4096
      \<and> words (foot (Suc d) (mem s') t) \<union> free s' = words (foot (Suc d) (mem s) t) \<union> free s
      \<and> (\<forall>x. x \<notin> free s \<union> words (foot (Suc d) (mem s) t) \<longrightarrow> mem s' x = mem s x)
      \<and> (\<forall>ks. length ks = Suc (Suc d) \<longrightarrow> (\<forall>k \<in> set ks. k < 512) \<longrightarrow> leaf (mem s') t ks = leaf (mem s) t ks))"
proof -
  have I: "invar s" and T: "tree_ok (Suc d) (mem s) t" and bnd: "free s \<subseteq> {..<2 ^ 48}"
    and dj: "free s \<inter> words (foot (Suc d) (mem s) t) = {}"
    using inv by (auto simp: table_inv_def)
  from alloc_frame4k_cases [OF I bnd] show ?thesis
  proof (elim disjE exE conjE)
    fix s1 f
    assume a: "alloc_frame4k alloc mem put_mem s = Ok (s1, f)" "invar s1" "table_ok f" "{f..<f + 4096} \<subseteq> free s"
      "free s1 = free s - {f..<f + 4096}" "\<forall>x. x \<notin> free s \<longrightarrow> mem s1 x = mem s x"
      "\<forall>i<512. entry_at (mem s1) f i = 0"
    define w where "w = (of_nat f OR page_table_flags :: 64 word)"
    define s2 where "s2 = put_mem s1 (set_entry (mem s1) t i w)"
    have "f < 2 ^ 48" "4096 dvd f" using a(3) by (auto simp: table_ok_def)
    note w = pte_set_Ok [OF this(2,1) flags_fit_table, folded w_def]
    have ti: "t + 8 * i \<notin> free s" by (rule tinv_entry_free [OF inv i])
    then have "t + 8 * i \<notin> free s1" by (simp add: a(5))
    note p = put_entry [OF a(2) this, of w, folded s2_def]
    have n: "get_next_table (mem s2) t i = Some f" using w by (simp add: p(3) next_table_Some)
    have z: "\<forall>j<512. entry_at (mem s2) f j = 0"
    proof (intro allI impI)
      fix j :: nat
      assume "j < 512"
      then have "f + 8 * j \<in> free s" using subsetD [OF a(4) entry_in_table] by blast
      then have "f + 8 * j \<noteq> t + 8 * i" using ti by metis
      then show "entry_at (mem s2) f j = 0" using a(7) \<open>j < 512\<close> by (simp add: p(3) entry_at_def set_entry_apply)
    qed
    have bi: "below d (mem s2) t i = {f}" by (simp add: below_def n clear_table [OF z])
    have F: "foot (Suc d) (mem s) t = siblings d (mem s) t i"
      using foot_siblings [OF i] e by (simp add: below_def)
    have "words {f} \<inter> words (siblings d (mem s) t i) = {}" using a(4) dj unfolding F by auto
    then have b0: "below d (mem s2) t i \<inter> siblings d (mem s) t i = {}" unfolding bi by (rule words_disjointD)
    have same: "\<forall>x \<in> words (siblings d (mem s) t i) - {t + 8 * i}. mem s2 x = mem s x"
      using a(6) dj unfolding F by (auto simp: p(3) set_entry_apply)
    have eo: "entry_ok d (entry_at (mem s2) t i)" using w by (simp add: p(3) entry_ok_def)
    have tr: "\<forall>u. get_next_table (mem s2) t i = Some u \<longrightarrow> tree_ok d (mem s2) u"
      using clear_table(2) [OF z a(3)] by (simp add: n)
    note U = tree_upd [OF T i same eo tr b0]
    have F': "foot (Suc d) (mem s2) t = insert f (foot (Suc d) (mem s) t)"
      using foot_siblings [OF i, of d "mem s2" t] by (simp add: bi U(2) F)
    have "tinv (Suc d) s2 t"
      using p(1) bnd U(1) dj a(5) by (auto simp: table_inv_def p(2) F')
    moreover have "words (foot (Suc d) (mem s2) t) \<union> free s2 = words (foot (Suc d) (mem s) t) \<union> free s"
      using a(4) by (auto simp: F' p(2) a(5))
    moreover have "\<forall>x. x \<notin> free s \<union> words (foot (Suc d) (mem s) t) \<longrightarrow> mem s2 x = mem s x"
    proof -
      have "t + 8 * i \<in> words (foot (Suc d) (mem s) t)" using entry_in_table [OF i, of t] unfolding F by (simp add: siblings_def)
      then show ?thesis using a(6) by (auto simp: p(3) set_entry_apply)
    qed
    moreover have "leaf (mem s2) t ks = leaf (mem s) t ks" if "length ks = Suc (Suc d)" "\<forall>k \<in> set ks. k < 512" for ks
    proof -
      obtain k ks' where k: "ks = k # ks'" using \<open>length ks = Suc (Suc d)\<close> by (cases ks) auto
      show ?thesis
      proof (cases "k = i")
        case True
        have "leaf (mem s2) f ks' = None" using clear_table(3) [OF z] that k by simp
        then show ?thesis using e n w that k True by (auto simp: p(3))
      qed (use U(3) that k in simp)
    qed
    moreover have "ensure_table alloc mem put_mem s t i = Ok (s2, f)"
      using e a(1) w n by (simp add: ensure_table_def pte_is_empty_def s2_def)
    moreover have "free s2 \<subseteq> free s" by (simp add: p(2) a(5))
    moreover have "card (free s) = card (free s2) + 4096"
      unfolding p(2) a(5) by (intro card_minus_frame a(4) finite_subset [OF bnd]) simp
    ultimately show ?thesis using n by blast
  qed (simp add: ensure_table_def pte_is_empty_def e)
qed

end

section \<open>Mapping\<close>

fun map_path :: "'s frame_alloc \<Rightarrow> ('s \<Rightarrow> memory) \<Rightarrow> ('s \<Rightarrow> memory \<Rightarrow> 's) \<Rightarrow> 's \<Rightarrow> address \<Rightarrow> usize list
    \<Rightarrow> 64 word \<Rightarrow> 's res" where
  "map_path alloc mem put s t [] w = Ok s"
| "map_path alloc mem put s t (i # is) w =
     (if is = [] then Ok (put s (set_entry (mem s) t i w))
      else rbind (ensure_table alloc mem put s t i) (\<lambda>(s', u). map_path alloc mem put s' u is w))"

definition leaf_word :: "nat \<Rightarrow> 64 word \<Rightarrow> bool" where
  "leaf_word n w \<longleftrightarrow> w \<noteq> 0 \<and> pte_present w \<and> (0 < n \<longrightarrow> pte_is_block w \<and> n \<le> 2)"

context frame_source
begin

definition map_post :: "nat \<Rightarrow> 's \<Rightarrow> 's \<Rightarrow> address \<Rightarrow> usize list \<Rightarrow> 64 word \<Rightarrow> bool" where
  "map_post d s s' t js w \<longleftrightarrow> tinv d s' t \<and> free s' \<subseteq> free s
     \<and> words (foot d (mem s') t) \<subseteq> words (foot d (mem s) t) \<union> free s
     \<and> (length js = Suc d \<longrightarrow> words (foot d (mem s') t) \<union> free s' = words (foot d (mem s) t) \<union> free s)
     \<and> (\<forall>x. x \<notin> free s \<union> words (foot d (mem s) t) \<longrightarrow> mem s' x = mem s x)
     \<and> (\<forall>ks. length ks = Suc d \<longrightarrow> (\<forall>k \<in> set ks. k < 512) \<longrightarrow>
          leaf (mem s') t ks = (if take (length js) ks = js then Some (w, Suc d - length js) else leaf (mem s) t ks))"

lemma map_leaf:
  assumes inv: "tinv d s t" and i: "i < 512" and w: "leaf_word d w"
  shows "map_post d s (put_mem s (set_entry (mem s) t i w)) t [i] w"
proof -
  define s' where "s' = put_mem s (set_entry (mem s) t i w)"
  have I: "invar s" and T: "tree_ok d (mem s) t" and dj: "free s \<inter> words (foot d (mem s) t) = {}"
    and bnd: "free s \<subseteq> {..<2 ^ 48}"
    using inv by (auto simp: table_inv_def)
  note p = put_entry [OF I tinv_entry_free [OF inv i], of w, folded s'_def]
  have ti: "t + 8 * i \<in> words (foot d (mem s) t)"
    using entry_in_table [OF i, of t] foot_self [of t d "mem s"] unfolding words_def by blast
  have out: "\<forall>x. x \<notin> free s \<union> words (foot d (mem s) t) \<longrightarrow> mem s' x = mem s x"
    using ti by (auto simp: p(3) set_entry_apply)
  show ?thesis
  proof (cases d)
    case 0
    have "entry_at (mem s') t k = (if k = i then w else entry_at (mem s) t k)" for k
      by (simp add: p(3) entry_at_def set_entry_apply)
    then have "leaf (mem s') t ks = (if take 1 ks = [i] then Some (w, 0) else leaf (mem s) t ks)"
      if "length ks = 1" for ks
      using w that by (cases ks) (auto simp: leaf_word_def Let_def)
    then show ?thesis
      using inv I p out 0 bnd dj unfolding s'_def [symmetric]
      by (simp add: map_post_def table_inv_def)
  next
    case (Suc d')
    have same: "\<forall>x \<in> words (siblings d' (mem s) t i) - {t + 8 * i}. mem s' x = mem s x"
      by (simp add: p(3) set_entry_apply)
    have e: "entry_at (mem s') t i = w" by (simp add: p(3))
    have n: "get_next_table (mem s') t i = None" using w by (simp add: get_next_table_def e leaf_word_def Suc)
    have eo: "entry_ok d' (entry_at (mem s') t i)" using w by (simp add: e entry_ok_def leaf_word_def Suc)
    have b: "below d' (mem s') t i = {}" by (simp add: below_def n)
    have tr: "\<forall>u. get_next_table (mem s') t i = Some u \<longrightarrow> tree_ok d' (mem s') u" by (simp add: n)
    have b': "below d' (mem s') t i \<inter> siblings d' (mem s) t i = {}" by (simp add: b)
    note U = tree_upd [OF T [unfolded Suc] i same eo tr b']
    have F: "foot d (mem s') t = siblings d' (mem s) t i" using foot_siblings [OF i] by (simp add: Suc b U(2))
    have sub: "words (foot d (mem s') t) \<subseteq> words (foot d (mem s) t)"
      unfolding F using foot_siblings [OF i] by (intro words_mono) (auto simp: Suc)
    have "leaf (mem s') t ks = (if take 1 ks = [i] then Some (w, d) else leaf (mem s) t ks)"
      if "length ks = Suc d" "\<forall>k \<in> set ks. k < 512" for ks
      using that w U(3) e by (cases ks) (auto simp: leaf_word_def Suc Let_def)
    moreover have "tinv d s' t" using p(1,2) U(1) bnd sub dj by (auto simp: table_inv_def Suc)
    ultimately show ?thesis using p(2) sub out unfolding s'_def [symmetric] by (auto simp: map_post_def Suc)
  qed
qed

lemma tinv_child:
  assumes "tinv (Suc d) s t" and i: "i < 512" and u: "get_next_table (mem s) t i = Some u"
  shows "tinv d s u"
proof -
  have "tree_ok d (mem s) u" using assms by (simp add: table_inv_def tree_ok.simps)
  moreover have "words (foot d (mem s) u) \<subseteq> words (foot (Suc d) (mem s) t)"
    by (rule words_mono) (use i u in \<open>auto simp: foot_siblings [OF i] below_def\<close>)
  ultimately show ?thesis using assms(1) by (auto simp: table_inv_def)
qed

lemma map_post_up:
  assumes inv: "tinv (Suc d) s t" and i: "i < 512" and u: "get_next_table (mem s) t i = Some u"
    and post: "map_post d s s' u js w"
  shows "map_post (Suc d) s s' t (i # js) w"
proof -
  have T: "tree_ok (Suc d) (mem s) t" and dj: "free s \<inter> words (foot (Suc d) (mem s) t) = {}"
    using inv by (auto simp: table_inv_def)
  have P: "tinv d s' u" "free s' \<subseteq> free s" "words (foot d (mem s') u) \<subseteq> words (foot d (mem s) u) \<union> free s"
      "length js = Suc d \<Longrightarrow> words (foot d (mem s') u) \<union> free s' = words (foot d (mem s) u) \<union> free s"
      "\<forall>x. x \<notin> free s \<union> words (foot d (mem s) u) \<longrightarrow> mem s' x = mem s x"
    and L: "\<And>ks. length ks = Suc d \<Longrightarrow> \<forall>k \<in> set ks. k < 512 \<Longrightarrow>
      leaf (mem s') u ks = (if take (length js) ks = js then Some (w, Suc d - length js) else leaf (mem s) u ks)"
    using post by (auto simp: map_post_def)
  have T': "tree_ok d (mem s') u" and sub: "words (foot d (mem s') u) \<subseteq> free s \<union> words (foot d (mem s) u)"
    using P(1,3) by (auto simp: table_inv_def)
  note U = subtree_upd [OF T i u dj P(5) T' sub]
  have F: "foot (Suc d) (mem s) t = foot d (mem s) u \<union> siblings d (mem s) t i"
    using foot_siblings [OF i] u by (simp add: below_def)
  have F': "foot (Suc d) (mem s') t = foot d (mem s') u \<union> siblings d (mem s) t i"
    using foot_siblings [OF i] U(2,3) by (simp add: below_def)
  have t': "tinv (Suc d) s' t" using P(1,2) U(1) dj by (auto simp: table_inv_def F F')
  have "leaf (mem s') t ks = (if take (length (i # js)) ks = i # js then Some (w, Suc (Suc d) - length (i # js))
      else leaf (mem s) t ks)" if k: "length ks = Suc (Suc d)" "\<forall>k \<in> set ks. k < 512" for ks
  proof -
    obtain k ks' where ks: "ks = k # ks'" using k(1) by (cases ks) auto
    have "leaf (mem s) t (i # ks') = leaf (mem s) u ks'" using k ks by (intro leaf_next [OF u]) auto
    then show ?thesis using U(4) [of k ks'] L [of ks'] k by (auto simp: ks)
  qed
  then show ?thesis
    using t' P(2-5) unfolding map_post_def F F' by auto
qed

end

context frame_source
begin

lemma map_post_after:
  assumes post: "map_post d s1 s2 t js w" and fr: "free s1 \<subseteq> free s"
    and F: "words (foot d (mem s1) t) \<union> free s1 = words (foot d (mem s) t) \<union> free s"
    and out: "\<forall>x. x \<notin> free s \<union> words (foot d (mem s) t) \<longrightarrow> mem s1 x = mem s x"
    and L: "\<forall>ks. length ks = Suc d \<longrightarrow> (\<forall>k \<in> set ks. k < 512) \<longrightarrow> leaf (mem s1) t ks = leaf (mem s) t ks"
  shows "map_post d s s2 t js w"
proof -
  have "mem s2 x = mem s x" if "x \<notin> free s \<union> words (foot d (mem s) t)" for x
    using that post out F unfolding map_post_def by (metis Un_iff)
  moreover have "words (foot d (mem s2) t) \<subseteq> words (foot d (mem s) t) \<union> free s"
    using post F unfolding map_post_def by blast
  ultimately show ?thesis
    using post fr F L unfolding map_post_def by auto
qed

lemma map_path_cases:
  "tinv d s t \<Longrightarrow> js \<noteq> [] \<Longrightarrow> length js + length ks = Suc d \<Longrightarrow> \<forall>j \<in> set js \<union> set ks. j < 512 \<Longrightarrow>
   leaf_word (length ks) w \<Longrightarrow> \<forall>w' e. leaf (mem s) t (js @ ks) = Some (w', e) \<longrightarrow> e \<le> length ks \<Longrightarrow>
   map_path alloc mem put_mem s t js w = Panic UnwrapNone \<and> card (free s) < (length js - 1) * 4096 \<or>
   (\<exists>s'. map_path alloc mem put_mem s t js w = Ok s' \<and> map_post d s s' t js w)"
proof (induction js arbitrary: d s t)
  case (Cons i "is")
  show ?case
  proof (cases "is = []")
    case True
    then have "d = length ks" using Cons.prems(3) by simp
    then show ?thesis using map_leaf [OF Cons.prems(1)] Cons.prems(4,5) by (simp add: True)
  next
    case False
    then obtain d' where d: "d = Suc d'" using Cons.prems(3) by (cases d) auto
    have i: "i < 512" and inv: "tinv (Suc d') s t" and T: "tree_ok (Suc d') (mem s) t"
      using Cons.prems(1,4) by (auto simp: d table_inv_def)
    have len: "length is + length ks = Suc d'" and lt: "\<forall>j \<in> set is \<union> set ks. j < 512"
      using Cons.prems(3,4) by (auto simp: d)
    have l: "1 \<le> length is" using False by (cases "is") auto
    have step: "map_path alloc mem put_mem s1 u is w = Panic UnwrapNone \<and> card (free s1) < (length is - 1) * 4096 \<or>
        (\<exists>s'. map_path alloc mem put_mem s1 u is w = Ok s' \<and> map_post (Suc d') s1 s' t (i # is) w)"
      if inv1: "tinv (Suc d') s1 t" and u: "get_next_table (mem s1) t i = Some u"
        and same: "leaf (mem s1) t (i # is @ ks) = leaf (mem s) t (i # is @ ks)" for s1 u
    proof -
      have "leaf (mem s1) t (i # is @ ks) = leaf (mem s1) u (is @ ks)"
        using False by (intro leaf_next [OF u]) simp
      then have "\<forall>w' e. leaf (mem s1) u (is @ ks) = Some (w', e) \<longrightarrow> e \<le> length ks"
        using same Cons.prems(6) by (metis append_Cons)
      then show ?thesis
        using Cons.IH [OF tinv_child [OF inv1 i u] False len lt Cons.prems(5)] map_post_up [OF inv1 i u] by blast
    qed
    show ?thesis
    proof (cases "entry_at (mem s) t i = 0")
      case True
      from ensure_table_cases [OF inv i True] show ?thesis
      proof (elim disjE exE conjE)
        fix s1 u
        assume a: "ensure_table alloc mem put_mem s t i = Ok (s1, u)" "tinv (Suc d') s1 t"
          "get_next_table (mem s1) t i = Some u" and c: "card (free s) = card (free s1) + 4096"
          and r: "free s1 \<subseteq> free s"
          "words (foot (Suc d') (mem s1) t) \<union> free s1 = words (foot (Suc d') (mem s) t) \<union> free s"
          "\<forall>x. x \<notin> free s \<union> words (foot (Suc d') (mem s) t) \<longrightarrow> mem s1 x = mem s x"
          and L: "\<forall>ks. length ks = Suc (Suc d') \<longrightarrow> (\<forall>k \<in> set ks. k < 512) \<longrightarrow> leaf (mem s1) t ks = leaf (mem s) t ks"
        have "leaf (mem s1) t (i # is @ ks) = leaf (mem s) t (i # is @ ks)" using len lt i by (intro L [rule_format]) auto
        from step [OF a(2,3) this] show ?thesis
          using a(1) False c l map_post_after [OF _ r L] by (auto simp: d)
      qed (use False l in simp)
    next
      case e: False
      have "\<not> pte_is_block (entry_at (mem s) t i)"
      proof
        assume "pte_is_block (entry_at (mem s) t i)"
        then have "leaf (mem s) t ((i # is) @ ks) = Some (entry_at (mem s) t i, length (is @ ks))"
          using e by (simp add: Let_def)
        then have "length (is @ ks) \<le> length ks" using Cons.prems(6) by blast
        then show False using False by simp
      qed
      then obtain u where u: "get_next_table (mem s) t i = Some u" using leaf_table [OF T i e] by blast
      then show ?thesis using step [OF inv u refl] False l ensure_table_present [OF u] by (auto simp: d)
    qed
  qed
qed simp

end

section \<open>Mapping a page\<close>

fun map_levels :: "page_size \<Rightarrow> nat" where
  "map_levels Size1G = 2"
| "map_levels Size2M = 3"
| "map_levels Size4K = 4"

definition map_flags :: "page_size \<Rightarrow> page_flags \<Rightarrow> page_flags" where
  "map_flags S flags = (if S = Size4K then flags OR SMALL_PAGE else flags)"

lemma map_levels_LOG: "LOG_BYTES S = 12 + 9 * (4 - map_levels S)" "2 \<le> map_levels S" "map_levels S \<le> 4"
  by (cases S; simp)+

lemma rbind_ok_cong: "(\<And>x. f x = g x) \<Longrightarrow> rbind r f = rbind r g"
  by (cases r) auto

lemma pt_map_path:
  assumes "4096 dvd frame" "frame < 2 ^ 48" "flags_fit S (map_flags S flags)"
  shows "pt_map alloc mem put S s p4 page frame flags =
    rbind (map_path alloc mem put s p4 (take (map_levels S) (indices page)) (of_nat frame OR map_flags S flags))
      (\<lambda>s'. Ok (s', page))"
proof -
  note w = pte_set_Ok(1) [OF assms]
  show ?thesis
    using w by (cases S) (auto simp: pt_map_def indices_def page_start_def BYTES_def set_leaf_def map_flags_def
        rbind_assoc Let_def split_def intro!: rbind_ok_cong)
qed

definition covers :: "memory \<Rightarrow> address \<Rightarrow> address \<Rightarrow> nat \<Rightarrow> bool" where
  "covers m t a e \<longleftrightarrow> (case leaf m t (indices a) of None \<Rightarrow> False | Some (w, e') \<Rightarrow> e < e')"

context frame_source
begin

lemma pt_map_cases:
  assumes inv: "tinv 3 s p4" and f: "4096 dvd frame" "frame < 2 ^ 48" and fl: "flags_fit S (map_flags S flags)"
    and page: "page < 2 ^ 48" and nb: "\<not> covers (mem s) p4 page (4 - map_levels S)"
  shows "pt_map alloc mem put_mem S s p4 page frame flags = Panic UnwrapNone
      \<and> card (free s) < (map_levels S - 1) * 4096 \<or>
    (\<exists>s'. pt_map alloc mem put_mem S s p4 page frame flags = Ok (s', page)
      \<and> map_post 3 s s' p4 (take (map_levels S) (indices page)) (of_nat frame OR map_flags S flags))"
proof -
  let ?js = "take (map_levels S) (indices page)" and ?ks = "drop (map_levels S) (indices page)"
  let ?w = "of_nat frame OR map_flags S flags"
  have lt: "\<forall>j \<in> set ?js \<union> set ?ks. j < 512"
    using indices_less by (auto dest: in_set_takeD in_set_dropD)
  have ne: "?js \<noteq> []" and len: "length ?js + length ?ks = Suc 3" and lk: "length ?ks = 4 - map_levels S"
    using map_levels_LOG [of S] by (auto simp: indices_def)
  have lw: "leaf_word (length ?ks) ?w"
    using pte_set_Ok [OF f fl] unfolding lk leaf_word_def by (cases S) auto
  have bl: "\<forall>w' e. leaf (mem s) p4 (?js @ ?ks) = Some (w', e) \<longrightarrow> e \<le> length ?ks"
    using nb by (auto simp: covers_def lk)
  show ?thesis
    using map_path_cases [OF inv ne len lt lw bl] map_levels_LOG [of S] unfolding pt_map_path [OF f fl]
    by (auto simp: min_def)
qed

end

end
