(* ===== verification/Table_Unmap.thy ===== *)
theory Table_Unmap
  imports Table_Map
begin

text \<open>
  \<^verbatim>\<open>PageTable::unmap\<close> for any frame allocator, and the page tables over the kernel's physical page
  resource: mapping and unmapping a page change the translation of exactly its addresses, table
  frames are neither leaked nor shared, and the release of an emptied table on the path of a large
  page goes wrong.
\<close>

section \<open>Unmapping along a path\<close>

fun unmap_path :: "'s frame_dealloc \<Rightarrow> ('s \<Rightarrow> memory) \<Rightarrow> ('s \<Rightarrow> memory \<Rightarrow> 's) \<Rightarrow> page_size \<Rightarrow> 's
    \<Rightarrow> address \<Rightarrow> usize list \<Rightarrow> ('s \<times> bool) res" where
  "unmap_path dealloc mem put S s t [] = Ok (s, False)"
| "unmap_path dealloc mem put S s t (i # is) =
     (if is = [] then Ok (clear_entry mem put s t i, True)
      else rbind (rassert (\<not> pte_is_empty (entry_at (mem s) t i))) (\<lambda>_.
        if pte_is_block (entry_at (mem s) t i) then Ok (clear_entry mem put s t i, True)
        else rbind (unwrap (get_next_table (mem s) t i)) (\<lambda>u.
          rbind (unmap_path dealloc mem put S s u is) (\<lambda>(s1, cleared).
          if cleared \<and> table_is_clear (mem s1) u then
            rbind (page_new S u) (\<lambda>f.
            rbind (dealloc S s1 f) (\<lambda>s2. Ok (clear_entry mem put s2 t i, True)))
          else Ok (s1, False)))))"

lemma pt_unmap_path:
  assumes "tree_ok 3 (mem s) p4"
  shows "pt_unmap dealloc mem put S s p4 page =
    rbind (unmap_path dealloc mem put S s p4 (indices page)) (\<lambda>(s', _). Ok s')"
proof -
  let ?e = "entry_at (mem s) p4 (get_index L4 page)"
  have "tree_ok (Suc 2) (mem s) p4" using assms by (simp add: numeral_3_eq_3)
  from tree_entry_ok [OF this get_index_less] have e: "?e \<noteq> 0 \<Longrightarrow> \<not> pte_is_block ?e" by (auto simp: entry_ok_def)
  show ?thesis
    by (cases "?e = 0")
      (auto simp: pt_unmap_def unmap_p2_def unmap_p3_def indices_def page_start_def pte_is_empty_def Let_def
        rassert_def rbind_assoc split_def e intro!: rbind_ok_cong)
qed

fun kept :: "memory \<Rightarrow> address \<Rightarrow> usize list \<Rightarrow> bool" where
  "kept m t [] = False"
| "kept m t (i # is) =
     (if is = [] \<or> pte_is_block (entry_at m t i) then \<exists>j<512. j \<noteq> i \<and> entry_at m t j \<noteq> 0
      else case get_next_table m t i of None \<Rightarrow> False | Some u \<Rightarrow> kept m u is)"

context frame_allocator
begin

definition unmap_post :: "nat \<Rightarrow> 's \<Rightarrow> 's \<Rightarrow> address \<Rightarrow> usize list \<Rightarrow> bool" where
  "unmap_post d s s' t js \<longleftrightarrow> tinv d s' t \<and> free s \<subseteq> free s'
     \<and> words (foot d (mem s') t) \<union> free s' = words (foot d (mem s) t) \<union> free s
     \<and> (\<forall>x. x \<notin> words (foot d (mem s) t) \<longrightarrow> mem s' x = mem s x)
     \<and> (\<forall>ks. length ks = Suc d \<longrightarrow> (\<forall>k \<in> set ks. k < 512) \<longrightarrow>
          leaf (mem s') t ks = (if take (length js) ks = js then None else leaf (mem s) t ks))"

lemma unmap_post_foot:
  assumes "unmap_post d s s' t js" and "tinv d s t"
  shows "words (foot d (mem s') t) \<subseteq> words (foot d (mem s) t)"
  using assms unfolding unmap_post_def table_inv_def by blast

text \<open>Clearing an entry that maps a page or a block.\<close>

lemma clear_leaf:
  assumes inv: "tinv d s t" and i: "i < 512" and n: "d = 0 \<or> get_next_table (mem s) t i = None"
  shows "unmap_post d s (clear_entry mem put_mem s t i) t [i]"
proof -
  define s' where "s' = clear_entry mem put_mem s t i"
  have I: "invar s" and T: "tree_ok d (mem s) t" and dj: "free s \<inter> words (foot d (mem s) t) = {}"
    and bnd: "free s \<subseteq> {..<2 ^ 48}"
    using inv by (auto simp: table_inv_def)
  note p = put_entry [OF I tinv_entry_free [OF inv i], of 0, folded clear_entry_def s'_def]
  have ti: "t + 8 * i \<in> words (foot d (mem s) t)"
    using entry_in_table [OF i, of t] foot_self [of t d "mem s"] unfolding words_def by blast
  have out: "\<forall>x. x \<notin> words (foot d (mem s) t) \<longrightarrow> mem s' x = mem s x"
    using ti by (auto simp: p(3) set_entry_apply)
  have e: "entry_at (mem s') t i = 0" by (simp add: p(3))
  show ?thesis
  proof (cases d)
    case 0
    have "entry_at (mem s') t k = (if k = i then 0 else entry_at (mem s) t k)" for k
      by (simp add: p(3) entry_at_def set_entry_apply)
    then have "leaf (mem s') t ks = (if take 1 ks = [i] then None else leaf (mem s) t ks)"
      if "length ks = 1" for ks
      using that by (cases ks) (auto simp: Let_def)
    then show ?thesis
      using inv p out 0 unfolding s'_def [symmetric] by (simp add: unmap_post_def table_inv_def)
  next
    case (Suc d')
    have same: "\<forall>x \<in> words (siblings d' (mem s) t i) - {t + 8 * i}. mem s' x = mem s x"
      by (simp add: p(3) set_entry_apply)
    have n': "get_next_table (mem s') t i = None" using e by simp
    have eo: "entry_ok d' (entry_at (mem s') t i)" by (simp add: e entry_ok_def)
    have b: "below d' (mem s') t i = {}" "below d' (mem s) t i = {}" using n n' by (simp_all add: below_def Suc)
    have tr: "\<forall>u. get_next_table (mem s') t i = Some u \<longrightarrow> tree_ok d' (mem s') u" by (simp add: n')
    have b': "below d' (mem s') t i \<inter> siblings d' (mem s) t i = {}" by (simp add: b)
    note U = tree_upd [OF T [unfolded Suc] i same eo tr b']
    have F: "foot d (mem s') t = foot d (mem s) t" using foot_siblings [OF i] by (simp add: Suc b U(2))
    have "leaf (mem s') t ks = (if take 1 ks = [i] then None else leaf (mem s) t ks)"
      if "length ks = Suc d" "\<forall>k \<in> set ks. k < 512" for ks
      using that U(3) e by (cases ks) (auto simp: Suc Let_def)
    then show ?thesis
      using p(1,2) U(1) bnd F dj out unfolding s'_def [symmetric] by (simp add: unmap_post_def table_inv_def Suc)
  qed
qed

lemma unmap_post_up:
  assumes inv: "tinv (Suc d) s t" and i: "i < 512" and u: "get_next_table (mem s) t i = Some u"
    and post: "unmap_post d s s' u js"
  shows "unmap_post (Suc d) s s' t (i # js)" and "get_next_table (mem s') t i = Some u"
proof -
  have T: "tree_ok (Suc d) (mem s) t" and dj: "free s \<inter> words (foot (Suc d) (mem s) t) = {}"
    using inv by (auto simp: table_inv_def)
  have P: "tinv d s' u" "free s \<subseteq> free s'"
      "words (foot d (mem s') u) \<union> free s' = words (foot d (mem s) u) \<union> free s"
      "\<forall>x. x \<notin> {} \<union> words (foot d (mem s) u) \<longrightarrow> mem s' x = mem s x"
    and L: "\<And>ks. length ks = Suc d \<Longrightarrow> \<forall>k \<in> set ks. k < 512 \<Longrightarrow>
      leaf (mem s') u ks = (if take (length js) ks = js then None else leaf (mem s) u ks)"
    using post by (auto simp: unmap_post_def)
  have T': "tree_ok d (mem s') u" and sub: "words (foot d (mem s') u) \<subseteq> {} \<union> words (foot d (mem s) u)"
    using P(1) unmap_post_foot [OF post tinv_child [OF inv i u]] by (auto simp: table_inv_def)
  note U = subtree_upd [OF T i u _ P(4) T' sub, simplified]
  show "get_next_table (mem s') t i = Some u" by (rule U(3))
  have F: "foot (Suc d) (mem s) t = foot d (mem s) u \<union> siblings d (mem s) t i"
    using foot_siblings [OF i] u by (simp add: below_def)
  have F': "foot (Suc d) (mem s') t = foot d (mem s') u \<union> siblings d (mem s) t i"
    using foot_siblings [OF i] U(2,3) by (simp add: below_def)
  have "words (foot d (mem s) u) \<inter> words (siblings d (mem s) t i) = {}"
    using words_below_siblings [OF T i] u by (simp add: below_def)
  then have dj': "free s' \<inter> words (siblings d (mem s) t i) = {}" using P(3) dj unfolding F by auto
  have t': "tinv (Suc d) s' t" using P(1) U(1) dj' by (auto simp: table_inv_def F')
  have "leaf (mem s') t ks = (if take (length (i # js)) ks = i # js then None else leaf (mem s) t ks)"
    if k: "length ks = Suc (Suc d)" "\<forall>k \<in> set ks. k < 512" for ks
  proof -
    obtain k ks' where ks: "ks = k # ks'" using k(1) by (cases ks) auto
    have "leaf (mem s) t (i # ks') = leaf (mem s) u ks'" using k ks by (intro leaf_next [OF u]) auto
    then show ?thesis using U(4) [of k ks'] L [of ks'] k by (auto simp: ks)
  qed
  moreover have "words (foot (Suc d) (mem s') t) \<union> free s' = words (foot (Suc d) (mem s) t) \<union> free s"
    using P(3) by (auto simp: F F')
  ultimately show "unmap_post (Suc d) s s' t (i # js)"
    using t' P(2,4) unfolding unmap_post_def F by auto
qed

end

section \<open>Releasing empty tables\<close>

context frame_allocator
begin

lemma prune_table:
  assumes inv: "tinv (Suc d) s t" and i: "i < 512" and u: "get_next_table (mem s) t i = Some u"
    and clr: "table_is_clear (mem s) u"
  obtains s1 s2 where "dealloc Size4K s u = Ok s1" and "s2 = clear_entry mem put_mem s1 t i"
    and "tinv (Suc d) s2 t" and "free s \<subseteq> free s2"
    and "words (foot (Suc d) (mem s2) t) \<union> free s2 = words (foot (Suc d) (mem s) t) \<union> free s"
    and "\<forall>x. x \<notin> words (foot (Suc d) (mem s) t) \<longrightarrow> mem s2 x = mem s x"
    and "\<forall>ks. length ks = Suc (Suc d) \<longrightarrow> (\<forall>k \<in> set ks. k < 512) \<longrightarrow> leaf (mem s2) t ks = leaf (mem s) t ks"
proof -
  have I: "invar s" and T: "tree_ok (Suc d) (mem s) t" and dj: "free s \<inter> words (foot (Suc d) (mem s) t) = {}"
    and bnd: "free s \<subseteq> {..<2 ^ 48}"
    using inv by (auto simp: table_inv_def)
  have z: "\<forall>i<512. entry_at (mem s) u i = 0" using clr by (simp add: table_is_clear_iff)
  have bi: "below d (mem s) t i = {u}" by (simp add: below_def u clear_table [OF z])
  have F: "foot (Suc d) (mem s) t = insert u (siblings d (mem s) t i)" using foot_siblings [OF i] bi by auto
  have uok: "table_ok u" using below_ok [OF T i] bi by simp
  have su: "{u..<u + 4096} \<inter> words (siblings d (mem s) t i) = {}" using words_below_siblings [OF T i] by (simp add: bi)
  have fu: "{u..<u + 4096} \<inter> free s = {}" using dj unfolding F by auto
  have B: "BYTES Size4K = 4096" by (simp add: BYTES_def)
  have g: "0 < u" "4096 dvd u" "u + 4096 \<le> USIZE_LIMIT" "u + 4096 \<le> 2 ^ 48"
    using uok by (auto simp: table_ok_def USIZE_LIMIT_def)
  then obtain s1 where s1: "dealloc Size4K s u = Ok s1" "invar s1" "free s1 = free s \<union> {u..<u + 4096}"
      "\<forall>x. x \<notin> {u..<u + 4096} \<longrightarrow> mem s1 x = mem s x"
    using dealloc_Ok [OF I, of u Size4K] fu unfolding B by blast
  define s2 where "s2 = clear_entry mem put_mem s1 t i"
  have st: "t + 8 * i \<in> words (siblings d (mem s) t i)"
    using entry_in_table [OF i, of t] by (simp add: siblings_def)
  then have nf: "t + 8 * i \<notin> free s1" using su tinv_entry_free [OF inv i] unfolding s1(3) by blast
  note p = put_entry [OF s1(2) nf, of 0, folded clear_entry_def s2_def]
  have m2: "mem s2 x = mem s x" if "x \<notin> {u..<u + 4096}" "x \<noteq> t + 8 * i" for x
    using s1(4) that unfolding p(3) set_entry_apply by simp
  have e: "entry_at (mem s2) t i = 0" by (simp add: p(3))
  have same: "\<forall>x \<in> words (siblings d (mem s) t i) - {t + 8 * i}. mem s2 x = mem s x"
    using m2 su by blast
  have b: "below d (mem s2) t i = {}" using e by (simp add: below_def)
  have up: "entry_ok d (entry_at (mem s2) t i)" "\<forall>v. get_next_table (mem s2) t i = Some v \<longrightarrow> tree_ok d (mem s2) v"
      "below d (mem s2) t i \<inter> siblings d (mem s) t i = {}"
    using e b by (simp_all add: entry_ok_def)
  note U = tree_upd [OF T i same up]
  have F2: "foot (Suc d) (mem s2) t = siblings d (mem s) t i" using foot_siblings [OF i] b U(2) by simp
  have "free s2 \<inter> words (siblings d (mem s) t i) = {}" using su dj unfolding p(2) s1(3) F by auto
  moreover have "free s2 \<subseteq> {..<2 ^ 48}" using bnd g(4) unfolding p(2) s1(3) by auto
  ultimately have "tinv (Suc d) s2 t" using p(1) U(1) by (simp add: table_inv_def F2)
  moreover have "words (foot (Suc d) (mem s2) t) \<union> free s2 = words (foot (Suc d) (mem s) t) \<union> free s"
    unfolding F F2 p(2) s1(3) by auto
  moreover have "\<forall>x. x \<notin> words (foot (Suc d) (mem s) t) \<longrightarrow> mem s2 x = mem s x"
  proof (intro allI impI m2)
    fix x
    assume "x \<notin> words (foot (Suc d) (mem s) t)"
    then show "x \<notin> {u..<u + 4096}" "x \<noteq> t + 8 * i" unfolding F using st by auto
  qed
  moreover have "leaf (mem s2) t ks = leaf (mem s) t ks" if k: "length ks = Suc (Suc d)" "\<forall>k \<in> set ks. k < 512" for ks
  proof -
    obtain k ks' where ks: "ks = k # ks'" using k(1) by (cases ks) auto
    have "leaf (mem s) t (i # ks') = leaf (mem s) u ks'" using k ks by (intro leaf_next [OF u]) auto
    moreover have "leaf (mem s) u ks' = None" using clear_table(3) [OF z] k ks by simp
    moreover have "leaf (mem s2) t (i # ks') = None" using e by (simp add: Let_def)
    ultimately show ?thesis using U(3) [of k ks'] k unfolding ks by (cases "k = i") simp_all
  qed
  moreover have "free s \<subseteq> free s2" by (auto simp: p(2) s1(3))
  ultimately show ?thesis using that [OF s1(1) s2_def] by blast
qed

lemma unmap_post_prune:
  assumes post: "unmap_post d s s1 t js" and inv: "tinv d s t" and fr: "free s1 \<subseteq> free s2" and inv2: "tinv d s2 t"
    and F: "words (foot d (mem s2) t) \<union> free s2 = words (foot d (mem s1) t) \<union> free s1"
    and out: "\<forall>x. x \<notin> words (foot d (mem s1) t) \<longrightarrow> mem s2 x = mem s1 x"
    and L: "\<forall>ks. length ks = Suc d \<longrightarrow> (\<forall>k \<in> set ks. k < 512) \<longrightarrow> leaf (mem s2) t ks = leaf (mem s1) t ks"
  shows "unmap_post d s s2 t js"
proof -
  have "mem s2 x = mem s x" if "x \<notin> words (foot d (mem s) t)" for x
  proof -
    have "x \<notin> words (foot d (mem s1) t)" using that unmap_post_foot [OF post inv] by blast
    then show ?thesis using out post that by (simp add: unmap_post_def)
  qed
  then show ?thesis using post fr F L inv2 unfolding unmap_post_def by auto
qed

lemma unmap_path_ok:
  "tinv d s t \<Longrightarrow> length ks = Suc d \<Longrightarrow> \<forall>k \<in> set ks. k < 512 \<Longrightarrow> leaf (mem s) t ks = Some (w, e) \<Longrightarrow>
   S = Size4K \<or> kept (mem s) t ks \<Longrightarrow>
   \<exists>s' b. unmap_path dealloc mem put_mem S s t ks = Ok (s', b) \<and> unmap_post d s s' t (take (Suc d - e) ks)
     \<and> e \<le> d \<and> (S \<noteq> Size4K \<longrightarrow> b \<longrightarrow> \<not> table_is_clear (mem s') t)"
proof (induction ks arbitrary: d s t)
  case (Cons i "is")
  have i: "i < 512" using Cons.prems(3) by simp
  have e0: "entry_at (mem s) t i \<noteq> 0" using Cons.prems(4) by (auto simp: Let_def)
  show ?case
  proof (cases "is = [] \<or> pte_is_block (entry_at (mem s) t i)")
    case True
    then have "e = d" using Cons.prems(2,4) e0 by (auto simp: Let_def)
    have n: "d = 0 \<or> get_next_table (mem s) t i = None" using True Cons.prems(2) by (auto simp: get_next_table_def Let_def)
    have "\<not> table_is_clear (mem (clear_entry mem put_mem s t i)) t" if "S \<noteq> Size4K"
    proof -
      have "invar s" using Cons.prems(1) by (simp add: table_inv_def)
      note p = put_entry [OF this tinv_entry_free [OF Cons.prems(1) i], of 0, folded clear_entry_def]
      have "\<exists>j<512. j \<noteq> i \<and> entry_at (mem s) t j \<noteq> 0" using Cons.prems(5) that True by simp
      then show ?thesis unfolding p(3) table_is_clear_iff by (auto simp: entry_at_def set_entry_apply)
    qed
    then show ?thesis
      using clear_leaf [OF Cons.prems(1) i n] True e0 \<open>e = d\<close> by (auto simp: pte_is_empty_def)
  next
    case False
    then obtain d' where d: "d = Suc d'" using Cons.prems(2) by (cases d) auto
    have inv: "tinv (Suc d') s t" and T: "tree_ok (Suc d') (mem s) t"
      using Cons.prems(1) by (auto simp: d table_inv_def)
    obtain u where u: "get_next_table (mem s) t i = Some u" using leaf_table [OF T i e0] False by blast
    have lu: "leaf (mem s) u is = Some (w, e)" using Cons.prems(4) leaf_next [OF u] False by simp
    have ku: "S = Size4K \<or> kept (mem s) u is" using Cons.prems(5) False u by simp
    have len: "length is = Suc d'" and lt: "\<forall>k \<in> set is. k < 512" using Cons.prems(2,3) by (simp_all add: d)
    obtain s1 b where s1: "unmap_path dealloc mem put_mem S s u is = Ok (s1, b)"
        "unmap_post d' s s1 u (take (Suc d' - e) is)" "e \<le> d'"
        "S \<noteq> Size4K \<longrightarrow> b \<longrightarrow> \<not> table_is_clear (mem s1) u"
      using Cons.IH [OF tinv_child [OF inv i u] len lt lu ku] by blast
    note P = unmap_post_up [OF inv i u s1(2)]
    have inv1: "tinv (Suc d') s1 t" using P(1) by (simp add: unmap_post_def)
    have tk: "take (Suc d - e) (i # is) = i # take (Suc d' - e) is" using s1(3) by (simp add: d Suc_diff_le)
    show ?thesis
    proof (cases "b \<and> table_is_clear (mem s1) u")
      case clr: True
      then have S: "S = Size4K" using s1(4) by blast
      have "table_ok u" using tinv_child [OF inv i u] tree_table_ok by (auto simp: table_inv_def)
      then have pn: "page_new Size4K u = Ok u" by (simp add: table_ok_def BYTES_def)
      obtain s2 s3 where s3: "dealloc Size4K s1 u = Ok s2" "s3 = clear_entry mem put_mem s2 t i" "tinv (Suc d') s3 t"
          and r: "free s1 \<subseteq> free s3"
          "words (foot (Suc d') (mem s3) t) \<union> free s3 = words (foot (Suc d') (mem s1) t) \<union> free s1"
          "\<forall>x. x \<notin> words (foot (Suc d') (mem s1) t) \<longrightarrow> mem s3 x = mem s1 x"
          "\<forall>ks. length ks = Suc (Suc d') \<longrightarrow> (\<forall>k \<in> set ks. k < 512) \<longrightarrow> leaf (mem s3) t ks = leaf (mem s1) t ks"
        using prune_table [OF inv1 i P(2)] clr by blast
      have "unmap_path dealloc mem put_mem S s t (i # is) = Ok (s3, True)"
        using False e0 u s1(1) clr pn s3(1,2) by (simp add: pte_is_empty_def S)
      moreover have "unmap_post d s s3 t (take (Suc d - e) (i # is))"
        using unmap_post_prune [OF P(1) inv r(1) s3(3) r(2-4)] tk by (simp add: d)
      ultimately show ?thesis using S s1(3) by (auto simp: d)
    next
      case nclr: False
      have "unmap_path dealloc mem put_mem S s t (i # is) = Ok (s1, False)"
        using False e0 u s1(1) nclr by (auto simp: pte_is_empty_def)
      then show ?thesis
        using P(1) tk s1(3) unfolding d by (intro exI [of _ s1] exI [of _ False]) simp
    qed
  qed
qed simp

lemma pt_unmap_ok:
  assumes inv: "tinv 3 s p4" and l: "leaf (mem s) p4 (indices page) = Some (w, e)"
    and k: "S = Size4K \<or> kept (mem s) p4 (indices page)"
  shows "\<exists>s'. pt_unmap dealloc mem put_mem S s p4 page = Ok s' \<and> e \<le> 3 \<and> unmap_post 3 s s' p4 (take (4 - e) (indices page))"
proof -
  have len: "length (indices page) = Suc 3" by simp
  have "tree_ok 3 (mem s) p4" using inv by (simp add: table_inv_def)
  then show ?thesis
    using unmap_path_ok [OF inv len indices_less l k] by (auto simp: pt_unmap_path)
qed

end

section \<open>Translations\<close>

lemma page_prefix:
  assumes "BYTES S dvd page" and "page < 2 ^ 48" and "a < 2 ^ 48"
  shows "take (map_levels S) (indices a) = take (map_levels S) (indices page) \<longleftrightarrow> page \<le> a \<and> a < page + BYTES S"
proof -
  have B: "BYTES S = 2 ^ (12 + 9 * (4 - map_levels S))" by (simp add: BYTES_def map_levels_LOG(1))
  obtain q where q: "page = BYTES S * q" using assms(1) by blast
  have "1 \<le> map_levels S" using map_levels_LOG(2) [of S] by linarith
  then have "take (map_levels S) (indices a) = take (map_levels S) (indices page) \<longleftrightarrow> a div BYTES S = page div BYTES S"
    using indices_take_eq [OF assms(3,2) _ map_levels_LOG(3)] by (simp add: B)
  also have "\<dots> \<longleftrightarrow> a div BYTES S = q" by (simp add: q)
  also have "\<dots> \<longleftrightarrow> q * BYTES S \<le> a \<and> a < Suc q * BYTES S"
    using div_nat_eqI [of "BYTES S" q a] by (auto simp: ac_simps dividend_less_times_div)
  finally show ?thesis by (simp add: q ac_simps)
qed

lemma page_offset: "BYTES S dvd page \<Longrightarrow> page \<le> a \<Longrightarrow> a < page + BYTES S \<Longrightarrow> a mod BYTES S = a - page"
proof -
  assume "BYTES S dvd page" and a: "page \<le> a" "a < page + BYTES S"
  then obtain q where q: "page = BYTES S * q" by blast
  have "a = (a - page) + BYTES S * q" using a(1) q by simp
  then have "a mod BYTES S = (a - page) mod BYTES S" by (metis mod_mult_self2)
  also have "\<dots> = a - page" using a by simp
  finally show ?thesis .
qed

context frame_allocator
begin

lemma map_post_translate:
  assumes P: "map_post 3 s s' p4 (take (map_levels S) (indices page)) (of_nat frame OR map_flags S flags)"
    and T: "tree_ok 3 (mem s) p4" and f: "4096 dvd frame" "frame < 2 ^ 48" and fl: "flags_fit S (map_flags S flags)"
    and page: "BYTES S dvd page" "page < 2 ^ 48" and a: "a < 2 ^ 48"
  shows "pt_translate (mem s') p4 a = (if page \<le> a \<and> a < page + BYTES S then Ok (Some (frame + (a - page)))
      else pt_translate (mem s) p4 a)"
proof -
  have T': "tree_ok 3 (mem s') p4" using P by (simp add: map_post_def table_inv_def)
  have lm: "length (take (map_levels S) (indices page)) = map_levels S" using map_levels_LOG(3) [of S] by simp
  have "leaf (mem s') p4 (indices a) = (if page \<le> a \<and> a < page + BYTES S
      then Some (of_nat frame OR map_flags S flags, 4 - map_levels S) else leaf (mem s) p4 (indices a))"
    using P indices_less [of a] page_prefix [OF page a] unfolding map_post_def lm by simp
  then show ?thesis
    using pte_set_Ok(2) [OF f fl] page_offset [OF page(1), of a] map_levels_LOG(1) [of S]
    by (auto simp: pt_translate_walk [OF T] pt_translate_walk [OF T'] walk_def BYTES_def)
qed

lemma unmap_post_translate:
  assumes P: "unmap_post 3 s s' p4 (take (map_levels S) (indices page))"
    and T: "tree_ok 3 (mem s) p4" and page: "BYTES S dvd page" "page < 2 ^ 48" and a: "a < 2 ^ 48"
  shows "pt_translate (mem s') p4 a =
    (if page \<le> a \<and> a < page + BYTES S then Ok None else pt_translate (mem s) p4 a)"
proof -
  have T': "tree_ok 3 (mem s') p4" using P by (simp add: unmap_post_def table_inv_def)
  have lm: "length (take (map_levels S) (indices page)) = map_levels S" using map_levels_LOG(3) [of S] by simp
  have "leaf (mem s') p4 (indices a) = (if page \<le> a \<and> a < page + BYTES S then None else leaf (mem s) p4 (indices a))"
    using P indices_less [of a] page_prefix [OF page a] unfolding unmap_post_def lm by simp
  then show ?thesis by (auto simp: pt_translate_walk [OF T] pt_translate_walk [OF T'] walk_def)
qed

lemma pt_alloc_fresh:
  assumes "invar s" and "free s \<subseteq> {..<2 ^ 48}" and "free s \<noteq> {}"
  shows "\<exists>s' p4. pt_alloc alloc mem put_mem s = Ok (s', p4) \<and> tinv 3 s' p4 \<and> p4 \<in> free s
    \<and> {p4..<p4 + 4096} \<subseteq> free s \<and> free s' = free s - {p4..<p4 + 4096} \<and> (\<forall>a. leaf (mem s') p4 (indices a) = None)"
  using alloc_frame4k_cases [OF assms(1,2)]
proof (elim disjE exE conjE)
  fix s1 f
  assume a: "alloc_frame4k alloc mem put_mem s = Ok (s1, f)" "invar s1" "table_ok f" "{f..<f + 4096} \<subseteq> free s"
    "free s1 = free s - {f..<f + 4096}" "\<forall>i<512. entry_at (mem s1) f i = 0"
  let ?m = "frame_zero (mem s1) f"
  have z: "\<forall>i<512. entry_at ?m f i = 0" by (simp add: frame_zero_def entry_at_def BYTES_def)
  have "\<forall>a \<in> free s1. ?m a = mem s1 a" unfolding a(5) by (auto simp: frame_zero_def BYTES_def)
  note p = put_mem_Ok [OF a(2) this]
  have "tinv 3 (put_mem s1 ?m) f"
    using assms(2) p clear_table [OF z] a(3,5) by (auto simp: table_inv_def)
  moreover have "\<forall>a. leaf ?m f (indices a) = None" using clear_table(3) [OF z] indices_less by blast
  moreover have "f \<in> free s" using a(4) by (rule subsetD) simp
  ultimately show ?thesis
    using a(1,4,5) p by (intro exI [of _ "put_mem s1 ?m"] exI [of _ f]) (simp add: pt_alloc_def page_start_def)
qed (use assms(3) in simp)

end

end
