(* ===== verification/Virtual_Memory.thy ===== *)
theory Virtual_Memory
  imports Table_Unmap
begin

text \<open>
  Page tables over the physical page resource: what \<^verbatim>\<open>PageTable::{alloc, map, unmap, translate}\<close> do
  together with the frame allocator that provides their tables.
\<close>

abbreviation put_ph :: "phys \<Rightarrow> memory \<Rightarrow> phys" where
  "put_ph s m \<equiv> s\<lparr>ph_mem := m\<rparr>"

abbreviation pt_inv :: "phys \<Rightarrow> address \<Rightarrow> bool" where
  "pt_inv \<equiv> table_inv ph_inv ph_free ph_mem 3"

lemma pt_inv_tree: "pt_inv s p4 \<Longrightarrow> tree_ok 3 (ph_mem s) p4"
  by (simp add: table_inv_def)

lemma flags_fit_all:
  "flags_fit Size4K (map_flags Size4K user_code_flags_4k)" "flags_fit Size4K (map_flags Size4K user_stack_flags)"
  "flags_fit Size4K (map_flags Size4K user_data_flags_4k)" "flags_fit Size4K (map_flags Size4K kernel_code_flags_4k)"
  "flags_fit Size4K (map_flags Size4K device_flags)" "flags_fit S (map_flags S (kernel_data_flags S))"
  "flags_fit Size2M (map_flags Size2M kernel_code_flags_2m)"
  by (cases S; simp add: flags_fit_def map_flags_def flags_contains_def user_code_flags_4k_def user_stack_flags_def
      user_data_flags_4k_def kernel_data_flags_4k_def kernel_data_flags_def kernel_code_flags_4k_def
      kernel_code_flags_2m_def device_flags_def ADDRESS_MASK_def NORMAL_MEMORY_def DEVICE_MEMORY_def PRESENT_def
      SMALL_PAGE_def OUTER_SHARE_def ACCESSED_def USER_def BYTES_def Let_def)+

lemma map_Ok:
  assumes inv: "pt_inv s p4" and f: "4096 dvd frame" "frame < 2 ^ 48" and fl: "flags_fit S (map_flags S flags)"
    and page: "page < 2 ^ 48" and nb: "\<not> covers (ph_mem s) p4 page (4 - map_levels S)"
    and room: "3 * 4096 \<le> card (ph_free s)"
  obtains s' where "pt_map ppr_acquire ph_mem put_ph S s p4 page frame flags = Ok (s', page)"
    and "phys.map_post 3 s s' p4 (take (map_levels S) (indices page)) (of_nat frame OR map_flags S flags)"
proof -
  have "(map_levels S - 1) * 4096 \<le> 3 * 4096" using map_levels_LOG(3) [of S] by (intro mult_le_mono1) simp
  then show ?thesis using phys.pt_map_cases [OF inv f fl page nb] room that by auto
qed

lemma boot_table:
  assumes "frames_sane frames" and "\<forall>(a, b) \<in> set frames. b \<le> 2 ^ 48" and "\<exists>(a, b) \<in> set frames. a < b"
  shows "\<exists>s0 s p4. ppr_init (ppr_new m) frames = Ok s0 \<and> pt_alloc ppr_acquire ph_mem put_ph s0 = Ok (s, p4)
    \<and> pt_inv s p4 \<and> (\<forall>a. leaf (ph_mem s) p4 (indices a) = None)
    \<and> card (ph_free s) + 4096 = card (\<Union>(a, b) \<in> set frames. {a..<b})"
proof -
  let ?R = "\<Union>(a, b) \<in> set frames. {a..<b}"
  obtain s0 L where s0: "ppr_init (ppr_new m) frames = Ok s0" "ppr.pool s0 L" "pool_free 12 L = ?R"
    using ppr_init_Ok [OF ppr_new_pool(1) assms(1), of m] unfolding ppr_new_pool(2) by auto
  have I: "ph_inv s0" and fr: "ph_free s0 = ?R" using s0 ph_free_eq [OF s0(2)] by (auto simp: ph_inv_def)
  have bnd: "ph_free s0 \<subseteq> {..<2 ^ 48}" using assms(2) unfolding fr by fastforce
  have "ph_free s0 \<noteq> {}" using assms(3) unfolding fr by fastforce
  then obtain s p4 where s: "pt_alloc ppr_acquire ph_mem put_ph s0 = Ok (s, p4)" "pt_inv s p4"
      "ph_free s = ph_free s0 - {p4..<p4 + 4096}" "\<forall>a. leaf (ph_mem s) p4 (indices a) = None"
    and sub: "{p4..<p4 + 4096} \<subseteq> ph_free s0"
    using phys.pt_alloc_fresh [OF I bnd] by blast
  have "finite (ph_free s0)" using bnd by (rule finite_subset) simp
  from card_minus_frame [OF this sub] have "card (ph_free s) + 4096 = card ?R" unfolding s(3) fr by simp
  then show ?thesis using s0(1) s by blast
qed


section \<open>Properties\<close>

text \<open>C2: mapping a page of any size changes the translation of exactly its addresses. If three table
  frames are free, no larger block covers the page and the flags fit the page size, \<^verbatim>\<open>map\<close> returns,
  every address of the page translates to the frame plus its offset, every other address translates
  as before, the tables stay a tree apart from the free frames, and memory that is neither free nor a
  table is not written.\<close>

theorem map_translates:
  assumes "table_inv ph_inv ph_free ph_mem 3 s p4" and "BYTES S dvd page" and "page < 2 ^ 48"
    and "4096 dvd frame" and "frame < 2 ^ 48" and "flags_fit S (map_flags S flags)"
    and "\<not> covers (ph_mem s) p4 page (4 - map_levels S)" and "3 * 4096 \<le> card (ph_free s)"
  shows "\<exists>s'. pt_map ppr_acquire ph_mem (\<lambda>s m. s\<lparr>ph_mem := m\<rparr>) S s p4 page frame flags = Ok (s', page)
    \<and> table_inv ph_inv ph_free ph_mem 3 s' p4
    \<and> (\<forall>a < 2 ^ 48. pt_translate (ph_mem s') p4 a =
         (if page \<le> a \<and> a < page + BYTES S then Ok (Some (frame + (a - page))) else pt_translate (ph_mem s) p4 a))
    \<and> (\<forall>x. x \<notin> ph_free s \<union> words (foot 3 (ph_mem s) p4) \<longrightarrow> ph_mem s' x = ph_mem s x)"
proof -
  obtain s' where s': "pt_map ppr_acquire ph_mem put_ph S s p4 page frame flags = Ok (s', page)"
    and P: "phys.map_post 3 s s' p4 (take (map_levels S) (indices page)) (of_nat frame OR map_flags S flags)"
    using map_Ok [OF assms(1,4,5,6,3,7,8)] by blast
  note tr = phys.map_post_translate [OF P pt_inv_tree [OF assms(1)] assms(4-6,2,3)]
  show ?thesis using s' P tr by (auto simp: phys.map_post_def)
qed

theorem map_translates_witness:
  "\<exists>s0 s p4 s'. ppr_init (ppr_new (\<lambda>_. 0)) [(0x80000, 0x400000)] = Ok s0
    \<and> pt_alloc ppr_acquire ph_mem put_ph s0 = Ok (s, p4)
    \<and> pt_map ppr_acquire ph_mem put_ph Size4K s p4 0x100000000000 0x7000 user_code_flags_4k = Ok (s', 0x100000000000)
    \<and> pt_translate (ph_mem s') p4 0x100000000123 = Ok (Some 0x7123)
    \<and> pt_translate (ph_mem s') p4 0x100000001000 = pt_translate (ph_mem s) p4 0x100000001000"
proof -
  obtain s0 s p4 where i: "ppr_init (ppr_new (\<lambda>_. 0)) [(0x80000, 0x400000)] = Ok s0"
      "pt_alloc ppr_acquire ph_mem put_ph s0 = Ok (s, p4)" "pt_inv s p4"
      "\<forall>a. leaf (ph_mem s) p4 (indices a) = None"
      "card (ph_free s) + 4096 = card (\<Union>(a, b) \<in> set [(0x80000, 0x400000)]. {a..<b :: nat})"
    using boot_table [of "[(0x80000, 0x400000)]" "\<lambda>_. 0"]
    by (auto simp: frames_sane_def USIZE_LIMIT_def dvd_eq_mod_eq_0)
  have "\<not> covers (ph_mem s) p4 0x100000000000 (4 - map_levels Size4K)" "3 * 4096 \<le> card (ph_free s)"
    using i(4,5) by (simp_all add: covers_def)
  with map_translates [OF i(3), where S = Size4K and page = "0x100000000000" and frame = "0x7000"
      and flags = user_code_flags_4k] flags_fit_all(1) i(1,2)
  show ?thesis by (auto simp: BYTES_def dvd_eq_mod_eq_0)
qed



text \<open>C11: mapping a fresh 4K page and unmapping it again gives back every translation, and every byte of
  table memory: the frames that are tables or free are the same as before.\<close>

theorem map_unmap_roundtrip:
  assumes "table_inv ph_inv ph_free ph_mem 3 s p4" and "4096 dvd page" and "page < 2 ^ 48"
    and "4096 dvd frame" and "frame < 2 ^ 48" and "flags_fit Size4K (map_flags Size4K flags)"
    and "leaf (ph_mem s) p4 (indices page) = None" and "3 * 4096 \<le> card (ph_free s)"
  shows "\<exists>s1 s2. pt_map ppr_acquire ph_mem (\<lambda>s m. s\<lparr>ph_mem := m\<rparr>) Size4K s p4 page frame flags = Ok (s1, page)
    \<and> pt_unmap ppr_release ph_mem (\<lambda>s m. s\<lparr>ph_mem := m\<rparr>) Size4K s1 p4 page = Ok s2
    \<and> (\<forall>a < 2 ^ 48. pt_translate (ph_mem s2) p4 a = pt_translate (ph_mem s) p4 a)
    \<and> words (foot 3 (ph_mem s2) p4) \<union> ph_free s2 = words (foot 3 (ph_mem s) p4) \<union> ph_free s"
proof -
  have c: "\<not> covers (ph_mem s) p4 page (4 - map_levels Size4K)" using assms(7) by (simp add: covers_def)
  have pg: "BYTES Size4K dvd page" using assms(2) by (simp add: BYTES_def)
  let ?w = "of_nat frame OR map_flags Size4K flags"
  obtain s1 where s1: "pt_map ppr_acquire ph_mem put_ph Size4K s p4 page frame flags = Ok (s1, page)"
    and P: "phys.map_post 3 s s1 p4 (take (map_levels Size4K) (indices page)) ?w"
    using map_Ok [OF assms(1,4,5,6,3) c assms(8)] by blast
  have l: "leaf (ph_mem s1) p4 (indices page) = Some (?w, 0)" and inv1: "pt_inv s1 p4"
    and F: "words (foot 3 (ph_mem s1) p4) \<union> ph_free s1 = words (foot 3 (ph_mem s) p4) \<union> ph_free s"
    using P indices_less unfolding phys.map_post_def by auto
  obtain s2 where s2: "pt_unmap ppr_release ph_mem put_ph Size4K s1 p4 page = Ok s2"
    and Q: "phys.unmap_post 3 s1 s2 p4 (take (map_levels Size4K) (indices page))"
    using phys.pt_unmap_ok [OF inv1 l] by auto
  have L: "leaf (ph_mem s2) p4 (indices a) = leaf (ph_mem s) p4 (indices a)" for a
    using P Q assms(7) indices_less [of a] unfolding phys.map_post_def phys.unmap_post_def by auto
  have T: "tree_ok 3 (ph_mem s2) p4" using Q by (simp add: phys.unmap_post_def table_inv_def)
  have "\<forall>a. pt_translate (ph_mem s2) p4 a = pt_translate (ph_mem s) p4 a"
    by (simp add: pt_translate_walk [OF T] pt_translate_walk [OF pt_inv_tree [OF assms(1)]] walk_def L)
  then show ?thesis using s1 s2 Q F by (auto simp: phys.unmap_post_def)
qed

theorem map_unmap_roundtrip_witness:
  "\<exists>s p4 s1 s2. pt_map ppr_acquire ph_mem put_ph Size4K s p4 0x7000 0x7000 device_flags = Ok (s1, 0x7000)
    \<and> pt_unmap ppr_release ph_mem put_ph Size4K s1 p4 0x7000 = Ok s2
    \<and> (\<forall>a < 2 ^ 48. pt_translate (ph_mem s2) p4 a = pt_translate (ph_mem s) p4 a)"
proof -
  obtain s p4 where i: "pt_inv s p4" "\<forall>a. leaf (ph_mem s) p4 (indices a) = None"
      "card (ph_free s) + 4096 = card (\<Union>(a, b) \<in> set [(0x80000, 0x400000)]. {a..<b :: nat})"
    using boot_table [of "[(0x80000, 0x400000)]" "\<lambda>_. 0"]
    by (auto simp: frames_sane_def USIZE_LIMIT_def dvd_eq_mod_eq_0)
  then show ?thesis
    using map_unmap_roundtrip [OF i(1), where page = "0x7000" and frame = "0x7000" and flags = device_flags]
      flags_fit_all(5) by (auto simp: dvd_eq_mod_eq_0)
qed

text \<open>C15: unmapping the last 2M page of its level-2 table. The emptied table is a 4K frame, but it is
  released with the size of the unmapped page; unless the frame happens to be 2M-aligned, the
  assertion in \<^verbatim>\<open>Page::new\<close> fails and the unmapping panics.\<close>

theorem unmap_last_large_page_panics:
  assumes "get_next_table (mem s) p4 (get_index L4 page) = Some p3" and "get_next_table (mem s) p3 (get_index L3 page) = Some p2"
    and "entry_at (mem s) p2 (get_index L2 page) \<noteq> 0" and "pte_is_block (entry_at (mem s) p2 (get_index L2 page))"
    and "\<forall>j < 512. j \<noteq> get_index L2 page \<longrightarrow> entry_at (mem s) p2 j = 0" and "\<forall>m. mem (put s m) = m"
    and "\<not> BYTES Size2M dvd p2"
  shows "pt_unmap dealloc mem put Size2M s p4 page = Panic AssertFailed"
proof -
  have n: "entry_at (mem s) p4 (get_index L4 page) \<noteq> 0" "entry_at (mem s) p3 (get_index L3 page) \<noteq> 0"
      "\<not> pte_is_block (entry_at (mem s) p3 (get_index L3 page))"
    using assms(1,2) by (auto simp: next_table_Some)
  have "table_is_clear (mem (clear_entry mem put s p2 (get_index L2 page))) p2"
    using assms(5,6) by (auto simp: table_is_clear_iff clear_entry_def entry_at_def set_entry_apply)
  then show ?thesis
    using assms n by (simp add: pt_unmap_def unmap_p2_def page_start_def pte_is_empty_def Let_def page_new_def
        page_is_aligned_iff rassert_def)
qed

theorem unmap_last_large_page_panics_witness:
  "pt_unmap (\<lambda>_ m _. Ok m) (\<lambda>m. m) (\<lambda>_ m. m) Size2M
    ((\<lambda>_. 0)(0x1000 := 0x2003, 0x2000 := 0x3003, 0x3008 := 0x200001)) 0x1000 0x200000 = Panic AssertFailed"
  by (rule unmap_last_large_page_panics [where ?p3.0 = "0x2000" and ?p2.0 = "0x3000"])
    (simp_all add: get_index_eq get_next_table_def entry_at_def pte_present_def pte_is_block_def pte_flags_def
      pte_address_def flags_contains_def FLAGS_MASK_def ADDRESS_MASK_def PRESENT_def SMALL_PAGE_def BYTES_def dvd_eq_mod_eq_0)

end
