(* ===== verification/Bitmap_Alloc.thy ===== *)
theory Bitmap_Alloc
  imports Page
begin

text \<open>
  \<^verbatim>\<open>libs/memory/src/bitmap_page_allocator.rs\<close>: the buddy allocator that hands out ranges
  of the kernel's virtual address space. The const parameter \<^verbatim>\<open>LOG_HEAP_SIZE\<close> is the first
  argument \<open>lh\<close> of every operation. A \<^emph>\<open>unit\<close> is one 4K page; size class \<open>sc\<close> has cells
  of \<open>2 ^ sc\<close> units; the bit of cell \<open>i\<close> of class \<open>sc\<close> is bit number
  \<open>2 ^ (LOG_UNITS lh - sc) + i\<close> of the table, so the bits form a binary tree with the
  whole heap at bit 1. This theory holds the operations; \<open>Bitmap_Spec\<close> proves them correct.
\<close>

record bitmap =
  bm_base :: address
  bm_table :: "64 word list"

definition table_length :: "nat \<Rightarrow> usize" where
  "table_length log_heap_size = 2 ^ (log_heap_size - LOG_BYTES Size4K) * 2 div 8"

definition FREE :: usize where "FREE = 1"
definition USED :: usize where "USED = 0"

definition LOG_UNITS :: "nat \<Rightarrow> nat" where
  "LOG_UNITS lh = lh - LOG_BYTES Size4K"

definition LOG_BITS_IN_WORD :: nat where
  "LOG_BITS_IN_WORD = trailing_zeros (8 * 8)"

definition BITS_IN_WORD :: usize where
  "BITS_IN_WORD = 2 ^ LOG_BITS_IN_WORD"

definition bm_new :: "nat \<Rightarrow> bitmap" where
  "bm_new lh = \<lparr>bm_base = 0, bm_table = replicate (table_length lh) 0\<rparr>"

definition bm_bit_offset :: "nat \<Rightarrow> nat \<Rightarrow> usize \<Rightarrow> usize res" where
  "bm_bit_offset lh sc i =
     rbind (usub (LOG_UNITS lh) sc) (\<lambda>d.
     rbind (ushl 1 d) (\<lambda>b. uadd b i))"

definition bm_get :: "nat \<Rightarrow> bitmap \<Rightarrow> nat \<Rightarrow> usize \<Rightarrow> usize res" where
  "bm_get lh s sc i =
     rbind (bm_bit_offset lh sc i) (\<lambda>bit_offset.
     let shift = bit_offset AND (BITS_IN_WORD - 1) in
     rbind (idx (bm_table s) (drop_bit LOG_BITS_IN_WORD bit_offset)) (\<lambda>entry.
     Ok (unat (drop_bit shift entry AND 1))))"

definition bm_set :: "nat \<Rightarrow> bitmap \<Rightarrow> nat \<Rightarrow> usize \<Rightarrow> usize \<Rightarrow> bitmap res" where
  "bm_set lh s sc i v =
     rbind (bm_bit_offset lh sc i) (\<lambda>bit_offset.
     let shift = bit_offset AND (BITS_IN_WORD - 1) in
     rbind (idx (bm_table s) (drop_bit LOG_BITS_IN_WORD bit_offset)) (\<lambda>entry.
     let new_entry = push_bit shift (of_nat v) OR (entry AND NOT (push_bit shift 1)) in
     rbind (upd (bm_table s) (drop_bit LOG_BITS_IN_WORD bit_offset) new_entry) (\<lambda>t.
     Ok (s\<lparr>bm_table := t\<rparr>))))"

definition index_in_size_class :: "nat \<Rightarrow> usize \<Rightarrow> usize" where
  "index_in_size_class sc unit = drop_bit sc unit"

definition bm_get_unit :: "nat \<Rightarrow> bitmap \<Rightarrow> nat \<Rightarrow> usize \<Rightarrow> usize res" where
  "bm_get_unit lh s sc unit = bm_get lh s sc (index_in_size_class sc unit)"

definition bm_set_unit :: "nat \<Rightarrow> bitmap \<Rightarrow> nat \<Rightarrow> usize \<Rightarrow> usize \<Rightarrow> bitmap res" where
  "bm_set_unit lh s sc unit v = bm_set lh s sc (index_in_size_class sc unit) v"

definition bm_init :: "nat \<Rightarrow> bitmap \<Rightarrow> address \<Rightarrow> bitmap res" where
  "bm_init lh s base = bm_set_unit lh (s\<lparr>bm_base := base\<rparr>) (LOG_UNITS lh) 0 FREE"

definition bm_size_class :: "usize \<Rightarrow> nat res" where
  "bm_size_class units = rbind (next_power_of_two units) (\<lambda>p. Ok (trailing_zeros p))"

definition entries_in_size_class :: "nat \<Rightarrow> nat \<Rightarrow> usize res" where
  "entries_in_size_class lh sc = rbind (usub (LOG_UNITS lh) sc) (ushl 1)"

definition words_in_size_class :: "nat \<Rightarrow> nat \<Rightarrow> usize res" where
  "words_in_size_class lh sc =
     rbind (usub (LOG_UNITS lh) LOG_BITS_IN_WORD) (\<lambda>d. rbind (usub d sc) (ushl 1))"

definition sibling_unit :: "nat \<Rightarrow> usize \<Rightarrow> usize" where
  "sibling_unit sc unit = unit XOR 2 ^ sc"

definition parent_unit :: "nat \<Rightarrow> usize \<Rightarrow> usize" where
  "parent_unit sc unit = unit AND usize_not (2 ^ (sc + 1) - 1)"

text \<open>The two loops of \<^verbatim>\<open>search_and_allocate_cell\<close>: over the bits of one table word,
  and over the words (or, for the classes with less than one word of cells, the cells).\<close>

fun search_cells :: "nat \<Rightarrow> bitmap \<Rightarrow> nat \<Rightarrow> usize list \<Rightarrow> (bitmap \<times> usize option) res" where
  "search_cells lh s sc [] = Ok (s, None)"
| "search_cells lh s sc (i # is) =
     rbind (bm_get lh s sc i) (\<lambda>v.
     if v = FREE then
       rbind (bm_set lh s sc i USED) (\<lambda>s'.
       rbind (ushl i sc) (\<lambda>u. Ok (s', Some u)))
     else search_cells lh s sc is)"

fun search_words :: "nat \<Rightarrow> bitmap \<Rightarrow> nat \<Rightarrow> usize \<Rightarrow> usize list \<Rightarrow> (bitmap \<times> usize option) res" where
  "search_words lh s sc base [] = Ok (s, None)"
| "search_words lh s sc base (i # is) =
     rbind (idx (bm_table s) (base + i)) (\<lambda>w.
     if w \<noteq> 0 then
       rbind (search_cells lh s sc (map (\<lambda>j. push_bit LOG_BITS_IN_WORD i + j) [0..<BITS_IN_WORD])) (\<lambda>(s', r).
       case r of
         Some u \<Rightarrow> Ok (s', Some u)
       | None \<Rightarrow> search_words lh s sc base is)
     else search_words lh s sc base is)"

definition search_and_allocate_cell :: "nat \<Rightarrow> bitmap \<Rightarrow> nat \<Rightarrow> (bitmap \<times> usize option) res" where
  "search_and_allocate_cell lh s sc =
     rbind (usub (LOG_UNITS lh) LOG_BITS_IN_WORD) (\<lambda>d.
     if sc \<le> d then
       rbind (ushl 1 (d - sc)) (\<lambda>base.
       rbind (words_in_size_class lh sc) (\<lambda>words.
       search_words lh s sc base [0..<words]))
     else
       rbind (entries_in_size_class lh sc) (\<lambda>entries.
       search_cells lh s sc [0..<entries]))"

function acquire_cell :: "nat \<Rightarrow> bitmap \<Rightarrow> nat \<Rightarrow> (bitmap \<times> usize option) res" where
  "acquire_cell lh s sc =
     (if LOG_UNITS lh < sc then Ok (s, None)
      else
        rbind (search_and_allocate_cell lh s sc) (\<lambda>(s1, r).
        case r of
          Some cell \<Rightarrow> Ok (s1, Some cell)
        | None \<Rightarrow>
            rbind (acquire_cell lh s1 (sc + 1)) (\<lambda>(s2, p).
            case p of
              None \<Rightarrow> Ok (s2, None)
            | Some parent \<Rightarrow>
                rbind (bm_set_unit lh s2 (sc + 1) parent USED) (\<lambda>s3.
                rbind (uadd parent (2 ^ sc)) (\<lambda>child1.
                rbind (bm_set_unit lh s3 sc parent USED) (\<lambda>s4.
                rbind (bm_set_unit lh s4 sc child1 FREE) (\<lambda>s5.
                Ok (s5, Some parent))))))))"
  by pat_completeness auto
termination
  by (relation "measure (\<lambda>(lh, s, sc). Suc (LOG_UNITS lh) - sc)") auto

declare acquire_cell.simps [simp del]

function bm_release_cell :: "nat \<Rightarrow> bitmap \<Rightarrow> nat \<Rightarrow> usize \<Rightarrow> bitmap res" where
  "bm_release_cell lh s sc unit =
     rbind (bm_get_unit lh s sc unit) (\<lambda>v.
     rbind (rassert (v = USED)) (\<lambda>_.
     rbind (bm_set_unit lh s sc unit FREE) (\<lambda>s1.
     if sc < LOG_UNITS lh then
       (let sibling = sibling_unit sc unit in
        rbind (bm_get_unit lh s1 sc sibling) (\<lambda>w.
        if w = FREE then
          rbind (bm_set_unit lh s1 sc unit USED) (\<lambda>s2.
          rbind (bm_set_unit lh s2 sc sibling USED) (\<lambda>s3.
          let parent = parent_unit sc unit in
          rbind (bm_get_unit lh s3 (sc + 1) parent) (\<lambda>q.
          rbind (rassert (q = USED)) (\<lambda>_.
          bm_release_cell lh s3 (sc + 1) parent))))
        else Ok s1))
     else Ok s1)))"
  by pat_completeness auto
termination
  by (relation "measure (\<lambda>(lh, s, sc, unit). LOG_UNITS lh - sc)") auto

declare bm_release_cell.simps [simp del]

lemma ushl_one_pos: "ushl (Suc 0) n = Ok c \<Longrightarrow> 0 < c"
  using pow_less_USIZE_LIMIT by (auto simp: ushl_Ok_iff)

function release_units_loop :: "nat \<Rightarrow> bitmap \<Rightarrow> usize \<Rightarrow> usize \<Rightarrow> usize \<Rightarrow> bitmap res" where
  "release_units_loop lh s start units limit =
     (if start < limit then
        rbind (bm_size_class units) (\<lambda>curr_size_class.
        rbind (ushl 1 curr_size_class) (\<lambda>c.
        rbind (if units = c then Ok curr_size_class else usub curr_size_class 1) (\<lambda>prev_size_class.
        let size_class = min prev_size_class (trailing_zeros start) in
        rbind (ushl 1 size_class) (\<lambda>size.
        rbind (uadd start size) (\<lambda>e.
        rbind (rassert (start AND (size - 1) = 0)) (\<lambda>_.
        rbind (rassert (e \<le> limit)) (\<lambda>_.
        rbind (bm_release_cell lh s size_class start) (\<lambda>s'.
        rbind (usub limit e) (\<lambda>units'.
        release_units_loop lh s' e units' limit)))))))))
      else Ok s)"
  by pat_completeness auto
termination
  by (relation "measure (\<lambda>(lh, s, start, units, limit). limit - start)")
    (auto simp: uadd_Ok_iff dest!: ushl_one_pos)

declare release_units_loop.simps [simp del]

definition release_units :: "nat \<Rightarrow> bitmap \<Rightarrow> usize \<Rightarrow> usize \<Rightarrow> bitmap res" where
  "release_units lh s start units =
     rbind (uadd start units) (\<lambda>limit. release_units_loop lh s start units limit)"

definition acquire_units :: "nat \<Rightarrow> bitmap \<Rightarrow> usize \<Rightarrow> (bitmap \<times> usize option) res" where
  "acquire_units lh s units =
     rbind (bm_size_class units) (\<lambda>sc.
     rbind (acquire_cell lh s sc) (\<lambda>(s1, r).
     case r of
       None \<Rightarrow> Ok (s1, None)
     | Some start \<Rightarrow>
         rbind (ushl 1 sc) (\<lambda>c.
         if units \<noteq> c then
           rbind (uadd start units) (\<lambda>free_start.
           rbind (usub c units) (\<lambda>free_units.
           rbind (release_units lh s1 free_start free_units) (\<lambda>s2.
           Ok (s2, Some start))))
         else Ok (s1, Some start))))"

definition bm_acquire :: "nat \<Rightarrow> page_size \<Rightarrow> bitmap \<Rightarrow> usize \<Rightarrow> (bitmap \<times> page \<times> page) res" where
  "bm_acquire lh S s pages =
     rbind (ushl pages (LOG_BYTES S - LOG_BYTES Size4K)) (\<lambda>small_pages.
     rbind (acquire_units lh s small_pages) (\<lambda>(s1, r).
     rbind (unwrap r) (\<lambda>unit.
     rbind (ushl unit (LOG_BYTES Size4K)) (\<lambda>off.
     rbind (uadd (bm_base s1) off) (\<lambda>addr.
     rbind (page_new S addr) (\<lambda>page.
     rbind (page_forward S page pages) (\<lambda>e.
     Ok (s1, page, e))))))))"

definition bm_release :: "nat \<Rightarrow> page_size \<Rightarrow> bitmap \<Rightarrow> page \<Rightarrow> page \<Rightarrow> bitmap res" where
  "bm_release lh S s p e =
     rbind (addr_diff (page_start p) (bm_base s)) (\<lambda>d.
     let start = drop_bit (LOG_BYTES Size4K) d in
     rbind (page_steps_between S p e) (\<lambda>n.
     rbind (unwrap n) (\<lambda>pages.
     rbind (ushl pages (LOG_BYTES S - LOG_BYTES Size4K)) (\<lambda>units.
     release_units lh s start units))))"

end
