(* ===== verification/Bitmap_Spec.thy ===== *)
theory Bitmap_Spec
  imports Bitmap_Alloc
begin

text \<open>
  Correctness of the bitmap buddy allocator. A free cell is a pair of a size class and an
  index; \<open>free_units\<close> is the set of units the free cells cover. The invariant \<open>bm_inv\<close> says
  that free cells do not overlap and that no two siblings are free at once, so the bitmap is
  the coarsest description of the set of free units. \<open>acquire_cell\<close> then takes exactly one
  aligned block out of that set and fails only when no aligned block is left, and
  \<open>release_units\<close> puts exactly its range back.
\<close>

section \<open>The bits of the table\<close>

definition bm_wf :: "nat \<Rightarrow> bitmap \<Rightarrow> bool" where
  "bm_wf lh s \<longleftrightarrow> 18 \<le> lh \<and> lh < 64 \<and> length (bm_table s) = table_length lh"

definition tbit :: "bitmap \<Rightarrow> nat \<Rightarrow> bool" where
  "tbit s n \<longleftrightarrow> bit (bm_table s ! (n div 64)) (n mod 64)"

definition cell_ok :: "nat \<Rightarrow> nat \<Rightarrow> nat \<Rightarrow> bool" where
  "cell_ok lh sc i \<longleftrightarrow> sc \<le> LOG_UNITS lh \<and> i < 2 ^ (LOG_UNITS lh - sc)"

definition cells :: "nat \<Rightarrow> bitmap \<Rightarrow> (nat \<times> nat) set" where
  "cells lh s = {(sc, i). cell_ok lh sc i \<and> tbit s (2 ^ (LOG_UNITS lh - sc) + i)}"

lemma LOG_BITS_IN_WORD_simp [simp]: "LOG_BITS_IN_WORD = 6"
  by (simp add: LOG_BITS_IN_WORD_def trailing_zeros.simps)

lemma BITS_IN_WORD_simp [simp]: "BITS_IN_WORD = 64"
  by (simp add: BITS_IN_WORD_def)

lemma LOG_UNITS_bounds: "bm_wf lh s \<Longrightarrow> 6 \<le> LOG_UNITS lh \<and> LOG_UNITS lh < 52"
  by (auto simp: bm_wf_def LOG_UNITS_def)

lemma table_length_eq: "18 \<le> lh \<Longrightarrow> table_length lh = 2 ^ (LOG_UNITS lh - 2)"
  using pow_split [of 2 "LOG_UNITS lh"] by (simp add: table_length_def LOG_UNITS_def)

lemma node_less:
  assumes "cell_ok lh sc i"
  shows "2 ^ (LOG_UNITS lh - sc) + i < 2 * 2 ^ LOG_UNITS lh"
proof -
  have "(2::nat) ^ (LOG_UNITS lh - sc) \<le> 2 ^ LOG_UNITS lh" by (rule power_increasing) auto
  then show ?thesis using assms unfolding cell_ok_def by linarith
qed

lemma node_index:
  assumes "bm_wf lh s" and "n < 2 * 2 ^ LOG_UNITS lh"
  shows "n div 64 < length (bm_table s)"
proof -
  have "2 \<le> LOG_UNITS lh" using LOG_UNITS_bounds [OF assms(1)] by simp
  then have "(2::nat) ^ LOG_UNITS lh = 2 ^ (LOG_UNITS lh - 2) * 2 ^ 2" by (rule pow_split)
  then have "n < 8 * 2 ^ (LOG_UNITS lh - 2)" using assms(2) by simp
  then have "n div 64 < 2 ^ (LOG_UNITS lh - 2)" by linarith
  then show ?thesis using assms(1) by (simp add: bm_wf_def table_length_eq)
qed

lemma node_inj:
  assumes "cell_ok lh sc i" and "cell_ok lh sc' i'"
    and "2 ^ (LOG_UNITS lh - sc) + i = 2 ^ (LOG_UNITS lh - sc') + i'"
  shows "sc = sc' \<and> i = i'"
proof -
  have *: "j \<le> k" if "(2::nat) ^ j + a = 2 ^ k + b" "a < 2 ^ j" "b < 2 ^ k" for a b j k
  proof (rule ccontr)
    assume "\<not> j \<le> k"
    then have "(2::nat) ^ Suc k \<le> 2 ^ j" by (intro power_increasing) auto
    then show False using that by simp
  qed
  have "LOG_UNITS lh - sc = LOG_UNITS lh - sc'"
    using * [OF assms(3)] * [OF assms(3) [symmetric]] assms(1,2) by (simp add: cell_ok_def)
  moreover have "sc \<le> LOG_UNITS lh" "sc' \<le> LOG_UNITS lh" using assms by (auto simp: cell_ok_def)
  ultimately show ?thesis using assms(3) by simp
qed

lemma bm_bit_offset_Ok:
  assumes "bm_wf lh s" and "cell_ok lh sc i"
  shows "bm_bit_offset lh sc i = Ok (2 ^ (LOG_UNITS lh - sc) + i)"
proof -
  have "LOG_UNITS lh < 52" using LOG_UNITS_bounds [OF assms(1)] by simp
  then have "(2::nat) * 2 ^ LOG_UNITS lh < 2 * 2 ^ 52"
    by (intro mult_strict_left_mono power_strict_increasing) auto
  also have "\<dots> \<le> USIZE_LIMIT" by (simp add: USIZE_LIMIT_def)
  finally show ?thesis
    using assms(2) node_less [OF assms(2)] \<open>LOG_UNITS lh < 52\<close>
    by (simp add: bm_bit_offset_def cell_ok_def)
qed

lemma and_63: "n AND 63 = n mod (64::nat)"
  using and_mask_eq_mod [of n 6] by simp

lemma drop_bit_6: "drop_bit 6 n = n div (64::nat)"
  by (simp add: drop_bit_eq_div)

lemma unat_bit: "unat (drop_bit k (w :: 64 word) AND 1) = of_bool (bit w k)"
  by (simp add: and_one_eq bit_iff_odd_drop_bit mod2_eq_if)

lemma bm_get_Ok:
  assumes "bm_wf lh s" and "cell_ok lh sc i"
  shows "bm_get lh s sc i = Ok (of_bool ((sc, i) \<in> cells lh s))"
  using node_index [OF assms(1) node_less [OF assms(2)]] assms(2)
  by (simp add: bm_get_def bm_bit_offset_Ok [OF assms] and_63 drop_bit_6 unat_bit cells_def tbit_def)

lemma bit_set_entry:
  assumes "k < 64" "v \<le> 1" "m < 64"
  shows "bit (push_bit k (of_nat v) OR (w AND NOT (push_bit k 1)) :: 64 word) m
    \<longleftrightarrow> (if m = k then v = 1 else bit w m)"
proof -
  have "v = 0 \<or> v = 1" using assms(2) by auto
  then show ?thesis using assms
    by (auto simp: bit_simps push_bit_eq_mult)
qed

definition bm_put :: "nat \<Rightarrow> bitmap \<Rightarrow> nat \<Rightarrow> nat \<Rightarrow> bool \<Rightarrow> bitmap" where
  "bm_put lh s sc i v =
     (let n = 2 ^ (LOG_UNITS lh - sc) + i; w = bm_table s ! (n div 64)
      in s\<lparr>bm_table := (bm_table s)[n div 64 :=
           push_bit (n mod 64) (of_bool v) OR (w AND NOT (push_bit (n mod 64) 1))]\<rparr>)"

lemma bm_set_Ok:
  assumes "bm_wf lh s" and "cell_ok lh sc i"
  shows "bm_set lh s sc i (of_bool v) = Ok (bm_put lh s sc i v)"
  using node_index [OF assms(1) node_less [OF assms(2)]] assms(2)
  by (simp add: bm_set_def bm_bit_offset_Ok [OF assms] and_63 drop_bit_6 bm_put_def Let_def)

lemma bm_put_wf [simp]: "bm_wf lh (bm_put lh s sc i v) = bm_wf lh s"
  by (simp add: bm_wf_def bm_put_def Let_def)

lemma bm_put_base [simp]: "bm_base (bm_put lh s sc i v) = bm_base s"
  by (simp add: bm_put_def Let_def)

lemma tbit_put:
  assumes "bm_wf lh s" and "cell_ok lh sc i"
  shows "tbit (bm_put lh s sc i v) m
    \<longleftrightarrow> (if m = 2 ^ (LOG_UNITS lh - sc) + i then v else tbit s m)"
proof -
  let ?n = "2 ^ (LOG_UNITS lh - sc) + i"
  have n: "?n div 64 < length (bm_table s)" by (rule node_index [OF assms(1) node_less [OF assms(2)]])
  show ?thesis
  proof (cases "m div 64 = ?n div 64")
    case True
    then have "m = ?n \<longleftrightarrow> m mod 64 = ?n mod 64" by (metis div_mult_mod_eq)
    moreover have "bit (push_bit (?n mod 64) (of_nat (of_bool v))
        OR (bm_table s ! (?n div 64) AND NOT (push_bit (?n mod 64) 1)) :: 64 word) (m mod 64)
      \<longleftrightarrow> (if m mod 64 = ?n mod 64 then of_bool v = (1::nat) else bit (bm_table s ! (?n div 64)) (m mod 64))"
      by (rule bit_set_entry) auto
    ultimately show ?thesis using True n by (simp add: tbit_def bm_put_def Let_def)
  next
    case False
    then have "m \<noteq> ?n" by auto
    with False show ?thesis by (simp add: tbit_def bm_put_def Let_def)
  qed
qed

lemma cells_put:
  assumes "bm_wf lh s" and "cell_ok lh sc i"
  shows "cells lh (bm_put lh s sc i v)
    = (if v then insert (sc, i) (cells lh s) else cells lh s - {(sc, i)})"
  using node_inj [of lh _ _ sc i] assms(2)
  by (auto simp: cells_def tbit_put [OF assms])

lemma cells_ok: "(sc, i) \<in> cells lh s \<Longrightarrow> cell_ok lh sc i"
  by (simp add: cells_def)

section \<open>Cells, units and the tree\<close>

definition cell_units :: "nat \<Rightarrow> nat \<Rightarrow> nat set" where
  "cell_units sc i = {i * 2 ^ sc ..< (i + 1) * 2 ^ sc}"

definition free_units :: "nat \<Rightarrow> bitmap \<Rightarrow> nat set" where
  "free_units lh s = (\<Union>(sc, i) \<in> cells lh s. cell_units sc i)"

definition buddy :: "nat \<Rightarrow> nat" where
  "buddy i = (if even i then i + 1 else i - 1)"

lemma mem_cell_units: "u \<in> cell_units sc i \<longleftrightarrow> u div 2 ^ sc = i"
proof
  assume "u \<in> cell_units sc i"
  then show "u div 2 ^ sc = i" by (intro div_nat_eqI) (auto simp: cell_units_def mult.commute)
next
  assume i: "u div 2 ^ sc = i"
  have "u = i * 2 ^ sc + u mod 2 ^ sc" unfolding i [symmetric] by (rule div_mult_mod_eq [symmetric])
  moreover have "u mod 2 ^ sc < 2 ^ sc" by simp
  ultimately show "u \<in> cell_units sc i"
    unfolding cell_units_def atLeastLessThan_iff add_mult_distrib by linarith
qed

lemma cell_units_ne [simp]: "cell_units sc i \<noteq> {}"
  by (simp add: cell_units_def)

lemma index_of_unit [simp]: "index_in_size_class sc (i * 2 ^ sc) = i"
  by (simp add: index_in_size_class_def drop_bit_eq_div)

lemma cell_units_split:
  "cell_units (Suc sc) p = cell_units sc (2 * p) \<union> cell_units sc (2 * p + 1)"
  by (auto simp: cell_units_def)

lemma cell_units_same_class: "cell_units sc i \<inter> cell_units sc j \<noteq> {} \<Longrightarrow> i = j"
  by (auto simp: mem_cell_units)

lemma cell_units_laminar:
  assumes "sc \<le> sc'" and "cell_units sc i \<inter> cell_units sc' i' \<noteq> {}"
  shows "cell_units sc i \<subseteq> cell_units sc' i'"
proof -
  obtain u where "u \<in> cell_units sc i" "u \<in> cell_units sc' i'" using assms(2) by blast
  then have "u div 2 ^ sc = i" "u div 2 ^ sc' = i'" by (simp_all add: mem_cell_units)
  moreover have "v div 2 ^ sc' = v div 2 ^ sc div 2 ^ (sc' - sc)" for v :: nat
    using assms(1) pow_split [of sc sc'] by (simp add: div_mult2_eq mult.commute)
  ultimately show ?thesis by (auto simp: mem_cell_units)
qed

lemma card_cell_units [simp]: "card (cell_units sc i) = 2 ^ sc"
  by (simp add: cell_units_def)

lemma buddy_units: "cell_units (Suc sc) (i div 2) = cell_units sc i \<union> cell_units sc (buddy i)"
proof (cases "even i")
  case True
  then have "2 * (i div 2) = i" by simp
  with True show ?thesis using cell_units_split [of sc "i div 2"] by (simp add: buddy_def)
next
  case False
  then have "2 * (i div 2) + 1 = i" "2 * (i div 2) = i - 1" by presburger+
  with False show ?thesis using cell_units_split [of sc "i div 2"] by (auto simp: buddy_def)
qed

lemma buddy_ne [simp]: "buddy i \<noteq> i"
  by (auto simp: buddy_def elim: oddE)

lemma buddy_buddy [simp]: "buddy (buddy i) = i"
  by (auto simp: buddy_def elim: oddE)

lemma cell_ok_parent: "cell_ok lh sc i \<Longrightarrow> sc < LOG_UNITS lh \<Longrightarrow> cell_ok lh (Suc sc) (i div 2)"
  using pow_split [of 1 "LOG_UNITS lh - sc"] by (auto simp: cell_ok_def)

lemma cell_ok_child:
  assumes "cell_ok lh (Suc sc) p"
  shows "cell_ok lh sc (2 * p)" and "cell_ok lh sc (2 * p + 1)"
  using pow_split [of 1 "LOG_UNITS lh - sc"] assms by (auto simp: cell_ok_def)

lemma cell_ok_buddy: "cell_ok lh sc i \<Longrightarrow> sc < LOG_UNITS lh \<Longrightarrow> cell_ok lh sc (buddy i)"
  using cell_ok_child [OF cell_ok_parent, of lh sc i]
  by (auto simp: buddy_def elim!: evenE oddE split: if_splits)

lemma sibling_unit_eq: "sibling_unit sc (i * 2 ^ sc) = buddy i * 2 ^ sc"
proof -
  have "sibling_unit sc (i * 2 ^ sc) = push_bit sc i XOR push_bit sc 1"
    by (simp add: sibling_unit_def push_bit_eq_mult)
  also have "\<dots> = push_bit sc (i XOR 1)" by (simp only: push_bit_xor)
  also have "i XOR 1 = buddy i"
    by (cases "even i") (simp_all add: buddy_def xor_one_eq del: One_nat_def)
  finally show ?thesis by (simp add: push_bit_eq_mult)
qed

lemma parent_unit_eq:
  assumes "i * 2 ^ sc < USIZE_LIMIT" and "sc < 64"
  shows "parent_unit sc (i * 2 ^ sc) = (i div 2) * 2 ^ Suc sc"
proof -
  have "parent_unit sc (i * 2 ^ sc) = i * 2 ^ sc - i * 2 ^ sc mod 2 ^ Suc sc"
    unfolding parent_unit_def Suc_eq_plus1 by (rule and_usize_not_mask) (use assms in auto)
  also have "\<dots> = i * 2 ^ sc div 2 ^ Suc sc * 2 ^ Suc sc" by (rule minus_mod_eq_div_mult)
  also have "i * 2 ^ sc div 2 ^ Suc sc = i div 2" by (simp add: mult.commute)
  finally show ?thesis .
qed

lemma cell_units_bound:
  assumes "cell_ok lh sc i"
  shows "cell_units sc i \<subseteq> {..< 2 ^ LOG_UNITS lh}"
proof -
  have "(i + 1) * 2 ^ sc \<le> 2 ^ (LOG_UNITS lh - sc) * 2 ^ sc"
    using assms by (intro mult_le_mono1) (simp add: cell_ok_def)
  also have "\<dots> = 2 ^ LOG_UNITS lh" using assms pow_split [of sc "LOG_UNITS lh"] by (simp add: cell_ok_def)
  finally show ?thesis by (auto simp: cell_units_def)
qed

lemma free_units_bound: "free_units lh s \<subseteq> {..< 2 ^ LOG_UNITS lh}"
  using cell_units_bound cells_ok by (fastforce simp: free_units_def)

lemma unit_bound: "cell_ok lh sc i \<Longrightarrow> i * 2 ^ sc < 2 ^ LOG_UNITS lh"
  using cell_units_bound [of lh sc i] by (auto simp: cell_units_def subset_iff)

lemma pow_LOG_UNITS_less: "bm_wf lh s \<Longrightarrow> 2 ^ LOG_UNITS lh < USIZE_LIMIT div 2 ^ 12"
proof -
  assume "bm_wf lh s"
  then have "(2::nat) ^ LOG_UNITS lh < 2 ^ 52"
    using LOG_UNITS_bounds by (intro power_strict_increasing) auto
  then show ?thesis by (simp add: USIZE_LIMIT_def)
qed

lemma unit_usize: "bm_wf lh s \<Longrightarrow> u \<le> 2 ^ LOG_UNITS lh \<Longrightarrow> u < USIZE_LIMIT"
  using pow_LOG_UNITS_less [of lh s] by (simp add: USIZE_LIMIT_def)

lemma cell_ok_class: "bm_wf lh s \<Longrightarrow> cell_ok lh sc i \<Longrightarrow> sc < 64"
  using LOG_UNITS_bounds [of lh s] by (auto simp: cell_ok_def)

section \<open>The search\<close>

definition take_first :: "nat \<Rightarrow> bitmap \<Rightarrow> nat \<Rightarrow> nat list \<Rightarrow> (bitmap \<times> usize option) res" where
  "take_first lh s sc is =
     (case find (\<lambda>i. (sc, i) \<in> cells lh s) is of
        None \<Rightarrow> Ok (s, None)
      | Some i \<Rightarrow> Ok (bm_put lh s sc i False, Some (i * 2 ^ sc)))"

lemma search_cells_eq:
  assumes "bm_wf lh s" and "\<forall>i \<in> set is. cell_ok lh sc i"
  shows "search_cells lh s sc is = take_first lh s sc is"
  using assms(2)
proof (induction "is")
  case (Cons i "is")
  then have ok: "cell_ok lh sc i" by simp
  have "ushl i sc = Ok (i * 2 ^ sc)"
    using ok cell_ok_class [OF assms(1) ok] unit_usize [OF assms(1)] unit_bound [OF ok] by simp
  moreover have "bm_set lh s sc i USED = Ok (bm_put lh s sc i False)"
    using bm_set_Ok [OF assms(1) ok, of False] by (simp add: USED_def)
  ultimately show ?case
    using Cons by (simp add: take_first_def bm_get_Ok [OF assms(1) ok] FREE_def)
qed (simp add: take_first_def)

lemma find_append: "find P (xs @ ys) = (case find P xs of None \<Rightarrow> find P ys | Some x \<Rightarrow> Some x)"
  by (induction xs) auto

lemma take_first_found:
  assumes "\<exists>i \<in> set xs. (sc, i) \<in> cells lh s"
  obtains i where "i \<in> set xs" and "(sc, i) \<in> cells lh s"
    and "find (\<lambda>i. (sc, i) \<in> cells lh s) xs = Some i"
    and "take_first lh s sc xs = Ok (bm_put lh s sc i False, Some (i * 2 ^ sc))"
proof -
  obtain i where i: "find (\<lambda>i. (sc, i) \<in> cells lh s) xs = Some i"
    using assms by (cases "find (\<lambda>i. (sc, i) \<in> cells lh s) xs") (auto simp: find_None_iff)
  then have "i \<in> set xs" "(sc, i) \<in> cells lh s" by (auto simp: find_Some_iff)
  with i show ?thesis using that by (simp add: take_first_def)
qed

lemma take_first_none:
  assumes "\<not> (\<exists>i \<in> set xs. (sc, i) \<in> cells lh s)"
  shows "find (\<lambda>i. (sc, i) \<in> cells lh s) xs = None" and "take_first lh s sc xs = Ok (s, None)"
proof -
  show "find (\<lambda>i. (sc, i) \<in> cells lh s) xs = None" using assms by (auto simp: find_None_iff)
  then show "take_first lh s sc xs = Ok (s, None)" by (simp add: take_first_def)
qed

lemma take_first_append:
  "take_first lh s sc (xs @ ys) =
     (if \<exists>i \<in> set xs. (sc, i) \<in> cells lh s then take_first lh s sc xs else take_first lh s sc ys)"
proof (cases "\<exists>i \<in> set xs. (sc, i) \<in> cells lh s")
  case True
  then show ?thesis by (elim take_first_found) (auto simp: take_first_def find_append)
next
  case False
  then show ?thesis by (simp add: take_first_def find_append take_first_none(1) [OF False])
qed

abbreviation word_cells :: "nat \<Rightarrow> nat list" where
  "word_cells i \<equiv> map (\<lambda>j. 64 * i + j) [0..<64]"

lemma bex_word_cells: "(\<exists>k \<in> set (word_cells i). P k) \<longleftrightarrow> (\<exists>j < 64. P (64 * i + j))"
  unfolding set_map set_upt bex_simps by (auto simp: Bex_def)

lemma concat_word_cells: "concat (map word_cells [0..<n]) = [0..<64 * n]"
proof (induction n)
  case (Suc n)
  have "word_cells n = [64 * n..<64 * n + 64]" by (rule nth_equalityI) auto
  then show ?case using Suc upt_add_eq_append [of 0 "64 * n" 64] by (simp add: add.commute)
qed simp

lemma word_zero_iff:
  assumes "bm_wf lh s" and "sc + 6 \<le> LOG_UNITS lh" and "i < 2 ^ (LOG_UNITS lh - (6 + sc))"
  shows "bm_table s ! (2 ^ (LOG_UNITS lh - (6 + sc)) + i) \<noteq> 0
    \<longleftrightarrow> (\<exists>k \<in> set (word_cells i). (sc, k) \<in> cells lh s)"
proof -
  have p: "(2::nat) ^ (LOG_UNITS lh - sc) = 64 * 2 ^ (LOG_UNITS lh - (6 + sc))"
    using pow_split [of 6 "LOG_UNITS lh - sc"] assms(2) by (simp add: add.commute)
  have "cell_ok lh sc (64 * i + j)" if "j < 64" for j
    using assms that p by (simp add: cell_ok_def)
  moreover have "(64 * b + (64 * i + j)) div 64 = b + i" "(64 * b + (64 * i + j)) mod 64 = j"
    if "j < 64" for b j :: nat using that by simp_all
  ultimately have "(sc, 64 * i + j) \<in> cells lh s
      \<longleftrightarrow> bit (bm_table s ! (2 ^ (LOG_UNITS lh - (6 + sc)) + i)) j" if "j < 64" for j
    using that by (simp add: cells_def tbit_def p)
  then show ?thesis unfolding bex_word_cells
    by (auto simp: bit_eq_iff [of _ "0 :: 64 word"] dest: bit_imp_le_length)
qed

lemma search_words_eq:
  assumes "bm_wf lh s" and "sc + 6 \<le> LOG_UNITS lh"
    and "\<forall>i \<in> set is. i < 2 ^ (LOG_UNITS lh - (6 + sc))"
  shows "search_words lh s sc (2 ^ (LOG_UNITS lh - (6 + sc))) is
    = take_first lh s sc (concat (map word_cells is))"
  using assms(3)
proof (induction "is")
  case (Cons i "is")
  let ?b = "(2::nat) ^ (LOG_UNITS lh - (6 + sc))"
  have p: "(2::nat) ^ (LOG_UNITS lh - sc) = 64 * ?b"
    using pow_split [of 6 "LOG_UNITS lh - sc"] assms(2) by (simp add: add.commute)
  have i: "i < ?b" using Cons.prems by simp
  have ok: "\<forall>k \<in> set (word_cells i). cell_ok lh sc k" using i p assms(2) by (auto simp: cell_ok_def)
  have "?b + i < length (bm_table s)"
    using node_index [OF assms(1) node_less, of sc "64 * i"] ok by (simp add: p)
  moreover have "search_cells lh s sc (word_cells i) = take_first lh s sc (word_cells i)"
    by (rule search_cells_eq [OF assms(1) ok])
  ultimately have step: "search_words lh s sc ?b (i # is) =
      (if \<exists>k \<in> set (word_cells i). (sc, k) \<in> cells lh s
       then rbind (take_first lh s sc (word_cells i)) (\<lambda>(s', r).
         case r of Some u \<Rightarrow> Ok (s', Some u) | None \<Rightarrow> search_words lh s sc ?b is)
       else search_words lh s sc ?b is)"
    using word_zero_iff [OF assms(1,2) i] by (simp add: push_bit_eq_mult mult.commute)
  show ?case
  proof (cases "\<exists>k \<in> set (word_cells i). (sc, k) \<in> cells lh s")
    case True
    from True obtain s' u where "take_first lh s sc (word_cells i) = Ok (s', Some u)"
      by (rule take_first_found)
    with True step show ?thesis by (simp only: list.map concat.simps take_first_append) simp
  next
    case False
    with step Cons show ?thesis by (simp only: list.map concat.simps take_first_append) simp
  qed
qed (simp add: take_first_def)

lemma search_eq:
  assumes "bm_wf lh s" and "sc \<le> LOG_UNITS lh"
  shows "search_and_allocate_cell lh s sc = take_first lh s sc [0..<2 ^ (LOG_UNITS lh - sc)]"
proof (cases "sc + 6 \<le> LOG_UNITS lh")
  case True
  then have "(2::nat) ^ (LOG_UNITS lh - sc) = 64 * 2 ^ (LOG_UNITS lh - (6 + sc))"
    using pow_split [of 6 "LOG_UNITS lh - sc"] by (simp add: add.commute)
  moreover have "LOG_UNITS lh < 52" "sc \<le> LOG_UNITS lh - 6"
    using LOG_UNITS_bounds [OF assms(1)] True by simp_all
  ultimately show ?thesis
    using True search_words_eq [OF assms(1) True, of "[0..<2 ^ (LOG_UNITS lh - (6 + sc))]"]
    by (simp add: search_and_allocate_cell_def words_in_size_class_def concat_word_cells)
next
  case False
  moreover have "\<not> sc \<le> LOG_UNITS lh - 6" using False LOG_UNITS_bounds [OF assms(1)] by linarith
  moreover have "6 \<le> LOG_UNITS lh" "LOG_UNITS lh < 52" using LOG_UNITS_bounds [OF assms(1)] by simp_all
  ultimately show ?thesis
    using assms by (simp add: search_and_allocate_cell_def entries_in_size_class_def search_cells_eq cell_ok_def)
qed

section \<open>The invariant\<close>

definition bm_inv :: "nat \<Rightarrow> bitmap \<Rightarrow> bool" where
  "bm_inv lh s \<longleftrightarrow> bm_wf lh s
    \<and> (\<forall>sc i sc' i'. (sc, i) \<in> cells lh s \<longrightarrow> (sc', i') \<in> cells lh s \<longrightarrow> (sc, i) \<noteq> (sc', i')
         \<longrightarrow> cell_units sc i \<inter> cell_units sc' i' = {})
    \<and> (\<forall>sc i. (sc, i) \<in> cells lh s \<longrightarrow> sc < LOG_UNITS lh \<longrightarrow> (sc, buddy i) \<notin> cells lh s)"

lemma bm_inv_wf: "bm_inv lh s \<Longrightarrow> bm_wf lh s"
  by (simp add: bm_inv_def)

lemma bm_inv_disjoint:
  "bm_inv lh s \<Longrightarrow> (sc, i) \<in> cells lh s \<Longrightarrow> (sc', i') \<in> cells lh s \<Longrightarrow> (sc, i) \<noteq> (sc', i')
    \<Longrightarrow> cell_units sc i \<inter> cell_units sc' i' = {}"
  unfolding bm_inv_def by blast

lemma bm_inv_buddy:
  "bm_inv lh s \<Longrightarrow> (sc, i) \<in> cells lh s \<Longrightarrow> sc < LOG_UNITS lh \<Longrightarrow> (sc, buddy i) \<notin> cells lh s"
  unfolding bm_inv_def by blast

lemma cell_units_free: "(sc, i) \<in> cells lh s \<Longrightarrow> cell_units sc i \<subseteq> free_units lh s"
  by (auto simp: free_units_def)

lemma not_cell: "cell_units sc i \<inter> free_units lh s = {} \<Longrightarrow> (sc, i) \<notin> cells lh s"
  using cell_units_free cell_units_ne by fastforce

lemma free_units_remove:
  assumes "bm_inv lh s" and "(sc, i) \<in> cells lh s"
  shows "free_units lh (bm_put lh s sc i False) = free_units lh s - cell_units sc i"
proof -
  have c: "cells lh (bm_put lh s sc i False) = cells lh s - {(sc, i)}"
    using assms by (simp add: cells_put bm_inv_wf cells_ok)
  have "u \<notin> cell_units sc i" if "(k, j) \<in> cells lh s" "(k, j) \<noteq> (sc, i)" "u \<in> cell_units k j" for u k j
    using bm_inv_disjoint [OF assms(1) that(1) assms(2) that(2)] that(3) by blast
  then show ?thesis by (auto simp: free_units_def c)
qed

lemma free_units_insert:
  assumes "bm_wf lh s" and "cell_ok lh sc i"
  shows "free_units lh (bm_put lh s sc i True) = free_units lh s \<union> cell_units sc i"
  by (auto simp: free_units_def cells_put [OF assms])

lemma bm_inv_remove:
  assumes "bm_inv lh s" and "cell_ok lh sc i"
  shows "bm_inv lh (bm_put lh s sc i False)"
  using assms unfolding bm_inv_def by (auto simp: cells_put)

lemma bm_inv_insert:
  assumes "bm_inv lh s" and "cell_ok lh sc i" and "cell_units sc i \<inter> free_units lh s = {}"
    and "sc < LOG_UNITS lh \<longrightarrow> (sc, buddy i) \<notin> cells lh s"
  shows "bm_inv lh (bm_put lh s sc i True)"
proof -
  have c: "cells lh (bm_put lh s sc i True) = insert (sc, i) (cells lh s)"
    using assms by (simp add: cells_put bm_inv_wf)
  have d: "cell_units sc i \<inter> cell_units k j = {}" if "(k, j) \<in> cells lh s" for k j
    using cell_units_free [OF that] assms(3) by blast
  show ?thesis unfolding bm_inv_def c bm_put_wf
  proof (intro conjI allI impI)
    show "bm_wf lh s" using assms(1) by (rule bm_inv_wf)
  next
    fix a b a' b'
    assume "(a, b) \<in> insert (sc, i) (cells lh s)" "(a', b') \<in> insert (sc, i) (cells lh s)"
      and "(a, b) \<noteq> (a', b')"
    then show "cell_units a b \<inter> cell_units a' b' = {}"
      using d bm_inv_disjoint [OF assms(1), of a b a' b'] by (auto simp: Int_commute)
  next
    fix a b
    assume "(a, b) \<in> insert (sc, i) (cells lh s)" and "a < LOG_UNITS lh"
    then show "(a, buddy b) \<notin> insert (sc, i) (cells lh s)"
      using assms(4) bm_inv_buddy [OF assms(1)] by auto
  qed
qed

lemma put_absent:
  assumes "bm_wf lh s" and "cell_ok lh sc i" and "(sc, i) \<notin> cells lh s"
  shows "cells lh (bm_put lh s sc i False) = cells lh s"
  using assms by (simp add: cells_put)

lemma bm_inv_cong: "cells lh s' = cells lh s \<Longrightarrow> bm_wf lh s' \<Longrightarrow> bm_inv lh s \<Longrightarrow> bm_inv lh s'"
  by (simp add: bm_inv_def)

lemma free_units_cong: "cells lh s' = cells lh s \<Longrightarrow> free_units lh s' = free_units lh s"
  by (simp add: free_units_def)

lemma set_unit_Ok:
  assumes "bm_wf lh s" and "cell_ok lh sc i"
  shows "bm_set_unit lh s sc (i * 2 ^ sc) FREE = Ok (bm_put lh s sc i True)"
    and "bm_set_unit lh s sc (i * 2 ^ sc) USED = Ok (bm_put lh s sc i False)"
  using bm_set_Ok [OF assms, of True] bm_set_Ok [OF assms, of False]
  by (simp_all add: bm_set_unit_def FREE_def USED_def)

lemma get_unit_Ok:
  assumes "bm_wf lh s" and "cell_ok lh sc i"
  shows "bm_get_unit lh s sc (i * 2 ^ sc) = Ok (if (sc, i) \<in> cells lh s then FREE else USED)"
  by (simp add: bm_get_unit_def bm_get_Ok [OF assms] FREE_def USED_def)

section \<open>Free blocks are covered by one cell\<close>

lemma coalesced:
  assumes "bm_inv lh s"
  shows "cell_ok lh sc i \<Longrightarrow> cell_units sc i \<subseteq> free_units lh s
    \<Longrightarrow> \<exists>k j. (k, j) \<in> cells lh s \<and> sc \<le> k \<and> cell_units sc i \<subseteq> cell_units k j"
proof (induction sc arbitrary: i)
  case 0
  have "i \<in> cell_units 0 i" by (simp add: cell_units_def)
  with 0 obtain k j where kj: "(k, j) \<in> cells lh s" "i \<in> cell_units k j"
    by (auto simp: free_units_def)
  with \<open>i \<in> cell_units 0 i\<close> have "cell_units 0 i \<subseteq> cell_units k j"
    by (intro cell_units_laminar) auto
  with kj show ?case by auto
next
  case (Suc sc)
  note parts = cell_units_split [of sc i]
  obtain k j where kj: "(k, j) \<in> cells lh s" "sc \<le> k" "cell_units sc (2 * i) \<subseteq> cell_units k j"
    using Suc.IH [OF cell_ok_child(1) [OF Suc.prems(1)]] Suc.prems(2) parts by blast
  obtain k' j' where kj': "(k', j') \<in> cells lh s" "sc \<le> k'" "cell_units sc (2 * i + 1) \<subseteq> cell_units k' j'"
    using Suc.IH [OF cell_ok_child(2) [OF Suc.prems(1)]] Suc.prems(2) parts by blast
  have up: "cell_units (Suc sc) i \<subseteq> cell_units a b"
    if "sc < a" "cell_units sc c \<subseteq> cell_units a b" "c = 2 * i \<or> c = 2 * i + 1" for a b c
  proof (rule cell_units_laminar)
    show "Suc sc \<le> a" using that(1) by simp
    show "cell_units (Suc sc) i \<inter> cell_units a b \<noteq> {}"
      using that(2,3) parts cell_units_ne [of sc c] by blast
  qed
  have "sc < k \<or> sc < k'"
  proof (rule ccontr)
    assume "\<not> ?thesis"
    then have k: "k = sc" "k' = sc" using kj kj' by auto
    then have "j = 2 * i" "j' = 2 * i + 1"
      using kj kj' cell_units_ne [of sc] by (metis Int_absorb2 cell_units_same_class)+
    moreover have "sc < LOG_UNITS lh" using Suc.prems(1) by (simp add: cell_ok_def)
    ultimately show False
      using bm_inv_buddy [OF assms kj(1)] kj'(1) k by (simp add: buddy_def)
  qed
  then show ?case using up [of k "2 * i" j] up [of k' "2 * i + 1" j'] kj kj' by (metis Suc_leI)
qed

lemma subcell:
  assumes "(k, j) \<in> cells lh s" and "sc \<le> k"
  shows "cell_ok lh sc (j * 2 ^ (k - sc))" and "cell_units sc (j * 2 ^ (k - sc)) \<subseteq> cell_units k j"
proof -
  have p: "(2::nat) ^ k = 2 ^ (k - sc) * 2 ^ sc" using assms(2) by (rule pow_split)
  have "j * 2 ^ k \<in> cell_units sc (j * 2 ^ (k - sc))"
    unfolding mem_cell_units p mult.assoc [symmetric] by simp
  moreover have "j * 2 ^ k \<in> cell_units k j" by (simp add: mem_cell_units)
  ultimately have "j * 2 ^ k \<in> cell_units sc (j * 2 ^ (k - sc)) \<inter> cell_units k j" by blast
  then show sub: "cell_units sc (j * 2 ^ (k - sc)) \<subseteq> cell_units k j"
    by (intro cell_units_laminar [OF assms(2)]) blast
  have ok: "cell_ok lh k j" using assms(1) by (rule cells_ok)
  have "j * 2 ^ (k - sc) < 2 ^ (LOG_UNITS lh - k) * 2 ^ (k - sc)"
    using ok by (intro mult_strict_right_mono) (auto simp: cell_ok_def)
  also have "\<dots> = 2 ^ (LOG_UNITS lh - sc)"
    using ok assms(2) by (simp add: cell_ok_def flip: power_add)
  finally show "cell_ok lh sc (j * 2 ^ (k - sc))" using ok assms(2) by (simp add: cell_ok_def)
qed

lemma free_block_iff:
  assumes "bm_inv lh s"
  shows "(\<exists>i. cell_ok lh sc i \<and> cell_units sc i \<subseteq> free_units lh s)
    \<longleftrightarrow> (\<exists>k j. (k, j) \<in> cells lh s \<and> sc \<le> k)"
  using coalesced [OF assms, of sc] subcell cell_units_free by (meson subset_trans)

lemma bm_canonical:
  assumes "bm_inv lh s" and "bm_inv lh s'" and "free_units lh s \<subseteq> free_units lh s'"
    and "free_units lh s' \<subseteq> free_units lh s"
  shows "cells lh s \<subseteq> cells lh s'"
proof (clarify)
  fix sc i
  assume c: "(sc, i) \<in> cells lh s"
  then have "cell_units sc i \<subseteq> free_units lh s'" using cell_units_free assms(3) by blast
  then obtain k j where kj: "(k, j) \<in> cells lh s'" "sc \<le> k" "cell_units sc i \<subseteq> cell_units k j"
    using coalesced [OF assms(2) cells_ok [OF c]] by blast
  then have "cell_units k j \<subseteq> free_units lh s" using cell_units_free assms(4) by blast
  then obtain k' j' where kj': "(k', j') \<in> cells lh s" "k \<le> k'" "cell_units k j \<subseteq> cell_units k' j'"
    using coalesced [OF assms(1) cells_ok [OF kj(1)]] by blast
  have "(sc, i) = (k', j')"
    using bm_inv_disjoint [OF assms(1) c kj'(1)] kj(3) kj'(3) cell_units_ne [of sc i] by blast
  then have "sc = k" "cell_units sc i = cell_units k j" using kj kj' by auto
  then have "i = j" using cell_units_same_class [of sc i j] by auto
  with \<open>sc = k\<close> kj(1) show "(sc, i) \<in> cells lh s'" by simp
qed

section \<open>Acquiring and releasing cells\<close>

lemma acquire_cell_None:
  assumes "bm_wf lh s"
  shows "\<forall>k j. (k, j) \<in> cells lh s \<longrightarrow> k < sc \<Longrightarrow> acquire_cell lh s sc = Ok (s, None)"
proof (induction "Suc (LOG_UNITS lh) - sc" arbitrary: sc)
  case 0
  then show ?case by (simp add: acquire_cell.simps)
next
  case (Suc n)
  then have sc: "sc \<le> LOG_UNITS lh" by simp
  have "search_and_allocate_cell lh s sc = Ok (s, None)"
    unfolding search_eq [OF assms sc] by (rule take_first_none(2)) (use Suc.prems in auto)
  moreover have "acquire_cell lh s (sc + 1) = Ok (s, None)"
    using Suc by (intro Suc.hyps(1)) (auto simp: less_Suc_eq)
  ultimately show ?case using sc by (simp add: acquire_cell.simps [of lh s sc])
qed

definition took_cell :: "nat \<Rightarrow> bitmap \<Rightarrow> nat \<Rightarrow> nat \<Rightarrow> bitmap \<Rightarrow> bool" where
  "took_cell lh s sc i s' \<longleftrightarrow> bm_inv lh s' \<and> bm_base s' = bm_base s \<and> cell_ok lh sc i
    \<and> cell_units sc i \<subseteq> free_units lh s
    \<and> free_units lh s' = free_units lh s - cell_units sc i"

lemma split_cell:
  assumes s: "bm_inv lh s" and t: "took_cell lh s (Suc sc) p s2"
  shows "\<exists>s'. rbind (bm_set_unit lh s2 (sc + 1) (p * 2 ^ Suc sc) USED) (\<lambda>s3.
      rbind (uadd (p * 2 ^ Suc sc) (2 ^ sc)) (\<lambda>child1.
      rbind (bm_set_unit lh s3 sc (p * 2 ^ Suc sc) USED) (\<lambda>s4.
      rbind (bm_set_unit lh s4 sc child1 FREE) (\<lambda>s5.
      Ok (s5, Some (p * 2 ^ Suc sc)))))) = Ok (s', Some ((2 * p) * 2 ^ sc))
    \<and> took_cell lh s sc (2 * p) s'"
proof -
  have inv: "bm_inv lh s2" and okp: "cell_ok lh (Suc sc) p" using t by (auto simp: took_cell_def)
  note wf = bm_inv_wf [OF inv] and ok0 = cell_ok_child(1) [OF okp] and ok1 = cell_ok_child(2) [OF okp]
  note split = cell_units_split [of sc p]
  define s3 where "s3 = bm_put lh s2 (Suc sc) p False"
  define s4 where "s4 = bm_put lh s3 sc (2 * p) False"
  define s5 where "s5 = bm_put lh s4 sc (2 * p + 1) True"
  have gone: "cell_units (Suc sc) p \<inter> free_units lh s2 = {}" using t by (auto simp: took_cell_def)
  have n: "(Suc sc, p) \<notin> cells lh s2" "(sc, 2 * p) \<notin> cells lh s2" "(sc, 2 * p + 1) \<notin> cells lh s2"
    using gone split by (auto intro!: not_cell)
  have c3: "cells lh s3 = cells lh s2" unfolding s3_def by (rule put_absent [OF wf okp n(1)])
  have w3: "bm_wf lh s3" using wf by (simp add: s3_def)
  have c4: "cells lh s4 = cells lh s2" unfolding s4_def using put_absent [OF w3 ok0] n(2) c3 by simp
  have w4: "bm_wf lh s4" using w3 by (simp add: s4_def)
  have i4: "bm_inv lh s4" by (rule bm_inv_cong [OF c4 w4 inv])
  have f4: "free_units lh s4 = free_units lh s2" by (rule free_units_cong [OF c4])
  have "bm_inv lh s5" unfolding s5_def
    using gone split n(2) c4 f4 by (intro bm_inv_insert [OF i4 ok1]) (auto simp: buddy_def)
  moreover have "free_units lh s5 = free_units lh s2 \<union> cell_units sc (2 * p + 1)"
    unfolding s5_def using free_units_insert [OF w4 ok1] f4 by simp
  moreover have "cell_units sc (2 * p) \<inter> cell_units sc (2 * p + 1) = {}"
    by (auto simp: mem_cell_units)
  ultimately have "took_cell lh s sc (2 * p) s5"
    using t ok0 split unfolding took_cell_def by (auto simp: s5_def s4_def s3_def)
  moreover have "p * 2 ^ Suc sc = (2 * p) * 2 ^ sc" "p * 2 ^ Suc sc + 2 ^ sc = (2 * p + 1) * 2 ^ sc"
    by simp_all
  moreover have "(2 * p + 1) * 2 ^ sc < USIZE_LIMIT"
    using unit_usize [OF wf] unit_bound [OF ok1] by simp
  moreover have "bm_set_unit lh s2 (sc + 1) (p * 2 ^ Suc sc) USED = Ok s3"
    using set_unit_Ok(2) [OF wf okp] by (simp add: s3_def)
  moreover have "bm_set_unit lh s3 sc ((2 * p) * 2 ^ sc) USED = Ok s4"
    using set_unit_Ok(2) [OF w3 ok0] by (simp add: s4_def)
  moreover have "bm_set_unit lh s4 sc ((2 * p + 1) * 2 ^ sc) FREE = Ok s5"
    unfolding s5_def by (rule set_unit_Ok(1) [OF w4 ok1])
  ultimately show ?thesis by (metis rbind.simps(1) uadd_Ok)
qed

lemma acquire_cell_Some:
  assumes "bm_inv lh s"
  shows "(k, j) \<in> cells lh s \<Longrightarrow> sc \<le> k
    \<Longrightarrow> \<exists>s' i. acquire_cell lh s sc = Ok (s', Some (i * 2 ^ sc)) \<and> took_cell lh s sc i s'"
proof (induction "k - sc" arbitrary: sc rule: less_induct)
  case less
  note wf = bm_inv_wf [OF assms]
  have sc: "sc \<le> LOG_UNITS lh" using less.prems cells_ok by (fastforce simp: cell_ok_def)
  have mem: "i \<in> set [0..<2 ^ (LOG_UNITS lh - sc)]" if "(sc, i) \<in> cells lh s" for i
    using cells_ok [OF that] by (simp add: cell_ok_def)
  show ?case
  proof (cases "\<exists>i \<in> set [0..<2 ^ (LOG_UNITS lh - sc)]. (sc, i) \<in> cells lh s")
    case True
    then obtain i where i: "(sc, i) \<in> cells lh s"
      "search_and_allocate_cell lh s sc = Ok (bm_put lh s sc i False, Some (i * 2 ^ sc))"
      unfolding search_eq [OF wf sc] by (rule take_first_found)
    have "took_cell lh s sc i (bm_put lh s sc i False)"
      using bm_inv_remove [OF assms cells_ok [OF i(1)]] free_units_remove [OF assms i(1)]
        cells_ok [OF i(1)] cell_units_free [OF i(1)] by (simp add: took_cell_def)
    with i(2) sc show ?thesis by (auto simp: acquire_cell.simps [of lh s sc])
  next
    case False
    then have "(sc, j) \<notin> cells lh s" using mem by blast
    with less.prems have "sc < k" by (cases "sc = k") auto
    then obtain s2 p where p: "acquire_cell lh s (Suc sc) = Ok (s2, Some (p * 2 ^ Suc sc))"
        "took_cell lh s (Suc sc) p s2"
      using less.hyps [of "Suc sc"] less.prems(1) by (metis Suc_leI diff_less_mono2 lessI)
    have "search_and_allocate_cell lh s sc = Ok (s, None)"
      unfolding search_eq [OF wf sc] by (rule take_first_none(2) [OF False])
    with p(1) sc show ?thesis
      using split_cell [OF assms p(2)] by (auto simp: acquire_cell.simps [of lh s sc])
  qed
qed

text \<open>The two cases together, in terms of the set of free units only.\<close>

lemma acquire_cell_cases:
  assumes "bm_inv lh s"
  obtains (none) "acquire_cell lh s sc = Ok (s, None)"
      and "\<not> (\<exists>i. cell_ok lh sc i \<and> cell_units sc i \<subseteq> free_units lh s)"
  | (some) s' i where "acquire_cell lh s sc = Ok (s', Some (i * 2 ^ sc))" and "took_cell lh s sc i s'"
proof (cases "\<exists>k j. (k, j) \<in> cells lh s \<and> sc \<le> k")
  case True
  then show ?thesis using acquire_cell_Some [OF assms] some by blast
next
  case False
  then have "\<forall>k j. (k, j) \<in> cells lh s \<longrightarrow> k < sc" by (meson not_le)
  then show ?thesis
    using acquire_cell_None [OF bm_inv_wf [OF assms]] False none free_block_iff [OF assms, of sc] by blast
qed

text \<open>Merging: marking the cell free and then both buddies used leaves the set of free
  cells without the buddy, and the parent cell can be released next.\<close>

lemma merge_buddy:
  assumes inv: "bm_inv lh s" and ok: "cell_ok lh sc i" and d: "cell_units sc i \<inter> free_units lh s = {}"
    and sc: "sc < LOG_UNITS lh" and b: "(sc, buddy i) \<in> cells lh s"
    and s3: "s3 = bm_put lh (bm_put lh (bm_put lh s sc i True) sc i False) sc (buddy i) False"
  shows "bm_inv lh s3" and "free_units lh s3 = free_units lh s - cell_units sc (buddy i)"
    and "cell_units (Suc sc) (i div 2) \<inter> free_units lh s3 = {}"
proof -
  note wf = bm_inv_wf [OF inv] and okb = cell_ok_buddy [OF ok sc]
  have c3: "cells lh s3 = cells lh (bm_put lh s sc (buddy i) False)"
    using not_cell [OF d] wf ok okb by (auto simp: s3 cells_put)
  show "bm_inv lh s3"
    using wf by (intro bm_inv_cong [OF c3 _ bm_inv_remove [OF inv okb]]) (simp add: s3)
  show f3: "free_units lh s3 = free_units lh s - cell_units sc (buddy i)"
    using free_units_cong [OF c3] free_units_remove [OF inv b] by simp
  show "cell_units (Suc sc) (i div 2) \<inter> free_units lh s3 = {}"
    using d f3 by (auto simp: buddy_units)
qed

lemma release_cell_Ok:
  "bm_inv lh s \<Longrightarrow> cell_ok lh sc i \<Longrightarrow> cell_units sc i \<inter> free_units lh s = {} \<Longrightarrow>
    \<exists>s'. bm_release_cell lh s sc (i * 2 ^ sc) = Ok s' \<and> bm_inv lh s' \<and> bm_base s' = bm_base s
      \<and> free_units lh s' = free_units lh s \<union> cell_units sc i"
proof (induction "LOG_UNITS lh - sc" arbitrary: s sc i rule: less_induct)
  case less
  note wf = bm_inv_wf [OF less.prems(1)] and ok = less.prems(2)
  define s1 where "s1 = bm_put lh s sc i True"
  have w1: "bm_wf lh s1" and c1: "cells lh s1 = insert (sc, i) (cells lh s)"
    using wf cells_put [OF wf ok, of True] by (simp_all add: s1_def)
  have first: "bm_get_unit lh s sc (i * 2 ^ sc) = Ok USED" "bm_set_unit lh s sc (i * 2 ^ sc) FREE = Ok s1"
    using not_cell [OF less.prems(3)] get_unit_Ok [OF wf ok] set_unit_Ok(1) [OF wf ok]
    by (simp_all add: s1_def)
  show ?case
  proof (cases "sc < LOG_UNITS lh \<and> (sc, buddy i) \<in> cells lh s")
    case False
    then have "bm_inv lh s1" unfolding s1_def
      using less.prems by (intro bm_inv_insert) auto
    moreover have "bm_release_cell lh s sc (i * 2 ^ sc) = Ok s1"
      using False first c1 get_unit_Ok [OF w1 cell_ok_buddy [OF ok]]
      by (simp add: bm_release_cell.simps [of lh s sc] sibling_unit_eq USED_def FREE_def)
    ultimately show ?thesis using free_units_insert [OF wf ok] by (simp add: s1_def)
  next
    case True
    then have sc: "sc < LOG_UNITS lh" and b: "(sc, buddy i) \<in> cells lh s" by auto
    note okb = cell_ok_buddy [OF ok sc] and okp = cell_ok_parent [OF ok sc]
    define s2 where "s2 = bm_put lh s1 sc i False"
    define s3 where "s3 = bm_put lh s2 sc (buddy i) False"
    have w2: "bm_wf lh s2" "bm_wf lh s3" using w1 by (simp_all add: s2_def s3_def)
    note m = merge_buddy [OF less.prems sc b s3_def [unfolded s2_def s1_def]]
    have par: "parent_unit sc (i * 2 ^ sc) = (i div 2) * 2 ^ Suc sc"
      using unit_usize [OF wf] unit_bound [OF ok] cell_ok_class [OF wf ok] by (intro parent_unit_eq) auto
    obtain s' where s': "bm_release_cell lh s3 (Suc sc) ((i div 2) * 2 ^ Suc sc) = Ok s'" "bm_inv lh s'"
        "bm_base s' = bm_base s3" "free_units lh s' = free_units lh s3 \<union> cell_units (Suc sc) (i div 2)"
      using less.hyps [OF _ m(1) okp m(3)] sc by (auto simp: diff_less_mono2)
    have "bm_get_unit lh s3 (Suc sc) ((i div 2) * 2 ^ Suc sc) = Ok USED"
      using get_unit_Ok [OF w2(2) okp] not_cell [OF m(3)] by simp
    then have "bm_release_cell lh s sc (i * 2 ^ sc) = Ok s'"
      using sc b first c1 get_unit_Ok [OF w1 okb] set_unit_Ok(2) [OF w1 ok] set_unit_Ok(2) [OF w2(1) okb] s'(1)
      by (simp add: bm_release_cell.simps [of lh s sc] sibling_unit_eq par s2_def [symmetric] s3_def [symmetric]
          del: power_Suc)
    moreover have "free_units lh s' = free_units lh s \<union> cell_units sc i"
      using s'(4) m(2) cell_units_free [OF b] by (auto simp: buddy_units)
    ultimately show ?thesis using s' by (simp add: s3_def s2_def s1_def)
  qed
qed

section \<open>Ranges of units\<close>

lemma bm_size_class_Ok: "clog2 units < 64 \<Longrightarrow> bm_size_class units = Ok (clog2 units)"
  by (simp add: bm_size_class_def)

lemma prev_class:
  assumes "0 < units" and "clog2 units < 64"
  shows "\<exists>k. (if units = 2 ^ clog2 units then Ok (clog2 units) else usub (clog2 units) 1) = Ok k
    \<and> 2 ^ k \<le> units"
proof (cases "units = 2 ^ clog2 units")
  case False
  then have "1 < units" using assms(1) by (cases "units = 1") (auto simp: clog2.simps [of "Suc 0"])
  then have "1 \<le> clog2 units" by (simp add: clog2.simps [of units])
  moreover have "2 ^ (clog2 units - 1) \<le> units"
    using clog2_pow_less [OF \<open>1 < units\<close>] pow_split [of 1 "clog2 units"] \<open>1 \<le> clog2 units\<close> by simp
  ultimately show ?thesis using False by simp
qed auto

lemma aligned_start:
  assumes "k \<le> trailing_zeros start" and "k < 64"
  shows "\<exists>i. start = i * 2 ^ k"
proof (cases "start = 0")
  case False
  then have "2 ^ trailing_zeros start dvd start" by (rule trailing_zeros_dvd)
  then have "2 ^ k dvd start" using assms(1) by (meson dvd_trans le_imp_power_dvd)
  then show ?thesis by (metis dvd_div_mult_self)
qed auto

lemma release_choice:
  assumes wf: "bm_wf lh s" and "0 < units" and le: "start + units \<le> 2 ^ LOG_UNITS lh"
  obtains prev sc i where "clog2 units < 64"
    and "(if units = 2 ^ clog2 units then Ok (clog2 units) else usub (clog2 units) 1) = Ok prev"
    and "sc = min prev (trailing_zeros start)" and "2 ^ sc \<le> units" and "sc < 64"
    and "start = i * 2 ^ sc" and "cell_ok lh sc i" and "cell_units sc i = {start..<start + 2 ^ sc}"
proof -
  have lu: "LOG_UNITS lh < 52" using LOG_UNITS_bounds [OF wf] by simp
  have "clog2 units \<le> LOG_UNITS lh" using le by (intro clog2_least) simp
  then have c64: "clog2 units < 64" using lu by simp
  obtain prev where prev: "(if units = 2 ^ clog2 units then Ok (clog2 units)
      else usub (clog2 units) 1) = Ok prev" "2 ^ prev \<le> units"
    using prev_class [OF assms(2) c64] by auto
  define sc where "sc = min prev (trailing_zeros start)"
  have "(2::nat) ^ sc \<le> 2 ^ prev" by (rule power_increasing) (simp_all add: sc_def)
  then have size: "2 ^ sc \<le> units" using prev(2) by linarith
  have "(2::nat) ^ sc \<le> 2 ^ LOG_UNITS lh" using size le by linarith
  then have scl: "sc \<le> LOG_UNITS lh" by simp
  then obtain i where i: "start = i * 2 ^ sc"
    using aligned_start [of sc start] lu by (auto simp: sc_def)
  have "(i + 1) * 2 ^ sc \<le> 2 ^ (LOG_UNITS lh - sc) * 2 ^ sc"
    using size le i pow_split [OF scl] by simp
  then have "i + 1 \<le> 2 ^ (LOG_UNITS lh - sc)" by (rule mult_right_le_imp_le) simp
  then have ok: "cell_ok lh sc i" using scl by (simp add: cell_ok_def)
  have "cell_units sc i = {start..<start + 2 ^ sc}" by (auto simp: cell_units_def i)
  then show ?thesis using that [OF c64 prev(1) sc_def size _ i ok] lu scl by simp
qed

lemma release_units_loop_Ok:
  "bm_inv lh s \<Longrightarrow> start + units \<le> 2 ^ LOG_UNITS lh
    \<Longrightarrow> {start..<start + units} \<inter> free_units lh s = {} \<Longrightarrow>
    \<exists>s'. release_units_loop lh s start units (start + units) = Ok s' \<and> bm_inv lh s'
      \<and> bm_base s' = bm_base s \<and> free_units lh s' = free_units lh s \<union> {start..<start + units}"
proof (induction units arbitrary: s start rule: less_induct)
  case (less units)
  note wf = bm_inv_wf [OF less.prems(1)]
  show ?case
  proof (cases "units = 0")
    case True
    then show ?thesis using less.prems(1) by (simp add: release_units_loop.simps)
  next
    case False
    then obtain prev sc i where c: "clog2 units < 64"
      "(if units = 2 ^ clog2 units then Ok (clog2 units) else usub (clog2 units) 1) = Ok prev"
      "sc = min prev (trailing_zeros start)" "2 ^ sc \<le> units" "sc < 64"
      "start = i * 2 ^ sc" "cell_ok lh sc i" "cell_units sc i = {start..<start + 2 ^ sc}"
      using release_choice [OF wf _ less.prems(2)] by blast
    have "cell_units sc i \<inter> free_units lh s = {}" using less.prems(3) c(4) unfolding c(8) by fastforce
    then obtain s1 where s1: "bm_release_cell lh s sc start = Ok s1" "bm_inv lh s1" "bm_base s1 = bm_base s"
        "free_units lh s1 = free_units lh s \<union> {start..<start + 2 ^ sc}"
      using release_cell_Ok [OF less.prems(1) c(7)] unfolding c(6) [symmetric] c(8) by blast
    let ?rest = "units - 2 ^ sc"
    have rest: "start + 2 ^ sc + ?rest = start + units" using c(4) by simp
    have "{start + 2 ^ sc..<start + 2 ^ sc + ?rest} \<inter> free_units lh s1 = {}"
      unfolding rest s1(4) using less.prems(3) by (auto simp: disjoint_iff)
    then obtain s' where s': "release_units_loop lh s1 (start + 2 ^ sc) ?rest (start + units) = Ok s'"
        "bm_inv lh s'" "bm_base s' = bm_base s1"
        "free_units lh s' = free_units lh s1 \<union> {start + 2 ^ sc..<start + units}"
      using less.IH [of ?rest s1 "start + 2 ^ sc"] less.prems(2) s1(2) c(4) False unfolding rest by auto
    have "start + 2 ^ sc < USIZE_LIMIT" using unit_usize [OF wf] less.prems(2) c(4) by simp
    moreover have "start AND (2 ^ sc - 1) = 0" using and_mask_eq_mod [of start sc] c(6) by simp
    ultimately have "release_units_loop lh s start units (start + units) = Ok s'"
      using c(1,2,4,5) s1(1) s'(1) False
      by (subst release_units_loop.simps) (simp add: bm_size_class_Ok c(3) [symmetric] pow_less_USIZE_LIMIT)
    moreover have "free_units lh s' = free_units lh s \<union> {start..<start + units}"
      using s'(4) s1(4) c(4) by auto
    ultimately show ?thesis using s' s1 by simp
  qed
qed

lemma release_units_Ok:
  assumes "bm_inv lh s" and "start + units \<le> 2 ^ LOG_UNITS lh"
    and "{start..<start + units} \<inter> free_units lh s = {}"
  shows "\<exists>s'. release_units lh s start units = Ok s' \<and> bm_inv lh s' \<and> bm_base s' = bm_base s
      \<and> free_units lh s' = free_units lh s \<union> {start..<start + units}"
  using release_units_loop_Ok [OF assms] unit_usize [OF bm_inv_wf [OF assms(1)] assms(2)]
  by (simp add: release_units_def)

lemma acquire_units_cases:
  assumes inv: "bm_inv lh s" and "clog2 units < 64"
  obtains (none) "acquire_units lh s units = Ok (s, None)"
      and "\<not> (\<exists>i. cell_ok lh (clog2 units) i \<and> cell_units (clog2 units) i \<subseteq> free_units lh s)"
  | (some) s' start where "acquire_units lh s units = Ok (s', Some start)"
      and "bm_inv lh s'" and "bm_base s' = bm_base s" and "2 ^ clog2 units dvd start"
      and "start + units \<le> 2 ^ LOG_UNITS lh"
      and "{start..<start + units} \<subseteq> free_units lh s"
      and "free_units lh s' = free_units lh s - {start..<start + units}"
proof (cases rule: acquire_cell_cases [OF inv, of "clog2 units", case_names none' some'])
  case none'
  then show ?thesis using none assms(2) by (simp add: acquire_units_def bm_size_class_Ok)
next
  case (some' s1 i)
  let ?sc = "clog2 units" and ?start = "i * 2 ^ clog2 units"
  have t: "bm_inv lh s1" "bm_base s1 = bm_base s" "cell_ok lh ?sc i"
      "cell_units ?sc i \<subseteq> free_units lh s" "free_units lh s1 = free_units lh s - cell_units ?sc i"
    using some'(2) by (auto simp: took_cell_def)
  have cu: "cell_units ?sc i = {?start..<?start + 2 ^ ?sc}" by (auto simp: cell_units_def)
  have lu: "units \<le> 2 ^ ?sc" by (rule clog2_le_pow)
  have b: "?start + 2 ^ ?sc \<le> 2 ^ LOG_UNITS lh"
    using cell_units_bound [OF t(3)] unfolding cu by (simp add: lessThan_atLeast0)
  have e: "?start + units + (2 ^ ?sc - units) = ?start + 2 ^ ?sc" using lu by simp
  have "\<exists>s2. acquire_units lh s units = Ok (s2, Some ?start) \<and> bm_inv lh s2 \<and> bm_base s2 = bm_base s1
      \<and> free_units lh s2 = free_units lh s1 \<union> {?start + units..<?start + 2 ^ ?sc}"
  proof (cases "units = 2 ^ ?sc")
    case True
    then show ?thesis using some'(1) t(1) assms(2)
      by (auto simp: acquire_units_def bm_size_class_Ok pow_less_USIZE_LIMIT)
  next
    case False
    have "{?start + units..<?start + units + (2 ^ ?sc - units)} \<inter> free_units lh s1 = {}"
      unfolding e t(5) cu by auto
    then obtain s2 where "release_units lh s1 (?start + units) (2 ^ ?sc - units) = Ok s2" "bm_inv lh s2"
        "bm_base s2 = bm_base s1" "free_units lh s2 = free_units lh s1 \<union> {?start + units..<?start + 2 ^ ?sc}"
      using release_units_Ok [OF t(1)] b unfolding e [symmetric] by blast
    moreover have "?start + units < USIZE_LIMIT"
      using unit_usize [OF bm_inv_wf [OF inv] b] lu by simp
    ultimately show ?thesis using some'(1) False assms(2) lu
      by (simp add: acquire_units_def bm_size_class_Ok pow_less_USIZE_LIMIT)
  qed
  then obtain s2 where s2: "acquire_units lh s units = Ok (s2, Some ?start)" "bm_inv lh s2"
      "bm_base s2 = bm_base s1" "free_units lh s2 = free_units lh s1 \<union> {?start + units..<?start + 2 ^ ?sc}"
    by blast
  have "{?start..<?start + units} \<subseteq> free_units lh s"
    using t(4) lu unfolding cu by (auto simp: subset_iff)
  moreover have "free_units lh s2 = free_units lh s - {?start..<?start + units}"
    using t(4) lu unfolding s2(4) t(5) cu by (auto simp: subset_iff)
  moreover have "?start + units \<le> 2 ^ LOG_UNITS lh" using b lu by linarith
  ultimately show ?thesis using some [OF s2(1,2)] s2(3) t(2) by simp
qed

end
