(* ===== verification/Page_Ranges.thy ===== *)
theory Page_Ranges
  imports Bitmap_Spec
begin

text \<open>
  The contract of an allocator of page ranges, \<^verbatim>\<open>acquire::<S>(n)\<close> and
  \<^verbatim>\<open>release::<S>(range)\<close>, as a locale over the set of free addresses of a region, and what
  a client may conclude from it: along every sequence of calls the live ranges are disjoint
  and exactly the rest of the region is free. The bitmap allocator of
  \<^verbatim>\<open>libs/memory/src/bitmap_page_allocator.rs\<close> provides the contract.
\<close>

section \<open>Client runs\<close>

datatype range_op = Acquire page_size usize | Release nat

type_synonym live_range = "page_size \<times> page \<times> page"

definition lr_set :: "live_range \<Rightarrow> address set" where
  "lr_set r = (case r of (S, p, e) \<Rightarrow> {p..<e})"

fun range_step :: "(page_size \<Rightarrow> 's \<Rightarrow> usize \<Rightarrow> ('s \<times> page \<times> page) res)
    \<Rightarrow> (page_size \<Rightarrow> 's \<Rightarrow> page \<Rightarrow> page \<Rightarrow> 's res)
    \<Rightarrow> range_op \<Rightarrow> 's \<times> live_range list \<Rightarrow> ('s \<times> live_range list) res" where
  "range_step acq rel (Acquire S n) (s, live) =
     rbind (acq S s n) (\<lambda>(s', p, e). Ok (s', (S, p, e) # live))"
| "range_step acq rel (Release i) (s, live) =
     rbind (idx live i) (\<lambda>(S, p, e).
     rbind (rel S s p e) (\<lambda>s'. Ok (s', take i live @ drop (Suc i) live)))"

fun range_run :: "(page_size \<Rightarrow> 's \<Rightarrow> usize \<Rightarrow> ('s \<times> page \<times> page) res)
    \<Rightarrow> (page_size \<Rightarrow> 's \<Rightarrow> page \<Rightarrow> page \<Rightarrow> 's res)
    \<Rightarrow> range_op list \<Rightarrow> 's \<times> live_range list \<Rightarrow> ('s \<times> live_range list) res" where
  "range_run acq rel [] st = Ok st"
| "range_run acq rel (c # cs) st = rbind (range_step acq rel c st) (range_run acq rel cs)"

fun range_op_ok :: "range_op \<Rightarrow> bool" where
  "range_op_ok (Acquire S n) \<longleftrightarrow> 0 < n \<and> n * BYTES S < USIZE_LIMIT"
| "range_op_ok (Release i) \<longleftrightarrow> True"

definition lr_ok :: "address set \<Rightarrow> live_range \<Rightarrow> bool" where
  "lr_ok region r \<longleftrightarrow> (case r of (S, p, e) \<Rightarrow>
     BYTES S dvd p \<and> (\<exists>n > 0. e = p + n * BYTES S) \<and> {p..<e} \<subseteq> region)"

definition live_ok :: "('s \<Rightarrow> bool) \<Rightarrow> ('s \<Rightarrow> address set) \<Rightarrow> address set \<Rightarrow> 's \<times> live_range list \<Rightarrow> bool" where
  "live_ok invar free region st \<longleftrightarrow> (case st of (s, live) \<Rightarrow>
     invar s \<and> apart (map lr_set live) \<and> (\<forall>r \<in> set live. lr_ok region r)
     \<and> free s = region - \<Union> (lr_set ` set live))"

section \<open>The contract\<close>

locale page_range_allocator =
  fixes acquire :: "page_size \<Rightarrow> 's \<Rightarrow> usize \<Rightarrow> ('s \<times> page \<times> page) res"
    and release :: "page_size \<Rightarrow> 's \<Rightarrow> page \<Rightarrow> page \<Rightarrow> 's res"
    and invar :: "'s \<Rightarrow> bool"
    and free :: "'s \<Rightarrow> address set"
    and region :: "address set"
  assumes free_in_region: "invar s \<Longrightarrow> free s \<subseteq> region"
    and acquire_cases: "invar s \<Longrightarrow> 0 < n \<Longrightarrow> n * BYTES S < USIZE_LIMIT \<Longrightarrow>
      acquire S s n = Panic UnwrapNone \<or>
      (\<exists>s' p. acquire S s n = Ok (s', p, p + n * BYTES S) \<and> invar s' \<and> BYTES S dvd p
        \<and> {p..<p + n * BYTES S} \<subseteq> free s \<and> free s' = free s - {p..<p + n * BYTES S})"
    and release_Ok: "invar s \<Longrightarrow> BYTES S dvd p \<Longrightarrow> 0 < n \<Longrightarrow> {p..<p + n * BYTES S} \<subseteq> region
      \<Longrightarrow> {p..<p + n * BYTES S} \<inter> free s = {} \<Longrightarrow>
      \<exists>s'. release S s p (p + n * BYTES S) = Ok s' \<and> invar s' \<and> free s' = free s \<union> {p..<p + n * BYTES S}"
begin

abbreviation ok :: "'s \<times> live_range list \<Rightarrow> bool" where
  "ok \<equiv> live_ok invar free region"

lemma acquire_step:
  assumes "ok (s, live)" and "0 < n" and "n * BYTES S < USIZE_LIMIT"
  shows "acquire S s n = Panic UnwrapNone
    \<or> (\<exists>s' p e. acquire S s n = Ok (s', p, e) \<and> ok (s', (S, p, e) # live))"
proof -
  have invar: "invar s" and ap: "apart (map lr_set live)" and lr: "\<forall>r \<in> set live. lr_ok region r"
    and fr: "free s = region - \<Union> (lr_set ` set live)"
    using assms(1) by (auto simp: live_ok_def)
  from acquire_cases [OF invar assms(2,3)] show ?thesis
  proof (elim disjE exE conjE)
    fix s' p
    assume a: "acquire S s n = Ok (s', p, p + n * BYTES S)" "invar s'" "BYTES S dvd p"
      "{p..<p + n * BYTES S} \<subseteq> free s" "free s' = free s - {p..<p + n * BYTES S}"
    let ?r = "(S, p, p + n * BYTES S)"
    have "apart (map lr_set (?r # live))" using ap a(4) fr by (auto simp: lr_set_def)
    moreover have "lr_ok region ?r" using a(3,4) assms(2) fr by (auto simp: lr_ok_def)
    moreover have "free s' = region - \<Union> (lr_set ` set (?r # live))"
      using a(5) fr by (auto simp: lr_set_def)
    ultimately have "ok (s', ?r # live)" using a(2) lr by (simp add: live_ok_def)
    with a(1) show ?thesis by blast
  qed simp
qed

lemma release_step:
  assumes "ok (s, live)" and "i < length live" and i: "live ! i = (S, p, e)"
  shows "\<exists>s'. release S s p e = Ok s' \<and> ok (s', take i live @ drop (Suc i) live)"
proof -
  have invar: "invar s" and ap: "apart (map lr_set live)" and lr: "\<forall>r \<in> set live. lr_ok region r"
    and fr: "free s = region - \<Union> (lr_set ` set live)"
    using assms(1) by (auto simp: live_ok_def)
  let ?rest = "take i live @ drop (Suc i) live"
  have ap': "apart (map lr_set ?rest)" and dj: "\<forall>r \<in> set ?rest. {p..<e} \<inter> lr_set r = {}"
    and sub: "set live = insert (S, p, e) (set ?rest)"
    using apart_remove [OF ap assms(2)] by (auto simp: i lr_set_def)
  have "lr_ok region (S, p, e)" using lr sub by blast
  then obtain n where e: "e = p + n * BYTES S" "0 < n" and rg: "BYTES S dvd p" "{p..<e} \<subseteq> region"
    by (auto simp: lr_ok_def)
  have "{p..<e} \<inter> free s = {}" unfolding fr sub by (auto simp: lr_set_def)
  then obtain s' where s': "release S s p e = Ok s'" "invar s'" "free s' = free s \<union> {p..<e}"
    using release_Ok [OF invar, of S p n] rg e by auto
  have "free s' = region - \<Union> (lr_set ` set ?rest)"
    unfolding s'(3) fr sub using dj rg(2) by (auto simp: lr_set_def)
  moreover have "\<forall>r \<in> set ?rest. lr_ok region r" using lr sub by blast
  ultimately show ?thesis using s' ap' by (auto simp: live_ok_def)
qed

lemma range_run_ok:
  "ok st \<Longrightarrow> list_all range_op_ok cs \<Longrightarrow>
    range_run acquire release cs st \<in> {Panic UnwrapNone, Panic IndexOutOfBounds}
    \<or> (\<exists>st'. range_run acquire release cs st = Ok st' \<and> ok st')"
proof (induction cs arbitrary: st)
  case (Cons c cs)
  obtain s live where st: "st = (s, live)" by (cases st)
  have "range_step acquire release c st \<in> {Panic UnwrapNone, Panic IndexOutOfBounds}
    \<or> (\<exists>st'. range_step acquire release c st = Ok st' \<and> ok st')"
  proof (cases c)
    case (Acquire S n)
    then show ?thesis using acquire_step [of s live n S] Cons.prems st by auto
  next
    case (Release i)
    then show ?thesis
      using release_step [of s live i] Cons.prems st
      by (cases "i < length live"; cases "live ! i") auto
  qed
  with Cons show ?case by force
qed simp

end

section \<open>The bitmap allocator provides the contract\<close>

definition bm_layout :: "nat \<Rightarrow> address \<Rightarrow> bitmap \<Rightarrow> bool" where
  "bm_layout lh base s \<longleftrightarrow> bm_inv lh s \<and> bm_base s = base \<and> BYTES Size1G dvd base
    \<and> base + 2 ^ lh < USIZE_LIMIT"

definition unit_addrs :: "address \<Rightarrow> nat set \<Rightarrow> address set" where
  "unit_addrs base us = {a. base \<le> a \<and> (a - base) div 4096 \<in> us}"

definition bm_free :: "nat \<Rightarrow> bitmap \<Rightarrow> address set" where
  "bm_free lh s = unit_addrs (bm_base s) (free_units lh s)"

lemma unit_addrs_range: "unit_addrs base {u..<u + m} = {base + u * 4096..<base + (u + m) * 4096}"
proof (rule set_eqI)
  fix a
  have "(u \<le> d div 4096 \<and> d div 4096 < u + m) \<longleftrightarrow> (u * 4096 \<le> d \<and> d < (u + m) * 4096)" for d :: nat
    by (simp add: less_eq_div_iff_mult_less_eq div_less_iff_less_mult)
  then have "a \<in> unit_addrs base {u..<u + m}
      \<longleftrightarrow> base \<le> a \<and> u * 4096 \<le> a - base \<and> a - base < (u + m) * 4096"
    by (simp add: unit_addrs_def)
  then show "a \<in> unit_addrs base {u..<u + m} \<longleftrightarrow> a \<in> {base + u * 4096..<base + (u + m) * 4096}"
    unfolding atLeastLessThan_iff by linarith
qed

lemma unit_addrs_set_ops:
  "unit_addrs base (A - B) = unit_addrs base A - unit_addrs base B"
  "unit_addrs base (A \<union> B) = unit_addrs base A \<union> unit_addrs base B"
  "A \<subseteq> B \<Longrightarrow> unit_addrs base A \<subseteq> unit_addrs base B"
  "unit_addrs base A \<inter> unit_addrs base B = unit_addrs base (A \<inter> B)"
  by (auto simp: unit_addrs_def)

lemma unit_addrs_empty_iff: "unit_addrs base A = {} \<longleftrightarrow> A = {}"
proof
  have "base + u * 4096 \<in> unit_addrs base A" if "u \<in> A" for u using that by (simp add: unit_addrs_def)
  then show "unit_addrs base A = {} \<Longrightarrow> A = {}" by blast
qed (simp add: unit_addrs_def)

lemma pow_lh: "bm_wf lh s \<Longrightarrow> (2::nat) ^ lh = 2 ^ LOG_UNITS lh * 4096"
  using pow_split [of 12 lh] by (simp add: bm_wf_def LOG_UNITS_def)

lemma bm_free_in_region: "bm_layout lh base s \<Longrightarrow> bm_free lh s \<subseteq> {base..<base + 2 ^ lh}"
proof -
  assume l: "bm_layout lh base s"
  have "free_units lh s \<subseteq> {0..<0 + 2 ^ LOG_UNITS lh}" using free_units_bound by (auto simp: subset_iff)
  then have "bm_free lh s \<subseteq> unit_addrs base {0..<0 + 2 ^ LOG_UNITS lh}"
    unfolding bm_free_def using l by (simp add: bm_layout_def unit_addrs_set_ops(3))
  also have "\<dots> = {base..<base + 2 ^ lh}"
    unfolding unit_addrs_range using l pow_lh by (auto simp: bm_layout_def bm_inv_def)
  finally show ?thesis .
qed

lemma BYTES_small: "BYTES S = 2 ^ (LOG_BYTES S - 12) * 4096"
  by (cases S) (simp_all add: BYTES_def)

lemma BYTES_dvd_1G: "BYTES S dvd BYTES Size1G"
  by (cases S) (simp_all add: BYTES_def le_imp_power_dvd)

lemma small_pages:
  assumes "n * BYTES S < USIZE_LIMIT"
  shows "ushl n (LOG_BYTES S - LOG_BYTES Size4K) = Ok (n * 2 ^ (LOG_BYTES S - 12))"
    and "n * 2 ^ (LOG_BYTES S - 12) \<le> 2 ^ 52"
proof -
  have b: "n * 2 ^ (LOG_BYTES S - 12) * 4096 < USIZE_LIMIT" using assms by (simp add: BYTES_small mult.assoc)
  then show "n * 2 ^ (LOG_BYTES S - 12) \<le> 2 ^ 52" by (simp add: USIZE_LIMIT_def)
  have "n * 2 ^ (LOG_BYTES S - 12) < USIZE_LIMIT" using b by linarith
  moreover have "LOG_BYTES S - 12 < 64" using LOG_BYTES_less [of S] by linarith
  ultimately show "ushl n (LOG_BYTES S - LOG_BYTES Size4K) = Ok (n * 2 ^ (LOG_BYTES S - 12))" by simp
qed

lemma bm_acquire_cases:
  assumes l: "bm_layout lh base s" and n: "0 < n" "n * BYTES S < USIZE_LIMIT"
  shows "bm_acquire lh S s n = Panic UnwrapNone \<or>
      (\<exists>s' p. bm_acquire lh S s n = Ok (s', p, p + n * BYTES S) \<and> bm_layout lh base s' \<and> BYTES S dvd p
        \<and> {p..<p + n * BYTES S} \<subseteq> bm_free lh s \<and> bm_free lh s' = bm_free lh s - {p..<p + n * BYTES S})"
proof -
  let ?k = "LOG_BYTES S - 12"
  define u where "u = n * 2 ^ ?k"
  have inv: "bm_inv lh s" and base: "bm_base s = base" "BYTES Size1G dvd base"
    using l by (auto simp: bm_layout_def)
  have "clog2 u \<le> 52" unfolding u_def using small_pages(2) [OF n(2)] by (rule clog2_least)
  then have c: "clog2 u < 64" by simp
  have sh: "ushl n (LOG_BYTES S - 12) = Ok u" using small_pages(1) [OF n(2)] by (simp add: u_def)
  from inv c show ?thesis
  proof (cases rule: acquire_units_cases)
    case none
    then show ?thesis by (simp add: bm_acquire_def sh)
  next
    case (some s' start)
    let ?p = "base + start * 4096"
    have len: "n * BYTES S = u * 4096" by (simp add: u_def BYTES_small)
    have "clog2 (2 ^ ?k) \<le> clog2 u" using n(1) by (intro clog2_mono) (simp add: u_def)
    then have "2 ^ ?k dvd start" using some(4) by (metis clog2_pow dvd_trans le_imp_power_dvd)
    then have "BYTES S dvd start * 4096" unfolding BYTES_small by (rule mult_dvd_mono) simp
    then have al: "BYTES S dvd ?p" using base(2) BYTES_dvd_1G by (meson dvd_add dvd_trans)
    have rng: "unit_addrs base {start..<start + u} = {?p..<?p + n * BYTES S}"
      unfolding unit_addrs_range len by (simp add: add_mult_distrib add.assoc)
    have l': "bm_layout lh base s'" using some(2,3) l by (simp add: bm_layout_def)
    have sub: "{?p..<?p + n * BYTES S} \<subseteq> bm_free lh s"
      unfolding rng [symmetric] bm_free_def base(1) by (rule unit_addrs_set_ops(3) [OF some(6)])
    then have "{?p..<?p + n * BYTES S} \<subseteq> {base..<base + 2 ^ lh}"
      using bm_free_in_region [OF l] by (rule subset_trans)
    then have "?p + n * BYTES S \<le> base + 2 ^ lh" using n(1) by (simp add: ivl_subset)
    then have lim: "?p + n * BYTES S < USIZE_LIMIT" using l by (simp add: bm_layout_def)
    then have "start * 4096 < USIZE_LIMIT" "?p < USIZE_LIMIT" by linarith+
    then have "bm_acquire lh S s n = Ok (s', ?p, ?p + n * BYTES S)"
      using some(1,3) base(1) al page_forward_Ok [OF al lim]
      by (simp add: bm_acquire_def sh)
    moreover have "bm_free lh s' = bm_free lh s - {?p..<?p + n * BYTES S}"
      unfolding bm_free_def some(3,7) base(1) unit_addrs_set_ops(1) rng ..
    ultimately show ?thesis using l' al sub by blast
  qed
qed

lemma bm_release_Ok:
  assumes l: "bm_layout lh base s" and al: "BYTES S dvd p" and n: "0 < n"
    and reg: "{p..<p + n * BYTES S} \<subseteq> {base..<base + 2 ^ lh}"
    and dj: "{p..<p + n * BYTES S} \<inter> bm_free lh s = {}"
  shows "\<exists>s'. bm_release lh S s p (p + n * BYTES S) = Ok s' \<and> bm_layout lh base s'
    \<and> bm_free lh s' = bm_free lh s \<union> {p..<p + n * BYTES S}"
proof -
  have inv: "bm_inv lh s" and base: "bm_base s = base" "BYTES Size1G dvd base"
    using l by (auto simp: bm_layout_def)
  define u where "u = n * 2 ^ (LOG_BYTES S - 12)"
  have pb: "base \<le> p" "p + n * BYTES S \<le> base + 2 ^ lh" using reg n by auto
  then have lim: "n * BYTES S < USIZE_LIMIT" using l by (simp add: bm_layout_def)
  have "BYTES S dvd base" using base(2) BYTES_dvd_1G by (rule dvd_trans [rotated])
  then have "BYTES S dvd p - base" using al pb(1) by (simp add: dvd_diff_nat)
  then have "4096 dvd p - base" using BYTES_small [of S] by (metis dvd_mult_right)
  then obtain start where st: "p - base = start * 4096" by (metis dvd_div_mult_self)
  have len: "n * BYTES S = u * 4096" by (simp add: u_def BYTES_small)
  have p: "p = base + start * 4096" using st pb(1) by simp
  have rng: "unit_addrs base {start..<start + u} = {p..<p + n * BYTES S}"
    unfolding unit_addrs_range len p by (simp add: add_mult_distrib add.assoc)
  have le: "start + u \<le> 2 ^ LOG_UNITS lh"
    using pb(2) pow_lh [OF bm_inv_wf [OF inv]] unfolding p len by simp
  have "unit_addrs base ({start..<start + u} \<inter> free_units lh s) = {}"
    using dj unfolding rng [symmetric] bm_free_def base(1) unit_addrs_set_ops(4) .
  then obtain s' where s': "release_units lh s start u = Ok s'" "bm_inv lh s'" "bm_base s' = bm_base s"
      "free_units lh s' = free_units lh s \<union> {start..<start + u}"
    using release_units_Ok [OF inv le] unfolding unit_addrs_empty_iff by blast
  have "bm_release lh S s p (p + n * BYTES S) = Ok s'"
    using s'(1) small_pages(1) [OF lim] pb(1) base(1) st
    by (simp add: bm_release_def page_start_def addr_diff_def page_steps_between_Ok drop_bit_eq_div u_def)
  moreover have "bm_free lh s' = bm_free lh s \<union> {p..<p + n * BYTES S}"
    unfolding bm_free_def s'(3,4) base(1) unit_addrs_set_ops(2) rng ..
  ultimately show ?thesis using s' l by (simp add: bm_layout_def)
qed

interpretation bm: page_range_allocator "bm_acquire lh" "bm_release lh" "bm_layout lh base"
    "bm_free lh" "{base..<base + 2 ^ lh}"
  for lh base
  by unfold_locales (rule bm_free_in_region bm_acquire_cases bm_release_Ok; assumption)+

section \<open>Start-up\<close>

lemma bm_new_cells: "18 \<le> lh \<Longrightarrow> lh < 64 \<Longrightarrow> bm_wf lh (bm_new lh\<lparr>bm_base := base\<rparr>)
    \<and> cells lh (bm_new lh\<lparr>bm_base := base\<rparr>) = {}"
proof
  assume lh: "18 \<le> lh" "lh < 64"
  show wf: "bm_wf lh (bm_new lh\<lparr>bm_base := base\<rparr>)" using lh by (simp add: bm_wf_def bm_new_def)
  have "\<not> tbit (bm_new lh\<lparr>bm_base := base\<rparr>) (2 ^ (LOG_UNITS lh - sc) + i)" if "cell_ok lh sc i" for sc i
    using node_index [OF wf node_less [OF that]] by (simp add: tbit_def bm_new_def)
  then show "cells lh (bm_new lh\<lparr>bm_base := base\<rparr>) = {}" by (auto simp: cells_def)
qed

lemma bm_init_Ok:
  assumes "18 \<le> lh" "lh < 64" "BYTES Size1G dvd base" "base + 2 ^ lh < USIZE_LIMIT"
  shows "\<exists>s. bm_init lh (bm_new lh) base = Ok s \<and> bm_layout lh base s \<and> bm_free lh s = {base..<base + 2 ^ lh}"
proof -
  let ?init = "bm_new lh\<lparr>bm_base := base\<rparr>" and ?L = "LOG_UNITS lh"
  let ?s = "bm_put lh ?init ?L 0 True"
  have wf: "bm_wf lh ?init" and c0: "cells lh ?init = {}" using bm_new_cells [OF assms(1,2)] by auto
  have ok: "cell_ok lh ?L 0" by (simp add: cell_ok_def)
  have f0: "free_units lh ?init = {}" using c0 by (simp add: free_units_def)
  have "bm_inv lh ?init" using wf c0 by (simp add: bm_inv_def)
  then have inv: "bm_inv lh ?s" using f0 c0 ok by (intro bm_inv_insert) auto
  have "free_units lh ?s = {0..<0 + 2 ^ ?L}"
    using free_units_insert [OF wf ok] f0 by (simp add: cell_units_def)
  then have "bm_free lh ?s = {base..<base + 2 ^ lh}"
    using pow_lh [OF wf] unfolding bm_free_def by (simp only: unit_addrs_range) simp
  moreover have "bm_init lh (bm_new lh) base = Ok ?s"
    using set_unit_Ok(1) [OF wf ok] by (simp add: bm_init_def)
  ultimately show ?thesis using inv assms by (auto simp: bm_layout_def)
qed

section \<open>Properties\<close>

text \<open>C1: the whole life of the kernel's virtual page allocator. After \<^verbatim>\<open>init\<close>, along every
  sequence of \<^verbatim>\<open>acquire\<close> and \<^verbatim>\<open>release\<close> calls with page ranges that were handed out, no
  assertion, overflow or index of the allocator fails: a run either stops because
  \<^verbatim>\<open>acquire\<close> finds no block (its \<^verbatim>\<open>unwrap\<close>) or because the caller names a range it does not
  hold, or it ends with live ranges that are aligned, inside the heap and pairwise disjoint,
  and exactly the rest of the heap is free.\<close>

theorem bm_runs_safe:
  assumes "18 \<le> lh" "lh < 64" "BYTES Size1G dvd base" "base + 2 ^ lh < USIZE_LIMIT"
    and "list_all range_op_ok cs"
  shows "\<exists>s. bm_init lh (bm_new lh) base = Ok s \<and>
    (range_run (bm_acquire lh) (bm_release lh) cs (s, []) \<in> {Panic UnwrapNone, Panic IndexOutOfBounds}
     \<or> (\<exists>s' live. range_run (bm_acquire lh) (bm_release lh) cs (s, []) = Ok (s', live)
          \<and> apart (map lr_set live) \<and> (\<forall>r \<in> set live. lr_ok {base..<base + 2 ^ lh} r)
          \<and> bm_free lh s' = {base..<base + 2 ^ lh} - \<Union> (lr_set ` set live)))"
proof -
  obtain s where s: "bm_init lh (bm_new lh) base = Ok s" "bm_layout lh base s"
      "bm_free lh s = {base..<base + 2 ^ lh}"
    using bm_init_Ok [OF assms(1-4)] by blast
  then have "live_ok (bm_layout lh base) (bm_free lh) {base..<base + 2 ^ lh} (s, [])"
    by (simp add: live_ok_def)
  from bm.range_run_ok [OF this assms(5)] s(1) show ?thesis by (auto simp: live_ok_def)
qed

theorem bm_runs_safe_witness:
  "\<exists>s. bm_init 38 (bm_new 38) 0x8000000000 = Ok s \<and>
    (range_run (bm_acquire 38) (bm_release 38) [Acquire Size4K 3, Acquire Size2M 1, Release 1] (s, [])
        \<in> {Panic UnwrapNone, Panic IndexOutOfBounds}
     \<or> (\<exists>s' live. range_run (bm_acquire 38) (bm_release 38)
            [Acquire Size4K 3, Acquire Size2M 1, Release 1] (s, []) = Ok (s', live)
          \<and> apart (map lr_set live) \<and> (\<forall>r \<in> set live. lr_ok {0x8000000000..<0x8000000000 + 2 ^ 38} r)
          \<and> bm_free 38 s' = {0x8000000000..<0x8000000000 + 2 ^ 38} - \<Union> (lr_set ` set live)))"
  by (rule bm_runs_safe) (simp_all add: BYTES_def USIZE_LIMIT_def)

text \<open>C8: splitting is complete. \<^verbatim>\<open>acquire_cell\<close> returns \<^verbatim>\<open>None\<close> exactly when no aligned
  block of its size class is free, and then changes nothing; otherwise it returns an aligned
  block that was free and takes exactly that block out of the free units, keeping the
  invariant of the bitmap.\<close>

theorem acquire_cell_complete:
  assumes "bm_inv lh s"
  shows "if \<exists>i. cell_ok lh sc i \<and> cell_units sc i \<subseteq> free_units lh s
    then \<exists>s' i. acquire_cell lh s sc = Ok (s', Some (i * 2 ^ sc)) \<and> bm_inv lh s' \<and> cell_ok lh sc i
      \<and> cell_units sc i \<subseteq> free_units lh s \<and> free_units lh s' = free_units lh s - cell_units sc i
    else acquire_cell lh s sc = Ok (s, None)"
  using assms
proof (cases rule: acquire_cell_cases [of lh s sc])
  case (some s' i)
  then show ?thesis by (auto simp: took_cell_def)
qed auto

theorem acquire_cell_complete_witness:
  "\<exists>s. bm_init 18 (bm_new 18) 0 = Ok s \<and>
    (\<exists>s' i. acquire_cell 18 s 2 = Ok (s', Some (i * 2 ^ 2)) \<and> bm_inv 18 s' \<and> cell_ok 18 2 i
      \<and> cell_units 2 i \<subseteq> free_units 18 s \<and> free_units 18 s' = free_units 18 s - cell_units 2 i)"
proof -
  obtain s where s: "bm_init 18 (bm_new 18) 0 = Ok s" "bm_layout 18 0 s" "bm_free 18 s = {0..<0 + 2 ^ 18}"
    using bm_init_Ok [of 18 0] by (auto simp: BYTES_def USIZE_LIMIT_def)
  have "u * 4096 \<in> bm_free 18 s" if "u < 4" for u using that unfolding s(3) by simp
  then have "cell_ok 18 2 0 \<and> cell_units 2 0 \<subseteq> free_units 18 s"
    using s(2) by (auto simp: bm_free_def unit_addrs_def bm_layout_def cell_units_def cell_ok_def LOG_UNITS_def)
  then have ex: "\<exists>i. cell_ok 18 2 i \<and> cell_units 2 i \<subseteq> free_units 18 s" by blast
  have inv: "bm_inv 18 s" using s(2) by (simp add: bm_layout_def)
  show ?thesis using acquire_cell_complete [OF inv, of 2, unfolded if_P [OF ex]] s(1) by blast
qed

text \<open>Coalescing undoes splitting. Releasing the units that \<^verbatim>\<open>acquire_units\<close> handed out
  succeeds and gives back the very same free cells in every size class: fragmentation leaves no
  trace in the bitmap.\<close>

theorem acquire_release_units:
  assumes "bm_inv lh s" and "clog2 units < 64" and "acquire_units lh s units = Ok (s1, Some start)"
  shows "\<exists>s2. release_units lh s1 start units = Ok s2 \<and> bm_inv lh s2 \<and> cells lh s2 = cells lh s"
  using assms(1,2)
proof (cases rule: acquire_units_cases)
  case (some s' start')
  with assms(3) have eq: "s' = s1" "start' = start" by auto
  have "{start..<start + units} \<inter> free_units lh s1 = {}" using some(7) unfolding eq by auto
  then obtain s2 where s2: "release_units lh s1 start units = Ok s2" "bm_inv lh s2"
      "free_units lh s2 = free_units lh s1 \<union> {start..<start + units}"
    using release_units_Ok [of lh s1 start units] some(2,5) unfolding eq by blast
  have "free_units lh s2 = free_units lh s" using s2(3) some(6,7) unfolding eq by blast
  then have "cells lh s2 = cells lh s"
    using bm_canonical [OF assms(1) s2(2)] bm_canonical [OF s2(2) assms(1)] by auto
  with s2 show ?thesis by blast
qed (use assms(3) in simp)

theorem acquire_release_units_witness:
  "\<exists>s s1 s2. bm_init 18 (bm_new 18) 0 = Ok s \<and> acquire_units 18 s 48 = Ok (s1, Some 0)
    \<and> release_units 18 s1 0 48 = Ok s2 \<and> bm_inv 18 s2 \<and> cells 18 s2 = cells 18 s"
proof -
  obtain s where s: "bm_init 18 (bm_new 18) 0 = Ok s" "bm_layout 18 0 s"
    using bm_init_Ok [of 18 0] by (auto simp: BYTES_def USIZE_LIMIT_def)
  have c: "clog2 48 < 64" by (simp add: clog2.simps)
  have "rbind (bm_init 18 (bm_new 18) 0) (\<lambda>s. rbind (acquire_units 18 s 48) (\<lambda>(s1, r). Ok r)) = Ok (Some 0)"
    by code_simp
  then obtain s1 where "acquire_units 18 s 48 = Ok (s1, Some 0)"
    using s(1) by (auto simp: rbind_Ok_iff)
  then show ?thesis using acquire_release_units [OF _ c] s unfolding bm_layout_def by blast
qed

text \<open>C12: the word-at-a-time scan is a linear first-fit search. For the classes with at least one
  table word of cells, \<^verbatim>\<open>search_and_allocate_cell\<close> skips whole words that are zero; it still
  finds the first free cell of the class, marks only that cell used, and returns its first unit.\<close>

theorem search_is_first_fit:
  assumes "bm_wf lh s" and "sc \<le> LOG_UNITS lh"
  shows "search_and_allocate_cell lh s sc =
    (case find (\<lambda>i. (sc, i) \<in> cells lh s) [0..<2 ^ (LOG_UNITS lh - sc)] of
       None \<Rightarrow> Ok (s, None)
     | Some i \<Rightarrow> Ok (bm_put lh s sc i False, Some (i * 2 ^ sc)))"
  unfolding search_eq [OF assms] take_first_def ..

theorem search_is_first_fit_witness:
  "search_and_allocate_cell 18 (bm_put 18 (bm_new 18) 0 41 True) 0 =
    Ok (bm_put 18 (bm_put 18 (bm_new 18) 0 41 True) 0 41 False, Some 41)"
proof -
  let ?s = "bm_put 18 (bm_new 18) 0 41 True"
  have n: "bm_wf 18 (bm_new 18)" "cells 18 (bm_new 18) = {}"
    using bm_new_cells [of 18 0] by (simp_all add: bm_new_def)
  have c: "cells 18 ?s = {(0, 41)}"
    using cells_put [OF n(1), of 0 41 True] n(2) by (simp add: cell_ok_def LOG_UNITS_def)
  have w: "bm_wf 18 ?s" using n(1) by simp
  have "find (\<lambda>i. i = 41) [0..<2 ^ 6] = Some (41::nat)" by code_simp
  then show ?thesis using search_is_first_fit [OF w, of 0] by (simp add: c LOG_UNITS_def)
qed

end
