(* ===== verification/Free_List.thy ===== *)
theory Free_List
  imports Cell_Lists
begin

text \<open>
  \<^verbatim>\<open>libs/memory/src/free_list_allocator.rs\<close>: the object allocator behind the kernel heap and
  the user heap. Size class \<open>sc\<close> holds cells of \<open>2 ^ sc\<close> bytes; the lists live in the free cells.
  \<^verbatim>\<open>LOG_HEAP_SIZE\<close> is the argument \<open>lh\<close>; the \<^verbatim>\<open>PageResource\<close> the allocator draws pages from is
  the pair of arguments \<open>acq\<close>, \<open>rel\<close> with its state in the field \<open>fl_pr\<close>, under the contract of
  the locale \<open>page_resource\<close>. The loop that drains a list may run forever on a cyclic list, so it
  is an option-valued partial function whose value \<open>None\<close> means that it does not return.
\<close>

section \<open>Operations\<close>

record 'p fla =
  fl_cells :: "address list"
  fl_retry :: bool
  fl_resource :: bool
  fl_mem :: memory
  fl_pr :: 'p

type_synonym 'p acquire_pages = "page_size \<Rightarrow> 'p \<Rightarrow> usize \<Rightarrow> ('p \<times> (page \<times> page) option) res"
type_synonym 'p release_pages = "page_size \<Rightarrow> 'p \<Rightarrow> page \<Rightarrow> page \<Rightarrow> 'p res"

definition MIN_SIZE :: usize where
  "MIN_SIZE = 2 ^ 4"

definition fl_new :: "nat \<Rightarrow> memory \<Rightarrow> 'p \<Rightarrow> 'p fla" where
  "fl_new lh m p = \<lparr>fl_cells = replicate (lh + 1) 0, fl_retry = False, fl_resource = False, fl_mem = m, fl_pr = p\<rparr>"

definition fl_init :: "'p fla \<Rightarrow> 'p fla" where
  "fl_init s = s\<lparr>fl_resource := True\<rparr>"

definition fl_page_resource :: "'p fla \<Rightarrow> 'p res" where
  "fl_page_resource s = (if fl_resource s then Ok (fl_pr s) else Panic UnwrapNone)"

definition fl_pop_cell :: "'p fla \<Rightarrow> nat \<Rightarrow> ('p fla \<times> address option) res" where
  "fl_pop_cell s sc =
     rbind (idx (fl_cells s) sc) (\<lambda>cell.
     if addr_is_zero cell then Ok (s, None)
     else
       rbind (upd (fl_cells s) sc (addr_load (fl_mem s) cell)) (\<lambda>t.
       Ok (s\<lparr>fl_cells := t\<rparr>, Some cell)))"

definition fl_push_cell :: "'p fla \<Rightarrow> nat \<Rightarrow> address \<Rightarrow> 'p fla res" where
  "fl_push_cell s sc cell =
     rbind (idx (fl_cells s) sc) (\<lambda>head.
     rbind (upd (fl_cells s) sc cell) (\<lambda>t.
     Ok (s\<lparr>fl_cells := t, fl_mem := addr_store (fl_mem s) cell head\<rparr>)))"

definition fl_size_class :: "usize \<Rightarrow> nat res" where
  "fl_size_class block_size = rbind (next_power_of_two block_size) (\<lambda>p. Ok (trailing_zeros p))"

text \<open>\<^verbatim>\<open>core::alloc::Layout\<close>: its alignment is a power of two, and \<^verbatim>\<open>pad_to_align\<close> rounds the
  size up to a multiple of it.\<close>

record layout =
  lay_size :: usize
  lay_align :: usize

definition pad_to_align_size :: "layout \<Rightarrow> usize" where
  "pad_to_align_size l = (lay_size l + (lay_align l - 1)) div lay_align l * lay_align l"

definition fl_cell_size :: "layout \<Rightarrow> usize" where
  "fl_cell_size l = max (pad_to_align_size l) MIN_SIZE"

partial_function (option) drain_class :: "'p release_pages \<Rightarrow> 'p fla \<Rightarrow> nat \<Rightarrow> 'p fla res option" where
  "drain_class rel s sc =
     (case fl_pop_cell s sc of
        Panic e \<Rightarrow> Some (Panic e)
      | Ok (s1, None) \<Rightarrow> Some (Ok s1)
      | Ok (s1, Some cell) \<Rightarrow>
          (case rbind (ushl 1 sc) (\<lambda>n.
                rbind (page_new Size2M cell) (\<lambda>start.
                rbind (page_forward Size2M start (drop_bit (LOG_BYTES Size2M) n)) (\<lambda>e.
                rbind (fl_page_resource s1) (\<lambda>p.
                rbind (rel Size2M p start e) (\<lambda>p'. Ok (s1\<lparr>fl_pr := p'\<rparr>)))))) of
             Panic e \<Rightarrow> Some (Panic e)
           | Ok s2 \<Rightarrow> drain_class rel s2 sc))"

function release_large_loop :: "nat \<Rightarrow> 'p release_pages \<Rightarrow> 'p fla \<Rightarrow> nat \<Rightarrow> 'p fla res option" where
  "release_large_loop lh rel s sc =
     (if sc < lh + 1 then
        (case drain_class rel s sc of
           None \<Rightarrow> None
         | Some (Panic e) \<Rightarrow> Some (Panic e)
         | Some (Ok s') \<Rightarrow> release_large_loop lh rel s' (sc + 1))
      else Some (Ok s))"
  by pat_completeness auto
termination
  by (relation "measure (\<lambda>(lh, rel, s, sc). lh + 1 - sc)") auto

declare release_large_loop.simps [simp del]

definition release_large_pages :: "nat \<Rightarrow> 'p release_pages \<Rightarrow> 'p fla \<Rightarrow> 'p fla res option" where
  "release_large_pages lh rel s =
     (case fl_size_class (BYTES Size2M) of
        Panic e \<Rightarrow> Some (Panic e)
      | Ok start_sc \<Rightarrow> release_large_loop lh rel s start_sc)"

function fl_alloc_cell :: "nat \<Rightarrow> 'p fla \<Rightarrow> nat \<Rightarrow> ('p fla \<times> address option) res" where
  "fl_alloc_cell lh s sc =
     (if lh + 1 \<le> sc then Ok (s, None)
      else
        rbind (fl_pop_cell s sc) (\<lambda>(s1, r).
        case r of
          Some cell \<Rightarrow> Ok (s1, Some cell)
        | None \<Rightarrow>
            rbind (fl_alloc_cell lh s1 (sc + 1)) (\<lambda>(s2, q).
            case q of
              None \<Rightarrow> Ok (s2, None)
            | Some cell0 \<Rightarrow>
                rbind (ushl 1 sc) (\<lambda>d.
                rbind (addr_add cell0 d) (\<lambda>cell1.
                rbind (fl_push_cell s2 sc cell1) (\<lambda>s3.
                Ok (s3, Some cell0)))))))"
  by pat_completeness auto
termination
  by (relation "measure (\<lambda>(lh, s, sc). lh + 1 - sc)") auto

declare fl_alloc_cell.simps [simp del]

definition fl_alloc_cell_fast :: "'p fla \<Rightarrow> nat \<Rightarrow> ('p fla \<times> address option) res" where
  "fl_alloc_cell_fast s sc = fl_pop_cell s sc"

function carve_loop :: "'p fla \<Rightarrow> address \<Rightarrow> address \<Rightarrow> 'p fla res" where
  "carve_loop s cursor e =
     (if addr_lt cursor e then
        rbind (ushl 1 (trailing_zeros cursor)) (\<lambda>a.
        rbind (addr_diff e cursor) (\<lambda>rest.
        let sz = min a rest in
        rbind (rassert (0 < sz)) (\<lambda>_.
        rbind (fl_size_class sz) (\<lambda>c.
        rbind (if is_power_of_two sz then Ok c else usub c 1) (\<lambda>sc.
        rbind (ushl 1 sc) (\<lambda>m.
        rbind (rassert (cursor AND (m - 1) = 0)) (\<lambda>_.
        rbind (fl_push_cell s sc cursor) (\<lambda>s'.
        rbind (addr_add cursor sz) (\<lambda>cursor'.
        carve_loop s' cursor' e)))))))))
      else Ok s)"
  by pat_completeness auto
termination
  by (relation "measure (\<lambda>(s, cursor, e). e - cursor)") (auto simp: addr_add_def uadd_Ok_iff)

declare carve_loop.simps [simp del]

lemma fl_push_cell_retry: "fl_push_cell s sc c = Ok s' \<Longrightarrow> fl_retry s' = fl_retry s"
  by (auto simp: fl_push_cell_def rbind_Ok_iff)

lemma fl_pop_cell_retry: "fl_pop_cell s sc = Ok (s', r) \<Longrightarrow> fl_retry s' = fl_retry s"
  by (auto simp: fl_pop_cell_def rbind_Ok_iff split: if_splits)

lemma fl_alloc_cell_retry: "fl_alloc_cell lh s sc = Ok (s', r) \<Longrightarrow> fl_retry s' = fl_retry s"
proof (induction "lh + 1 - sc" arbitrary: s sc s' r)
  case 0
  then show ?case by (simp add: fl_alloc_cell.simps)
next
  case (Suc n)
  then have sc: "\<not> lh + 1 \<le> sc" by simp
  with Suc.prems obtain s1 r1 where p: "fl_pop_cell s sc = Ok (s1, r1)"
    by (subst (asm) fl_alloc_cell.simps) auto
  show ?case
  proof (cases r1)
    case None
    with Suc.prems sc p obtain s2 q where q: "fl_alloc_cell lh s1 (sc + 1) = Ok (s2, q)"
      by (subst (asm) fl_alloc_cell.simps) auto
    have "n = lh + 1 - (sc + 1)" using Suc.hyps(2) by simp
    then have "fl_retry s2 = fl_retry s" using Suc.hyps(1) q fl_pop_cell_retry [OF p] by metis
    then show ?thesis using Suc.prems sc p None q fl_push_cell_retry [of s2 sc _ s']
      by (subst (asm) fl_alloc_cell.simps) (auto simp: rbind_Ok_iff split: option.splits)
  next
    case (Some c)
    then show ?thesis using Suc.prems sc p fl_pop_cell_retry [OF p]
      by (subst (asm) fl_alloc_cell.simps) auto
  qed
qed

function fl_alloc_cell_slow :: "nat \<Rightarrow> 'p acquire_pages \<Rightarrow> 'p fla \<Rightarrow> nat \<Rightarrow> ('p fla \<times> address) res" where
  "fl_alloc_cell_slow lh acq s sc =
     rbind (fl_alloc_cell lh s sc) (\<lambda>(s1, r).
     case r of
       Some cell \<Rightarrow> Ok (s1, cell)
     | None \<Rightarrow>
         rbind (rassert (\<not> fl_retry s1)) (\<lambda>_.
         rbind (ushl 1 sc) (\<lambda>n.
         rbind (uadd n (PAGE_MASK Size2M)) (\<lambda>n'.
         rbind (ushl (drop_bit (LOG_BYTES Size2M) n') 1) (\<lambda>pages.
         rbind (fl_page_resource s1) (\<lambda>p.
         rbind (acq Size2M p pages) (\<lambda>(p', vs).
         rbind (unwrap vs) (\<lambda>(a, e).
         rbind (carve_loop (s1\<lparr>fl_pr := p'\<rparr>) (page_start a) (page_start e)) (\<lambda>s2.
         rbind (fl_alloc_cell_slow lh acq (s2\<lparr>fl_retry := True\<rparr>) sc) (\<lambda>(s3, x).
         Ok (s3\<lparr>fl_retry := False\<rparr>, x)))))))))))"
  by pat_completeness auto
termination
  by (relation "measure (\<lambda>(lh, acq, s, sc). if fl_retry s then 0 else 1)")
    (auto dest!: fl_alloc_cell_retry)

declare fl_alloc_cell_slow.simps [simp del]

definition fl_alloc :: "nat \<Rightarrow> 'p acquire_pages \<Rightarrow> 'p fla \<Rightarrow> layout \<Rightarrow> ('p fla \<times> address) res" where
  "fl_alloc lh acq s layout =
     rbind (fl_size_class (fl_cell_size layout)) (\<lambda>sc.
     rbind (fl_alloc_cell_fast s sc) (\<lambda>(s1, r).
     case r of
       Some cell \<Rightarrow> Ok (s1, cell)
     | None \<Rightarrow> fl_alloc_cell_slow lh acq s1 sc))"

definition fl_free :: "nat \<Rightarrow> bool \<Rightarrow> 'p release_pages \<Rightarrow> 'p fla \<Rightarrow> address \<Rightarrow> layout \<Rightarrow> 'p fla res option" where
  "fl_free lh RELEASE_LARGE_PAGES rel s start layout =
     (case rbind (fl_size_class (fl_cell_size layout)) (\<lambda>sc. fl_push_cell s sc start) of
        Panic e \<Rightarrow> Some (Panic e)
      | Ok s1 \<Rightarrow> if RELEASE_LARGE_PAGES then release_large_pages lh rel s1 else Some (Ok s1))"

end
