(* ===== verification/Heap_Spec.thy ===== *)
theory Heap_Spec
  imports Free_List
begin

text \<open>
  Correctness of the free-list allocator. The contract of its page source is the locale
  \<open>page_resource\<close>: \<open>owned\<close> are the addresses handed out and mapped, \<open>avail\<close> those that may still be
  handed out. Under it every allocation is aligned, large enough, inside owned memory and disjoint
  from all other live allocations and free cells, and the allocator fails only when the page
  source fails.
\<close>

section \<open>Lists and fields\<close>

definition fl_rep :: "nat \<Rightarrow> 'p fla \<Rightarrow> (nat \<Rightarrow> address list) \<Rightarrow> bool" where
  "fl_rep lh s L \<longleftrightarrow> length (fl_cells s) = lh + 1 \<and> lists_rep (fl_mem s) (fl_cells s) L"

definition same_fields :: "'p fla \<Rightarrow> 'p fla \<Rightarrow> bool" where
  "same_fields s s' \<longleftrightarrow> fl_pr s' = fl_pr s \<and> fl_resource s' = fl_resource s \<and> fl_retry s' = fl_retry s"

lemma same_fields_refl [simp]: "same_fields s s"
  by (simp add: same_fields_def)

lemma same_fields_trans [trans]: "same_fields a b \<Longrightarrow> same_fields b c \<Longrightarrow> same_fields a c"
  by (simp add: same_fields_def)

lemma push_fields: "fl_push_cell s sc c = Ok s' \<Longrightarrow> same_fields s s'"
  by (auto simp: fl_push_cell_def same_fields_def rbind_Ok_iff)

lemma pop_fields: "fl_pop_cell s sc = Ok (s', r) \<Longrightarrow> same_fields s s'"
  by (auto simp: fl_pop_cell_def same_fields_def rbind_Ok_iff split: if_splits)

interpretation fl: cell_lists "\<lambda>s c sc. fl_push_cell s sc c" fl_pop_cell "fl_rep lh" fl_mem "lh + 1" 0
  for lh
proof unfold_locales
  fix s :: "'a fla" and L and sc :: nat and c
  assume "fl_rep lh s L" "sc < lh + 1" "0 < c" "c < USIZE_LIMIT" "\<forall>sc'. c \<notin> set (L sc')"
  then show "\<exists>s'. fl_push_cell s sc c = Ok s' \<and> fl_rep lh s' (L(sc := c # L sc))
      \<and> (\<forall>a. a \<noteq> c \<longrightarrow> fl_mem s' a = fl_mem s a)"
    using lists_rep_push [of "fl_mem s" "fl_cells s" L sc c]
    by (simp add: fl_rep_def fl_push_cell_def addr_store_def)
next
  fix s :: "'a fla" and L and sc :: nat
  assume "fl_rep lh s L" "sc < lh + 1" "L sc = []"
  then show "fl_pop_cell s sc = Ok (s, None)"
    using lists_rep_empty [of "fl_mem s" "fl_cells s" L sc] by (simp add: fl_rep_def fl_pop_cell_def addr_is_zero_def)
next
  fix s :: "'a fla" and L and sc :: nat and c cs
  assume a: "fl_rep lh s L" "sc < lh + 1" "L sc = c # cs"
  show "\<exists>s'. fl_pop_cell s sc = Ok (s', Some c) \<and> fl_rep lh s' (L(sc := cs)) \<and> fl_mem s' = fl_mem s"
    using a lists_rep_pop [of "fl_mem s" "fl_cells s" L sc c cs]
    by (simp add: fl_rep_def fl_pop_cell_def addr_is_zero_def)
next
  fix s :: "'a fla" and L and sc :: nat
  assume "fl_rep lh s L" "lh + 1 \<le> sc"
  then show "L sc = []" by (simp add: fl_rep_def lists_rep_def)
qed

section \<open>Allocating a cell from the lists\<close>

definition fl_took :: "nat \<Rightarrow> 'p fla \<Rightarrow> (nat \<Rightarrow> address list) \<Rightarrow> nat \<Rightarrow> address \<Rightarrow> 'p fla
    \<Rightarrow> (nat \<Rightarrow> address list) \<Rightarrow> bool" where
  "fl_took lh s L sc c s' L' \<longleftrightarrow> fl.pool lh s' L' \<and> same_fields s s' \<and> cell_valid 0 sc c
    \<and> cell_range 0 sc c \<subseteq> pool_free 0 L \<and> pool_free 0 L' = pool_free 0 L - cell_range 0 sc c"

lemma fl_split:
  assumes "fl_took lh s L (Suc sc) u s2 L2" and "sc \<le> lh" and "lh < 64"
  shows "\<exists>s3 L3. rbind (ushl 1 sc) (\<lambda>d. rbind (addr_add u d) (\<lambda>cell1.
      rbind (fl_push_cell s2 sc cell1) (\<lambda>s3. Ok (s3, Some u)))) = Ok (s3, Some u) \<and> fl_took lh s L sc u s3 L3"
proof -
  let ?u1 = "u + 2 ^ (sc + 0)"
  note halves = cell_range_halves [of 0 sc u] cell_halves_disjoint [of 0 sc u]
  have t: "fl.pool lh s2 L2" "same_fields s s2" "cell_valid 0 (Suc sc) u" "cell_range 0 (Suc sc) u \<subseteq> pool_free 0 L"
      "pool_free 0 L2 = pool_free 0 L - cell_range 0 (Suc sc) u"
    using assms(1) by (auto simp: fl_took_def)
  note v = cell_valid_halves [OF t(3)]
  have dj: "cell_range 0 sc ?u1 \<inter> pool_free 0 L2 = {}" using t(5) halves by blast
  obtain s3 L3 where s3: "fl_push_cell s2 sc ?u1 = Ok s3" "fl.pool lh s3 L3"
      "pool_free 0 L3 = pool_free 0 L2 \<union> cell_range 0 sc ?u1"
    by (rule fl.push_pool [OF t(1) _ v(2) dj]) (use assms(2) in auto)
  have "same_fields s s3" using t(2) push_fields [OF s3(1)] by (rule same_fields_trans)
  moreover have "pool_free 0 L3 = pool_free 0 L - cell_range 0 sc u"
    unfolding s3(3) t(5) using halves t(4) by blast
  ultimately have "fl_took lh s L sc u s3 L3"
    unfolding fl_took_def using s3(2) v(1) t(4) halves by blast
  moreover have "?u1 < USIZE_LIMIT" using v(2) by (rule cell_valid_less)
  ultimately show ?thesis using s3(1) assms(2,3) by (auto simp: addr_add_def)
qed

lemma fl_alloc_cell_cases:
  assumes "fl.pool lh s L" and "lh < 64"
  shows "(\<forall>k \<ge> sc. L k = []) \<and> fl_alloc_cell lh s sc = Ok (s, None)
    \<or> (\<exists>s' c L'. fl_alloc_cell lh s sc = Ok (s', Some c) \<and> fl_took lh s L sc c s' L')"
proof (induction "lh + 1 - sc" arbitrary: sc)
  case 0
  then have "\<forall>k \<ge> sc. L k = []" using assms(1) fl.rep_classes [of lh s L] by (simp add: fl.pool_def)
  then show ?case using 0 by (simp add: fl_alloc_cell.simps)
next
  case (Suc n)
  then have sc: "sc < lh + 1" by simp
  show ?case
  proof (cases "L sc")
    case Nil
    note pop = fl.pop_pool_none [OF assms(1) sc Nil]
    have "n = lh + 1 - Suc sc" using Suc.hyps(2) by simp
    from Suc.hyps(1) [OF this] show ?thesis
    proof (elim disjE exE conjE)
      assume n: "\<forall>k \<ge> Suc sc. L k = []" "fl_alloc_cell lh s (Suc sc) = Ok (s, None)"
      then have "\<forall>k \<ge> sc. L k = []" using Nil by (metis Suc_leI le_neq_implies_less)
      then show ?thesis using n(2) pop sc by (simp add: fl_alloc_cell.simps [of lh s sc])
    next
      fix s2 u L2
      assume "fl_alloc_cell lh s (Suc sc) = Ok (s2, Some u)" "fl_took lh s L (Suc sc) u s2 L2"
      then show ?thesis using fl_split [of lh s L sc u s2 L2] pop sc assms(2)
        by (auto simp: fl_alloc_cell.simps [of lh s sc])
    qed
  next
    case (Cons c cs)
    obtain s1 L1 where "fl_pop_cell s sc = Ok (s1, Some c)" "fl.pool lh s1 L1" "cell_valid 0 sc c"
        "cell_range 0 sc c \<subseteq> pool_free 0 L" "pool_free 0 L1 = pool_free 0 L - cell_range 0 sc c"
      by (rule fl.pop_pool [OF assms(1) sc Cons]) blast
    then show ?thesis using sc pop_fields
      by (fastforce simp: fl_alloc_cell.simps [of lh s sc] fl_took_def)
  qed
qed

section \<open>Carving a range of pages into cells\<close>

lemma fl_size_class_Ok: "clog2 n < 64 \<Longrightarrow> fl_size_class n = Ok (clog2 n)"
  by (simp add: fl_size_class_def)

lemma trailing_zeros_less:
  assumes "0 < n" and "n < USIZE_LIMIT"
  shows "trailing_zeros n < 64"
proof (rule ccontr)
  assume "\<not> trailing_zeros n < 64"
  then have "(2::nat) ^ 64 \<le> 2 ^ trailing_zeros n" by (intro power_increasing) auto
  moreover have "2 ^ trailing_zeros n \<le> n" using assms(1) trailing_zeros_dvd [of n] by (intro dvd_imp_le) auto
  ultimately show False using assms(2) by (simp add: USIZE_LIMIT_def)
qed

text \<open>The size of the next cell: at most what is left, aligned like the cursor, and at least as
  large as every aligned block that starts inside it.\<close>

lemma carve_choice:
  assumes "0 < cursor" and "cursor < e" and "e < USIZE_LIMIT"
  obtains a sz sc where "ushl 1 (trailing_zeros cursor) = Ok a" and "sz = min a (e - cursor)" and "0 < sz"
    and "clog2 sz < 64" and "(if is_power_of_two sz then Ok (clog2 sz) else usub (clog2 sz) 1) = Ok sc"
    and "2 ^ sc \<le> sz" and "sc < 64" and "cell_valid 0 sc cursor"
    and "\<forall>b t. cursor \<le> b \<longrightarrow> b < cursor + sz \<longrightarrow> b + 2 ^ t \<le> e \<longrightarrow> 2 ^ t dvd b \<longrightarrow> t \<le> sc"
proof -
  define z where "z = trailing_zeros cursor"
  define sz where "sz = min (2 ^ z) (e - cursor)"
  have z: "z < 64" "2 ^ z dvd cursor"
    using assms trailing_zeros_less [of cursor] trailing_zeros_dvd [of cursor] by (auto simp: z_def)
  have sz: "0 < sz" "sz \<le> 2 ^ z" "sz \<le> e - cursor" using assms(2) by (auto simp: sz_def)
  have "clog2 sz \<le> z" using sz(2) by (rule clog2_least)
  then have c64: "clog2 sz < 64" using z(1) by simp
  obtain sc where sc: "(if is_power_of_two sz then Ok (clog2 sz) else usub (clog2 sz) 1) = Ok sc"
      "2 ^ sc \<le> sz" "\<forall>t. 2 ^ t \<le> sz \<longrightarrow> t \<le> sc"
    by (rule floor_log2 [OF sz(1)])
  have "(2::nat) ^ sc \<le> 2 ^ z" using sc(2) sz(2) by linarith
  then have scz: "sc \<le> z" by simp
  then have "2 ^ sc dvd cursor" using z(2) by (meson dvd_trans le_imp_power_dvd)
  then have v: "cell_valid 0 sc cursor" using assms sc(2) sz(3) by (simp add: cell_valid_def)
  have "t \<le> sc" if b: "cursor \<le> b" "b < cursor + sz" "b + 2 ^ t \<le> e" "2 ^ t dvd b" for b t
  proof (cases "sz = 2 ^ z")
    case True
    have "t \<le> z"
    proof (rule ccontr)
      assume "\<not> t \<le> z"
      then have zt: "2 ^ z dvd b" using b(4) by (meson dvd_trans le_imp_power_dvd nat_le_linear)
      then have "2 ^ z dvd b - cursor" using z(2) b(1) by (simp add: dvd_diff_nat)
      then have "b = cursor" using b(1,2) True nat_dvd_not_less [of "b - cursor" "2 ^ z"] by fastforce
      then show False
        using trailing_zeros_greatest [of cursor t] b(4) assms(1) \<open>\<not> t \<le> z\<close> by (simp add: z_def)
    qed
    then have "(2::nat) ^ t \<le> 2 ^ z" by (rule power_increasing) simp
    then show ?thesis using sc(3) True by simp
  next
    case False
    then have "sz = e - cursor" by (auto simp: sz_def min_def split: if_splits)
    then have "2 ^ t \<le> sz" using b(1,3) by linarith
    then show ?thesis using sc(3) by blast
  qed
  moreover have "ushl 1 (trailing_zeros cursor) = Ok (2 ^ z)" using z(1) by (simp add: z_def)
  ultimately show ?thesis using that [of "2 ^ z" sz sc] sz_def sz c64 sc scz z(1) v by simp
qed

definition carved :: "nat \<Rightarrow> 'p fla \<Rightarrow> (nat \<Rightarrow> address list) \<Rightarrow> address \<Rightarrow> address \<Rightarrow> 'p fla
    \<Rightarrow> (nat \<Rightarrow> address list) \<Rightarrow> bool" where
  "carved lh s L cursor e s' L' \<longleftrightarrow> fl.pool lh s' L' \<and> same_fields s s' \<and> (\<forall>k. set (L k) \<subseteq> set (L' k))
    \<and> pool_free 0 L \<subseteq> pool_free 0 L' \<and> pool_free 0 L' \<subseteq> pool_free 0 L \<union> {cursor..<e}
    \<and> (\<forall>b t. cursor \<le> b \<longrightarrow> b + 2 ^ t \<le> e \<longrightarrow> 2 ^ t dvd b \<longrightarrow> (\<exists>k \<ge> t. L' k \<noteq> []))"

lemma carved_step:
  assumes "carved lh s1 (L(sc := cursor # L sc)) (cursor + sz) e s' L'" and "same_fields s s1"
    and "pool_free 0 (L(sc := cursor # L sc)) = pool_free 0 L \<union> cell_range 0 sc cursor"
    and cover: "\<forall>b t. cursor \<le> b \<longrightarrow> b < cursor + sz \<longrightarrow> b + 2 ^ t \<le> e \<longrightarrow> 2 ^ t dvd b \<longrightarrow> t \<le> sc"
    and "cell_range 0 sc cursor \<subseteq> {cursor..<cursor + sz}" and "sz \<le> e - cursor"
  shows "carved lh s L cursor e s' L'"
proof -
  note c = assms(1) [unfolded carved_def]
  have "{cursor + sz..<e} \<subseteq> {cursor..<e}" by auto
  moreover have "{cursor..<cursor + sz} \<subseteq> {cursor..<e}" using assms(6) by auto
  moreover have "\<forall>k. set (L k) \<subseteq> set ((L(sc := cursor # L sc)) k)" by auto
  moreover have "cursor \<in> set (L' sc)" using c by (metis fun_upd_same list.set_intros(1) subsetD)
  then have "L' sc \<noteq> []" by auto
  then have "\<exists>k \<ge> t. L' k \<noteq> []" if "cursor \<le> b" "b + 2 ^ t \<le> e" "2 ^ t dvd b" for b t
  proof (cases "b < cursor + sz")
    case True
    then have "t \<le> sc" using that cover by blast
    with \<open>L' sc \<noteq> []\<close> show ?thesis by blast
  next
    case False
    then have "cursor + sz \<le> b" by simp
    with that c show ?thesis by blast
  qed
  moreover have "same_fields s s'" using assms(2) c by (blast intro: same_fields_trans)
  ultimately show ?thesis using c assms(3,5) unfolding carved_def by blast
qed

lemma carve_loop_Ok:
  assumes "e < USIZE_LIMIT" and "lh < 64"
  shows "fl.pool lh s L \<Longrightarrow> 0 < cursor \<Longrightarrow> cursor \<le> e \<Longrightarrow> e - cursor \<le> 2 ^ lh
    \<Longrightarrow> {cursor..<e} \<inter> pool_free 0 L = {} \<Longrightarrow> \<exists>s' L'. carve_loop s cursor e = Ok s' \<and> carved lh s L cursor e s' L'"
proof (induction "e - cursor" arbitrary: s L cursor rule: less_induct)
  case less
  show ?case
  proof (cases "cursor < e")
    case False
    moreover have "\<not> (cursor \<le> b \<and> b + 2 ^ t \<le> cursor)" for b t :: nat
      using zero_less_power [of "2::nat" t] by linarith
    ultimately have "carved lh s L cursor e s L"
      using less.prems by (auto simp: carved_def)
    then show ?thesis using False by (auto simp: carve_loop.simps)
  next
    case True
    obtain a sz sc where c: "ushl 1 (trailing_zeros cursor) = Ok a" "sz = min a (e - cursor)" "0 < sz"
        "clog2 sz < 64" "(if is_power_of_two sz then Ok (clog2 sz) else usub (clog2 sz) 1) = Ok sc"
        "2 ^ sc \<le> sz" "sc < 64" "cell_valid 0 sc cursor"
      and cover: "\<forall>b t. cursor \<le> b \<longrightarrow> b < cursor + sz \<longrightarrow> b + 2 ^ t \<le> e \<longrightarrow> 2 ^ t dvd b \<longrightarrow> t \<le> sc"
      by (rule carve_choice [OF less.prems(2) True assms(1)]) blast
    have szle: "sz \<le> e - cursor" using c(2) by simp
    then have "(2::nat) ^ sc \<le> 2 ^ lh" using c(6) less.prems(4) by linarith
    then have sc: "sc < lh + 1" by simp
    have rng: "cell_range 0 sc cursor \<subseteq> {cursor..<cursor + sz}" using c(6) by (auto simp: cell_range_def)
    then have dj: "cell_range 0 sc cursor \<inter> pool_free 0 L = {}" using less.prems(5) szle by fastforce
    obtain s1 where s1: "fl_push_cell s sc cursor = Ok s1" "fl.pool lh s1 (L(sc := cursor # L sc))"
        "pool_free 0 (L(sc := cursor # L sc)) = pool_free 0 L \<union> cell_range 0 sc cursor"
      by (rule fl.push_pool [OF less.prems(1) sc c(8) dj]) blast
    define L1 where "L1 = L(sc := cursor # L sc)"
    have d1: "{cursor + sz..<e} \<inter> pool_free 0 L1 = {}"
      unfolding L1_def s1(3) using less.prems(5) rng by (auto simp: disjoint_iff subset_iff)
    have h: "e - (cursor + sz) < e - cursor" "0 < cursor + sz" "cursor + sz \<le> e" "e - (cursor + sz) \<le> 2 ^ lh"
      using True c(3) szle less.prems(2,4) by linarith+
    obtain s' L' where s': "carve_loop s1 (cursor + sz) e = Ok s'" "carved lh s1 L1 (cursor + sz) e s' L'"
      using less.hyps [OF h(1) s1(2) [folded L1_def] h(2-4) d1] by blast
    have "carved lh s L cursor e s' L'"
      using s'(2) push_fields [OF s1(1)] s1(3) cover rng szle unfolding L1_def by (rule carved_step)
    moreover have "0 < a" using c(2,3) by simp
    then have "carve_loop s cursor e = Ok s'"
      using True c(1,3-8) s1(1) s'(1) szle assms(1) and_mask_eq_mod [of cursor sc]
      by (subst carve_loop.simps)
        (simp add: addr_diff_def fl_size_class_Ok addr_add_def cell_valid_def Let_def c(2) [symmetric])
    ultimately show ?thesis by blast
  qed
qed

definition slow_pages :: "nat \<Rightarrow> usize" where
  "slow_pages sc = (2 ^ sc + (2 ^ 21 - 1)) div 2 ^ 21 * 2"

text \<open>An interval of twice the (rounded up) request contains an aligned block of the request.\<close>

lemma slow_block:
  assumes "sc \<le> 40"
  shows "slow_pages sc * 2 ^ 21 = 2 * 2 ^ max sc 21" and "0 < slow_pages sc"
proof -
  show p: "slow_pages sc * 2 ^ 21 = 2 * 2 ^ max sc 21"
  proof (cases "sc \<le> 21")
    case True
    have "(2::nat) ^ sc \<le> 2 ^ 21" using True by (rule power_increasing) simp
    then have "(2 ^ sc + (2 ^ 21 - 1)) div 2 ^ 21 = (1::nat)"
      by (intro div_nat_eqI) simp_all
    then show ?thesis using True by (simp add: slow_pages_def max_def)
  next
    case False
    then have sp: "(2::nat) ^ sc = 2 ^ (sc - 21) * 2 ^ 21" by (intro pow_split) simp
    have "(2 ^ sc + (2 ^ 21 - 1)) div 2 ^ 21 = (2::nat) ^ (sc - 21)"
      unfolding sp by (subst div_mult_self3) simp_all
    then show ?thesis using False sp by (simp add: slow_pages_def max_def)
  qed
  have "0 < slow_pages sc * 2 ^ 21" unfolding p by simp
  then show "0 < slow_pages sc" by simp
qed

lemma aligned_block_inside:
  fixes a m :: nat
  assumes "0 < m"
  shows "\<exists>b. a \<le> b \<and> b + m \<le> a + 2 * m \<and> m dvd b"
proof (intro exI conjI)
  let ?b = "(a + (m - 1)) div m * m"
  show "a \<le> ?b" by (rule round_up_bounds(1) [OF assms])
  show "?b + m \<le> a + 2 * m" using round_up_bounds(2) [OF assms, of a] by linarith
  show "m dvd ?b" by (rule dvd_triv_right)
qed

section \<open>The contract of the page source\<close>

locale page_source =
  fixes acquire_pages :: "'p acquire_pages"
    and pr_inv :: "'p \<Rightarrow> bool"
    and owned :: "'p \<Rightarrow> address set"
    and avail :: "'p \<Rightarrow> address set"
  assumes owned_avail: "pr_inv p \<Longrightarrow> owned p \<inter> avail p = {}"
    and owned_bound: "pr_inv p \<Longrightarrow> owned p \<subseteq> {a. a + 1 < USIZE_LIMIT}"
    and acquire_Ok: "pr_inv p \<Longrightarrow> 0 < n \<Longrightarrow> n * BYTES Size2M < USIZE_LIMIT
      \<Longrightarrow> acquire_pages Size2M p n = Ok (p', Some (a, e))
      \<Longrightarrow> pr_inv p' \<and> 0 < a \<and> BYTES Size2M dvd a \<and> e = a + n * BYTES Size2M \<and> e < USIZE_LIMIT
        \<and> {a..<e} \<subseteq> avail p \<and> avail p' \<subseteq> avail p - {a..<e} \<and> owned p' = owned p \<union> {a..<e}"
begin

definition heap_inv :: "nat \<Rightarrow> 'p fla \<Rightarrow> (nat \<Rightarrow> address list) \<Rightarrow> bool" where
  "heap_inv lh s L \<longleftrightarrow> fl.pool lh s L \<and> fl_resource s \<and> pr_inv (fl_pr s) \<and> pool_free 0 L \<subseteq> owned (fl_pr s)"

definition got_cell :: "nat \<Rightarrow> 'p fla \<Rightarrow> (nat \<Rightarrow> address list) \<Rightarrow> nat \<Rightarrow> address \<Rightarrow> 'p fla
    \<Rightarrow> (nat \<Rightarrow> address list) \<Rightarrow> bool" where
  "got_cell lh s L sc c s' L' \<longleftrightarrow> heap_inv lh s' L' \<and> fl_retry s' = fl_retry s \<and> cell_valid 0 sc c
    \<and> owned (fl_pr s) \<subseteq> owned (fl_pr s') \<and> cell_range 0 sc c \<subseteq> owned (fl_pr s')
    \<and> pool_free 0 L' \<inter> cell_range 0 sc c = {}
    \<and> cell_range 0 sc c \<inter> (owned (fl_pr s) - pool_free 0 L) = {}
    \<and> pool_free 0 L' \<inter> (owned (fl_pr s) - pool_free 0 L) = {}"

lemma took_got:
  assumes "heap_inv lh s L" and "fl_took lh s L sc c s' L'"
  shows "got_cell lh s L sc c s' L'"
  using assms unfolding heap_inv_def got_cell_def fl_took_def same_fields_def by auto

lemma got_cell_after_grow:
  assumes "got_cell lh (s2\<lparr>fl_retry := True\<rparr>) L2 sc c s3 L3" and "\<not> fl_retry s"
    and own: "owned (fl_pr s) \<subseteq> owned (fl_pr s2)" and new: "pool_free 0 L2 \<inter> (owned (fl_pr s) - pool_free 0 L) = {}"
  shows "got_cell lh s L sc c (s3\<lparr>fl_retry := False\<rparr>) L3"
proof -
  have shrink: "R \<inter> (owned (fl_pr s) - pool_free 0 L) = {}" if "R \<inter> (owned (fl_pr s2) - pool_free 0 L2) = {}" for R
    using that own new by blast
  have "heap_inv lh (s3\<lparr>fl_retry := False\<rparr>) L3"
    using assms(1) by (simp add: got_cell_def heap_inv_def fl.pool_def fl_rep_def)
  then show ?thesis using assms own by (auto simp: got_cell_def intro!: shrink)
qed

lemma grow:
  assumes inv: "heap_inv lh s L" and lh: "lh < 42" and sc: "max sc 21 < lh"
    and acq: "acquire_pages Size2M (fl_pr s) (slow_pages sc) = Ok (p', Some (a, e))"
  shows "\<exists>s2 L2. carve_loop (s\<lparr>fl_pr := p'\<rparr>) a e = Ok s2 \<and> heap_inv lh s2 L2 \<and> fl_retry s2 = fl_retry s
    \<and> (\<exists>k \<ge> sc. L2 k \<noteq> []) \<and> owned (fl_pr s) \<subseteq> owned (fl_pr s2)
    \<and> pool_free 0 L \<subseteq> pool_free 0 L2 \<and> pool_free 0 L2 \<inter> (owned (fl_pr s) - pool_free 0 L) = {}"
proof -
  note sl = slow_block [of sc]
  have i: "fl.pool lh s L" "fl_resource s" "pr_inv (fl_pr s)" "pool_free 0 L \<subseteq> owned (fl_pr s)"
    using inv by (auto simp: heap_inv_def)
  have len: "slow_pages sc * BYTES Size2M = 2 ^ Suc (max sc 21)" using sl(1) sc lh by (simp add: BYTES_def)
  have "(2::nat) ^ Suc (max sc 21) \<le> 2 ^ lh" using sc by (intro power_increasing) auto
  moreover have "(2::nat) ^ lh < USIZE_LIMIT" using lh by (intro pow_less_USIZE_LIMIT) simp
  ultimately have "slow_pages sc * BYTES Size2M < USIZE_LIMIT" unfolding len by linarith
  then have a: "pr_inv p'" "0 < a" "e = a + 2 ^ Suc (max sc 21)" "e < USIZE_LIMIT"
      "{a..<e} \<subseteq> avail (fl_pr s)" "owned p' = owned (fl_pr s) \<union> {a..<e}"
    using acquire_Ok [OF i(3) _ _ acq] sl(2) sc lh unfolding len by auto
  have "{a..<e} \<inter> pool_free 0 L = {}" using a(5) i(4) owned_avail [OF i(3)] by blast
  moreover have "fl.pool lh (s\<lparr>fl_pr := p'\<rparr>) L" using i(1) by (simp add: fl.pool_def fl_rep_def)
  ultimately obtain s2 L2 where s2: "carve_loop (s\<lparr>fl_pr := p'\<rparr>) a e = Ok s2" "carved lh (s\<lparr>fl_pr := p'\<rparr>) L a e s2 L2"
    using carve_loop_Ok [OF a(4), of lh "s\<lparr>fl_pr := p'\<rparr>" L a] a(2,3) lh
      \<open>(2::nat) ^ Suc (max sc 21) \<le> 2 ^ lh\<close> by auto
  obtain b where "a \<le> b" "b + 2 ^ max sc 21 \<le> a + 2 * 2 ^ max sc 21" "2 ^ max sc 21 dvd b"
    using aligned_block_inside [of "2 ^ max sc 21" a] by auto
  then obtain k where "k \<ge> max sc 21" "L2 k \<noteq> []"
    using s2(2) unfolding carved_def a(3) by (metis power_Suc)
  then have k: "\<exists>k \<ge> sc. L2 k \<noteq> []" by (meson max.boundedE)
  have f: "fl_pr s2 = p'" "fl_resource s2" "fl_retry s2 = fl_retry s"
    using s2(2) i(2) by (auto simp: carved_def same_fields_def)
  moreover have sub: "pool_free 0 L \<subseteq> pool_free 0 L2" and "pool_free 0 L2 \<subseteq> pool_free 0 L \<union> {a..<e}" "fl.pool lh s2 L2"
    using s2(2) by (auto simp: carved_def)
  moreover have "{a..<e} \<inter> owned (fl_pr s) = {}" using a(5) owned_avail [OF i(3)] by blast
  ultimately have "heap_inv lh s2 L2" "pool_free 0 L2 \<inter> (owned (fl_pr s) - pool_free 0 L) = {}"
      "owned (fl_pr s) \<subseteq> owned (fl_pr s2)"
    using a(1,6) i(4) unfolding heap_inv_def by blast+
  with s2(1) f(3) k sub show ?thesis by blast
qed

lemma slow_request:
  assumes "sc \<le> 40" and "fl_resource s"
  shows "rbind (ushl 1 sc) (\<lambda>n. rbind (uadd n (PAGE_MASK Size2M)) (\<lambda>n'.
      rbind (ushl (drop_bit (LOG_BYTES Size2M) n') 1) (\<lambda>pages.
      rbind (fl_page_resource s) (\<lambda>p. f p pages)))) = f (fl_pr s) (slow_pages sc)"
proof -
  have "(2::nat) ^ sc \<le> 2 ^ 40" using assms(1) by (rule power_increasing) simp
  then have b: "2 ^ sc + (2 ^ 21 - 1) < USIZE_LIMIT" "(2 ^ sc + (2 ^ 21 - 1)) div 2 ^ 21 * 2 < USIZE_LIMIT"
    by (simp_all add: USIZE_LIMIT_def)
  then show ?thesis using assms
    by (simp add: PAGE_MASK_def BYTES_def drop_bit_eq_div fl_page_resource_def slow_pages_def)
qed

lemma fl_alloc_cell_slow_cases:
  assumes inv: "heap_inv lh s L" and r: "\<not> fl_retry s" and lh: "lh < 42" and sc: "max sc 21 < lh"
  obtains (ok) s' c L' where "fl_alloc_cell_slow lh acquire_pages s sc = Ok (s', c)" and "got_cell lh s L sc c s' L'"
  | (fail) f where "fl_alloc_cell_slow lh acquire_pages s sc = Panic f" and "\<forall>k \<ge> sc. L k = []"
      and "\<not> (\<exists>p' r. acquire_pages Size2M (fl_pr s) (slow_pages sc) = Ok (p', Some r))"
proof -
  have i: "fl.pool lh s L" "fl_resource s" using inv by (auto simp: heap_inv_def)
  have lh64: "lh < 64" and sc40: "sc \<le> 40" using lh sc by auto
  let ?acq = "acquire_pages Size2M (fl_pr s) (slow_pages sc)"
  from fl_alloc_cell_cases [OF i(1) lh64, of sc] show ?thesis
  proof (elim disjE conjE exE)
    fix s' c L'
    assume "fl_alloc_cell lh s sc = Ok (s', Some c)" "fl_took lh s L sc c s' L'"
    then show ?thesis using ok [of s' c L'] took_got [OF inv]
      by (simp add: fl_alloc_cell_slow.simps [of lh acquire_pages s])
  next
    assume n: "\<forall>k \<ge> sc. L k = []" "fl_alloc_cell lh s sc = Ok (s, None)"
    then have step: "fl_alloc_cell_slow lh acquire_pages s sc =
      rbind ?acq (\<lambda>(p', vs). rbind (unwrap vs) (\<lambda>(a, e).
        rbind (carve_loop (s\<lparr>fl_pr := p'\<rparr>) (page_start a) (page_start e)) (\<lambda>s2.
        rbind (fl_alloc_cell_slow lh acquire_pages (s2\<lparr>fl_retry := True\<rparr>) sc) (\<lambda>(s3, x).
        Ok (s3\<lparr>fl_retry := False\<rparr>, x)))))"
      using r slow_request [OF sc40 i(2)] by (subst fl_alloc_cell_slow.simps) simp
    show ?thesis
    proof (cases "\<exists>p' r. ?acq = Ok (p', Some r)")
      case False
      have "\<exists>f. fl_alloc_cell_slow lh acquire_pages s sc = Panic f"
      proof (cases ?acq)
        case (Ok x)
        then have "snd x = None" using False by (cases x; cases "snd x") auto
        then show ?thesis unfolding step using Ok by (cases x) simp
      qed (simp add: step)
      then show ?thesis using fail n(1) False by blast
    next
      case True
      then obtain p' a e where acq: "?acq = Ok (p', Some (a, e))" by force
      obtain s2 L2 where s2: "carve_loop (s\<lparr>fl_pr := p'\<rparr>) a e = Ok s2" "heap_inv lh s2 L2"
          "\<exists>k \<ge> sc. L2 k \<noteq> []" "owned (fl_pr s) \<subseteq> owned (fl_pr s2)" "pool_free 0 L \<subseteq> pool_free 0 L2"
          "pool_free 0 L2 \<inter> (owned (fl_pr s) - pool_free 0 L) = {}"
        using grow [OF inv lh sc acq] by blast
      let ?s2 = "s2\<lparr>fl_retry := True\<rparr>"
      have inv2: "heap_inv lh ?s2 L2" using s2(2) by (simp add: heap_inv_def fl.pool_def fl_rep_def)
      then obtain s3 c L3 where s3: "fl_alloc_cell lh ?s2 sc = Ok (s3, Some c)" "fl_took lh ?s2 L2 sc c s3 L3"
        using fl_alloc_cell_cases [of lh ?s2 L2 sc] lh64 s2(3) by (auto simp: heap_inv_def)
      have "fl_alloc_cell_slow lh acquire_pages s sc = Ok (s3\<lparr>fl_retry := False\<rparr>, c)"
        unfolding step using acq s2(1) s3(1)
        by (simp add: page_start_def fl_alloc_cell_slow.simps [of lh acquire_pages ?s2])
      moreover have "got_cell lh s L sc c (s3\<lparr>fl_retry := False\<rparr>) L3"
        using took_got [OF inv2 s3(2)] s2(4,6) r by (intro got_cell_after_grow) simp_all
      ultimately show ?thesis by (rule ok)
    qed
  qed
qed

lemma fl_alloc_cases:
  assumes inv: "heap_inv lh s L" and r: "\<not> fl_retry s" and lh: "lh < 42"
    and sc: "max (clog2 (fl_cell_size l)) 21 < lh"
  obtains (ok) s' c L' where "fl_alloc lh acquire_pages s l = Ok (s', c)"
      and "got_cell lh s L (clog2 (fl_cell_size l)) c s' L'"
  | (fail) f where "fl_alloc lh acquire_pages s l = Panic f"
      and "\<not> (\<exists>p' r. acquire_pages Size2M (fl_pr s) (slow_pages (clog2 (fl_cell_size l))) = Ok (p', Some r))"
proof -
  let ?sc = "clog2 (fl_cell_size l)"
  have p: "fl.pool lh s L" using inv by (simp add: heap_inv_def)
  have szc: "fl_size_class (fl_cell_size l) = Ok ?sc" using sc lh by (intro fl_size_class_Ok) simp
  have lt: "?sc < lh + 1" using sc by simp
  show ?thesis
  proof (cases "L ?sc")
    case Nil
    then have eq: "fl_alloc lh acquire_pages s l = fl_alloc_cell_slow lh acquire_pages s ?sc"
      using fl.pop_pool_none [OF p lt] szc by (simp add: fl_alloc_def fl_alloc_cell_fast_def)
    show ?thesis
      by (rule fl_alloc_cell_slow_cases [OF inv r lh sc]) (use ok fail eq in auto)
  next
    case (Cons c cs)
    obtain s1 L1 where s1: "fl_pop_cell s ?sc = Ok (s1, Some c)" "fl.pool lh s1 L1" "cell_valid 0 ?sc c"
        "cell_range 0 ?sc c \<subseteq> pool_free 0 L" "pool_free 0 L1 = pool_free 0 L - cell_range 0 ?sc c"
      by (rule fl.pop_pool [OF p lt Cons]) blast
    have "fl_took lh s L ?sc c s1 L1" using s1 pop_fields [OF s1(1)] by (simp add: fl_took_def)
    then have "got_cell lh s L ?sc c s1 L1" by (rule took_got [OF inv])
    moreover have "fl_alloc lh acquire_pages s l = Ok (s1, c)"
      using szc s1(1) by (simp add: fl_alloc_def fl_alloc_cell_fast_def)
    ultimately show ?thesis by (rule ok [rotated])
  qed
qed

definition gave_back :: "nat \<Rightarrow> 'p fla \<Rightarrow> (nat \<Rightarrow> address list) \<Rightarrow> 'p fla \<Rightarrow> (nat \<Rightarrow> address list) \<Rightarrow> bool" where
  "gave_back lh s L s' L' \<longleftrightarrow> heap_inv lh s' L' \<and> fl_retry s' = fl_retry s \<and> pool_free 0 L' \<subseteq> pool_free 0 L
    \<and> owned (fl_pr s) - pool_free 0 L \<subseteq> owned (fl_pr s')"

lemma gave_back_trans: "gave_back lh a A b B \<Longrightarrow> gave_back lh b B c C \<Longrightarrow> gave_back lh a A c C"
  unfolding gave_back_def by blast

lemma gave_back_refl: "heap_inv lh s L \<Longrightarrow> gave_back lh s L s L"
  unfolding gave_back_def by blast

text \<open>Putting a live cell on its list.\<close>

lemma push_live:
  assumes inv: "heap_inv lh s L" and sc: "sc \<le> lh" and v: "cell_valid 0 sc c"
    and own: "cell_range 0 sc c \<subseteq> owned (fl_pr s) - pool_free 0 L"
  obtains s' L' where "fl_push_cell s sc c = Ok s'" and "heap_inv lh s' L'" and "same_fields s s'"
    and "pool_free 0 L' = pool_free 0 L \<union> cell_range 0 sc c"
proof -
  have p: "fl.pool lh s L" using inv by (simp add: heap_inv_def)
  have dj: "cell_range 0 sc c \<inter> pool_free 0 L = {}" using own by blast
  obtain s' L' where s': "fl_push_cell s sc c = Ok s'" "fl.pool lh s' L'"
      "pool_free 0 L' = pool_free 0 L \<union> cell_range 0 sc c"
    by (rule fl.push_pool [OF p _ v dj]) (use sc in auto)
  have "heap_inv lh s' L'"
    using s' inv own push_fields [OF s'(1)] unfolding heap_inv_def same_fields_def by auto
  then show ?thesis using that s' push_fields by blast
qed

definition free_ok :: "nat \<Rightarrow> bool \<Rightarrow> 'p release_pages \<Rightarrow> bool" where
  "free_ok lh b rel \<longleftrightarrow> (\<forall>s L c l. heap_inv lh s L \<longrightarrow> clog2 (fl_cell_size l) \<le> lh
     \<longrightarrow> cell_valid 0 (clog2 (fl_cell_size l)) c
     \<longrightarrow> cell_range 0 (clog2 (fl_cell_size l)) c \<subseteq> owned (fl_pr s) - pool_free 0 L
     \<longrightarrow> (\<exists>s' L'. fl_free lh b rel s c l = Some (Ok s') \<and> heap_inv lh s' L' \<and> fl_retry s' = fl_retry s
           \<and> pool_free 0 L' \<subseteq> pool_free 0 L \<union> cell_range 0 (clog2 (fl_cell_size l)) c
           \<and> owned (fl_pr s) - (pool_free 0 L \<union> cell_range 0 (clog2 (fl_cell_size l)) c) \<subseteq> owned (fl_pr s')))"

lemma free_ok_keep: "lh < 64 \<Longrightarrow> free_ok lh False rel"
  unfolding free_ok_def
proof (intro allI impI)
  fix s L c l
  let ?sc = "clog2 (fl_cell_size l)"
  assume a: "lh < 64" "heap_inv lh s L" "?sc \<le> lh" "cell_valid 0 ?sc c"
    "cell_range 0 ?sc c \<subseteq> owned (fl_pr s) - pool_free 0 L"
  obtain s' L' where s': "fl_push_cell s ?sc c = Ok s'" "heap_inv lh s' L'" "same_fields s s'"
      "pool_free 0 L' = pool_free 0 L \<union> cell_range 0 ?sc c"
    by (rule push_live [OF a(2-5)])
  then have "fl_free lh False rel s c l = Some (Ok s')"
    using a(1,3) by (simp add: fl_free_def fl_size_class_Ok)
  with s' show "\<exists>s' L'. fl_free lh False rel s c l = Some (Ok s') \<and> heap_inv lh s' L' \<and> fl_retry s' = fl_retry s
      \<and> pool_free 0 L' \<subseteq> pool_free 0 L \<union> cell_range 0 ?sc c
      \<and> owned (fl_pr s) - (pool_free 0 L \<union> cell_range 0 ?sc c) \<subseteq> owned (fl_pr s')"
    by (auto simp: same_fields_def)
qed

end

section \<open>Giving large cells back\<close>

locale page_resource = page_source +
  fixes release_pages :: "'a release_pages"
  assumes release_Ok: "pr_inv p \<Longrightarrow> BYTES Size2M dvd a \<Longrightarrow> 0 < n \<Longrightarrow> {a..<a + n * BYTES Size2M} \<subseteq> owned p
      \<Longrightarrow> a + n * BYTES Size2M < USIZE_LIMIT
      \<Longrightarrow> \<exists>p'. release_pages Size2M p a (a + n * BYTES Size2M) = Ok p' \<and> pr_inv p'
        \<and> owned p' = owned p - {a..<a + n * BYTES Size2M} \<and> avail p' \<subseteq> avail p \<union> {a..<a + n * BYTES Size2M}"
begin

lemma drain_one:
  assumes inv: "heap_inv lh s L" and sc: "21 \<le> sc" "sc \<le> lh" "lh < 42" and c: "L sc = c # cs"
  obtains s1 s2 where "fl_pop_cell s sc = Ok (s1, Some c)"
    and "rbind (ushl 1 sc) (\<lambda>n. rbind (page_new Size2M c) (\<lambda>start.
      rbind (page_forward Size2M start (drop_bit (LOG_BYTES Size2M) n)) (\<lambda>e.
      rbind (fl_page_resource s1) (\<lambda>p.
      rbind (release_pages Size2M p start e) (\<lambda>p'. Ok (s1\<lparr>fl_pr := p'\<rparr>)))))) = Ok s2"
    and "gave_back lh s L s2 (L(sc := cs))"
proof -
  have i: "fl.pool lh s L" "fl_resource s" "pr_inv (fl_pr s)" "pool_free 0 L \<subseteq> owned (fl_pr s)"
    using inv by (auto simp: heap_inv_def)
  obtain s1 where s1: "fl_pop_cell s sc = Ok (s1, Some c)" "fl.pool lh s1 (L(sc := cs))" "cell_valid 0 sc c"
      "cell_range 0 sc c \<subseteq> pool_free 0 L" "pool_free 0 (L(sc := cs)) = pool_free 0 L - cell_range 0 sc c"
    by (rule fl.pop_pool [OF i(1) _ c]) (use sc in auto)
  let ?n = "2 ^ (sc - 21) :: nat"
  have len: "?n * BYTES Size2M = 2 ^ sc" using sc(1) pow_split [of 21 sc] by (simp add: BYTES_def)
  have rng: "cell_range 0 sc c = {c..<c + ?n * BYTES Size2M}" unfolding len by (simp add: cell_range_def)
  have "BYTES Size2M dvd 2 ^ sc" unfolding len [symmetric] by simp
  then have al: "BYTES Size2M dvd c" using s1(3) by (auto simp: cell_valid_def dvd_trans)
  have "0 < (2::nat) ^ sc" by simp
  then have "c + 2 ^ sc - 1 \<in> cell_range 0 sc c"
    unfolding cell_range_def atLeastLessThan_iff add_0_right by linarith
  then have "c + 2 ^ sc - 1 \<in> owned (fl_pr s)" using s1(4) i(4) by blast
  then have "c + 2 ^ sc - 1 + 1 < USIZE_LIMIT" using owned_bound [OF i(3)] by blast
  then have lim: "c + ?n * BYTES Size2M < USIZE_LIMIT" unfolding len by simp
  have "{c..<c + ?n * BYTES Size2M} \<subseteq> owned (fl_pr s)" using s1(4) i(4) rng by blast
  then obtain p' where p': "release_pages Size2M (fl_pr s) c (c + ?n * BYTES Size2M) = Ok p'" "pr_inv p'"
      "owned p' = owned (fl_pr s) - cell_range 0 sc c"
    using release_Ok [OF i(3) al _ _ lim] unfolding rng by auto
  have f: "fl_pr s1 = fl_pr s" "fl_resource s1" "fl_retry s1 = fl_retry s"
    using pop_fields [OF s1(1)] i(2) by (auto simp: same_fields_def)
  have "drop_bit 21 (2 ^ sc :: nat) = ?n"
    using sc(1) pow_split [of 21 sc] by (simp add: drop_bit_eq_div)
  then have "rbind (ushl 1 sc) (\<lambda>n. rbind (page_new Size2M c) (\<lambda>start.
      rbind (page_forward Size2M start (drop_bit (LOG_BYTES Size2M) n)) (\<lambda>e.
      rbind (fl_page_resource s1) (\<lambda>p.
      rbind (release_pages Size2M p start e) (\<lambda>p'. Ok (s1\<lparr>fl_pr := p'\<rparr>)))))) = Ok (s1\<lparr>fl_pr := p'\<rparr>)"
    using sc al page_forward_Ok [OF al lim] p'(1) f by (simp add: fl_page_resource_def)
  moreover have "pool_free 0 (L(sc := cs)) \<subseteq> owned p'" unfolding s1(5) p'(3) using i(4) by blast
  then have "heap_inv lh (s1\<lparr>fl_pr := p'\<rparr>) (L(sc := cs))"
    using s1(2) f(2) p'(2) by (simp add: heap_inv_def fl.pool_def fl_rep_def)
  then have "gave_back lh s L (s1\<lparr>fl_pr := p'\<rparr>) (L(sc := cs))"
    unfolding gave_back_def using s1(4,5) f(3) p'(3) by (simp del: fun_upd_apply) blast
  ultimately show ?thesis using that s1(1) by blast
qed

lemma drain_class_Ok:
  assumes "21 \<le> sc" "sc \<le> lh" "lh < 42"
  shows "heap_inv lh s L \<Longrightarrow> \<exists>s'. drain_class release_pages s sc = Some (Ok s') \<and> gave_back lh s L s' (L(sc := []))"
proof (induction "L sc" arbitrary: s L)
  case Nil
  then have "fl_pop_cell s sc = Ok (s, None)"
    using fl.pop_pool_none [of lh s L sc] assms(2) by (simp add: heap_inv_def)
  moreover have "L(sc := []) = L" using Nil.hyps by auto
  ultimately show ?case using gave_back_refl [OF Nil.prems] by (simp add: drain_class.simps)
next
  case (Cons c cs)
  obtain s1 s2 where s12: "fl_pop_cell s sc = Ok (s1, Some c)"
    "rbind (ushl 1 sc) (\<lambda>n. rbind (page_new Size2M c) (\<lambda>start.
      rbind (page_forward Size2M start (drop_bit (LOG_BYTES Size2M) n)) (\<lambda>e.
      rbind (fl_page_resource s1) (\<lambda>p.
      rbind (release_pages Size2M p start e) (\<lambda>p'. Ok (s1\<lparr>fl_pr := p'\<rparr>)))))) = Ok s2"
    "gave_back lh s L s2 (L(sc := cs))"
    by (rule drain_one [OF Cons.prems assms Cons.hyps(2) [symmetric]])
  have "heap_inv lh s2 (L(sc := cs))" using s12(3) by (simp add: gave_back_def)
  then obtain s' where s': "drain_class release_pages s2 sc = Some (Ok s')"
      "gave_back lh s2 (L(sc := cs)) s' (L(sc := []))"
    using Cons.hyps(1) [of "L(sc := cs)" s2] by auto
  have "drain_class release_pages s sc = Some (Ok s')"
    by (subst drain_class.simps) (simp only: s12(1,2) s'(1) res.case prod.case option.case)
  then show ?case using gave_back_trans [OF s12(3) s'(2)] by blast
qed

lemma release_large_loop_Ok:
  assumes "lh < 42"
  shows "21 \<le> sc \<Longrightarrow> heap_inv lh s L
    \<Longrightarrow> \<exists>s' L'. release_large_loop lh release_pages s sc = Some (Ok s') \<and> gave_back lh s L s' L'"
proof (induction "lh + 1 - sc" arbitrary: sc s L)
  case 0
  then show ?case using gave_back_refl by (auto simp: release_large_loop.simps [of lh])
next
  case (Suc n)
  then have sc: "21 \<le> sc" "sc \<le> lh" by auto
  obtain s1 where s1: "drain_class release_pages s sc = Some (Ok s1)" "gave_back lh s L s1 (L(sc := []))"
    using drain_class_Ok [OF sc assms Suc.prems(2)] by blast
  have "n = lh + 1 - (sc + 1)" "21 \<le> sc + 1" using Suc.hyps(2) sc by auto
  moreover have "heap_inv lh s1 (L(sc := []))" using s1(2) by (simp add: gave_back_def)
  ultimately obtain s' L' where "release_large_loop lh release_pages s1 (sc + 1) = Some (Ok s')"
      "gave_back lh s1 (L(sc := [])) s' L'"
    using Suc.hyps(1) by blast
  then show ?case using s1 sc(2) gave_back_trans [OF s1(2)]
    by (subst release_large_loop.simps) auto
qed

lemma free_ok_release:
  assumes "lh < 42"
  shows "free_ok lh True release_pages"
  unfolding free_ok_def
proof (intro allI impI)
  fix s L c l
  let ?sc = "clog2 (fl_cell_size l)"
  assume a: "heap_inv lh s L" "?sc \<le> lh" "cell_valid 0 ?sc c"
    "cell_range 0 ?sc c \<subseteq> owned (fl_pr s) - pool_free 0 L"
  obtain s1 L1 where s1: "fl_push_cell s ?sc c = Ok s1" "heap_inv lh s1 L1" "same_fields s s1"
      "pool_free 0 L1 = pool_free 0 L \<union> cell_range 0 ?sc c"
    by (rule push_live [OF a])
  have "clog2 (2 ^ 21) = 21" by (rule clog2_pow)
  then have c21: "clog2 (BYTES Size2M) = 21" by (simp add: BYTES_def)
  obtain s' L' where s': "release_large_loop lh release_pages s1 21 = Some (Ok s')" "gave_back lh s1 L1 s' L'"
    using release_large_loop_Ok [OF assms _ s1(2), of 21] by auto
  have "fl_free lh True release_pages s c l = Some (Ok s')"
    using s1(1) s'(1) a(2) assms c21
    by (simp add: fl_free_def fl_size_class_Ok release_large_pages_def)
  then show "\<exists>s' L'. fl_free lh True release_pages s c l = Some (Ok s') \<and> heap_inv lh s' L' \<and> fl_retry s' = fl_retry s
      \<and> pool_free 0 L' \<subseteq> pool_free 0 L \<union> cell_range 0 ?sc c
      \<and> owned (fl_pr s) - (pool_free 0 L \<union> cell_range 0 ?sc c) \<subseteq> owned (fl_pr s')"
    using s'(2) s1(3,4) unfolding gave_back_def same_fields_def by auto
qed

end

end
