(* ===== verification/Heap_Runs.thy ===== *)
theory Heap_Runs
  imports Heap_Spec
begin

text \<open>
  Runs of a client of the free-list allocator, and the user-space heap of
  \<^verbatim>\<open>libs/user/src/heap.rs\<close>, whose page source is the \<^verbatim>\<open>sbrk\<close> system call. The kernel side of
  \<^verbatim>\<open>sbrk\<close> (\<^verbatim>\<open>sophon/src/memory/utils.rs\<close>) is modelled here as far as addresses go: it moves the
  process's \<^verbatim>\<open>virtual_memory_highwater\<close>.
\<close>

section \<open>Client runs\<close>

datatype heap_op = HAlloc layout | HFree nat

type_synonym 'p heap_state = "'p fla \<times> (address \<times> layout) list"

type_synonym 'p heap_alloc = "'p fla \<Rightarrow> layout \<Rightarrow> ('p fla \<times> address) res"
type_synonym 'p heap_free = "'p fla \<Rightarrow> address \<Rightarrow> layout \<Rightarrow> 'p fla res option"

fun heap_step :: "'p heap_alloc \<Rightarrow> 'p heap_free \<Rightarrow> heap_op \<Rightarrow> 'p heap_state \<Rightarrow> 'p heap_state res option" where
  "heap_step al fr (HAlloc l) (s, live) =
     (case al s l of
        Panic e \<Rightarrow> Some (Panic e)
      | Ok (s', c) \<Rightarrow> Some (Ok (s', (c, l) # live)))"
| "heap_step al fr (HFree i) (s, live) =
     (case idx live i of
        Panic e \<Rightarrow> Some (Panic e)
      | Ok (c, l) \<Rightarrow>
          (case fr s c l of
             None \<Rightarrow> None
           | Some (Panic e) \<Rightarrow> Some (Panic e)
           | Some (Ok s') \<Rightarrow> Some (Ok (s', take i live @ drop (Suc i) live))))"

fun heap_run :: "'p heap_alloc \<Rightarrow> 'p heap_free \<Rightarrow> heap_op list \<Rightarrow> 'p heap_state \<Rightarrow> 'p heap_state res option" where
  "heap_run al fr [] st = Some (Ok st)"
| "heap_run al fr (c # cs) st =
     (case heap_step al fr c st of
        None \<Rightarrow> None
      | Some (Panic e) \<Rightarrow> Some (Panic e)
      | Some (Ok st') \<Rightarrow> heap_run al fr cs st')"

definition obj_set :: "address \<times> layout \<Rightarrow> address set" where
  "obj_set r = (case r of (c, l) \<Rightarrow> cell_range 0 (clog2 (fl_cell_size l)) c)"

definition layout_ok :: "nat \<Rightarrow> layout \<Rightarrow> bool" where
  "layout_ok lh l \<longleftrightarrow> 0 < lay_size l \<and> is_power_of_two (lay_align l) \<and> max (clog2 (fl_cell_size l)) 21 < lh"

fun heap_op_ok :: "heap_op \<Rightarrow> bool" where
  "heap_op_ok (HAlloc l) \<longleftrightarrow> 0 < lay_size l \<and> is_power_of_two (lay_align l)"
| "heap_op_ok (HFree i) \<longleftrightarrow> True"

text \<open>An entry point to the allocator: it may reject a layout, and otherwise allocates from it.\<close>

definition alloc_entry :: "nat \<Rightarrow> 'p acquire_pages \<Rightarrow> 'p heap_alloc \<Rightarrow> bool" where
  "alloc_entry lh acq al \<longleftrightarrow> (\<forall>s l x. al s l = Ok x \<longrightarrow>
     max (clog2 (fl_cell_size l)) 21 < lh \<and> fl_alloc lh acq s l = Ok x)"

definition obj_ok :: "nat \<Rightarrow> address \<times> layout \<Rightarrow> bool" where
  "obj_ok lh r \<longleftrightarrow> (case r of (c, l) \<Rightarrow> layout_ok lh l \<and> cell_valid 0 (clog2 (fl_cell_size l)) c)"

text \<open>A cell of the size class of a layout is large enough and aligned for it.\<close>

lemma cell_fits_layout:
  assumes "layout_ok lh l" and "cell_valid 0 (clog2 (fl_cell_size l)) c"
  shows "lay_align l dvd c" and "{c..<c + lay_size l} \<subseteq> obj_set (c, l)"
proof -
  obtain k where k: "lay_align l = 2 ^ k" using assms(1) is_power_of_two_iff unfolding layout_ok_def by metis
  let ?p = "(lay_size l + (2 ^ k - 1)) div 2 ^ k * 2 ^ k"
  have pad: "pad_to_align_size l = ?p" by (simp add: pad_to_align_size_def k)
  have ge: "lay_size l \<le> ?p" by (rule round_up_bounds) simp
  then have "0 < ?p" using assms(1) unfolding layout_ok_def by linarith
  then have "2 ^ k \<le> ?p" by (metis dvd_triv_right dvd_imp_le)
  then have "2 ^ k \<le> fl_cell_size l" unfolding fl_cell_size_def pad by (rule max.coboundedI1)
  then have "clog2 (2 ^ k) \<le> clog2 (fl_cell_size l)" by (rule clog2_mono)
  then have "k \<le> clog2 (fl_cell_size l)" by simp
  then have "(2::nat) ^ k dvd 2 ^ (clog2 (fl_cell_size l) + 0)" by (simp add: le_imp_power_dvd)
  then show "lay_align l dvd c" using assms(2) unfolding k cell_valid_def by (meson dvd_trans)
  have "lay_size l \<le> fl_cell_size l" using ge unfolding fl_cell_size_def pad by (rule max.coboundedI1)
  also have "\<dots> \<le> 2 ^ clog2 (fl_cell_size l)" by (rule clog2_le_pow)
  finally show "{c..<c + lay_size l} \<subseteq> obj_set (c, l)" by (auto simp: obj_set_def cell_range_def)
qed

context page_source
begin

definition live_heap :: "nat \<Rightarrow> 'p heap_state \<Rightarrow> bool" where
  "live_heap lh st \<longleftrightarrow> (case st of (s, live) \<Rightarrow> \<not> fl_retry s \<and> apart (map obj_set live)
    \<and> (\<forall>r \<in> set live. obj_ok lh r)
    \<and> (\<exists>L. heap_inv lh s L \<and> (\<forall>r \<in> set live. obj_set r \<subseteq> owned (fl_pr s) - pool_free 0 L)))"

lemma live_heapI:
  assumes "\<not> fl_retry s" "apart (map obj_set live)" "\<forall>r \<in> set live. obj_ok lh r" "heap_inv lh s L"
    and "\<And>r. r \<in> set live \<Longrightarrow> obj_set r \<subseteq> owned (fl_pr s) - pool_free 0 L"
  shows "live_heap lh (s, live)"
  unfolding live_heap_def prod.case using assms by blast

lemma live_heap_alloc:
  assumes "live_heap lh (s, live)" and l: "layout_ok lh l" and lh: "lh < 42"
    and a: "fl_alloc lh acquire_pages s l = Ok (s', c)"
  shows "live_heap lh (s', (c, l) # live)"
proof -
  obtain L where r: "\<not> fl_retry s" and ap: "apart (map obj_set live)" and ok: "\<forall>r \<in> set live. obj_ok lh r"
    and inv: "heap_inv lh s L" and own: "\<forall>r \<in> set live. obj_set r \<subseteq> owned (fl_pr s) - pool_free 0 L"
    using assms(1) by (auto simp: live_heap_def)
  let ?R = "obj_set (c, l)"
  have sc: "max (clog2 (fl_cell_size l)) 21 < lh" using l by (simp add: layout_ok_def)
  obtain L' where "got_cell lh s L (clog2 (fl_cell_size l)) c s' L'"
    by (rule fl_alloc_cases [OF inv r lh sc]) (use a in auto)
  then have g: "heap_inv lh s' L'" "fl_retry s' = fl_retry s" "cell_valid 0 (clog2 (fl_cell_size l)) c"
      "owned (fl_pr s) \<subseteq> owned (fl_pr s')" "?R \<subseteq> owned (fl_pr s')" "pool_free 0 L' \<inter> ?R = {}"
      "?R \<inter> (owned (fl_pr s) - pool_free 0 L) = {}"
      "pool_free 0 L' \<inter> (owned (fl_pr s) - pool_free 0 L) = {}"
    by (auto simp: got_cell_def obj_set_def)
  have "apart (map obj_set ((c, l) # live))" using ap own g(7) by fastforce
  moreover have new: "obj_set r \<subseteq> owned (fl_pr s') - pool_free 0 L'" if "r \<in> set ((c, l) # live)" for r
  proof (cases "r = (c, l)")
    case True
    then show ?thesis using g(5,6) by auto
  next
    case False
    then have "obj_set r \<subseteq> owned (fl_pr s) - pool_free 0 L" using that own by auto
    then show ?thesis using g(4,8) by blast
  qed
  moreover have "\<forall>r \<in> set ((c, l) # live). obj_ok lh r" using ok l g(3) by (simp add: obj_ok_def)
  ultimately show ?thesis using r g(1,2) new by (intro live_heapI) simp_all
qed

lemma live_heap_free:
  assumes "live_heap lh (s, live)" and f: "free_ok lh b rel" and i: "i < length live" "live ! i = (c, l)"
  shows "\<exists>s'. fl_free lh b rel s c l = Some (Ok s') \<and> live_heap lh (s', take i live @ drop (Suc i) live)"
proof -
  obtain L where r: "\<not> fl_retry s" and ap: "apart (map obj_set live)" and ok: "\<forall>r \<in> set live. obj_ok lh r"
    and inv: "heap_inv lh s L" and own: "\<forall>r \<in> set live. obj_set r \<subseteq> owned (fl_pr s) - pool_free 0 L"
    using assms(1) by (auto simp: live_heap_def)
  let ?rest = "take i live @ drop (Suc i) live" and ?R = "obj_set (c, l)"
  have ap': "apart (map obj_set ?rest)" and dj: "\<forall>r \<in> set ?rest. ?R \<inter> obj_set r = {}"
    and sub: "set live = insert (c, l) (set ?rest)"
    using apart_remove [OF ap i(1)] unfolding i(2) by auto
  have "obj_ok lh (c, l)" using ok sub by blast
  then have "clog2 (fl_cell_size l) \<le> lh" "cell_valid 0 (clog2 (fl_cell_size l)) c"
    by (auto simp: obj_ok_def layout_ok_def)
  moreover have "cell_range 0 (clog2 (fl_cell_size l)) c \<subseteq> owned (fl_pr s) - pool_free 0 L"
    using own sub by (auto simp: obj_set_def)
  ultimately obtain s' L' where s': "fl_free lh b rel s c l = Some (Ok s')" "heap_inv lh s' L'" "fl_retry s' = fl_retry s"
      "pool_free 0 L' \<subseteq> pool_free 0 L \<union> ?R" "owned (fl_pr s) - (pool_free 0 L \<union> ?R) \<subseteq> owned (fl_pr s')"
    using f inv unfolding free_ok_def by (fastforce simp: obj_set_def)
  have new: "obj_set r \<subseteq> owned (fl_pr s') - pool_free 0 L'" if "r \<in> set ?rest" for r
  proof -
    have "obj_set r \<subseteq> owned (fl_pr s) - pool_free 0 L" "?R \<inter> obj_set r = {}" using that own sub dj by auto
    then show ?thesis using s'(4,5) by blast
  qed
  have "\<forall>r \<in> set ?rest. obj_ok lh r" using ok sub by auto
  then have "live_heap lh (s', ?rest)" using r ap' s'(2,3) new by (intro live_heapI) simp_all
  with s'(1) show ?thesis by blast
qed

lemma heap_run_ok:
  assumes f: "free_ok lh b rel" and al: "alloc_entry lh acquire_pages al" and lh: "lh < 42"
  shows "live_heap lh st \<Longrightarrow> list_all heap_op_ok cs \<Longrightarrow>
    (\<exists>e. heap_run al (fl_free lh b rel) cs st = Some (Panic e))
    \<or> (\<exists>st'. heap_run al (fl_free lh b rel) cs st = Some (Ok st') \<and> live_heap lh st')"
proof (induction cs arbitrary: st)
  case (Cons c cs)
  obtain s live where st: "st = (s, live)" by (cases st)
  have "(\<exists>e. heap_step al (fl_free lh b rel) c st = Some (Panic e))
    \<or> (\<exists>st'. heap_step al (fl_free lh b rel) c st = Some (Ok st') \<and> live_heap lh st')"
  proof (cases c)
    case (HAlloc l)
    show ?thesis
    proof (cases "al s l")
      case (Ok x)
      then have "max (clog2 (fl_cell_size l)) 21 < lh" "fl_alloc lh acquire_pages s l = Ok x"
        using al unfolding alloc_entry_def by blast+
      moreover have "layout_ok lh l" using Cons.prems(2) HAlloc calculation(1) by (simp add: layout_ok_def)
      ultimately show ?thesis
        using live_heap_alloc [of lh s live l] Cons.prems(1) lh Ok HAlloc unfolding st by (cases x) auto
    qed (simp add: HAlloc st)
  next
    case (HFree i)
    then show ?thesis
      using live_heap_free [of lh s live b rel i] Cons.prems f unfolding st
      by (cases "i < length live"; cases "live ! i") auto
  qed
  then show ?case
  proof (elim disjE exE conjE)
    fix st'
    assume "heap_step al (fl_free lh b rel) c st = Some (Ok st')" "live_heap lh st'"
    then show ?thesis using Cons.IH [of st'] Cons.prems by simp
  qed simp
qed simp

end

section \<open>The user heap\<close>

definition USER_SPACE_START :: address where
  "USER_SPACE_START = 0x100000000000"

text \<open>The address part of the kernel's \<^verbatim>\<open>sbrk\<close>: \<^verbatim>\<open>fetch_update\<close> stores the new mark and yields
  the old one.\<close>

definition sbrk_range :: "address \<Rightarrow> usize \<Rightarrow> (address \<times> page \<times> page) res" where
  "sbrk_range highwater num_pages =
     rbind (align_up highwater (BYTES Size4K)) (\<lambda>old_aligned.
     rbind (ushl num_pages (LOG_BYTES Size4K)) (\<lambda>d.
     rbind (addr_add old_aligned d) (\<lambda>highwater'.
     rbind (align_up highwater (BYTES Size4K)) (\<lambda>a.
     rbind (page_new Size4K a) (\<lambda>start.
     rbind (page_forward Size4K start num_pages) (\<lambda>e.
     rbind (rassert (highwater = page_start start)) (\<lambda>_.
     Ok (highwater', start, e))))))))"

definition user_sbrk :: "address \<Rightarrow> usize \<Rightarrow> (address \<times> address option) res" where
  "user_sbrk highwater n =
     rbind (sbrk_range highwater (drop_bit (LOG_BYTES Size4K) n)) (\<lambda>(highwater', start, _).
     let r = to_isize (page_start start) in
     Ok (highwater', if r \<le> 0 then None else Some (of_isize r)))"

definition user_acquire_pages :: "address acquire_pages" where
  "user_acquire_pages S highwater pages =
     rbind (ushl pages (LOG_BYTES S)) (\<lambda>n.
     rbind (user_sbrk highwater n) (\<lambda>(highwater', r).
     case r of
       None \<Rightarrow> Ok (highwater', None)
     | Some addr \<Rightarrow>
         rbind (is_aligned_to addr (BYTES S)) (\<lambda>b.
         rbind (rassert b) (\<lambda>_.
         rbind (page_new S addr) (\<lambda>start.
         rbind (page_forward S start pages) (\<lambda>e.
         Ok (highwater', Some (start, e))))))))"

definition user_release_pages :: "address release_pages" where
  "user_release_pages S highwater a e = Panic Unimplemented"

definition USER_LOG_HEAP_SIZE :: nat where
  "USER_LOG_HEAP_SIZE = LOG_BYTES Size1G + 1"

definition user_heap_new :: "memory \<Rightarrow> address \<Rightarrow> address fla" where
  "user_heap_new m highwater = fl_init (fl_new USER_LOG_HEAP_SIZE m highwater)"

definition user_heap_alloc :: "address heap_alloc" where
  "user_heap_alloc s l =
     rbind (rassert (pad_to_align_size l \<le> BYTES Size1G)) (\<lambda>_.
     fl_alloc USER_LOG_HEAP_SIZE user_acquire_pages s l)"

definition user_heap_dealloc :: "address heap_free" where
  "user_heap_dealloc = fl_free USER_LOG_HEAP_SIZE False user_release_pages"

section \<open>The user heap draws disjoint pages\<close>

definition user_inv :: "address \<Rightarrow> bool" where
  "user_inv hw \<longleftrightarrow> USER_SPACE_START \<le> hw \<and> BYTES Size2M dvd hw \<and> hw < USIZE_LIMIT"

definition user_owned :: "address \<Rightarrow> address set" where
  "user_owned hw = {USER_SPACE_START..<hw}"

definition user_avail :: "address \<Rightarrow> address set" where
  "user_avail hw = {hw..}"

lemma align_up_4096:
  assumes "4096 dvd hw" and "hw < USIZE_LIMIT"
  shows "align_up hw 4096 = Ok hw"
proof -
  obtain q where q: "hw = 4096 * q" using assms(1) by (rule dvdE)
  then have "hw + (2 ^ 12 - 1) < USIZE_LIMIT" using assms(2) by (simp add: USIZE_LIMIT_def)
  then have "align_up hw (2 ^ 12) = Ok ((hw + (2 ^ 12 - 1)) div 2 ^ 12 * 2 ^ 12)" by (rule align_up_pow) simp
  moreover have "(hw + (2 ^ 12 - 1)) div 2 ^ 12 * 2 ^ 12 = hw" unfolding q by (simp add: div_mult_self4)
  ultimately show ?thesis by simp
qed

lemma sbrk_range_eq:
  assumes "4096 dvd hw" and "hw < USIZE_LIMIT" and "n * 4096 < USIZE_LIMIT"
  shows "sbrk_range hw n = (if hw + n * 4096 < USIZE_LIMIT then Ok (hw + n * 4096, hw, hw + n * 4096)
    else Panic Overflow)"
  using assms align_up_4096 [OF assms(1,2)] page_forward_Ok [of Size4K hw n]
  by (simp add: sbrk_range_def BYTES_def addr_add_def page_start_def)

lemma user_acquire_eq:
  assumes inv: "user_inv hw" and n: "n * BYTES Size2M < USIZE_LIMIT"
  shows "user_acquire_pages Size2M hw n =
    (if hw + n * BYTES Size2M < USIZE_LIMIT
     then Ok (hw + n * BYTES Size2M, if to_isize hw \<le> 0 then None else Some (hw, hw + n * BYTES Size2M))
     else Panic Overflow)"
proof -
  have hw: "BYTES Size2M dvd hw" "hw < USIZE_LIMIT" using inv by (auto simp: user_inv_def)
  have "4096 dvd BYTES Size2M" by (simp add: BYTES_def dvd_eq_mod_eq_0)
  then have hw4: "4096 dvd hw" using hw(1) by (rule dvd_trans)
  let ?m = "n * 512"
  have m: "?m * 4096 = n * BYTES Size2M" by (simp add: BYTES_def)
  have sh: "ushl n (LOG_BYTES Size2M) = Ok (n * BYTES Size2M)" using n by (rule ushl_page)
  have db: "drop_bit 12 (n * BYTES Size2M) = ?m" by (simp add: drop_bit_eq_div BYTES_def)
  have r: "sbrk_range hw ?m = (if hw + n * BYTES Size2M < USIZE_LIMIT
      then Ok (hw + n * BYTES Size2M, hw, hw + n * BYTES Size2M) else Panic Overflow)"
    using sbrk_range_eq [OF hw4 hw(2), of ?m] n unfolding m by simp
  show ?thesis
  proof (cases "hw + n * BYTES Size2M < USIZE_LIMIT")
    case True
    have al: "is_aligned_to x (BYTES Size2M) = Ok (BYTES Size2M dvd x)" for x
      using is_aligned_to_pow [of x 21] by (simp add: BYTES_def)
    have "of_isize (to_isize hw) = hw"
      using hw(2) by (simp add: of_isize_def to_isize_def USIZE_LIMIT_def nat_mod_as_int)
    then have "user_sbrk hw (n * BYTES Size2M)
        = Ok (hw + n * BYTES Size2M, if to_isize hw \<le> 0 then None else Some hw)"
      using True by (simp add: user_sbrk_def db r page_start_def)
    with sh True hw show ?thesis by (simp add: user_acquire_pages_def al page_forward_Ok)
  next
    case False
    then show ?thesis using sh by (simp add: user_acquire_pages_def user_sbrk_def db r)
  qed
qed

interpretation user: page_source user_acquire_pages user_inv user_owned user_avail
proof unfold_locales
  fix p
  assume "user_inv p"
  then show "user_owned p \<inter> user_avail p = {}" "user_owned p \<subseteq> {a. a + 1 < USIZE_LIMIT}"
    by (auto simp: user_owned_def user_avail_def user_inv_def)
next
  fix p n p' a e
  assume inv: "user_inv p" and n: "0 < n" "n * BYTES Size2M < USIZE_LIMIT"
    and acq: "user_acquire_pages Size2M p n = Ok (p', Some (a, e))"
  have u: "p' = p + n * BYTES Size2M" "a = p" "e = p + n * BYTES Size2M" "p + n * BYTES Size2M < USIZE_LIMIT"
    using acq user_acquire_eq [OF inv n(2)] by (auto split: if_splits)
  have "BYTES Size2M dvd p + n * BYTES Size2M" using inv by (simp add: user_inv_def)
  then show "user_inv p' \<and> 0 < a \<and> BYTES Size2M dvd a \<and> e = a + n * BYTES Size2M \<and> e < USIZE_LIMIT
      \<and> {a..<e} \<subseteq> user_avail p \<and> user_avail p' \<subseteq> user_avail p - {a..<e} \<and> user_owned p' = user_owned p \<union> {a..<e}"
    using u inv by (auto simp: user_inv_def user_owned_def user_avail_def USER_SPACE_START_def)
qed

lemma user_alloc_entry: "alloc_entry USER_LOG_HEAP_SIZE user_acquire_pages user_heap_alloc"
  unfolding alloc_entry_def
proof (intro allI impI)
  fix s l x
  assume a: "user_heap_alloc s l = Ok x"
  then have "pad_to_align_size l \<le> BYTES Size1G" by (auto simp: user_heap_alloc_def rbind_Ok_iff)
  then have "fl_cell_size l \<le> 2 ^ 30" by (simp add: fl_cell_size_def BYTES_def MIN_SIZE_def)
  then have "clog2 (fl_cell_size l) \<le> 30" by (rule clog2_least)
  with a show "max (clog2 (fl_cell_size l)) 21 < USER_LOG_HEAP_SIZE
      \<and> fl_alloc USER_LOG_HEAP_SIZE user_acquire_pages s l = Ok x"
    by (auto simp: user_heap_alloc_def rbind_Ok_iff USER_LOG_HEAP_SIZE_def)
qed

lemma fl_new_pool: "fl.pool lh (fl_init (fl_new lh m p)) (\<lambda>_. [])" "pool_free 0 (\<lambda>_. []) = {}"
  by (auto simp: fl.pool_def fl_rep_def lists_rep_def fl_new_def fl_init_def pool_ok_def pool_free_def
      USIZE_LIMIT_def nth_append simp del: replicate_Suc)

lemma user_start: "user.live_heap USER_LOG_HEAP_SIZE (user_heap_new m USER_SPACE_START, [])"
proof (rule user.live_heapI)
  show "user.heap_inv USER_LOG_HEAP_SIZE (user_heap_new m USER_SPACE_START) (\<lambda>_. [])"
    using fl_new_pool(1) [of USER_LOG_HEAP_SIZE m USER_SPACE_START] fl_new_pool(2) unfolding user_heap_new_def user.heap_inv_def
    by (simp add: fl_init_def fl_new_def user_inv_def USER_SPACE_START_def BYTES_def USIZE_LIMIT_def dvd_eq_mod_eq_0)
qed (simp_all add: user_heap_new_def fl_init_def fl_new_def)

lemma user_run:
  assumes "list_all heap_op_ok cs"
  shows "(\<exists>f. heap_run user_heap_alloc user_heap_dealloc cs (user_heap_new m USER_SPACE_START, []) = Some (Panic f))
    \<or> (\<exists>st. heap_run user_heap_alloc user_heap_dealloc cs (user_heap_new m USER_SPACE_START, []) = Some (Ok st)
        \<and> user.live_heap USER_LOG_HEAP_SIZE st)"
  unfolding user_heap_dealloc_def
  by (rule user.heap_run_ok [OF user.free_ok_keep user_alloc_entry _ user_start assms])
    (simp_all add: USER_LOG_HEAP_SIZE_def)

section \<open>Properties\<close>

text \<open>C6: memory safety of the user heap. Every sequence of allocations (of layouts with a positive
  size and a power-of-two alignment) and deallocations of live objects terminates; unless it
  panics (the size assertion, an exhausted address space, or an index the caller made up), the live
  objects are aligned as requested, have room for their size, lie in memory obtained from \<^verbatim>\<open>sbrk\<close>,
  and do not overlap.\<close>

theorem user_heap_runs_safe:
  assumes "list_all heap_op_ok cs"
  shows "(\<exists>f. heap_run user_heap_alloc user_heap_dealloc cs (user_heap_new m USER_SPACE_START, []) = Some (Panic f))
    \<or> (\<exists>s live. heap_run user_heap_alloc user_heap_dealloc cs (user_heap_new m USER_SPACE_START, [])
          = Some (Ok (s, live))
        \<and> apart (map obj_set live)
        \<and> (\<forall>(c, l) \<in> set live. lay_align l dvd c \<and> {c..<c + lay_size l} \<subseteq> obj_set (c, l)
             \<and> obj_set (c, l) \<subseteq> {USER_SPACE_START..<fl_pr s}))"
proof -
  from user_run [OF assms, of m] show ?thesis
  proof (elim disjE exE conjE)
    fix st
    assume st: "heap_run user_heap_alloc user_heap_dealloc cs (user_heap_new m USER_SPACE_START, []) = Some (Ok st)"
      and l: "user.live_heap USER_LOG_HEAP_SIZE st"
    obtain s live where sl: "st = (s, live)" by (cases st)
    have "apart (map obj_set live)" and ok: "\<forall>r \<in> set live. obj_ok USER_LOG_HEAP_SIZE r"
      and own: "\<forall>r \<in> set live. obj_set r \<subseteq> user_owned (fl_pr s)"
      using l unfolding user.live_heap_def sl by auto
    moreover have "lay_align l dvd c \<and> {c..<c + lay_size l} \<subseteq> obj_set (c, l)" if "(c, l) \<in> set live" for c l
      using cell_fits_layout ok that unfolding obj_ok_def by fastforce
    ultimately have "\<forall>(c, l) \<in> set live. lay_align l dvd c \<and> {c..<c + lay_size l} \<subseteq> obj_set (c, l)
        \<and> obj_set (c, l) \<subseteq> {USER_SPACE_START..<fl_pr s}"
      unfolding user_owned_def by blast
    then show ?thesis using st sl \<open>apart (map obj_set live)\<close> by blast
  qed simp
qed

theorem user_heap_runs_safe_witness:
  "(\<exists>f. heap_run user_heap_alloc user_heap_dealloc
      [HAlloc \<lparr>lay_size = 24, lay_align = 8\<rparr>, HAlloc \<lparr>lay_size = 4096, lay_align = 64\<rparr>, HFree 1]
      (user_heap_new (\<lambda>_. 0) USER_SPACE_START, []) = Some (Panic f))
    \<or> (\<exists>s live. heap_run user_heap_alloc user_heap_dealloc
        [HAlloc \<lparr>lay_size = 24, lay_align = 8\<rparr>, HAlloc \<lparr>lay_size = 4096, lay_align = 64\<rparr>, HFree 1]
        (user_heap_new (\<lambda>_. 0) USER_SPACE_START, []) = Some (Ok (s, live))
        \<and> apart (map obj_set live)
        \<and> (\<forall>(c, l) \<in> set live. lay_align l dvd c \<and> {c..<c + lay_size l} \<subseteq> obj_set (c, l)
             \<and> obj_set (c, l) \<subseteq> {USER_SPACE_START..<fl_pr s}))"
  by (rule user_heap_runs_safe) (simp, code_simp)



end
