(* ===== verification/Kernel_Memory.thy ===== *)
theory Kernel_Memory
  imports Virtual_Memory Page_Ranges Heap_Runs Interrupts
begin

text \<open>
  The kernel's memory manager, \<^verbatim>\<open>sophon/src/memory\<close>: physical memory behind its address-space guard,
  the mapper of the kernel page table, and the kernel heap as a page resource: virtual pages from the
  bitmap allocator, each backed by a physical frame. The state is the record \<open>kernel\<close>, one field per
  global of the code; \<open>k_table\<close> is the pointer in \<^verbatim>\<open>KERNEL_MEMORY_MAPPER\<close>.
\<close>

section \<open>Constants and state\<close>

definition LOG_KERNEL_HEAP_SIZE :: nat where
  "LOG_KERNEL_HEAP_SIZE = 38"

definition KERNEL_HEAP_SIZE :: usize where
  "KERNEL_HEAP_SIZE = 2 ^ LOG_KERNEL_HEAP_SIZE"

definition KERNEL_MEMORY_START :: address where
  "KERNEL_MEMORY_START = 0xff0000000000"

definition KERNEL_MEMORY_END :: address where
  "KERNEL_MEMORY_END = 0xff8000000000"

definition KERNEL_HEAP_START :: address where
  "KERNEL_HEAP_START = KERNEL_MEMORY_END - KERNEL_HEAP_SIZE"

definition KERNEL_HEAP_END :: address where
  "KERNEL_HEAP_END = KERNEL_MEMORY_END"

definition KERNEL_STACK_PAGES :: usize where
  "KERNEL_STACK_PAGES = 8"

definition KERNEL_STACK_SIZE :: usize where
  "KERNEL_STACK_SIZE = KERNEL_STACK_PAGES * 2 ^ LOG_BYTES Size4K"

record kernel =
  k_phys :: phys
  k_cpu :: cpu
  k_table :: address
  k_virt :: bitmap

definition k_mem :: "kernel \<Rightarrow> memory" where
  "k_mem s = ph_mem (k_phys s)"

definition k_put :: "kernel \<Rightarrow> memory \<Rightarrow> kernel" where
  "k_put s m = s\<lparr>k_phys := (k_phys s)\<lparr>ph_mem := m\<rparr>\<rparr>"

section \<open>Address-space guard and physical memory\<close>

definition mapper_init :: "kernel \<Rightarrow> kernel" where
  "mapper_init s = s\<lparr>k_table := table_get (k_cpu s)\<rparr>"

definition with_kernel_address_space :: "kernel \<Rightarrow> (page_tables_guard \<times> kernel) res" where
  "with_kernel_address_space s =
     rbind (rassert (k_table s \<noteq> 0)) (\<lambda>_.
     rbind (enable_temporarily (k_table s) (k_cpu s)) (\<lambda>(g, c). Ok (g, s\<lparr>k_cpu := c\<rparr>)))"

definition drop_guard :: "page_tables_guard \<Rightarrow> kernel \<Rightarrow> kernel" where
  "drop_guard g s = s\<lparr>k_cpu := page_tables_drop g (k_cpu s)\<rparr>"

definition phys_init :: "kernel \<Rightarrow> (frame \<times> frame) list \<Rightarrow> kernel res" where
  "phys_init s frames = rbind (ppr_init (k_phys s) frames) (\<lambda>p. Ok (mapper_init (s\<lparr>k_phys := p\<rparr>)))"

text \<open>The guard of the address space is a local of the function and is dropped before the temporary
  that holds the lock.\<close>

definition phys_acquire :: "page_size \<Rightarrow> kernel \<Rightarrow> (kernel \<times> frame option) res" where
  "phys_acquire S s =
     rbind (with_kernel_address_space s) (\<lambda>(g, s1).
     let u = uninterruptible_lock (k_cpu s1) in
     rbind (ppr_acquire S (k_phys s1)) (\<lambda>(p, r).
     let s2 = drop_guard g (s1\<lparr>k_phys := p\<rparr>) in
     Ok (s2\<lparr>k_cpu := uninterruptible_unlock (fst u) (k_cpu s2)\<rparr>, r)))"

definition phys_release :: "page_size \<Rightarrow> kernel \<Rightarrow> frame \<Rightarrow> kernel res" where
  "phys_release S s frame =
     rbind (with_kernel_address_space s) (\<lambda>(g, s1).
     let u = uninterruptible_lock (k_cpu s1) in
     rbind (ppr_release S (k_phys s1) frame) (\<lambda>p.
     let s2 = drop_guard g (s1\<lparr>k_phys := p\<rparr>) in
     Ok (s2\<lparr>k_cpu := uninterruptible_unlock (fst u) (k_cpu s2)\<rparr>)))"

section \<open>The mapper\<close>

definition in_kernel_heap :: "page \<Rightarrow> bool" where
  "in_kernel_heap page \<longleftrightarrow> KERNEL_HEAP_START \<le> page_start page \<and> page_start page < KERNEL_HEAP_END"

definition mapper_map :: "page_size \<Rightarrow> kernel \<Rightarrow> page \<Rightarrow> frame \<Rightarrow> page_flags \<Rightarrow> kernel res" where
  "mapper_map S s page frame flags =
     rbind (rassert (in_kernel_heap page)) (\<lambda>_.
     rbind (with_kernel_address_space s) (\<lambda>(g, s1).
     rbind (pt_map phys_acquire k_mem k_put S s1 (page_start (pg_new g)) page frame flags) (\<lambda>(s2, _).
     Ok (drop_guard g s2))))"

definition mapper_unmap :: "page_size \<Rightarrow> kernel \<Rightarrow> page \<Rightarrow> kernel res" where
  "mapper_unmap S s page =
     rbind (rassert (in_kernel_heap page)) (\<lambda>_.
     rbind (with_kernel_address_space s) (\<lambda>(g, s1).
     rbind (pt_unmap phys_release k_mem k_put S s1 (page_start (pg_new g)) page) (\<lambda>s2.
     Ok (drop_guard g s2))))"

definition mapper_translate :: "kernel \<Rightarrow> address \<Rightarrow> (kernel \<times> address option) res" where
  "mapper_translate s v =
     rbind (with_kernel_address_space s) (\<lambda>(g, s1).
     rbind (pt_translate (k_mem s1) (page_start (pg_new g)) v) (\<lambda>r.
     Ok (drop_guard g s1, r)))"

section \<open>The kernel heap\<close>

definition virtual_allocate :: "page_size \<Rightarrow> kernel \<Rightarrow> usize \<Rightarrow> (kernel \<times> page \<times> page) res" where
  "virtual_allocate S s pages =
     rbind (bm_acquire LOG_KERNEL_HEAP_SIZE S (k_virt s) pages) (\<lambda>(v, r). Ok (s\<lparr>k_virt := v\<rparr>, r))"

definition virtual_release :: "page_size \<Rightarrow> kernel \<Rightarrow> page \<Rightarrow> page \<Rightarrow> kernel res" where
  "virtual_release S s start e =
     rbind (bm_release LOG_KERNEL_HEAP_SIZE S (k_virt s) start e) (\<lambda>v. Ok (s\<lparr>k_virt := v\<rparr>))"

text \<open>The loop over \<^verbatim>\<open>i in 0..pages\<close>; the last argument counts the iterations left.\<close>

fun back_pages :: "page_size \<Rightarrow> kernel \<Rightarrow> page \<Rightarrow> usize \<Rightarrow> nat \<Rightarrow> kernel res" where
  "back_pages S s start i 0 = Ok s"
| "back_pages S s start i (Suc n) =
     rbind (phys_acquire S s) (\<lambda>(s1, r).
     rbind (unwrap r) (\<lambda>frame.
     rbind (page_forward S start i) (\<lambda>page.
     rbind (mapper_map S s1 page frame (kernel_data_flags S)) (\<lambda>s2.
     back_pages S s2 start (i + 1) n))))"

definition kh_acquire_pages :: "kernel acquire_pages" where
  "kh_acquire_pages S s pages =
     rbind (virtual_allocate S s pages) (\<lambda>(s1, start, e).
     rbind (back_pages S s1 start 0 pages) (\<lambda>s2.
     Ok (s2, Some (start, e))))"

definition release_page :: "page_size \<Rightarrow> kernel \<Rightarrow> page \<Rightarrow> kernel res" where
  "release_page S s page =
     rbind (mapper_translate s (page_start page)) (\<lambda>(s1, r).
     rbind (unwrap r) (\<lambda>a.
     rbind (page_new S a) (\<lambda>frame.
     rbind (mapper_unmap S s1 page) (\<lambda>s2.
     phys_release S s2 frame))))"

lemma page_forward_greater: "page_forward S p 1 = Ok q \<Longrightarrow> p < q"
  by (auto simp: page_forward_def page_forward_checked_def rbind_Ok_iff uadd_Ok_iff ushl_Ok_iff page_new_Ok_iff
      page_start_def pow_less_USIZE_LIMIT)

text \<open>Iterating over \<^verbatim>\<open>start..end\<close>: the iterator steps forward before the body runs.\<close>

function kh_release_pages :: "kernel release_pages" where
  "kh_release_pages S s start e =
     (if start < e then
        rbind (page_forward S start 1) (\<lambda>next.
        rbind (release_page S s start) (\<lambda>s'.
        kh_release_pages S s' next e))
      else Ok s)"
  by pat_completeness auto

termination
  by (relation "measure (\<lambda>(S, s, start, e). e - start)") (auto dest!: page_forward_greater [simplified] intro: diff_less_mono2)

definition KERNEL_LOG_HEAP_SIZE :: nat where
  "KERNEL_LOG_HEAP_SIZE = LOG_BYTES Size2M + 1"

definition large_pages :: "layout \<Rightarrow> usize res" where
  "large_pages l = rbind (uadd (pad_to_align_size l) (PAGE_MASK Size2M)) (\<lambda>n. Ok (drop_bit (LOG_BYTES Size2M) n))"

definition alloc_large :: "kernel \<Rightarrow> layout \<Rightarrow> (kernel \<times> address) res" where
  "alloc_large s l =
     rbind (large_pages l) (\<lambda>pages.
     rbind (kh_acquire_pages Size2M s pages) (\<lambda>(s', r).
     Ok (s', case r of None \<Rightarrow> 0 | Some (start, e) \<Rightarrow> page_start start)))"

definition dealloc_large :: "kernel \<Rightarrow> address \<Rightarrow> layout \<Rightarrow> kernel res" where
  "dealloc_large s ptr l =
     rbind (large_pages l) (\<lambda>pages.
     rbind (page_containing Size2M ptr) (\<lambda>start.
     rbind (page_forward Size2M start pages) (\<lambda>e.
     kh_release_pages Size2M s start e)))"

definition kernel_heap_init :: "memory \<Rightarrow> kernel \<Rightarrow> kernel fla res" where
  "kernel_heap_init m s =
     rbind (bm_init LOG_KERNEL_HEAP_SIZE (k_virt s) KERNEL_HEAP_START) (\<lambda>v.
     Ok (fl_init (fl_new KERNEL_LOG_HEAP_SIZE m (s\<lparr>k_virt := v\<rparr>))))"

text \<open>The lock of the free-list allocator is taken with \<^verbatim>\<open>lock_uninterruptible\<close>; dropping its guard
  restores the interrupt flag of the processor.\<close>

definition heap_unlock :: "bool \<Rightarrow> kernel fla \<Rightarrow> kernel fla" where
  "heap_unlock u s = s\<lparr>fl_pr := (fl_pr s)\<lparr>k_cpu := uninterruptible_unlock u (k_cpu (fl_pr s))\<rparr>\<rparr>"

definition kernel_alloc :: "kernel heap_alloc" where
  "kernel_alloc s l =
     (if pad_to_align_size l < BYTES Size2M then
        let (u, c) = uninterruptible_lock (k_cpu (fl_pr s)) in
        rbind (fl_alloc KERNEL_LOG_HEAP_SIZE kh_acquire_pages (s\<lparr>fl_pr := (fl_pr s)\<lparr>k_cpu := c\<rparr>\<rparr>) l) (\<lambda>(s', a).
        Ok (heap_unlock u s', a))
      else rbind (alloc_large (fl_pr s) l) (\<lambda>(k, a). Ok (s\<lparr>fl_pr := k\<rparr>, a)))"

definition kernel_dealloc :: "kernel heap_free" where
  "kernel_dealloc s ptr l =
     (if pad_to_align_size l < BYTES Size2M then
        let (u, c) = uninterruptible_lock (k_cpu (fl_pr s)) in
        map_option (\<lambda>r. rbind r (\<lambda>s'. Ok (heap_unlock u s')))
          (fl_free KERNEL_LOG_HEAP_SIZE True kh_release_pages (s\<lparr>fl_pr := (fl_pr s)\<lparr>k_cpu := c\<rparr>\<rparr>) ptr l)
      else Some (rbind (dealloc_large (fl_pr s) ptr l) (\<lambda>k. Ok (s\<lparr>fl_pr := k\<rparr>))))"

end
