(* ===== verification/Process_Spec.thy ===== *)
theory Process_Spec
  imports Monitors
begin

text \<open>
  The tables of tasks and processes under creation and exit.
\<close>

section \<open>Tables\<close>

text \<open>Tasks and processes are stored under their identifiers, which the counters have already passed,
  and point at each other.\<close>

definition task_ok :: "('f, 'm) sys \<Rightarrow> task_id \<Rightarrow> task \<Rightarrow> bool" where
  "task_ok s t x \<longleftrightarrow> tk_id x = t \<and> t < sy_task_count s
     \<and> (\<exists>p. process_by_id s (tk_proc x) = Some p \<and> t \<in> set (pr_threads p))"

definition process_ok :: "('f, 'm) sys \<Rightarrow> proc_id \<Rightarrow> ('f, 'm) process \<Rightarrow> bool" where
  "process_ok s i p \<longleftrightarrow> pr_id p = i \<and> i < sy_proc_count s \<and> distinct (pr_threads p)
     \<and> (\<forall>t \<in> set (pr_threads p). \<exists>x. get_task_by_id s t = Some x \<and> tk_proc x = i)"

definition tables_ok :: "('f, 'm) sys \<Rightarrow> bool" where
  "tables_ok s \<longleftrightarrow> (\<forall>t x. get_task_by_id s t = Some x \<longrightarrow> task_ok s t x)
     \<and> (\<forall>i p. process_by_id s i = Some p \<longrightarrow> process_ok s i p)"

lemma same_tables_ok:
  assumes "tables_ok s" and "same_tables s s'"
  shows "tables_ok s'"
proof -
  have c: "process_by_id s' = process_by_id s" "sy_task_count s' = sy_task_count s" "sy_proc_count s' = sy_proc_count s"
    using assms(2) by (auto simp: same_tables_def process_by_id_def)
  have t: "map_option (\<lambda>x. (tk_id x, tk_proc x)) (get_task_by_id s' t)
      = map_option (\<lambda>x. (tk_id x, tk_proc x)) (get_task_by_id s t)" for t
    using assms(2) by (simp add: same_tables_def)
  have "task_ok s' t x" if x: "get_task_by_id s' t = Some x" for t x
  proof -
    obtain y where y: "get_task_by_id s t = Some y" "tk_id y = tk_id x" "tk_proc y = tk_proc x"
      using t [of t] x by (cases "get_task_by_id s t") auto
    then have "task_ok s t y" using assms(1) by (simp add: tables_ok_def)
    then show ?thesis by (simp add: task_ok_def c y(2,3))
  qed
  moreover have "process_ok s' i p" if p: "process_by_id s' i = Some p" for i p
  proof -
    have ok: "process_ok s i p" using p assms(1) c(1) by (simp add: tables_ok_def)
    have "\<exists>x'. get_task_by_id s' t = Some x' \<and> tk_proc x' = i" if m: "t \<in> set (pr_threads p)" for t
    proof -
      obtain x where "get_task_by_id s t = Some x" "tk_proc x = i" using ok m by (auto simp: process_ok_def)
      then show ?thesis using same_tables_tasks(2) [OF assms(2)] by blast
    qed
    then show ?thesis using ok by (simp add: process_ok_def c)
  qed
  ultimately show ?thesis by (simp add: tables_ok_def)
qed

section \<open>Creation\<close>

lemma inv_view_add:
  assumes "inv_view (q, c, S)" and "S t = None"
  shows "inv_view (q @ [t], c, S(t \<mapsto> new_state))"
proof -
  have t: "t \<notin> set q" "c \<noteq> Some t" using assms by auto
  have "u \<in> set (q @ [t]) \<longleftrightarrow> (\<exists>st. (S(t \<mapsto> new_state)) u = Some st \<and> ss_run_state st = Ready)" for u
    using assms(1) by (cases "u = t") (simp_all add: new_state_def)
  moreover have "(\<exists>st. (S(t \<mapsto> new_state)) u = Some st \<and> ss_run_state st = Running) \<longleftrightarrow> c = Some u" for u
    using assms(1) t by (cases "u = t") (simp_all add: new_state_def)
  moreover have "(S(t \<mapsto> new_state)) u = Some running" if "c = Some u" for u
    using assms(1) t that by (cases "u = t") simp_all
  moreover have "distinct (q @ [t])" using assms(1) t by simp
  ultimately show ?thesis unfolding inv_view.simps by blast
qed

lemma register_new_task_Ok:
  assumes "sched_inv s0" and "get_task_by_id s = (get_task_by_id s0)(t \<mapsto> x)" and "tk_sched x = new_state"
    and "get_task_by_id s0 t = None" and "sy_queue s = sy_queue s0" and "sy_current s = sy_current s0" and "sy_cpu s = sy_cpu s0"
  shows "\<exists>s'. register_new_task s t = Ok (s', ()) \<and> sched_inv s' \<and> s' = s\<lparr>sy_queue := [ready_queue s0 @ [t]]\<rparr>"
proof -
  have st: "state_of s = (state_of s0)(t \<mapsto> new_state)" by (rule ext) (simp add: state_of_def assms(2,3))
  have n: "state_of s0 t = None" using assms(4) by (simp add: state_of_def)
  have I: "inv_view (ready_queue s0, current s0, state_of s0)" "shaped s0" "\<not> interrupt_is_enabled (sy_cpu s)"
    using assms(1,7) by (simp_all add: sched_inv_def view_def)
  then have q: "sy_queue s = [ready_queue s0]" using assms(5) by (simp add: shaped_conv)
  let ?s = "s\<lparr>sy_queue := [ready_queue s0 @ [t]]\<rparr>"
  have "register_new_task s t = Ok (?s, ())"
    using I(3) q st by (simp add: register_new_task_def get_state_eq push_queue_def) (simp add: new_state_def)
  moreover have "state_of ?s = state_of s" by (rule ext) (simp add: state_of_def get_task_by_id_def)
  then have "view ?s = (ready_queue s0 @ [t], current s0, (state_of s0)(t \<mapsto> new_state))"
    unfolding view_def st by (simp add: ready_queue_def current_def assms(6))
  then have "sched_inv ?s"
    unfolding sched_inv_def using inv_view_add [OF I(1) n] I(2,3) assms(6) by (simp add: shaped_def del: inv_view.simps)
  ultimately show ?thesis by blast
qed

definition pm_inv :: "('f, 'm) sys \<Rightarrow> bool" where
  "pm_inv s \<longleftrightarrow> sched_inv s \<and> tables_ok s"

lemma tables_fresh:
  assumes "tables_ok s"
  shows "get_task_by_id s (sy_task_count s) = None" and "process_by_id s (sy_proc_count s) = None"
proof -
  show "get_task_by_id s (sy_task_count s) = None"
    using assms by (cases "get_task_by_id s (sy_task_count s)") (auto simp: tables_ok_def task_ok_def)
  show "process_by_id s (sy_proc_count s) = None"
    using assms by (cases "process_by_id s (sy_proc_count s)") (auto simp: tables_ok_def process_ok_def)
qed

lemma tables_ok_add:
  assumes ok: "tables_ok s" and t: "t = sy_task_count s"
    and tasks: "get_task_by_id s' = (get_task_by_id s)(t \<mapsto> \<lparr>tk_id = t, tk_proc = p, tk_sched = new_state\<rparr>)"
    and procs: "process_by_id s' = (process_by_id s)(p \<mapsto> x)"
    and counts: "sy_task_count s' = t + 1" "sy_proc_count s \<le> sy_proc_count s'" "p < sy_proc_count s'"
    and x: "pr_id x = p" "pr_threads x = (case process_by_id s p of None \<Rightarrow> [] | Some y \<Rightarrow> pr_threads y) @ [t]"
  shows "tables_ok s'"
proof -
  let ?ts = "case process_by_id s p of None \<Rightarrow> [] | Some y \<Rightarrow> pr_threads y"
  have fresh: "get_task_by_id s t = None" using tables_fresh(1) [OF ok] t by simp
  have old: "distinct ?ts \<and> (\<forall>u \<in> set ?ts. \<exists>y. get_task_by_id s u = Some y \<and> tk_proc y = p)"
    using ok by (cases "process_by_id s p") (simp_all add: tables_ok_def process_ok_def)
  have "task_ok s' u y" if y: "get_task_by_id s' u = Some y" for u y
  proof (cases "u = t")
    case True
    then show ?thesis using y x by (auto simp: tasks task_ok_def counts procs)
  next
    case False
    then have o: "task_ok s u y" using y ok by (simp add: tasks tables_ok_def)
    then have "\<exists>q. process_by_id s' (tk_proc y) = Some q \<and> u \<in> set (pr_threads q)"
      using x(2) by (cases "tk_proc y = p") (auto simp: task_ok_def procs)
    then show ?thesis using o t by (simp add: task_ok_def counts)
  qed
  moreover have "process_ok s' i q" if q: "process_by_id s' i = Some q" for i q
  proof (cases "i = p")
    case True
    have "\<exists>y. get_task_by_id s' u = Some y \<and> tk_proc y = p" if "u \<in> set (?ts @ [t])" for u
      using old that by (cases "u = t") (auto simp: tasks)
    moreover have "t \<notin> set ?ts" using old fresh by auto
    ultimately show ?thesis using True q old x counts by (simp add: process_ok_def procs)
  next
    case False
    then have o: "process_ok s i q" using q ok by (simp add: procs tables_ok_def)
    have "\<exists>y. get_task_by_id s' u = Some y \<and> tk_proc y = i" if m: "u \<in> set (pr_threads q)" for u
    proof -
      obtain y where "get_task_by_id s u = Some y" "tk_proc y = i" using o m by (auto simp: process_ok_def)
      then show ?thesis using fresh by (cases "u = t") (simp_all add: tasks)
    qed
    then show ?thesis using o counts(2) by (simp add: process_ok_def)
  qed
  ultimately show ?thesis by (simp add: tables_ok_def)
qed

lemma process_create_Ok:
  assumes inv: "pm_inv s" and b: "sy_task_count s + 1 < USIZE_LIMIT" "sy_proc_count s + 1 < USIZE_LIMIT"
    and x_def: "x = \<lparr>pr_id = sy_proc_count s, pr_threads = [sy_task_count s], pr_fs = fs, pr_mm = mm, pr_locks = [], pr_cvars = []\<rparr>"
  shows "\<exists>s'. process_create s fs mm = Ok (s', sy_proc_count s) \<and> pm_inv s' \<and> process_by_id s' = (process_by_id s)(sy_proc_count s \<mapsto> x)
    \<and> get_task_by_id s' = (get_task_by_id s)(sy_task_count s \<mapsto> \<lparr>tk_id = sy_task_count s, tk_proc = sy_proc_count s, tk_sched = new_state\<rparr>)
    \<and> current s' = current s \<and> ready_queue s' = ready_queue s @ [sy_task_count s]"
proof -
  let ?t = "sy_task_count s" and ?p = "sy_proc_count s"
  have I: "sched_inv s" "tables_ok s" using inv by (simp_all add: pm_inv_def)
  define s3 where "s3 = put_process (put_task (s\<lparr>sy_proc_count := ?p + 1, sy_proc_live := bt_insert ?p (monitor_new True) (sy_proc_live s),
    sy_task_count := ?t + 1, sy_task_live := bt_insert ?t (monitor_new True) (sy_task_live s)\<rparr>) ?t
    \<lparr>tk_id = ?t, tk_proc = ?p, tk_sched = new_state\<rparr>) x"
  have tasks: "get_task_by_id s3 = (get_task_by_id s)(?t \<mapsto> \<lparr>tk_id = ?t, tk_proc = ?p, tk_sched = new_state\<rparr>)"
    by (rule ext) (simp add: s3_def get_task_by_id_def put_process_def put_task_def)
  have procs: "process_by_id s3 = (process_by_id s)(?p \<mapsto> x)"
    by (rule ext) (simp add: s3_def process_by_id_def put_process_def put_task_def x_def)
  have same: "sy_queue s3 = sy_queue s" "sy_current s3 = sy_current s" "sy_cpu s3 = sy_cpu s" "sy_task_count s3 = ?t + 1" "sy_proc_count s3 = ?p + 1"
    by (simp_all add: s3_def put_process_def put_task_def)
  obtain s' where r: "register_new_task s3 ?t = Ok (s', ())" "sched_inv s'" and s': "s' = s3\<lparr>sy_queue := [ready_queue s @ [?t]]\<rparr>"
    using register_new_task_Ok [OF I(1) tasks _ tables_fresh(1) [OF I(2)] same(1-3)] by auto
  have same': "get_task_by_id s' = get_task_by_id s3" "process_by_id s' = process_by_id s3"
    unfolding s' by (rule ext, simp add: get_task_by_id_def process_by_id_def)+
  have "tables_ok s'"
    by (rule tables_ok_add [OF I(2) refl tasks [folded same'(1)] procs [folded same'(2)]])
      (simp_all add: s' same x_def tables_fresh(2) [OF I(2)])
  moreover have "process_create s fs mm = Ok (s', ?p)"
    using I(1) b r(1) by (simp add: process_create_def task_create_def Let_def s3_def x_def)
  ultimately show ?thesis using r(2) by (auto simp: pm_inv_def same' tasks procs) (simp_all add: s' current_def ready_queue_def same)
qed

lemma spawn_task_Ok:
  assumes inv: "pm_inv s" and p: "process_by_id s p = Some x" and b: "sy_task_count s + 1 < USIZE_LIMIT"
  shows "\<exists>s'. spawn_task s p = Ok (s', sy_task_count s) \<and> pm_inv s'
    \<and> process_by_id s' = (process_by_id s)(p \<mapsto> x\<lparr>pr_threads := pr_threads x @ [sy_task_count s]\<rparr>)
    \<and> get_task_by_id s' = (get_task_by_id s)(sy_task_count s \<mapsto> \<lparr>tk_id = sy_task_count s, tk_proc = p, tk_sched = new_state\<rparr>)
    \<and> current s' = current s \<and> ready_queue s' = ready_queue s @ [sy_task_count s]"
proof -
  let ?t = "sy_task_count s" and ?x = "x\<lparr>pr_threads := pr_threads x @ [sy_task_count s]\<rparr>"
  have I: "sched_inv s" "tables_ok s" using inv by (simp_all add: pm_inv_def)
  have xid: "pr_id x = p" "p < sy_proc_count s" using p I(2) by (auto simp: tables_ok_def process_ok_def)
  define s1 where "s1 = put_task (s\<lparr>sy_task_count := ?t + 1, sy_task_live := bt_insert ?t (monitor_new True) (sy_task_live s)\<rparr>) ?t
    \<lparr>tk_id = ?t, tk_proc = p, tk_sched = new_state\<rparr>"
  define s3 where "s3 = put_process s1 ?x"
  have tasks: "get_task_by_id s3 = (get_task_by_id s)(?t \<mapsto> \<lparr>tk_id = ?t, tk_proc = p, tk_sched = new_state\<rparr>)"
    by (rule ext) (simp add: s3_def s1_def get_task_by_id_def put_process_def put_task_def)
  have procs: "process_by_id s3 = (process_by_id s)(p \<mapsto> ?x)"
    by (rule ext) (simp add: s3_def s1_def process_by_id_def put_process_def put_task_def xid)
  have same: "sy_queue s3 = sy_queue s" "sy_current s3 = sy_current s" "sy_cpu s3 = sy_cpu s" "sy_task_count s3 = ?t + 1" "sy_proc_count s3 = sy_proc_count s"
    by (simp_all add: s3_def s1_def put_process_def put_task_def)
  obtain s' where r: "register_new_task s3 ?t = Ok (s', ())" "sched_inv s'" and s': "s' = s3\<lparr>sy_queue := [ready_queue s @ [?t]]\<rparr>"
    using register_new_task_Ok [OF I(1) tasks _ tables_fresh(1) [OF I(2)] same(1-3)] by auto
  have same': "get_task_by_id s' = get_task_by_id s3" "process_by_id s' = process_by_id s3"
    unfolding s' by (rule ext, simp add: get_task_by_id_def process_by_id_def)+
  have "tables_ok s'"
    by (rule tables_ok_add [OF I(2) refl tasks [folded same'(1)] procs [folded same'(2)]])
      (simp_all add: s' same xid p)
  moreover have "process_by_id s1 p = Some x" using p by (simp add: s1_def process_by_id_def put_task_def)
  moreover have "task_create s p = (s1, ?t)" using b by (simp add: task_create_def Let_def s1_def)
  ultimately have "spawn_task s p = Ok (s', ?t)" "tables_ok s'"
    using I(1) r(1) by (simp_all add: spawn_task_def s3_def)
  then show ?thesis using r(2) by (auto simp: pm_inv_def same' tasks procs) (simp_all add: s' current_def ready_queue_def same)
qed

section \<open>Exit\<close>

lemma remove_threads_Ok:
  assumes "shaped s" and "\<not> interrupt_is_enabled (sy_cpu s)" and "distinct ts" and "\<forall>t \<in> set ts. get_task_by_id s t \<noteq> None"
  shows "\<exists>tasks. remove_threads s ts = Ok (s\<lparr>sy_tasks := tasks, sy_current := [if current s \<in> Some ` set ts then None else current s]\<rparr>)
    \<and> bt_get tasks = (\<lambda>t. if t \<in> set ts then None else get_task_by_id s t)"
  using assms
proof (induction ts arbitrary: s)
  case Nil
  then show ?case by (intro exI [of _ "sy_tasks s"]) (auto simp: shaped_conv get_task_by_id_def)
next
  case (Cons t ts)
  let ?c = "if current s = Some t then None else current s"
  define s2 where "s2 = s\<lparr>sy_tasks := bt_remove t (sy_tasks s), sy_current := [?c]\<rparr>"
  have c: "sy_current s = [current s]" using Cons.prems(1) by (simp add: shaped_conv)
  have r: "remove_task (s\<lparr>sy_tasks := bt_remove t (sy_tasks s)\<rparr>) t = Ok s2"
    using Cons.prems(2) c by (simp add: remove_task_def current_core_def s2_def)
  have g: "get_task_by_id s2 = (get_task_by_id s)(t := None)" by (rule ext) (simp add: get_task_by_id_def s2_def)
  have d: "distinct ts" "t \<notin> set ts" using Cons.prems(3) by simp_all
  have p: "shaped s2" "\<not> interrupt_is_enabled (sy_cpu s2)" using Cons.prems(1,2) by (simp_all add: shaped_def s2_def)
  have e: "\<forall>u \<in> set ts. get_task_by_id s2 u \<noteq> None" using Cons.prems(4) d(2) by (auto simp: g)
  obtain tasks where tasks: "remove_threads s2 ts = Ok (s2\<lparr>sy_tasks := tasks, sy_current := [if current s2 \<in> Some ` set ts then None else current s2]\<rparr>)"
      "bt_get tasks = (\<lambda>u. if u \<in> set ts then None else get_task_by_id s2 u)"
    using Cons.IH [OF p d(1) e] by blast
  have "s2\<lparr>sy_tasks := tasks, sy_current := [if current s2 \<in> Some ` set ts then None else current s2]\<rparr>
      = s\<lparr>sy_tasks := tasks, sy_current := [if current s \<in> Some ` set (t # ts) then None else current s]\<rparr>"
    by (auto simp: s2_def current_def)
  moreover have "bt_get tasks = (\<lambda>u. if u \<in> set (t # ts) then None else get_task_by_id s u)"
    by (rule ext) (simp add: tasks(2) g)
  moreover have "get_task_by_id s t \<noteq> None" using Cons.prems(4) by simp
  ultimately show ?case using r tasks(1) by auto
qed

text \<open>Nobody holds the \<^verbatim>\<open>live\<close> monitor of the process, and the tasks registered there are asleep.\<close>

definition live_free :: "('f, 'm) sys \<Rightarrow> proc_id \<Rightarrow> task_id list \<Rightarrow> bool" where
  "live_free s p ws \<longleftrightarrow> (\<exists>mn. bt_get (sy_proc_live s) p = Some mn \<and> mn_lock mn = mutex_new \<and> cond_waiters mn = ws)
     \<and> set ws \<subseteq> asleep s \<and> distinct ws"

definition exited :: "proc_id \<Rightarrow> ('f, 'm) process \<Rightarrow> task_id \<Rightarrow> ('f, 'm) sys \<Rightarrow> ('f, 'm) sys \<Rightarrow> bool" where
  "exited p x c s s' \<longleftrightarrow> get_task_by_id s' = (\<lambda>t. if t \<in> set (pr_threads x) then None else get_task_by_id s t)
     \<and> process_by_id s' = (process_by_id s)(p := None) \<and> sy_queue s' = sy_queue s
     \<and> sy_current s' = [if c \<in> set (pr_threads x) then None else Some c] \<and> sy_cpu s' = sy_cpu s
     \<and> sy_task_count s' = sy_task_count s \<and> sy_proc_count s' = sy_proc_count s"

lemma process_exit_Ok:
  assumes inv: "pm_inv s" and c: "current s = Some c" and x: "process_by_id s p = Some x" and l: "live_free s p ws"
  obtains s1 s' where "process_exit s p = Ok (s', Done ())" and "sched_inv s1" and "tables_ok s1" and "current s1 = Some c"
    and "ready_queue s1 = ready_queue s @ ws" and "process_by_id s1 = process_by_id s" and "exited p x c s1 s'"
proof -
  have I: "sched_inv s" "tables_ok s" using inv by (simp_all add: pm_inv_def)
  obtain mn where mn: "bt_get (sy_proc_live s) p = Some mn" "mn_lock mn = mutex_new" "cond_waiters mn = ws"
      "set (cond_waiters mn) \<subseteq> asleep s" "distinct (cond_waiters mn)"
    using l by (auto simp: live_free_def)
  obtain s1 where s1: "mark_dead s mn = Ok (s1, monitor_new False, Done ())" "sched_inv s1" "same_tables s s1" "current s1 = current s"
      "ready_queue s1 = ready_queue s @ cond_waiters mn"
    using mark_dead_free [OF I(1) c mn(2,4,5)] .
  have ok1: "tables_ok s1" by (rule same_tables_ok [OF I(2) s1(3)])
  have p1: "process_by_id s1 = process_by_id s" using s1(3) by (auto simp: same_tables_def process_by_id_def)
  define s2 where "s2 = s1\<lparr>sy_proc_live := bt_insert p (monitor_new False) (sy_proc_live s1)\<rparr>"
  have s2: "get_task_by_id s2 = get_task_by_id s1" "process_by_id s2 = process_by_id s1" "current s2 = current s1" "shaped s2" "sy_cpu s2 = sy_cpu s1"
    using s1(2) by (auto simp: s2_def get_task_by_id_def process_by_id_def current_def sched_inv_def shaped_def)
  have m2: "\<not> interrupt_is_enabled (sy_cpu s2)" using s1(2) s2(5) by simp
  have xp: "process_by_id s2 p = Some x" using x s2(2) p1 by simp
  then have "process_ok s1 p x" using ok1 s2(2) by (simp add: tables_ok_def)
  then have th: "distinct (pr_threads x)" "\<forall>t \<in> set (pr_threads x). get_task_by_id s2 t \<noteq> None"
    by (auto simp: s2(1) process_ok_def)
  obtain tasks where tasks: "remove_threads s2 (pr_threads x)
      = Ok (s2\<lparr>sy_tasks := tasks, sy_current := [if current s2 \<in> Some ` set (pr_threads x) then None else current s2]\<rparr>)"
      "bt_get tasks = (\<lambda>t. if t \<in> set (pr_threads x) then None else get_task_by_id s2 t)"
    using remove_threads_Ok [OF s2(4) m2 th] by blast
  define s' where "s' = s2\<lparr>sy_tasks := tasks, sy_current := [if current s2 \<in> Some ` set (pr_threads x) then None else current s2],
    sy_procs := bt_remove p (sy_procs s2)\<rparr>"
  have "process_exit s p = Ok (s', Done ())"
    using I(1) mn(1) s1(1) xp tasks(1)
    by (simp add: process_exit_def masked_guard Let_def uninterruptible_drop_def s2_def [symmetric]) (simp add: s'_def)
  moreover have "get_task_by_id s' = (\<lambda>t. if t \<in> set (pr_threads x) then None else get_task_by_id s1 t)"
    by (rule ext) (simp add: s'_def get_task_by_id_def tasks(2) s2(1) [unfolded get_task_by_id_def fun_eq_iff])
  moreover have "process_by_id s' = (process_by_id s1)(p := None)"
    by (rule ext) (simp add: s'_def process_by_id_def s2_def)
  moreover have "sy_current s' = [if c \<in> set (pr_threads x) then None else Some c]"
    using c s1(4) s2(3) by (auto simp: s'_def)
  ultimately have "exited p x c s1 s'" by (simp add: exited_def) (simp add: s'_def s2_def)
  with \<open>process_exit s p = Ok (s', Done ())\<close> s1 mn(3) c show ?thesis using that [OF _ s1(2) ok1 _ _ p1] by simp
qed

lemma tables_ok_remove:
  assumes ok: "tables_ok s" and x: "process_by_id s p = Some x"
    and tasks: "get_task_by_id s' = (\<lambda>t. if t \<in> set (pr_threads x) then None else get_task_by_id s t)"
    and procs: "process_by_id s' = (process_by_id s)(p := None)"
    and counts: "sy_task_count s' = sy_task_count s" "sy_proc_count s' = sy_proc_count s"
  shows "tables_ok s'"
proof -
  have xp: "process_ok s p x" using ok x by (simp add: tables_ok_def)
  have "task_ok s' t y" if y: "get_task_by_id s' t = Some y" for t y
  proof -
    have t: "t \<notin> set (pr_threads x)" "get_task_by_id s t = Some y" using y by (auto simp: tasks split: if_splits)
    then have o: "task_ok s t y" using ok by (simp add: tables_ok_def)
    then have "tk_proc y \<noteq> p" using t(1) x by (auto simp: task_ok_def)
    with o show ?thesis by (simp add: task_ok_def procs counts)
  qed
  moreover have "process_ok s' i q" if q: "process_by_id s' i = Some q" for i q
  proof -
    have i: "i \<noteq> p" "process_by_id s i = Some q" using q by (auto simp: procs split: if_splits)
    then have o: "process_ok s i q" using ok by (simp add: tables_ok_def)
    have "\<exists>y. get_task_by_id s' t = Some y \<and> tk_proc y = i" if m: "t \<in> set (pr_threads q)" for t
    proof -
      obtain y where y: "get_task_by_id s t = Some y" "tk_proc y = i" using o m by (auto simp: process_ok_def)
      then have "t \<notin> set (pr_threads x)" using xp i(1) by (auto simp: process_ok_def)
      with y show ?thesis by (simp add: tasks)
    qed
    with o show ?thesis by (simp add: process_ok_def counts)
  qed
  ultimately show ?thesis by (simp add: tables_ok_def)
qed

lemma inv_view_remove:
  assumes "inv_view (q, Some c, S)"
  shows "inv_view (q, None, S(c := None))"
proof -
  have "c \<notin> set q" "S c = Some running" using inv_view_current(1,2) [OF assms] by simp_all
  moreover have "u \<in> set q \<longleftrightarrow> (\<exists>st. S u = Some st \<and> ss_run_state st = Ready)"
    "(\<exists>st. S u = Some st \<and> ss_run_state st = Running) \<longleftrightarrow> c = u" for u
    using assms by simp_all
  ultimately have "u \<in> set q \<longleftrightarrow> (\<exists>st. (S(c := None)) u = Some st \<and> ss_run_state st = Ready)"
    "\<not> (\<exists>st. (S(c := None)) u = Some st \<and> ss_run_state st = Running)" for u
    by (cases "u = c"; simp; blast)+
  then show ?thesis using assms unfolding inv_view.simps by blast
qed

text \<open>A core without a current task takes the head of the queue.\<close>

lemma schedule_idle_core:
  assumes "sched_inv s" and "current s = None" and "ready_queue s = n # q"
  obtains s' where "schedule s = Ok (s', n)" and "sched_inv s'" and "current s' = Some n" and "ready_queue s' = q"
proof -
  let ?S = "state_of s"
  have v: "view s = (n # q, None, ?S)" and sh: "shaped s" using assms by (simp_all add: view_def sched_inv_def)
  have inv: "inv_view (n # q, None, ?S)" using assms(1) v by (simp add: sched_inv_def)
  then have ready: "u \<in> set (n # q) \<longleftrightarrow> (\<exists>st. ?S u = Some st \<and> ss_run_state st = Ready)"
    "\<not> (\<exists>st. ?S u = Some st \<and> ss_run_state st = Running)" "distinct (n # q)" for u
    by simp_all
  obtain st where st: "?S n = Some st" "ss_run_state st = Ready" using ready(1) [of n] by auto
  obtain s' where s': "schedule s = Ok (s', n)" "stepped s s' (q, Some n, ?S(n \<mapsto> running))" "sy_cpu s' = interrupt_disable (sy_cpu s)"
    by (rule schedule_switch [OF sh v _ _ st]) auto
  have "u \<in> set q \<longleftrightarrow> (\<exists>st. (?S(n \<mapsto> running)) u = Some st \<and> ss_run_state st = Ready)" for u
    using ready(1) [of u] ready(3) by (cases "u = n") (auto simp: running_def)
  moreover have "(\<exists>st. (?S(n \<mapsto> running)) u = Some st \<and> ss_run_state st = Running) \<longleftrightarrow> Some n = Some u" for u
    using ready(2) [of u] by (cases "u = n") (auto simp: running_def)
  ultimately have "inv_view (q, Some n, ?S(n \<mapsto> running))" using ready(3) by simp
  then have "sched_inv s'" using s'(2,3) by (simp add: sched_inv_def stepped_def del: inv_view.simps)
  then show ?thesis using that s'(1,2) by (simp add: stepped_def view_def)
qed

section \<open>Properties\<close>

text \<open>C27: creating processes and spawning tasks keeps the tables and the scheduler consistent. From a state of
  the invariant both calls return: the identifiers handed out are unused ones, the new process has exactly
  its main task and the state it was given, a spawned task is appended to the threads of its process,
  the new task is appended to the ready queue, and no other entry of either table changes.\<close>

theorem creation_keeps_tables:
  assumes "pm_inv s" and "sy_task_count s + 1 < USIZE_LIMIT" and "sy_proc_count s + 1 < USIZE_LIMIT" and "process_by_id s p = Some x"
  shows "get_task_by_id s (sy_task_count s) = None \<and> process_by_id s (sy_proc_count s) = None
    \<and> (\<exists>s'. process_create s fs mm = Ok (s', sy_proc_count s) \<and> pm_inv s'
      \<and> process_by_id s' = (process_by_id s)(sy_proc_count s \<mapsto>
          \<lparr>pr_id = sy_proc_count s, pr_threads = [sy_task_count s], pr_fs = fs, pr_mm = mm, pr_locks = [], pr_cvars = []\<rparr>)
      \<and> get_task_by_id s' = (get_task_by_id s)(sy_task_count s \<mapsto>
          \<lparr>tk_id = sy_task_count s, tk_proc = sy_proc_count s, tk_sched = new_state\<rparr>)
      \<and> current s' = current s \<and> ready_queue s' = ready_queue s @ [sy_task_count s])
    \<and> (\<exists>s'. spawn_task s p = Ok (s', sy_task_count s) \<and> pm_inv s'
      \<and> process_by_id s' = (process_by_id s)(p \<mapsto> x\<lparr>pr_threads := pr_threads x @ [sy_task_count s]\<rparr>)
      \<and> get_task_by_id s' = (get_task_by_id s)(sy_task_count s \<mapsto> \<lparr>tk_id = sy_task_count s, tk_proc = p, tk_sched = new_state\<rparr>)
      \<and> current s' = current s \<and> ready_queue s' = ready_queue s @ [sy_task_count s])"
proof -
  have ok: "tables_ok s" using assms(1) by (simp add: pm_inv_def)
  show ?thesis
    using tables_fresh [OF ok] process_create_Ok [OF assms(1-3) refl, of fs mm] spawn_task_Ok [OF assms(1,4,2)] by simp
qed

definition demo_pm :: "(unit, unit) sys" where
  "demo_pm = demo_sys\<lparr>sy_procs := [(1, \<lparr>pr_id = 1, pr_threads = [0], pr_fs = (), pr_mm = (), pr_locks = [], pr_cvars = []\<rparr>),
     (2, \<lparr>pr_id = 2, pr_threads = [1, 2], pr_fs = (), pr_mm = (), pr_locks = [], pr_cvars = []\<rparr>),
     (3, \<lparr>pr_id = 3, pr_threads = [3], pr_fs = (), pr_mm = (), pr_locks = [], pr_cvars = []\<rparr>)],
     sy_tasks := [(0, \<lparr>tk_id = 0, tk_proc = 1, tk_sched = running\<rparr>), (1, \<lparr>tk_id = 1, tk_proc = 2, tk_sched = new_state\<rparr>),
       (2, \<lparr>tk_id = 2, tk_proc = 2, tk_sched = new_state\<rparr>), (3, \<lparr>tk_id = 3, tk_proc = 3, tk_sched = \<lparr>ss_run_state = Sleeping, ss_time_slice_units = 0\<rparr>\<rparr>)],
     sy_proc_count := 4, sy_proc_live := [(1, (monitor_new True)\<lparr>mn_cond := \<lparr>rc_waiters = [3]\<rparr>\<rparr>)]\<rparr>"

lemma demo_pm_inv: "pm_inv demo_pm"
proof -
  have v: "view demo_pm = view demo_sys"
    using demo_state by (auto simp: view_def fun_eq_iff ready_queue_def current_def demo_pm_def state_of_def get_task_by_id_def bt_get_def)
  have "sched_inv demo_pm" using demo_inv(1) unfolding sched_inv_def v by (simp add: demo_pm_def shaped_def)
  moreover have "tables_ok demo_pm"
    by (auto simp: tables_ok_def task_ok_def process_ok_def demo_pm_def demo_sys_def get_task_by_id_def process_by_id_def bt_get_def split: if_splits)
  ultimately show ?thesis by (simp add: pm_inv_def)
qed

theorem creation_keeps_tables_witness:
  "(\<exists>s'. process_create demo_pm () () = Ok (s', 4) \<and> pm_inv s') \<and> (\<exists>s'. spawn_task demo_pm 2 = Ok (s', 4) \<and> pm_inv s')"
proof -
  have c: "sy_task_count demo_pm = 4" "sy_proc_count demo_pm = 4" by (simp_all add: demo_pm_def demo_sys_def)
  have p: "process_by_id demo_pm 2 = Some \<lparr>pr_id = 2, pr_threads = [1, 2], pr_fs = (), pr_mm = (), pr_locks = [], pr_cvars = []\<rparr>"
    by (simp add: process_by_id_def demo_pm_def bt_get_def)
  from creation_keeps_tables [OF demo_pm_inv _ _ p] show ?thesis unfolding c by (auto simp: USIZE_LIMIT_def)
qed

text \<open>C28: a process whose only task exits leaves nothing behind. The call returns, the process and its task are gone
  from the tables and no other process is touched, every task that waited for its completion is in the
  ready queue, the core has no current task, the invariant holds again, and the scheduler goes on with the
  head of the queue.\<close>

theorem process_exit_clean:
  assumes "pm_inv s" and "current s = Some c" and "process_by_id s p = Some x" and "pr_threads x = [c]" and "live_free s p ws"
  shows "\<exists>s'. process_exit s p = Ok (s', Done ()) \<and> pm_inv s' \<and> process_by_id s' = (process_by_id s)(p := None)
    \<and> get_task_by_id s' c = None \<and> current s' = None \<and> ready_queue s' = ready_queue s @ ws
    \<and> (\<forall>n q. ready_queue s @ ws = n # q \<longrightarrow> (\<exists>s2. schedule s' = Ok (s2, n) \<and> sched_inv s2 \<and> current s2 = Some n))"
proof -
  obtain s1 s' where s': "process_exit s p = Ok (s', Done ())" and I: "sched_inv s1" "tables_ok s1" "current s1 = Some c"
      "ready_queue s1 = ready_queue s @ ws" "process_by_id s1 = process_by_id s" and e: "exited p x c s1 s'"
    using process_exit_Ok [OF assms(1-3,5)] .
  have tasks: "get_task_by_id s' = (get_task_by_id s1)(c := None)" using e assms(4) by (auto simp: exited_def fun_eq_iff)
  have p1: "process_by_id s1 p = Some x" using I(5) assms(3) by simp
  have inv1: "inv_view (ready_queue s1, Some c, state_of s1)" "shaped s1" using I(1,3) by (simp_all add: sched_inv_def view_def)
  have v: "view s' = (ready_queue s1, None, (state_of s1)(c := None))"
    using e assms(4) by (auto simp: view_def ready_queue_def current_def exited_def state_of_def)
  have sh: "shaped s'" using e inv1(2) by (simp add: exited_def shaped_def)
  have "sched_inv s'" unfolding sched_inv_def v using inv_view_remove [OF inv1(1)] sh e I(1) by (simp add: exited_def del: inv_view.simps)
  moreover have "tables_ok s'"
    by (rule tables_ok_remove [OF I(2) p1]) (use e in \<open>simp_all add: exited_def\<close>)
  moreover have cur: "current s' = None" and rq: "ready_queue s' = ready_queue s @ ws" using v I(4) by (simp_all add: view_def)
  moreover have "\<forall>n q. ready_queue s @ ws = n # q \<longrightarrow> (\<exists>s2. schedule s' = Ok (s2, n) \<and> sched_inv s2 \<and> current s2 = Some n)"
    using schedule_idle_core [OF \<open>sched_inv s'\<close> cur] unfolding rq by metis
  moreover have "process_by_id s' = (process_by_id s)(p := None)" using e I(5) by (simp add: exited_def)
  ultimately show ?thesis using s' tasks by (simp add: pm_inv_def)
qed

lemma demo_pm_live: "live_free demo_pm 1 [3]"
proof -
  have "state_of demo_pm 3 = Some \<lparr>ss_run_state = Sleeping, ss_time_slice_units = 0\<rparr>"
    by (simp add: state_of_def get_task_by_id_def demo_pm_def bt_get_def)
  then have "3 \<in> asleep demo_pm" by (simp add: asleep_def)
  then show ?thesis by (simp add: live_free_def) (simp add: demo_pm_def bt_get_def monitor_new_def)
qed

theorem process_exit_clean_witness:
  "\<exists>s' s2. process_exit demo_pm 1 = Ok (s', Done ()) \<and> ready_queue s' = [2, 1, 3] \<and> process_by_id s' 1 = None \<and> schedule s' = Ok (s2, 2)"
proof -
  have c: "current demo_pm = Some 0" "ready_queue demo_pm = [2, 1]" by (simp_all add: current_def ready_queue_def demo_pm_def demo_sys_def)
  have p: "process_by_id demo_pm 1 = Some \<lparr>pr_id = 1, pr_threads = [0], pr_fs = (), pr_mm = (), pr_locks = [], pr_cvars = []\<rparr>"
    by (simp add: process_by_id_def demo_pm_def bt_get_def)
  from process_exit_clean [OF demo_pm_inv c(1) p _ demo_pm_live] show ?thesis unfolding c(2) by auto
qed


definition demo_threads :: "(unit, unit) sys" where
  "demo_threads = demo_sys\<lparr>sy_proc_live := [(1, monitor_new True)]\<rparr>"


end
