(* ===== verification/Contexts.thy ===== *)
theory Contexts
  imports Gic Uart Kernel_Memory Process_Spec
begin

unbundle bit_operations_syntax

text \<open>
  \<^verbatim>\<open>sophon/src/arch/aarch64/context.rs\<close> and the Rust half of \<^verbatim>\<open>exception.rs\<close>: what happens between an
  exception and the return to a task. The state joins the process manager and scheduler, the machine, the
  interrupt controller, the serial driver and the context of every task; \<open>co_ext\<close> is the state of the services behind the
  system calls, which this theory leaves open.
\<close>

section \<open>Contexts\<close>

record task_context =
  cx_frames :: "address list"
  cx_entry_pc :: "64 word"
  cx_kernel_stack :: "address option"
  cx_kernel_stack_top :: address
  cx_response_status :: "int option"

record mm_state =
  mm_page_table :: address
  mm_highwater :: address

definition context_empty :: task_context where
  "context_empty = \<lparr>cx_frames = [], cx_entry_pc = 0, cx_kernel_stack = None, cx_kernel_stack_top = 0, cx_response_status = None\<rparr>"

fun zero_bytes :: "nat \<Rightarrow> address \<Rightarrow> memory \<Rightarrow> memory" where
  "zero_bytes 0 a M = M"
| "zero_bytes (Suc n) a M = zero_bytes n (a + 8) (M(a := 0))"

text \<open>A kernel stack is a guard page followed by the stack, which is zeroed. \<open>M\<close> is the memory as the kernel's
  address space shows it.\<close>

definition kernel_stack_range :: "address \<Rightarrow> address \<times> address" where
  "kernel_stack_range this = (this + BYTES Size4K, this + BYTES Size4K + KERNEL_STACK_SIZE)"

definition kernel_stack_new :: "kernel \<Rightarrow> memory \<Rightarrow> (kernel \<times> memory \<times> address) res" where
  "kernel_stack_new k M =
     rbind (kh_acquire_pages Size4K k (KERNEL_STACK_PAGES + 1)) (\<lambda>(k1, r).
     rbind (unwrap r) (\<lambda>(start, _).
     Ok (k1, zero_bytes (KERNEL_STACK_SIZE div 8) (fst (kernel_stack_range start)) M, start)))"

definition set_response_status :: "int \<Rightarrow> task_context \<Rightarrow> task_context" where
  "set_response_status s c = c\<lparr>cx_response_status := Some s\<rparr>"

definition context_new :: "kernel \<Rightarrow> memory \<Rightarrow> 64 word \<Rightarrow> int \<Rightarrow> (kernel \<times> memory \<times> task_context) res" where
  "context_new k M entry ctx_ptr =
     rbind (kernel_stack_new k M) (\<lambda>(k1, M1, stack).
     Ok (k1, M1, set_response_status ctx_ptr (context_empty\<lparr>cx_entry_pc := entry,
       cx_kernel_stack_top := snd (kernel_stack_range stack), cx_kernel_stack := Some stack\<rparr>)))"

definition push_exception_frame :: "address \<Rightarrow> task_context \<Rightarrow> task_context" where
  "push_exception_frame f c = c\<lparr>cx_frames := cx_frames c @ [f]\<rparr>"

definition pop_exception_frame :: "task_context \<Rightarrow> task_context \<times> address option" where
  "pop_exception_frame c =
     (if cx_frames c = [] then (c, None) else (c\<lparr>cx_frames := butlast (cx_frames c)\<rparr>, Some (last (cx_frames c))))"

section \<open>The state of the core\<close>

datatype irq_handler = TimerHandler | UartHandler

record ('f, 'x) core =
  co_sys :: "('f, mm_state) sys"
  co_mc :: machine
  co_ctx :: "(task_id, task_context) btree"
  co_gic :: "irq_handler gic"
  co_timer :: timer
  co_uart :: pl011
  co_ext :: 'x

definition put_ctx :: "task_id \<Rightarrow> task_context \<Rightarrow> ('f, 'x) core \<Rightarrow> ('f, 'x) core" where
  "put_ctx t c k = k\<lparr>co_ctx := bt_insert t c (co_ctx k)\<rparr>"

definition current_context :: "('f, 'x) core \<Rightarrow> (task_id \<times> task_context) res" where
  "current_context k =
     rbind (task_current (co_sys k)) (\<lambda>x.
     rbind (unwrap x) (\<lambda>task.
     rbind (unwrap (bt_get (co_ctx k) (tk_id task))) (\<lambda>c. Ok (tk_id task, c))))"

text \<open>\<^verbatim>\<open>AArch64Context::return_to_user\<close>: switch the page table, take the newest frame or make the first one,
  store a pending result, and leave through the frame.\<close>

definition resume_frame :: "task_context \<Rightarrow> memory \<Rightarrow> (task_context \<times> memory \<times> address) res" where
  "resume_frame c M =
     (case pop_exception_frame c of
        (c1, Some f) \<Rightarrow> Ok (c1, M, f)
      | (c1, None) \<Rightarrow>
          rbind (usub (cx_kernel_stack_top c1) FRAME_SIZE) (\<lambda>f.
          Ok (c1, frame_store (frame_store M f ''elr_el1'' (cx_entry_pc c1)) f ''spsr_el1'' 0b0101, f)))"

definition store_response :: "address \<Rightarrow> task_context \<Rightarrow> memory \<Rightarrow> task_context \<times> memory" where
  "store_response f c M =
     (case cx_response_status c of
        None \<Rightarrow> (c, M)
      | Some status \<Rightarrow> (c\<lparr>cx_response_status := None\<rparr>, frame_store M f ''x0'' (of_int status)))"

definition return_to_task :: "task_id \<Rightarrow> task_context \<Rightarrow> ('f, 'x) core \<Rightarrow> ('f, 'x) core res" where
  "return_to_task t c k =
     rbind (rassert (\<not> interrupt_is_enabled (sy_cpu (co_sys k)))) (\<lambda>_.
     rbind (process_current (co_sys k)) (\<lambda>p.
     rbind (unwrap p) (\<lambda>proc.
     let p4 = mm_page_table (pr_mm proc); cpu = sy_cpu (co_sys k);
         cpu1 = (if p4 \<noteq> cpu_ttbr0 cpu then table_set p4 cpu else cpu) in
     rbind (resume_frame c (mc_mem (co_mc k))) (\<lambda>(c1, M1, f).
     let (c2, M2) = store_response f c1 M1;
         (m, daif) = exit_exception ((co_mc k)\<lparr>mc_sp := f, mc_mem := M2\<rparr>) in
     Ok (put_ctx t c2 (k\<lparr>co_mc := m, co_sys := (co_sys k)\<lparr>sy_cpu := cpu1\<lparr>cpu_daif := daif\<rparr>\<rparr>\<rparr>))))))"

text \<open>\<^verbatim>\<open>SERVICE.return_to_user(task)\<close>, and the end of the handlers.\<close>

definition service_return_to_user :: "task_id \<Rightarrow> ('f, 'x) core \<Rightarrow> ('f, 'x) core res" where
  "service_return_to_user t k =
     rbind (unwrap (get_task_by_id (co_sys k) t)) (\<lambda>task.
     rbind (unwrap (bt_get (co_ctx k) (tk_id task))) (\<lambda>c. return_to_task (tk_id task) c k))"

definition return_to_current :: "('f, 'x) core \<Rightarrow> ('f, 'x) core res" where
  "return_to_current k = rbind (current_context k) (\<lambda>(t, c). return_to_task t c k)"

definition enter_usermode :: "64 word \<Rightarrow> address \<Rightarrow> address \<Rightarrow> int \<Rightarrow> address \<Rightarrow> ('f, 'x) core \<Rightarrow> ('f, 'x) core" where
  "enter_usermode entry sp page_table argc argv k =
     (let cpu = interrupt_disable (sy_cpu (co_sys k));
          m = co_mc k;
          m1 = m\<lparr>mc_spsr := 0, mc_elr := entry, mc_sp_el0 := of_nat sp, mc_x := (mc_x m)(0 := of_int argc, 1 := of_nat argv)\<rparr>;
          (m2, daif) = eret m1 in
      k\<lparr>co_mc := m2, co_sys := (co_sys k)\<lparr>sy_cpu := (table_set page_table cpu)\<lparr>cpu_daif := daif\<rparr>\<rparr>\<rparr>)"

section \<open>Handlers\<close>

definition SVCAArch64 :: "32 word" where "SVCAArch64 = 0b010101"
definition DataAbortLowerEL :: "32 word" where "DataAbortLowerEL = 0b100100"
definition DataAbortHigherEL :: "32 word" where "DataAbortHigherEL = 0b100101"

definition get_exception_class :: "32 word \<Rightarrow> 32 word" where
  "get_exception_class esr = drop_bit 26 esr"

text \<open>The kernel's system calls are an argument: privilege, number and five arguments. \<open>Blocked t\<close> is the
  answer of a call that does not return because task \<open>t\<close> was dispatched.\<close>

type_synonym ('f, 'x) syscall_handler =
  "bool \<Rightarrow> usize \<Rightarrow> usize \<Rightarrow> usize \<Rightarrow> usize \<Rightarrow> usize \<Rightarrow> usize \<Rightarrow> ('f, 'x) core \<Rightarrow> (('f, 'x) core \<times> int outcome) res"

definition handle_exception :: "('f, 'x) syscall_handler \<Rightarrow> 32 word \<Rightarrow> address \<Rightarrow> ('f, 'x) core \<Rightarrow> ('f, 'x) core res" where
  "handle_exception handle_syscall esr frame k =
     (let M = mc_mem (co_mc k); privileged = (\<not> is_el0 M frame) in
      rbind (current_context k) (\<lambda>(t, c).
      let k1 = put_ctx t (push_exception_frame frame c) k; exception = get_exception_class esr in
      if exception = SVCAArch64 then
        rbind (handle_syscall privileged (unat (frame_load M frame ''x0'')) (unat (frame_load M frame ''x1''))
          (unat (frame_load M frame ''x2'')) (unat (frame_load M frame ''x3'')) (unat (frame_load M frame ''x4''))
          (unat (frame_load M frame ''x5'')) k1) (\<lambda>(k2, r).
        case r of
          Blocked n \<Rightarrow> service_return_to_user n k2
        | Done v \<Rightarrow>
            return_to_current (k2\<lparr>co_mc := (co_mc k2)\<lparr>mc_mem := frame_store (mc_mem (co_mc k2)) frame ''x0'' (of_int v)\<rparr>\<rparr>))
      else if exception = DataAbortLowerEL \<or> exception = DataAbortHigherEL then Panic Unreachable
      else Panic Explicit))"

definition handle_exception_serror :: "('f, 'x) core \<Rightarrow> ('f, 'x) core res" where
  "handle_exception_serror k = Panic Explicit"

definition timer_handler :: "('f, 'x) core \<Rightarrow> (('f, 'x) core \<times> int outcome) res" where
  "timer_handler k =
     rbind (interrupt_end (co_gic k)) (\<lambda>g.
     rbind (timer_tick (co_sys k)) (\<lambda>(s, t).
     Ok (k\<lparr>co_timer := timer_step (co_timer k), co_gic := g, co_sys := s\<rparr>, Blocked t)))"

definition uart_handler :: "('f, 'x) core \<Rightarrow> (('f, 'x) core \<times> int outcome) res" where
  "uart_handler k = rbind (uart_irq (co_sys k) (co_uart k)) (\<lambda>(s, p, r). Ok (k\<lparr>co_sys := s, co_uart := p\<rparr>, r))"

fun run_handler :: "irq_handler \<Rightarrow> ('f, 'x) core \<Rightarrow> (('f, 'x) core \<times> int outcome) res" where
  "run_handler TimerHandler k = timer_handler k"
| "run_handler UartHandler k = uart_handler k"

definition handle_irq :: "usize \<Rightarrow> ('f, 'x) core \<Rightarrow> (('f, 'x) core \<times> int outcome) res" where
  "handle_irq irq k =
     rbind (get_irq_handler (co_gic k) irq) (\<lambda>h.
     case h of Some handler \<Rightarrow> run_handler handler k | None \<Rightarrow> Ok (k, Done 0))"

definition handle_interrupt :: "32 word \<Rightarrow> address \<Rightarrow> ('f, 'x) core \<Rightarrow> ('f, 'x) core res" where
  "handle_interrupt iar frame k =
     rbind (interrupt_begin iar (co_gic k)) (\<lambda>g.
     let k1 = k\<lparr>co_gic := g\<rparr> in
     rbind (get_active_irq g) (\<lambda>i.
     rbind (unwrap i) (\<lambda>irq.
     rbind (current_context k1) (\<lambda>(t, c).
     rbind (handle_irq irq (put_ctx t (push_exception_frame frame c) k1)) (\<lambda>(k2, r).
     case r of
       Blocked n \<Rightarrow> service_return_to_user n k2
     | Done _ \<Rightarrow>
         rbind (interrupt_end (co_gic k2)) (\<lambda>g2. return_to_current (k2\<lparr>co_gic := g2\<rparr>)))))))"

text \<open>From the running program into a handler and back: the processor takes the exception, the vector code
  saves the registers and calls the handler with the frame.\<close>

definition enter_kernel :: "('f, 'x) core \<Rightarrow> address \<times> ('f, 'x) core" where
  "enter_kernel k =
     (let (m, daif) = take_exception (cpu_daif (sy_cpu (co_sys k))) (co_mc k); m1 = vector_entry m in
      (mc_sp m1, k\<lparr>co_mc := m1, co_sys := (co_sys k)\<lparr>sy_cpu := (sy_cpu (co_sys k))\<lparr>cpu_daif := daif\<rparr>\<rparr>\<rparr>))"

definition irq :: "32 word \<Rightarrow> ('f, 'x) core \<Rightarrow> ('f, 'x) core res" where
  "irq iar k = (let (frame, k1) = enter_kernel k in handle_interrupt iar frame k1)"

definition except :: "('f, 'x) syscall_handler \<Rightarrow> 32 word \<Rightarrow> ('f, 'x) core \<Rightarrow> ('f, 'x) core res" where
  "except handle_syscall esr k = (let (frame, k1) = enter_kernel k in handle_exception handle_syscall esr frame k1)"

definition serror :: "('f, 'x) core \<Rightarrow> ('f, 'x) core res" where
  "serror k = (let (frame, k1) = enter_kernel k in handle_exception_serror k1)"

text \<open>The vector table: four groups of four entries, one for each kind of exception.\<close>

datatype exception_kind = Synchronous | IRQ | FIQ | SError

fun kind_index :: "exception_kind \<Rightarrow> nat" where
  "kind_index Synchronous = 0"
| "kind_index IRQ = 1"
| "kind_index FIQ = 2"
| "kind_index SError = 3"

datatype vector = B_except | B_irq | B_serror

definition exception_handlers :: "vector list" where
  "exception_handlers =
     [B_except, B_irq, B_serror, B_serror, B_except, B_irq, B_serror, B_serror,
      B_except, B_irq, B_serror, B_serror, B_except, B_irq, B_serror, B_serror]"

fun branch :: "('f, 'x) syscall_handler \<Rightarrow> 32 word \<Rightarrow> 32 word \<Rightarrow> vector \<Rightarrow> ('f, 'x) core \<Rightarrow> ('f, 'x) core res" where
  "branch hs esr iar B_except k = except hs esr k"
| "branch hs esr iar B_irq k = irq iar k"
| "branch hs esr iar B_serror k = serror k"

text \<open>An exception of a kind, taken through one of the four groups. \<open>esr\<close> is the syndrome register and \<open>iar\<close>
  what the controller's acknowledge register reads.\<close>

definition exception :: "('f, 'x) syscall_handler \<Rightarrow> 32 word \<Rightarrow> 32 word \<Rightarrow> nat \<Rightarrow> exception_kind \<Rightarrow> ('f, 'x) core \<Rightarrow> ('f, 'x) core res" where
  "exception hs esr iar row kind k =
     rbind (idx exception_handlers (4 * row + kind_index kind)) (\<lambda>v. branch hs esr iar v k)"

section \<open>Saved tasks\<close>

text \<open>Task \<open>t\<close> is suspended with the registers of \<open>m\<close>, saved in the frame at \<open>f\<close>.\<close>

definition parked :: "('f, 'x) core \<Rightarrow> task_id \<Rightarrow> machine \<Rightarrow> address \<Rightarrow> bool" where
  "parked k t m f \<longleftrightarrow> (\<exists>c fs. bt_get (co_ctx k) t = Some c \<and> cx_frames c = fs @ [f] \<and> cx_response_status c = None)
     \<and> seg (mc_mem (co_mc k)) f (frame_words m) \<and> f + FRAME_SIZE < USIZE_LIMIT"

definition frame_at :: "address \<Rightarrow> address set" where
  "frame_at f = {f..<f + FRAME_SIZE}"

text \<open>The registers of the interrupted program as the exception hands them over.\<close>

definition interrupted :: "('f, 'x) core \<Rightarrow> machine" where
  "interrupted k = fst (take_exception (cpu_daif (sy_cpu (co_sys k))) (co_mc k))"

definition masked :: "('f, 'm) sys \<Rightarrow> ('f, 'm) sys" where
  "masked s = s\<lparr>sy_cpu := (sy_cpu s)\<lparr>cpu_daif := DAIF_MASK\<rparr>\<rparr>"

lemma seg_cong: "(\<And>i. i < length ws \<Longrightarrow> M' (f + 8 * i) = M (f + 8 * i)) \<Longrightarrow> seg M' f ws = seg M f ws"
proof (induction ws arbitrary: f)
  case (Cons w ws)
  have "M' f = M f" using Cons.prems [of 0] by simp
  moreover have "seg M' (f + 8) ws = seg M (f + 8) ws"
    by (rule Cons.IH) (use Cons.prems [of "Suc _"] in \<open>simp add: add.assoc\<close>)
  ultimately show ?case by simp
qed simp

lemma seg_frame:
  assumes "\<forall>a \<in> frame_at f. M' a = M a"
  shows "seg M' f (frame_words m) = seg M f (frame_words m)"
  by (rule seg_cong) (use assms in \<open>auto simp: frame_at_def frame_length\<close>)

lemma masked_off: "\<not> interrupt_is_enabled (c\<lparr>cpu_daif := DAIF_MASK\<rparr>)"
  by (simp add: interrupt_is_enabled_def DAIF_MASK_def DAIF_I_def)

lemma pm_inv_cpu:
  assumes "pm_inv s" and "\<not> interrupt_is_enabled c"
  shows "pm_inv (s\<lparr>sy_cpu := c\<rparr>)"
proof -
  have "get_task_by_id (s\<lparr>sy_cpu := c\<rparr>) = get_task_by_id s" "process_by_id (s\<lparr>sy_cpu := c\<rparr>) = process_by_id s"
    by (rule ext, simp add: get_task_by_id_def process_by_id_def)+
  then have "tables_ok (s\<lparr>sy_cpu := c\<rparr>)" using assms(1) by (simp add: pm_inv_def tables_ok_def task_ok_def process_ok_def)
  then show ?thesis using assms by (simp add: pm_inv_def sched_inv_def)
qed

text \<open>Returning to a parked task.\<close>

lemma return_to_parked:
  assumes p: "parked k t m f" and off: "\<not> interrupt_is_enabled (sy_cpu (co_sys k))" and proc: "process_current (co_sys k) = Ok (Some pr)"
    and c: "bt_get (co_ctx k) t = Some c"
  obtains k' where "return_to_task t c k = Ok k'" and "same_registers m (co_mc k')" and "mc_pc (co_mc k') = mc_elr m"
    and "mc_mode (co_mc k') = mc_spsr m AND MODE_MASK" and "mc_sp (co_mc k') = f + FRAME_SIZE" and "mc_mem (co_mc k') = mc_mem (co_mc k)"
    and "co_ctx k' = bt_insert t (c\<lparr>cx_frames := butlast (cx_frames c)\<rparr>) (co_ctx k)" and "co_gic k' = co_gic k"
    and "\<exists>cpu. co_sys k' = (co_sys k)\<lparr>sy_cpu := cpu\<rparr> \<and> cpu_ttbr0 cpu = mm_page_table (pr_mm pr) \<and> cpu_daif cpu = mc_spsr m AND DAIF_MASK"
proof -
  obtain fs where fs: "cx_frames c = fs @ [f]" "cx_response_status c = None" and s: "seg (mc_mem (co_mc k)) f (frame_words m)" "f + FRAME_SIZE < USIZE_LIMIT"
    using p c by (auto simp: parked_def)
  let ?m = "(co_mc k)\<lparr>mc_sp := f, mc_mem := mc_mem (co_mc k)\<rparr>"
  have r: "resume_frame c (mc_mem (co_mc k)) = Ok (c\<lparr>cx_frames := fs\<rparr>, mc_mem (co_mc k), f)"
    using fs by (simp add: resume_frame_def pop_exception_frame_def)
  have st: "store_response f (c\<lparr>cx_frames := fs\<rparr>) (mc_mem (co_mc k)) = (c\<lparr>cx_frames := fs\<rparr>, mc_mem (co_mc k))"
    using fs(2) by (simp add: store_response_def)
  have pop: "same_registers m (run pop_all ?m)" "mc_sp (run pop_all ?m) = f + FRAME_SIZE" "mc_mem (run pop_all ?m) = mc_mem (co_mc k)"
    using pop_frame [of ?m f m] s by simp_all
  let ?cpu = "(if mm_page_table (pr_mm pr) \<noteq> cpu_ttbr0 (sy_cpu (co_sys k)) then table_set (mm_page_table (pr_mm pr)) (sy_cpu (co_sys k)) else sy_cpu (co_sys k))"
  let ?x = "exit_exception ?m"
  have x: "snd ?x = mc_spsr m AND DAIF_MASK" "same_registers m (fst ?x)" "mc_pc (fst ?x) = mc_elr m" "mc_mode (fst ?x) = mc_spsr m AND MODE_MASK"
      "mc_sp (fst ?x) = f + FRAME_SIZE" "mc_mem (fst ?x) = mc_mem (co_mc k)"
    using pop by (simp_all add: exit_exception_def eret_def same_registers_def)
  let ?k = "put_ctx t (c\<lparr>cx_frames := fs\<rparr>) (k\<lparr>co_mc := fst ?x, co_sys := (co_sys k)\<lparr>sy_cpu := ?cpu\<lparr>cpu_daif := snd ?x\<rparr>\<rparr>\<rparr>)"
  show ?thesis
  proof (rule that [of ?k])
    show "return_to_task t c k = Ok ?k" using off proc r st by (simp add: return_to_task_def Let_def split_def)
    show "\<exists>cpu. co_sys ?k = (co_sys k)\<lparr>sy_cpu := cpu\<rparr> \<and> cpu_ttbr0 cpu = mm_page_table (pr_mm pr) \<and> cpu_daif cpu = mc_spsr m AND DAIF_MASK"
      using x(1) by (intro exI [of _ "?cpu\<lparr>cpu_daif := snd ?x\<rparr>"]) (simp add: put_ctx_def)
  qed (use x fs(1) in \<open>simp_all add: put_ctx_def\<close>)
qed

text \<open>The way into the kernel saves the interrupted program below its stack pointer and masks interrupts.\<close>

lemma enter_kernel_saves:
  assumes "mc_sp (co_mc k) = f + FRAME_SIZE" and "mc_sp (co_mc k) < USIZE_LIMIT"
  obtains k1 where "enter_kernel k = (f, k1)" and "co_sys k1 = masked (co_sys k)" and "co_ctx k1 = co_ctx k" and "co_gic k1 = co_gic k"
    and "seg (mc_mem (co_mc k1)) f (frame_words (interrupted k))" and "\<forall>a. a \<notin> frame_at f \<longrightarrow> mc_mem (co_mc k1) a = mc_mem (co_mc k) a"
proof -
  let ?m = "interrupted k"
  have sp: "mc_sp ?m = f + FRAME_SIZE" "mc_sp ?m < USIZE_LIMIT" "mc_mem ?m = mc_mem (co_mc k)"
    using assms by (simp_all add: interrupted_def take_exception_def)
  obtain M where M: "mc_mem (run push_all ?m) = M" "mc_sp (run push_all ?m) = f" "seg M f (frame_words ?m)"
      "\<forall>a. a < f \<or> f + FRAME_SIZE \<le> a \<longrightarrow> M a = mc_mem ?m a"
    using push_frame [OF sp(1,2)] by blast
  let ?k1 = "k\<lparr>co_mc := vector_entry ?m, co_sys := masked (co_sys k)\<rparr>"
  have v: "mc_mem (vector_entry ?m) = M" "mc_sp (vector_entry ?m) = f" using M(1,2) by (simp_all add: vector_entry_def Let_def)
  have "take_exception (cpu_daif (sy_cpu (co_sys k))) (co_mc k) = (?m, DAIF_MASK)" by (simp add: interrupted_def take_exception_def)
  then have "enter_kernel k = (f, ?k1)" using v(2) by (simp add: enter_kernel_def masked_def)
  moreover have "\<forall>a. a \<notin> frame_at f \<longrightarrow> M a = mc_mem (co_mc k) a"
    using M(4) sp(3) by (simp add: frame_at_def not_le not_less)
  ultimately show ?thesis using that [of ?k1] M(3) v(1) by simp
qed

text \<open>What a timer interrupt does to the controller: acknowledge, look up, complete.\<close>

lemma gic_cycle:
  assumes "gic_ok g" and "unat (iar AND IAR_INTERRUPT_ID_MASK) = n" and "n < IRQ_LINES" and "gi_handlers g ! n = Some TimerHandler"
  obtains g1 g2 where "interrupt_begin iar g = Ok g1" and "get_active_irq g1 = Ok (Some n)" and "get_irq_handler g1 n = Ok (Some TimerHandler)"
    and "interrupt_end g1 = Ok g2" and "gi_iar g2 = gi_iar g" and "gi_handlers g2 = gi_handlers g" and "gic_ok g2" and "gc_eoir (gi_gicc g2) = iar"
proof -
  obtain iars where i: "gi_iar g = [iars]" using assms(1) by (auto simp: gic_ok_def num_cores_def length_Suc_conv)
  let ?g1 = "g\<lparr>gi_iar := [iars @ [iar]]\<rparr>" and ?g2 = "g\<lparr>gi_iar := [iars], gi_gicc := (gi_gicc g)\<lparr>gc_eoir := iar\<rparr>\<rparr>"
  have l: "length (gi_handlers g) = IRQ_LINES" using assms(1) by (simp add: gic_ok_def)
  have "gic_ok ?g2" using assms(1) by (simp add: gic_ok_def i num_cores_def)
  then show ?thesis
    using that [of ?g1 ?g2] i l assms(2-4)
    by (simp add: interrupt_begin_def get_active_irq_def get_irq_handler_def interrupt_end_def current_core_def)
qed

lemma current_context_Ok:
  assumes "pm_inv (co_sys k)" and "current (co_sys k) = Some t" and "bt_get (co_ctx k) t = Some c"
  shows "current_context k = Ok (t, c)"
proof -
  have s: "shaped (co_sys k)" "state_of (co_sys k) t = Some running"
    using assms(1,2) by (simp_all add: pm_inv_def sched_inv_def view_def)
  then obtain x where x: "get_task_by_id (co_sys k) t = Some x" by (auto simp: state_of_def)
  then have "tk_id x = t" using assms(1) by (auto simp: pm_inv_def tables_ok_def task_ok_def)
  then show ?thesis using s x assms(2,3) by (simp add: current_context_def task_current_def current_Ok)
qed

lemma current_process_Ok:
  assumes "pm_inv s" and "current s = Some t"
  obtains x pr where "get_task_by_id s t = Some x" and "tk_id x = t" and "process_by_id s (tk_proc x) = Some pr" and "process_current s = Ok (Some pr)"
proof -
  have s: "shaped s" "state_of s t = Some running" using assms by (simp_all add: pm_inv_def sched_inv_def view_def)
  then obtain x where x: "get_task_by_id s t = Some x" by (auto simp: state_of_def)
  then have "task_ok s t x" using assms(1) by (simp add: pm_inv_def tables_ok_def)
  then obtain pr where "tk_id x = t" "process_by_id s (tk_proc x) = Some pr" by (auto simp: task_ok_def)
  then show ?thesis using that s x assms(2) by (simp add: process_current_def task_current_def current_Ok)
qed

lemma parked_kept:
  assumes "parked k t m f" and "bt_get (co_ctx k') t = bt_get (co_ctx k) t" and "\<forall>a \<in> frame_at f. mc_mem (co_mc k') a = mc_mem (co_mc k) a"
  shows "parked k' t m f"
  using assms seg_frame [OF assms(3)] by (simp add: parked_def)

lemma timer_preempts_step:
  assumes inv: "pm_inv (masked (co_sys k))" and a: "current (co_sys k) = Some a" and q: "ready_queue (co_sys k) = b # q"
    and gic: "gic_ok (co_gic k)" "unat (iar AND IAR_INTERRUPT_ID_MASK) = n" "n < IRQ_LINES" "gi_handlers (co_gic k) ! n = Some TimerHandler"
    and sp: "mc_sp (co_mc k) = fa + FRAME_SIZE" "mc_sp (co_mc k) < USIZE_LIMIT"
    and ca: "bt_get (co_ctx k) a = Some ca" "cx_response_status ca = None"
    and b: "parked k b mb fb" "frame_at fa \<inter> frame_at fb = {}"
  obtains k' x pr where "irq iar k = Ok k'" and "current (co_sys k') = Some b" and "ready_queue (co_sys k') = q @ [a]" and "pm_inv (masked (co_sys k'))"
    and "same_registers mb (co_mc k')" and "mc_pc (co_mc k') = mc_elr mb" and "mc_mode (co_mc k') = mc_spsr mb AND MODE_MASK"
    and "cpu_daif (sy_cpu (co_sys k')) = mc_spsr mb AND DAIF_MASK"
    and "get_task_by_id (co_sys k) b = Some x" and "process_by_id (co_sys k) (tk_proc x) = Some pr" and "cpu_ttbr0 (sy_cpu (co_sys k')) = mm_page_table (pr_mm pr)"
    and "parked k' a (interrupted k) fa" and "\<forall>t m f. t \<noteq> a \<longrightarrow> t \<noteq> b \<longrightarrow> parked k t m f \<longrightarrow> frame_at fa \<inter> frame_at f = {} \<longrightarrow> parked k' t m f"
    and "gi_iar (co_gic k') = gi_iar (co_gic k)"
proof -
  obtain k1 where k1: "enter_kernel k = (fa, k1)" "co_sys k1 = masked (co_sys k)" "co_ctx k1 = co_ctx k" "co_gic k1 = co_gic k"
      "seg (mc_mem (co_mc k1)) fa (frame_words (interrupted k))" "\<forall>x. x \<notin> frame_at fa \<longrightarrow> mc_mem (co_mc k1) x = mc_mem (co_mc k) x"
    using enter_kernel_saves [OF sp] .
  obtain g1 g2 where g: "interrupt_begin iar (co_gic k) = Ok g1" "get_active_irq g1 = Ok (Some n)" "get_irq_handler g1 n = Ok (Some TimerHandler)"
      "interrupt_end g1 = Ok g2" "gi_iar g2 = gi_iar (co_gic k)"
    using gic_cycle [OF gic] by metis
  let ?s = "masked (co_sys k)"
  have v: "current ?s = Some a" "ready_queue ?s = b # q" "get_task_by_id ?s = get_task_by_id (co_sys k)" "process_by_id ?s = process_by_id (co_sys k)"
    using a q by (auto simp: masked_def current_def ready_queue_def get_task_by_id_def process_by_id_def)
  have si: "sched_inv ?s" "tables_ok ?s" using inv by (simp_all add: pm_inv_def)
  have ab: "a \<noteq> b" using current_not_queued [OF si(1) v(1)] v(2) by auto
  define k3 where "k3 = put_ctx a (push_exception_frame fa ca) (k1\<lparr>co_gic := g1\<rparr>)"
  have cc: "current_context (k1\<lparr>co_gic := g1\<rparr>) = Ok (a, ca)"
    by (rule current_context_Ok) (use inv v k1 ca in simp_all)
  obtain s' where s': "timer_tick ?s = Ok (s', b)" "sched_inv s'" "same_tables ?s s'" "current s' = Some b" "ready_queue s' = q @ [a]"
    using tick_inv [OF si(1) v(1)] v(2) by auto
  define k4 where "k4 = k3\<lparr>co_timer := timer_step (co_timer k3), co_gic := g2, co_sys := s'\<rparr>"
  have h: "handle_irq n k3 = Ok (k4, Blocked b)"
    using g(3,4) s'(1) k1(2) by (simp add: handle_irq_def timer_handler_def k3_def k4_def put_ctx_def)
  have inv': "pm_inv s'" using s'(2) same_tables_ok [OF si(2) s'(3)] by (simp add: pm_inv_def)
  obtain x' pr where x': "get_task_by_id s' b = Some x'" "tk_id x' = b" "process_by_id s' (tk_proc x') = Some pr" "process_current s' = Ok (Some pr)"
    using current_process_Ok [OF inv' s'(4)] .
  obtain cb where cb: "bt_get (co_ctx k) b = Some cb" using b(1) by (auto simp: parked_def)
  have m4: "co_mc k4 = co_mc k1" "co_ctx k4 = bt_insert a (push_exception_frame fa ca) (co_ctx k)" "co_sys k4 = s'" "co_gic k4 = g2"
    using k1(3) by (simp_all add: k4_def k3_def put_ctx_def)
  have pb: "parked k4 b mb fb"
    by (rule parked_kept [OF b(1)]) (use ab b(2) k1(6) m4 in \<open>auto simp: frame_at_def\<close>)
  have off: "\<not> interrupt_is_enabled (sy_cpu (co_sys k4))" using s'(2) m4(3) by simp
  have c4: "bt_get (co_ctx k4) b = Some cb" using cb ab m4(2) by simp
  obtain k' where r: "return_to_task b cb k4 = Ok k'" "same_registers mb (co_mc k')" "mc_pc (co_mc k') = mc_elr mb"
      "mc_mode (co_mc k') = mc_spsr mb AND MODE_MASK" "mc_mem (co_mc k') = mc_mem (co_mc k4)"
      "co_ctx k' = bt_insert b (cb\<lparr>cx_frames := butlast (cx_frames cb)\<rparr>) (co_ctx k4)" "co_gic k' = co_gic k4"
      and cpu: "\<exists>cpu. co_sys k' = (co_sys k4)\<lparr>sy_cpu := cpu\<rparr> \<and> cpu_ttbr0 cpu = mm_page_table (pr_mm pr) \<and> cpu_daif cpu = mc_spsr mb AND DAIF_MASK"
    using return_to_parked [OF pb off _ c4] x'(4) m4(3) by metis
  obtain c' where c': "co_sys k' = s'\<lparr>sy_cpu := c'\<rparr>" "cpu_ttbr0 c' = mm_page_table (pr_mm pr)" "cpu_daif c' = mc_spsr mb AND DAIF_MASK"
    using cpu m4(3) by auto
  have "irq iar k = Ok k'"
    using k1(1,4) g(1,2) cc h x'(1,2) c4 r(1) m4(3) by (simp add: irq_def handle_interrupt_def Let_def k3_def [symmetric] service_return_to_user_def)
  moreover have "pm_inv (masked (co_sys k'))" using pm_inv_cpu [OF inv' masked_off] c'(1) by (simp add: masked_def)
  moreover obtain x where "get_task_by_id (co_sys k) b = Some x" "tk_proc x = tk_proc x'"
    using same_tables_tasks [OF s'(3), of b] x'(1) v(3) by (cases "get_task_by_id (co_sys k) b") auto
  moreover have "process_by_id s' = process_by_id (co_sys k)"
    unfolding v(4) [symmetric] using s'(3) by (simp add: fun_eq_iff process_by_id_def same_tables_def)
  moreover have "parked k' a (interrupted k) fa"
    using ab ca(2) k1(5) sp m4(1) r(5,6) m4(2) by (simp add: parked_def push_exception_frame_def)
  moreover have "parked k' t m f" if "t \<noteq> a" "t \<noteq> b" "parked k t m f" "frame_at fa \<inter> frame_at f = {}" for t m f
    by (rule parked_kept [OF that(3)]) (use that r(5,6) m4(1,2) k1(6) in auto)
  moreover have "current (co_sys k') = Some b" "ready_queue (co_sys k') = q @ [a]"
    using c'(1) s'(4,5) by (simp_all add: current_def ready_queue_def)
  ultimately show ?thesis using that r c' x'(3) m4(4) g(5) by simp
qed


lemma exception_branch:
  assumes "row < 4"
  shows "exception hs esr iar row IRQ k = irq iar k" and "exception hs esr iar row Synchronous k = except hs esr k"
proof -
  have "row \<in> {0, 1, 2, 3}" using assms by auto
  then show "exception hs esr iar row IRQ k = irq iar k" "exception hs esr iar row Synchronous k = except hs esr k"
    by (auto simp: exception_def exception_handlers_def idx_def)
qed

section \<open>Preemption\<close>

text \<open>C9: a timer interrupt switches tasks without losing either. If task \<open>a\<close> runs and \<open>b\<close> heads the ready
  queue, suspended with its registers saved at \<open>fb\<close>, then the interrupt, through any group of the vector
  table, ends with \<open>b\<close> running: every general and vector register, its user stack pointer, its program
  counter, processor mode and interrupt mask are those it was suspended with, and the translation table is
  the one of \<open>b\<close>'s process. Task \<open>a\<close> goes to the back of the queue and is itself suspended with exactly the
  registers it had; every other suspended task whose frame does not overlap \<open>a\<close>'s new one stays suspended; the
  invariants of scheduler and process tables hold, and the controller's list of active interrupts is what
  it was before.\<close>

theorem timer_preempts:
  assumes "pm_inv (masked (co_sys k))" and "current (co_sys k) = Some a" and "ready_queue (co_sys k) = b # q"
    and "gic_ok (co_gic k)" and "unat (iar AND IAR_INTERRUPT_ID_MASK) = n" and "n < IRQ_LINES" and "gi_handlers (co_gic k) ! n = Some TimerHandler"
    and "mc_sp (co_mc k) = fa + FRAME_SIZE" and "mc_sp (co_mc k) < USIZE_LIMIT" and "row < 4"
    and "bt_get (co_ctx k) a = Some ca" and "cx_response_status ca = None"
    and "parked k b mb fb" and "frame_at fa \<inter> frame_at fb = {}"
  shows "\<exists>k' x pr. exception hs esr iar row IRQ k = Ok k' \<and> current (co_sys k') = Some b \<and> ready_queue (co_sys k') = q @ [a]
    \<and> pm_inv (masked (co_sys k')) \<and> same_registers mb (co_mc k') \<and> mc_pc (co_mc k') = mc_elr mb
    \<and> mc_mode (co_mc k') = mc_spsr mb AND MODE_MASK \<and> cpu_daif (sy_cpu (co_sys k')) = mc_spsr mb AND DAIF_MASK
    \<and> get_task_by_id (co_sys k) b = Some x \<and> process_by_id (co_sys k) (tk_proc x) = Some pr
    \<and> cpu_ttbr0 (sy_cpu (co_sys k')) = mm_page_table (pr_mm pr) \<and> parked k' a (interrupted k) fa
    \<and> (\<forall>t m f. t \<noteq> a \<longrightarrow> t \<noteq> b \<longrightarrow> parked k t m f \<longrightarrow> frame_at fa \<inter> frame_at f = {} \<longrightarrow> parked k' t m f)
    \<and> gi_iar (co_gic k') = gi_iar (co_gic k)"
  unfolding exception_branch(1) [OF assms(10)]
  by (rule timer_preempts_step [OF assms(1-9,11-14)]) blast

definition demo_process :: "proc_id \<Rightarrow> task_id list \<Rightarrow> address \<Rightarrow> proc_id \<times> (unit, mm_state) process" where
  "demo_process p ts table = (p, \<lparr>pr_id = p, pr_threads = ts, pr_fs = (), pr_mm = \<lparr>mm_page_table = table, mm_highwater = 0\<rparr>, pr_locks = [], pr_cvars = []\<rparr>)"

definition demo_procs :: "(unit, mm_state) sys" where
  "demo_procs = \<lparr>sy_cpu = \<lparr>cpu_daif = 0, cpu_ttbr0 = 0x1000\<rparr>, sy_current = [Some 0], sy_queue = [[1]],
     sy_tasks = [(0, \<lparr>tk_id = 0, tk_proc = 1, tk_sched = running\<rparr>), (1, \<lparr>tk_id = 1, tk_proc = 2, tk_sched = new_state\<rparr>)],
     sy_procs = [demo_process 1 [0] 0x1000, demo_process 2 [1] 0x2000],
     sy_task_count = 2, sy_proc_count = 3, sy_mutexes = [], sy_cvars = [], sy_task_live = [], sy_proc_live = []\<rparr>"

lemma demo_procs_inv: "pm_inv (masked demo_procs)"
proof -
  have s: "state_of (masked demo_procs) t = (if t = 0 then Some running else if t = 1 then Some new_state else None)" for t
    by (simp add: state_of_def get_task_by_id_def masked_def demo_procs_def bt_get_def)
  have c: "current (masked demo_procs) = Some 0" and q: "ready_queue (masked demo_procs) = [1]"
    by (simp_all add: current_def ready_queue_def masked_def demo_procs_def)
  have "inv_view (view (masked demo_procs))" unfolding view_def c q by (auto simp: s running_def new_state_def split: if_splits)
  then have "sched_inv (masked demo_procs)"
    by (simp add: sched_inv_def shaped_def) (simp add: masked_def masked_off, simp add: demo_procs_def)
  moreover have "tables_ok (masked demo_procs)"
    by (auto simp: tables_ok_def task_ok_def process_ok_def masked_def demo_procs_def demo_process_def get_task_by_id_def process_by_id_def bt_get_def split: if_splits)
  ultimately show ?thesis by (simp add: pm_inv_def)
qed

text \<open>Task 1 was suspended in user mode by an earlier interrupt, with all registers zero.\<close>

definition demo_kernel :: "(unit, unit) core" where
  "demo_kernel = \<lparr>co_sys = demo_procs, co_mc = demo_machine,
     co_ctx = [(0, context_empty\<lparr>cx_kernel_stack_top := 0x2000\<rparr>), (1, context_empty\<lparr>cx_frames := [0x3000]\<rparr>)],
     co_gic = \<lparr>gi_gicd = gi_gicd demo_gic, gi_gicc = gi_gicc demo_gic, gi_iar = [[]], gi_handlers = (replicate 256 None)[27 := Some TimerHandler]\<rparr>,
     co_timer = \<lparr>tm_frequency = 62500000, tm_tval = 0, tm_ctl = 1\<rparr>, co_uart = demo_pl011, co_ext = ()\<rparr>"

definition demo_parked :: machine where
  "demo_parked = \<lparr>mc_x = (\<lambda>_. 0), mc_q = (\<lambda>_. 0), mc_sp = 0, mc_pc = 0, mc_mode = 0, mc_sp_el0 = 0, mc_elr = 0, mc_spsr = 0, mc_mem = (\<lambda>_. 0)\<rparr>"

theorem timer_preempts_witness:
  "\<exists>k'. exception (\<lambda>_ _ _ _ _ _ _ k. Panic Unimplemented) 0 27 2 IRQ demo_kernel = Ok k' \<and> current (co_sys k') = Some 1
    \<and> cpu_ttbr0 (sy_cpu (co_sys k')) = 0x2000 \<and> mc_x (co_mc k') 21 = 0 \<and> parked k' 0 (interrupted demo_kernel) 0x1CF0"
proof -
  have c: "current (co_sys demo_kernel) = Some 0" "ready_queue (co_sys demo_kernel) = [1]" "pm_inv (masked (co_sys demo_kernel))"
    using demo_procs_inv by (simp_all add: demo_kernel_def current_def ready_queue_def) (simp_all add: demo_procs_def)
  have g: "gic_ok (co_gic demo_kernel)" "unat ((27::32 word) AND IAR_INTERRUPT_ID_MASK) = 27" "27 < IRQ_LINES" "gi_handlers (co_gic demo_kernel) ! 27 = Some TimerHandler"
    by (simp_all add: gic_ok_def demo_kernel_def demo_gic_def array_for_range_def num_cores_def IRQ_LINES_def IAR_INTERRUPT_ID_MASK_def)
  have m: "mc_sp (co_mc demo_kernel) = 0x1CF0 + FRAME_SIZE" "mc_sp (co_mc demo_kernel) < USIZE_LIMIT"
    by (simp_all add: demo_kernel_def demo_machine_def USIZE_LIMIT_def)
  have x: "bt_get (co_ctx demo_kernel) 0 = Some (context_empty\<lparr>cx_kernel_stack_top := 0x2000\<rparr>)"
    by (simp add: demo_kernel_def bt_get_def)
  have "seg (\<lambda>_. 0) 0x3000 (frame_words demo_parked)"
    by (simp add: frame_words_def demo_parked_def upt_rec q_low_def q_high_def)
  then have p: "parked demo_kernel 1 demo_parked 0x3000"
    by (simp add: parked_def demo_kernel_def demo_machine_def bt_get_def context_empty_def USIZE_LIMIT_def)
  have d: "frame_at 0x1CF0 \<inter> frame_at 0x3000 = {}" by (auto simp: frame_at_def)
  obtain k' y pr where "exception (\<lambda>_ _ _ _ _ _ _ k. Panic Unimplemented) 0 27 2 IRQ demo_kernel = Ok k'" "current (co_sys k') = Some 1"
      "get_task_by_id (co_sys demo_kernel) 1 = Some y" "process_by_id (co_sys demo_kernel) (tk_proc y) = Some pr"
      "cpu_ttbr0 (sy_cpu (co_sys k')) = mm_page_table (pr_mm pr)" "same_registers demo_parked (co_mc k')" "parked k' 0 (interrupted demo_kernel) 0x1CF0"
    using timer_preempts [OF c(3,1,2) g m _ x _ p d, of 2 "\<lambda>_ _ _ _ _ _ _ k. Panic Unimplemented" 0] by (auto simp: context_empty_def)
  then show ?thesis
    by (intro exI [of _ k']) (auto simp: demo_kernel_def demo_procs_def demo_process_def get_task_by_id_def process_by_id_def bt_get_def same_registers_def demo_parked_def)
qed

end
