(* ===== verification/Device_Tree.thy ===== *)
theory Device_Tree
  imports Address Ramfs
begin

text \<open>
  \<^verbatim>\<open>libs/device-tree\<close>: reading addresses, windows and interrupt numbers out of the flattened device tree. The
  tree itself is parsed by the \<^verbatim>\<open>fdt_rs\<close> crate; what it presents of a property is data here: the name, the raw
  bytes, the word \<^verbatim>\<open>u32(0)\<close> and the strings \<^verbatim>\<open>iter_str\<close> goes through. A node is given by its properties
  and those of its ancestors, nearest first.
\<close>

section \<open>Nodes\<close>

record property =
  pp_name :: string
  pp_raw :: "byte list"
  pp_u32 :: "usize option"
  pp_strs :: "string list"

type_synonym dt_node = "property list list"

definition node_props :: "dt_node \<Rightarrow> property list" where
  "node_props n = (case n of [] \<Rightarrow> [] | ps # _ \<Rightarrow> ps)"

definition node_parent :: "dt_node \<Rightarrow> dt_node option" where
  "node_parent n = (case n of _ # q # up \<Rightarrow> Some (q # up) | _ \<Rightarrow> None)"

definition find_prop :: "string \<Rightarrow> dt_node \<Rightarrow> property option" where
  "find_prop name n = List.find (\<lambda>p. pp_name p = name) (node_props n)"

definition compatible :: "dt_node list \<Rightarrow> string \<Rightarrow> dt_node option" where
  "compatible nodes name =
     List.find (\<lambda>n. case find_prop ''compatible'' n of Some p \<Rightarrow> name \<in> set (pp_strs p) | None \<Rightarrow> False) nodes"

record cells =
  address_cells :: usize
  size_cells :: usize

definition cells_default :: cells where
  "cells_default = \<lparr>address_cells = 2, size_cells = 1\<rparr>"

fun cell_props :: "property list \<Rightarrow> cells \<Rightarrow> cells res" where
  "cell_props [] c = Ok c"
| "cell_props (p # ps) c =
     rbind (if pp_name p = ''#address-cells'' then rbind (unwrap (pp_u32 p)) (\<lambda>v. Ok (c\<lparr>address_cells := v\<rparr>))
            else if pp_name p = ''#size-cells'' then rbind (unwrap (pp_u32 p)) (\<lambda>v. Ok (c\<lparr>size_cells := v\<rparr>))
            else Ok c) (cell_props ps)"

fun cell_sizes :: "dt_node \<Rightarrow> cells res" where
  "cell_sizes [] = Ok cells_default"
| "cell_sizes (ps # up) = rbind (if up = [] then Ok cells_default else cell_sizes up) (cell_props ps)"

fun interrupt_cells :: "dt_node \<Rightarrow> usize res" where
  "interrupt_cells [] = Ok 1"
| "interrupt_cells (ps # up) =
     (case find_prop ''#interrupt-cells'' (ps # up) of
        Some p \<Rightarrow> unwrap (pp_u32 p)
      | None \<Rightarrow> if up = [] then Ok 1 else interrupt_cells up)"

section \<open>Reading cells\<close>

definition from_be_bytes :: "byte list \<Rightarrow> nat" where
  "from_be_bytes bs = foldl (\<lambda>v b. v * 256 + unat b) 0 bs"

definition read_u32 :: "byte list \<Rightarrow> (usize \<times> byte list) res" where
  "read_u32 buf = (if length buf < 4 then Panic IndexOutOfBounds else Ok (from_be_bytes (take 4 buf), drop 4 buf))"

definition read_u64 :: "byte list \<Rightarrow> (usize \<times> byte list) res" where
  "read_u64 buf = (if length buf < 8 then Panic IndexOutOfBounds else Ok (from_be_bytes (take 8 buf), drop 8 buf))"

definition read_cells :: "usize \<Rightarrow> byte list \<Rightarrow> (usize \<times> byte list) res" where
  "read_cells n buf = (if n = 1 then read_u32 buf else if n = 2 then read_u64 buf else Panic Unreachable)"

text \<open>An iterator made by \<^verbatim>\<open>from_fn\<close> is the state its closure captured and a step. \<open>iter_nth\<close> is
  \<^verbatim>\<open>skip(i).next()\<close>.\<close>

fun iter_nth :: "('s \<Rightarrow> ('a \<times> 's) option res) \<Rightarrow> 's \<Rightarrow> nat \<Rightarrow> 'a option res" where
  "iter_nth step s 0 = rbind (step s) (\<lambda>r. Ok (map_option fst r))"
| "iter_nth step s (Suc i) = rbind (step s) (\<lambda>r. case r of None \<Rightarrow> Ok None | Some (_, s1) \<Rightarrow> iter_nth step s1 i)"

section \<open>Windows\<close>

record ranges_iter =
  ri_address_cells :: usize
  ri_parent_address_cells :: usize
  ri_size_cells :: usize
  ri_buf :: "byte list"

definition ranges :: "dt_node \<Rightarrow> ranges_iter option res" where
  "ranges n =
     rbind (case node_parent n of Some p \<Rightarrow> rbind (cell_sizes p) (\<lambda>c. Ok (address_cells c)) | None \<Rightarrow> Ok 0) (\<lambda>pac.
     rbind (cell_sizes n) (\<lambda>c.
     Ok (map_option (\<lambda>p. \<lparr>ri_address_cells = address_cells c, ri_parent_address_cells = pac, ri_size_cells = size_cells c, ri_buf = pp_raw p\<rparr>)
       (find_prop ''ranges'' n))))"

definition ranges_next :: "ranges_iter \<Rightarrow> ((address \<times> address \<times> usize) \<times> ranges_iter) option res" where
  "ranges_next it =
     (if length (ri_buf it) = 0 then Ok None
      else
        rbind (read_cells (ri_address_cells it) (ri_buf it)) (\<lambda>(child_addr, b1).
        rbind (read_cells (ri_parent_address_cells it) b1) (\<lambda>(parent_addr, b2).
        rbind (read_cells (ri_size_cells it) b2) (\<lambda>(size, b3).
        Ok (Some ((child_addr, parent_addr, size), it\<lparr>ri_buf := b3\<rparr>))))))"

lemma read_cells_shorter: "read_cells n buf = Ok (v, buf') \<Longrightarrow> length buf' < length buf"
  by (auto simp: read_cells_def read_u32_def read_u64_def split: if_splits)

lemma ranges_next_shorter: "ranges_next it = Ok (Some (x, it')) \<Longrightarrow> length (ri_buf it') < length (ri_buf it)"
  by (auto simp: ranges_next_def rbind_Ok_iff split: if_splits dest!: read_cells_shorter)

function ranges_loop :: "ranges_iter \<Rightarrow> address \<Rightarrow> address option res" where
  "ranges_loop it a =
     rbind (ranges_next it) (\<lambda>r.
     case r of
       None \<Rightarrow> Ok None
     | Some ((c, p, s), it1) \<Rightarrow>
         rbind (if c \<le> a then rbind (addr_add c s) (\<lambda>e. Ok (a < e)) else Ok False) (\<lambda>hit.
         if hit then rbind (addr_diff a c) (\<lambda>d. rbind (addr_add p d) (\<lambda>b. Ok (Some b))) else ranges_loop it1 a))"
  by pat_completeness auto
termination
  by (relation "measure (\<lambda>(it, a). length (ri_buf it))") (auto dest: ranges_next_shorter)

declare ranges_loop.simps [simp del]

fun translate :: "dt_node \<Rightarrow> address \<Rightarrow> address res" where
  "translate [] a = Ok a"
| "translate (ps # up) a =
     rbind (ranges (ps # up)) (\<lambda>r.
     case r of
       None \<Rightarrow> if up = [] then Ok a else translate up a
     | Some it \<Rightarrow>
         rbind (ranges_loop it a) (\<lambda>h.
         case h of
           Some b \<Rightarrow> if up = [] then Ok b else translate up b
         | None \<Rightarrow> Ok a))"

section \<open>Registers and interrupts\<close>

record regs_iter =
  rg_address_cells :: usize
  rg_size_cells :: usize
  rg_buf :: "byte list"

definition regs :: "dt_node \<Rightarrow> regs_iter option res" where
  "regs n =
     rbind (unwrap (node_parent n)) (\<lambda>p.
     rbind (cell_sizes p) (\<lambda>c.
     Ok (map_option (\<lambda>p. \<lparr>rg_address_cells = address_cells c, rg_size_cells = size_cells c, rg_buf = pp_raw p\<rparr>) (find_prop ''reg'' n))))"

definition regs_next :: "regs_iter \<Rightarrow> ((address \<times> address) \<times> regs_iter) option res" where
  "regs_next it =
     (if rg_buf it = [] then Ok None
      else
        rbind (read_cells (rg_address_cells it) (rg_buf it)) (\<lambda>(addr, b1).
        rbind (read_cells (rg_size_cells it) b1) (\<lambda>(size, b2).
        rbind (addr_add addr size) (\<lambda>e.
        Ok (Some ((addr, e), it\<lparr>rg_buf := b2\<rparr>))))))"

definition interrupts :: "dt_node \<Rightarrow> (usize \<times> byte list) option res" where
  "interrupts n =
     rbind (interrupt_cells n) (\<lambda>w.
     Ok (map_option (\<lambda>p. (w, pp_raw p)) (find_prop ''interrupts'' n)))"

definition interrupts_next :: "usize \<times> byte list \<Rightarrow> ((usize \<times> usize) \<times> usize \<times> byte list) option res" where
  "interrupts_next it =
     (case it of (w, buf) \<Rightarrow>
      if buf = [] then Ok None
      else
        rbind (read_cells w buf) (\<lambda>(k, b1).
        let is_spi = (k \<noteq> 0) in
        rbind (read_cells w b1) (\<lambda>(irq, b2).
        rbind (read_cells w b2) (\<lambda>(ty, b3).
        let irq_base = (if is_spi then 16 else 32) in
        rbind (uadd irq_base irq) (\<lambda>n.
        Ok (Some ((n, ty), w, b3)))))))"

section \<open>Encoding\<close>

text \<open>How a tree stores the numbers: big-endian words of \<open>n\<close> cells.\<close>

fun be_bytes :: "nat \<Rightarrow> nat \<Rightarrow> byte list" where
  "be_bytes 0 v = []"
| "be_bytes (Suc n) v = be_bytes n (v div 256) @ [of_nat v]"

lemma be_bytes_length [simp]: "length (be_bytes n v) = n"
  by (induction n arbitrary: v) simp_all

lemma from_be_bytes_be [simp]: "v < 256 ^ n \<Longrightarrow> from_be_bytes (be_bytes n v) = v"
proof (induction n arbitrary: v)
  case (Suc n)
  have "v div 256 < 256 ^ n" using Suc.prems by (simp add: less_mult_imp_div_less mult.commute)
  moreover have "unat (of_nat v :: byte) = v mod 256" by (simp add: unat_of_nat)
  ultimately show ?case using Suc.IH [of "v div 256"] by (simp add: from_be_bytes_def)
qed (simp add: from_be_bytes_def)

definition width :: "nat \<Rightarrow> bool" where
  "width w \<longleftrightarrow> w = 1 \<or> w = 2"

definition cell_bytes :: "nat \<Rightarrow> nat \<Rightarrow> byte list" where
  "cell_bytes w v = be_bytes (4 * w) v"

definition fits :: "nat \<Rightarrow> nat \<Rightarrow> bool" where
  "fits w v \<longleftrightarrow> width w \<and> v < 256 ^ (4 * w)"

lemma read_cells_encoded [simp]: "fits w v \<Longrightarrow> read_cells w (cell_bytes w v @ bs) = Ok (v, bs)"
  by (auto simp: fits_def width_def read_cells_def read_u32_def read_u64_def cell_bytes_def)

lemma cell_bytes_nonempty [simp]: "fits w v \<Longrightarrow> cell_bytes w v \<noteq> []"
  by (auto simp: cell_bytes_def fits_def width_def simp flip: length_greater_0_conv)

text \<open>What the three iterators have in common: a step reads one encoded entry off the front of the buffer.\<close>

locale cell_decoder =
  fixes step :: "'s \<Rightarrow> ('a \<times> 's) option res" and state :: "byte list \<Rightarrow> 's"
    and enc :: "'x \<Rightarrow> byte list" and dec :: "'x \<Rightarrow> 'a" and ok :: "'x \<Rightarrow> bool"
  assumes step_end: "step (state []) = Ok None"
    and step_entry: "ok x \<Longrightarrow> step (state (enc x @ bs)) = Ok (Some (dec x, state bs))"
begin

lemma nth_encoded:
  assumes "\<forall>x \<in> set xs. ok x"
  shows "iter_nth step (state (concat (map enc xs))) i = Ok (if i < length xs then Some (dec (xs ! i)) else None)"
  using assms
proof (induction xs arbitrary: i)
  case Nil
  then show ?case by (cases i) (simp_all add: step_end)
next
  case (Cons x xs)
  then show ?case by (cases i) (simp_all add: step_entry)
qed

end

definition enc_range :: "nat \<Rightarrow> nat \<Rightarrow> nat \<Rightarrow> address \<times> address \<times> usize \<Rightarrow> byte list" where
  "enc_range ac pc sc r = (case r of (c, p, s) \<Rightarrow> cell_bytes ac c @ cell_bytes pc p @ cell_bytes sc s)"

definition range_ok :: "nat \<Rightarrow> nat \<Rightarrow> nat \<Rightarrow> address \<times> address \<times> usize \<Rightarrow> bool" where
  "range_ok ac pc sc r \<longleftrightarrow> (case r of (c, p, s) \<Rightarrow> fits ac c \<and> fits pc p \<and> fits sc s \<and> c + s < USIZE_LIMIT \<and> p + s < USIZE_LIMIT)"

definition enc_reg :: "nat \<Rightarrow> nat \<Rightarrow> address \<times> usize \<Rightarrow> byte list" where
  "enc_reg ac sc r = (case r of (a, s) \<Rightarrow> cell_bytes ac a @ cell_bytes sc s)"

definition reg_ok :: "nat \<Rightarrow> nat \<Rightarrow> address \<times> usize \<Rightarrow> bool" where
  "reg_ok ac sc r \<longleftrightarrow> (case r of (a, s) \<Rightarrow> fits ac a \<and> fits sc s \<and> a + s < USIZE_LIMIT)"

definition enc_interrupt :: "nat \<Rightarrow> usize \<times> usize \<times> usize \<Rightarrow> byte list" where
  "enc_interrupt w r = (case r of (k, n, t) \<Rightarrow> cell_bytes w k @ cell_bytes w n @ cell_bytes w t)"

definition interrupt_ok :: "nat \<Rightarrow> usize \<times> usize \<times> usize \<Rightarrow> bool" where
  "interrupt_ok w r \<longleftrightarrow> (case r of (k, n, t) \<Rightarrow> fits w k \<and> fits w n \<and> fits w t \<and> n + 32 < USIZE_LIMIT)"

text \<open>The number space of the interrupt controller: kind 0 is a shared interrupt, numbered from 32, any other
  kind a private one, numbered from 16.\<close>

definition interrupt_line :: "usize \<times> usize \<times> usize \<Rightarrow> usize \<times> usize" where
  "interrupt_line r = (case r of (k, n, t) \<Rightarrow> ((if k = 0 then 32 + n else 16 + n), t))"

interpretation range_dec: cell_decoder ranges_next
  "\<lambda>b. \<lparr>ri_address_cells = ac, ri_parent_address_cells = pc, ri_size_cells = sc, ri_buf = b\<rparr>" "enc_range ac pc sc" id "range_ok ac pc sc"
  for ac pc sc
  by unfold_locales (auto simp: ranges_next_def enc_range_def range_ok_def)

interpretation reg_dec: cell_decoder regs_next
  "\<lambda>b. \<lparr>rg_address_cells = ac, rg_size_cells = sc, rg_buf = b\<rparr>" "enc_reg ac sc" "\<lambda>(a, s). (a, a + s)" "reg_ok ac sc"
  for ac sc
  by unfold_locales (auto simp: regs_next_def enc_reg_def reg_ok_def addr_add_def uadd_def)

interpretation interrupt_dec: cell_decoder interrupts_next "\<lambda>b. (w, b)" "enc_interrupt w" interrupt_line "interrupt_ok w"
  for w
proof
  fix x bs
  assume "interrupt_ok w x"
  then show "interrupts_next (w, enc_interrupt w x @ bs) = Ok (Some (interrupt_line x, w, bs))"
    by (cases x; cases "fst x = 0") (simp_all add: interrupts_next_def enc_interrupt_def interrupt_ok_def interrupt_line_def uadd_def Let_def)
qed (simp add: interrupts_next_def)

section \<open>Translation\<close>

text \<open>The windows of a node and its ancestors, \<open>None\<close> where a node has no \<^verbatim>\<open>ranges\<close>, and what they do to an
  address.\<close>

definition in_window :: "address \<Rightarrow> address \<times> address \<times> usize \<Rightarrow> bool" where
  "in_window a r \<longleftrightarrow> (case r of (c, p, s) \<Rightarrow> c \<le> a \<and> a < c + s)"

fun through :: "(address \<times> address \<times> usize) list option list \<Rightarrow> address \<Rightarrow> address" where
  "through [] a = a"
| "through (None # ws) a = through ws a"
| "through (Some rs # ws) a = (case List.find (in_window a) rs of Some (c, p, s) \<Rightarrow> through ws (p + (a - c)) | None \<Rightarrow> a)"

fun windows :: "dt_node \<Rightarrow> (address \<times> address \<times> usize) list option list \<Rightarrow> bool" where
  "windows [] ws \<longleftrightarrow> ws = []"
| "windows (ps # up) [] \<longleftrightarrow> False"
| "windows (ps # up) (w # ws) \<longleftrightarrow> windows up ws \<and>
     (\<exists>c pc. cell_sizes (ps # up) = Ok c \<and> (if up = [] then pc = 0 else \<exists>d. cell_sizes up = Ok d \<and> pc = address_cells d) \<and>
       (case w of
          None \<Rightarrow> find_prop ''ranges'' (ps # up) = None
        | Some rs \<Rightarrow> \<exists>p. find_prop ''ranges'' (ps # up) = Some p
            \<and> pp_raw p = concat (map (enc_range (address_cells c) pc (size_cells c)) rs)
            \<and> (\<forall>r \<in> set rs. range_ok (address_cells c) pc (size_cells c) r)))"

lemma in_window_simp [simp]: "in_window a (c, p, s) \<longleftrightarrow> c \<le> a \<and> a < c + s"
  by (simp add: in_window_def)

lemma ranges_loop_encoded:
  assumes "\<forall>r \<in> set rs. range_ok ac pc sc r"
  shows "ranges_loop \<lparr>ri_address_cells = ac, ri_parent_address_cells = pc, ri_size_cells = sc, ri_buf = concat (map (enc_range ac pc sc) rs)\<rparr> a
    = Ok (map_option (\<lambda>(c, p, s). p + (a - c)) (List.find (in_window a) rs))"
  using assms
proof (induction rs)
  case Nil
  then show ?case by (subst ranges_loop.simps) (simp add: range_dec.step_end)
next
  case (Cons r rs)
  obtain c p s where r: "r = (c, p, s)" by (cases r) auto
  have "c + s < USIZE_LIMIT" "p + s < USIZE_LIMIT" using Cons.prems r by (auto simp: range_ok_def)
  then show ?case
    using Cons.IH Cons.prems
    by (subst ranges_loop.simps) (auto simp: range_dec.step_entry r addr_add_def addr_diff_def uadd_def usub_def)
qed

lemma translate_through: "windows n ws \<Longrightarrow> translate n a = Ok (through ws a)"
proof (induction n arbitrary: ws a)
  case (Cons ps up)
  then obtain w ws' where ws: "ws = w # ws'" by (cases ws) auto
  obtain c pc where c: "cell_sizes (ps # up) = Ok c" "if up = [] then pc = 0 else \<exists>d. cell_sizes up = Ok d \<and> pc = address_cells d"
      "case w of None \<Rightarrow> find_prop ''ranges'' (ps # up) = None
        | Some rs \<Rightarrow> \<exists>p. find_prop ''ranges'' (ps # up) = Some p \<and> pp_raw p = concat (map (enc_range (address_cells c) pc (size_cells c)) rs)
            \<and> (\<forall>r \<in> set rs. range_ok (address_cells c) pc (size_cells c) r)"
    using Cons.prems unfolding ws windows.simps by blast
  have up: "windows up ws'" using Cons.prems ws by simp
  have par: "(case node_parent (ps # up) of Some p \<Rightarrow> rbind (cell_sizes p) (\<lambda>c. Ok (address_cells c)) | None \<Rightarrow> Ok 0) = Ok pc"
    using c(2) by (cases up) (auto simp: node_parent_def)
  have rec: "(if up = [] then Ok b else translate up b) = Ok (through ws' b)" for b
    using Cons.IH [OF up] up by (cases up) auto
  have rg: "ranges (ps # up) = Ok (map_option (\<lambda>p. \<lparr>ri_address_cells = address_cells c, ri_parent_address_cells = pc, ri_size_cells = size_cells c,
      ri_buf = pp_raw p\<rparr>) (find_prop ''ranges'' (ps # up)))"
    unfolding ranges_def par c(1) by simp
  show ?case
  proof (cases w)
    case None
    then show ?thesis using c(3) rec ws rg by simp
  next
    case (Some rs)
    then obtain p where "find_prop ''ranges'' (ps # up) = Some p" "pp_raw p = concat (map (enc_range (address_cells c) pc (size_cells c)) rs)"
        "\<forall>r \<in> set rs. range_ok (address_cells c) pc (size_cells c) r" using c(3) by auto
    then show ?thesis
      using rec ws Some rg by (cases "List.find (in_window a) rs") (auto simp: ranges_loop_encoded)
  qed
qed simp

section \<open>Properties\<close>

text \<open>C33: addresses are translated as the windows say. When every \<^verbatim>\<open>ranges\<close> property from the node up to the root
  encodes windows in the cell sizes in force there, \<^verbatim>\<open>Node::translate\<close> returns what the windows mean: a
  node without the property passes the address up, a node with it replaces the offset in the first
  matching window, and an address outside all windows of a node stays as it is.\<close>

theorem translate_refines: "windows n ws \<Longrightarrow> translate n a = Ok (through ws a)"
  by (rule translate_through)

definition demo_prop :: "string \<Rightarrow> byte list \<Rightarrow> property" where
  "demo_prop name raw = \<lparr>pp_name = name, pp_raw = raw, pp_u32 = (if length raw < 4 then None else Some (from_be_bytes (take 4 raw))), pp_strs = []\<rparr>"

definition demo_soc :: dt_node where
  "demo_soc =
     [[demo_prop ''ranges'' (enc_range 1 2 1 (0x7e000000, 0xfe000000, 0x1800000) @ enc_range 1 2 1 (0x40000000, 0xff800000, 0x800000)),
       demo_prop ''#address-cells'' (be_bytes 4 1), demo_prop ''#size-cells'' (be_bytes 4 1)],
      [demo_prop ''#address-cells'' (be_bytes 4 2), demo_prop ''#size-cells'' (be_bytes 4 1)]]"

definition demo_uart_node :: dt_node where
  "demo_uart_node =
     [demo_prop ''reg'' (concat (map (enc_reg 1 1) [(0x7e201000, 0x200)])), demo_prop ''interrupts'' (concat (map (enc_interrupt 1) [(0, 121, 4)]))] # demo_soc"

lemma demo_cells: "cell_sizes demo_soc = Ok \<lparr>address_cells = 1, size_cells = 1\<rparr>" "cell_sizes (tl demo_soc) = Ok \<lparr>address_cells = 2, size_cells = 1\<rparr>"
    "cell_sizes demo_uart_node = Ok \<lparr>address_cells = 1, size_cells = 1\<rparr>"
  by (simp_all add: demo_soc_def demo_uart_node_def demo_prop_def cells_default_def)

theorem translate_refines_witness: "translate demo_uart_node 0x7e201000 = Ok 0xfe201000"
proof -
  let ?rs = "[(0x7e000000, 0xfe000000, 0x1800000), (0x40000000, 0xff800000, 0x800000)]"
  have "windows demo_uart_node [None, Some ?rs, None]"
    using demo_cells
    by (simp add: demo_uart_node_def demo_soc_def) (simp add: demo_prop_def find_prop_def node_props_def range_ok_def fits_def width_def USIZE_LIMIT_def)
  from translate_refines [OF this] show ?thesis by simp
qed

lemma find_prop_None: "\<forall>q \<in> set ps. pp_name q \<noteq> name \<Longrightarrow> find_prop name (ps # up) = None"
  by (simp add: find_prop_def node_props_def find_None_iff)

lemma interrupt_cells_default: "\<forall>ps \<in> set n. \<forall>q \<in> set ps. pp_name q \<noteq> ''#interrupt-cells'' \<Longrightarrow> interrupt_cells n = Ok 1"
  by (induction n) (auto simp: find_prop_None)

text \<open>C34: registers and interrupt numbers are decoded from the bytes of the tree. If the \<^verbatim>\<open>reg\<close> property of a node
  encodes address and size pairs in the cell sizes of its parent, the iterator \<^verbatim>\<open>regs\<close> yields exactly these
  ranges, in order, and then ends. If no ancestor sets \<^verbatim>\<open>#interrupt-cells\<close> and \<^verbatim>\<open>interrupts\<close> encodes triples
  of kind, number and type, \<^verbatim>\<open>interrupts\<close> yields their lines in the controller's numbering, shared
  interrupts from 32 and private ones from 16.\<close>

theorem node_decodes:
  assumes "node_parent n = Some u" and "cell_sizes u = Ok c" and "find_prop ''reg'' n = Some p"
    and "pp_raw p = concat (map (enc_reg (address_cells c) (size_cells c)) rs)" and "\<forall>r \<in> set rs. reg_ok (address_cells c) (size_cells c) r"
    and "\<forall>ps \<in> set n. \<forall>q \<in> set ps. pp_name q \<noteq> ''#interrupt-cells''" and "find_prop ''interrupts'' n = Some q"
    and "pp_raw q = concat (map (enc_interrupt 1) is)" and "\<forall>r \<in> set is. interrupt_ok 1 r"
  shows "\<exists>it jt. regs n = Ok (Some it) \<and> (\<forall>i. iter_nth regs_next it i = Ok (if i < length rs then Some (fst (rs ! i), fst (rs ! i) + snd (rs ! i)) else None))
    \<and> interrupts n = Ok (Some jt) \<and> (\<forall>i. iter_nth interrupts_next jt i = Ok (if i < length is then Some (interrupt_line (is ! i)) else None))"
proof -
  have "interrupts n = Ok (Some (1, pp_raw q))" using assms(7) interrupt_cells_default [OF assms(6)] by (simp add: interrupts_def)
  moreover have "regs n = Ok (Some \<lparr>rg_address_cells = address_cells c, rg_size_cells = size_cells c, rg_buf = pp_raw p\<rparr>)"
    using assms(1-3) by (simp add: regs_def)
  ultimately show ?thesis
    using reg_dec.nth_encoded [OF assms(5)] interrupt_dec.nth_encoded [OF assms(9)] assms(4,8) by (auto simp: split_def)
qed

theorem node_decodes_witness:
  "\<exists>it jt. regs demo_uart_node = Ok (Some it) \<and> iter_nth regs_next it 0 = Ok (Some (0x7e201000, 0x7e201200)) \<and> iter_nth regs_next it 1 = Ok None
    \<and> interrupts demo_uart_node = Ok (Some jt) \<and> iter_nth interrupts_next jt 0 = Ok (Some (153, 4))"
proof -
  have n: "node_parent demo_uart_node = Some demo_soc" "find_prop ''reg'' demo_uart_node = Some (demo_prop ''reg'' (concat (map (enc_reg 1 1) [(0x7e201000, 0x200)])))"
    "find_prop ''interrupts'' demo_uart_node = Some (demo_prop ''interrupts'' (concat (map (enc_interrupt 1) [(0, 121, 4)])))"
    "\<forall>ps \<in> set demo_uart_node. \<forall>q \<in> set ps. pp_name q \<noteq> ''#interrupt-cells''"
    by (simp_all add: node_parent_def demo_uart_node_def demo_soc_def find_prop_def node_props_def demo_prop_def)
  have r: "\<forall>r \<in> set [(0x7e201000, 0x200)]. reg_ok 1 1 r" "\<forall>r \<in> set [(0, 121, 4)]. interrupt_ok 1 r"
    by (simp_all add: reg_ok_def interrupt_ok_def fits_def width_def USIZE_LIMIT_def)
  have raw: "pp_raw (demo_prop s b) = b" for s b by (simp add: demo_prop_def)
  obtain it jt where "regs demo_uart_node = Ok (Some it)" "interrupts demo_uart_node = Ok (Some jt)"
    and i: "\<And>i. iter_nth regs_next it i = Ok (if i < 1 then Some (fst ([(0x7e201000, 0x200)] ! i), fst ([(0x7e201000, 0x200)] ! i) + snd ([(0x7e201000, 0x200)] ! i)) else None)"
    and j: "\<And>i. iter_nth interrupts_next jt i = Ok (if i < 1 then Some (interrupt_line ([(0, 121, 4)] ! i)) else None)"
    using node_decodes [OF n(1) demo_cells(1) n(2) _ _ n(4,3) raw r(2), of "[(0x7e201000, 0x200)]"] r(1) raw by auto
  then show ?thesis using i [of 0] i [of 1] j [of 0] by (simp add: interrupt_line_def del: iter_nth.simps)
qed

end
