(* ===== verification/Kernel_Heap.thy ===== *)
theory Kernel_Heap
  imports Kernel_Memory
begin

text \<open>
  Correctness of the kernel's memory manager. Physical memory behind its address-space guard is a
  frame allocator, so the results on page tables hold for the kernel's tables; \<^verbatim>\<open>acquire_pages\<close> backs
  fresh virtual pages with fresh frames; the kernel heap is a page source of the free-list allocator.
\<close>

section \<open>Guards leave the state as it was\<close>

definition k_ok :: "cpu \<Rightarrow> address \<Rightarrow> bitmap \<Rightarrow> kernel \<Rightarrow> bool" where
  "k_ok c t v s \<longleftrightarrow> ph_inv (k_phys s) \<and> k_cpu s = c \<and> k_table s = t \<and> k_virt s = v
     \<and> t \<noteq> 0 \<and> 4096 dvd t \<and> 4096 dvd cpu_ttbr0 c"

definition k_free :: "kernel \<Rightarrow> address set" where
  "k_free s = ph_free (k_phys s)"

lemma guard_Ok:
  assumes "k_ok c t v s"
  obtains g c' where "with_kernel_address_space s = Ok (g, s\<lparr>k_cpu := c'\<rparr>)" and "page_tables_drop g c' = c"
    and "pg_new g = t" and "\<not> interrupt_is_enabled c'" and "cpu_ttbr0 c' = t"
proof -
  have a: "4096 dvd t" "4096 dvd cpu_ttbr0 c" and s: "k_table s = t" "k_cpu s = c" "t \<noteq> 0"
    using assms by (auto simp: k_ok_def)
  obtain g c' where e: "enable_temporarily t c = Ok (g, c')" "\<not> interrupt_is_enabled c'" "cpu_ttbr0 c' = t"
    by (rule enable_temporarily_Ok [OF a])
  then have "pg_new g = t" by (auto simp: enable_temporarily_def rbind_Ok_iff page_new_Ok_iff Let_def)
  then show ?thesis using that e guard_restores(3) [OF e(1)] s by (simp add: with_kernel_address_space_def)
qed

lemma phys_ops:
  assumes "k_ok c t v s"
  shows "phys_acquire S s = rbind (ppr_acquire S (k_phys s)) (\<lambda>(p, r). Ok (s\<lparr>k_phys := p\<rparr>, r))"
    and "phys_release S s f = rbind (ppr_release S (k_phys s) f) (\<lambda>p. Ok (s\<lparr>k_phys := p\<rparr>))"
proof -
  have c: "k_cpu s = c" using assms by (simp add: k_ok_def)
  obtain g c' where g: "with_kernel_address_space s = Ok (g, s\<lparr>k_cpu := c'\<rparr>)" "page_tables_drop g c' = c"
      "\<not> interrupt_is_enabled c'"
    by (rule guard_Ok [OF assms])
  have "s\<lparr>k_cpu := c', k_phys := p, k_cpu := c\<rparr> = s\<lparr>k_phys := p\<rparr>" for p
    using c by (cases s) simp
  then show "phys_acquire S s = rbind (ppr_acquire S (k_phys s)) (\<lambda>(p, r). Ok (s\<lparr>k_phys := p\<rparr>, r))"
    "phys_release S s f = rbind (ppr_release S (k_phys s) f) (\<lambda>p. Ok (s\<lparr>k_phys := p\<rparr>))"
    using g by (simp_all add: phys_acquire_def phys_release_def drop_guard_def uninterruptible_lock_def
        uninterruptible_unlock_def Let_def split_def)
qed

lemma k_ok_phys: "k_ok c t v s \<Longrightarrow> ph_inv p \<Longrightarrow> k_ok c t v (s\<lparr>k_phys := p\<rparr>)"
  by (simp add: k_ok_def)

interpretation kphys: frame_allocator phys_acquire phys_release "k_ok c t v" k_free k_mem k_put for c t v
proof unfold_locales
  fix s S
  assume k: "k_ok c t v s"
  then have I: "ph_inv (k_phys s)" by (simp add: k_ok_def)
  from phys.alloc_cases [OF I, of S]
  show "phys_acquire S s = Ok (s, None) \<or>
      (\<exists>s' f. phys_acquire S s = Ok (s', Some f) \<and> k_ok c t v s' \<and> 0 < f \<and> BYTES S dvd f \<and> f + BYTES S \<le> USIZE_LIMIT
        \<and> {f..<f + BYTES S} \<subseteq> k_free s \<and> k_free s' = k_free s - {f..<f + BYTES S}
        \<and> (\<forall>a. a \<notin> k_free s \<longrightarrow> k_mem s' a = k_mem s a))"
  proof (elim disjE exE conjE)
    fix p f
    assume "ppr_acquire S (k_phys s) = Ok (p, Some f)" "ph_inv p" "0 < f" "BYTES S dvd f" "f + BYTES S \<le> USIZE_LIMIT"
      "{f..<f + BYTES S} \<subseteq> ph_free (k_phys s)" "ph_free p = ph_free (k_phys s) - {f..<f + BYTES S}"
      "\<forall>a. a \<notin> ph_free (k_phys s) \<longrightarrow> ph_mem p a = ph_mem (k_phys s) a"
    then show ?thesis
      using k_ok_phys [OF k] by (auto simp: phys_ops(1) [OF k] k_free_def k_mem_def)
  qed (simp add: phys_ops(1) [OF k])
next
  fix s
  assume k: "k_ok c t v s" and n: "phys_acquire Size4K s = Ok (s, None)"
  then have I: "ph_inv (k_phys s)" by (simp add: k_ok_def)
  have "\<exists>p. ppr_acquire Size4K (k_phys s) = Ok (p, None) \<and> p = k_phys s"
    using n by (auto simp: phys_ops(1) [OF k] rbind_Ok_iff) (metis kernel.select_convs(1) kernel.surjective kernel.update_convs(1))
  then show "k_free s = {}" using phys.alloc_4k [OF I] by (auto simp: k_free_def)
next
  fix s f S
  assume k: "k_ok c t v s" and f: "0 < f" "BYTES S dvd f" "f + BYTES S \<le> USIZE_LIMIT" "{f..<f + BYTES S} \<inter> k_free s = {}"
  then have I: "ph_inv (k_phys s)" by (simp add: k_ok_def)
  obtain p where "ppr_release S (k_phys s) f = Ok p" "ph_inv p" "ph_free p = ph_free (k_phys s) \<union> {f..<f + BYTES S}"
      "\<forall>a. a \<notin> {f..<f + BYTES S} \<longrightarrow> ph_mem p a = ph_mem (k_phys s) a"
    using phys.dealloc_Ok [OF I f(1-3)] f(4) by (auto simp: k_free_def)
  then show "\<exists>s'. phys_release S s f = Ok s' \<and> k_ok c t v s' \<and> k_free s' = k_free s \<union> {f..<f + BYTES S}
      \<and> (\<forall>a. a \<notin> {f..<f + BYTES S} \<longrightarrow> k_mem s' a = k_mem s a)"
    using k_ok_phys [OF k] by (auto simp: phys_ops(2) [OF k] k_free_def k_mem_def)
next
  fix s m
  assume k: "k_ok c t v s" and m: "\<forall>a \<in> k_free s. m a = k_mem s a"
  then have "ph_inv (k_phys s)" by (simp add: k_ok_def)
  from phys.put_mem_Ok [OF this] m
  show "k_ok c t v (k_put s m) \<and> k_free (k_put s m) = k_free s \<and> k_mem (k_put s m) = m"
    using k_ok_phys [OF k] by (simp add: k_free_def k_mem_def k_put_def)
qed

section \<open>Mapping kernel pages\<close>

abbreviation kt_inv :: "cpu \<Rightarrow> address \<Rightarrow> bitmap \<Rightarrow> kernel \<Rightarrow> bool" where
  "kt_inv c t v s \<equiv> table_inv (k_ok c t v) k_free k_mem 3 s t"

lemma kt_inv_cpu:
  assumes "kt_inv c t v s" and "4096 dvd cpu_ttbr0 c'"
  shows "kt_inv c' t v (s\<lparr>k_cpu := c'\<rparr>)"
  using assms by (auto simp: table_inv_def k_ok_def k_free_def k_mem_def)

lemma mapper_map_cases:
  assumes inv: "kt_inv c t v s" and page: "in_kernel_heap page" "page < 2 ^ 48"
    and f: "4096 dvd frame" "frame < 2 ^ 48" and fl: "flags_fit S (map_flags S flags)"
    and nb: "\<not> covers (k_mem s) t page (4 - map_levels S)"
  shows "mapper_map S s page frame flags = Panic UnwrapNone \<or>
    (\<exists>s'. mapper_map S s page frame flags = Ok s' \<and> kt_inv c t v s' \<and> k_free s' \<subseteq> k_free s
      \<and> (\<forall>x. x \<notin> k_free s \<union> words (foot 3 (k_mem s) t) \<longrightarrow> k_mem s' x = k_mem s x)
      \<and> words (foot 3 (k_mem s') t) \<subseteq> words (foot 3 (k_mem s) t) \<union> k_free s
      \<and> (\<forall>a. leaf (k_mem s') t (indices a) = (if take (map_levels S) (indices a) = take (map_levels S) (indices page)
            then Some (of_nat frame OR map_flags S flags, 4 - map_levels S) else leaf (k_mem s) t (indices a))))"
proof -
  have k: "k_ok c t v s" using inv by (simp add: table_inv_def)
  obtain g c' where g: "with_kernel_address_space s = Ok (g, s\<lparr>k_cpu := c'\<rparr>)" "page_tables_drop g c' = c"
      "pg_new g = t" "cpu_ttbr0 c' = t"
    by (rule guard_Ok [OF k])
  have t: "4096 dvd t" using k by (simp add: k_ok_def)
  let ?s1 = "s\<lparr>k_cpu := c'\<rparr>"
  have inv1: "kt_inv c' t v ?s1" using inv g(4) t by (intro kt_inv_cpu) auto
  have m: "k_mem ?s1 = k_mem s" "k_free ?s1 = k_free s" by (simp_all add: k_mem_def k_free_def)
  have nb1: "\<not> covers (k_mem ?s1) t page (4 - map_levels S)" using nb by (simp add: m)
  have red: "mapper_map S s page frame flags = rbind (pt_map phys_acquire k_mem k_put S ?s1 t page frame flags)
      (\<lambda>(s2, _). Ok (drop_guard g s2))"
    using page(1) g(1,3) by (simp add: mapper_map_def page_start_def)
  from kphys.pt_map_cases [OF inv1 f fl page(2) nb1] show ?thesis
  proof (elim disjE exE conjE)
    fix s2
    assume s2: "pt_map phys_acquire k_mem k_put S ?s1 t page frame flags = Ok (s2, page)"
      "kphys.map_post c' t v 3 ?s1 s2 t (take (map_levels S) (indices page)) (of_nat frame OR map_flags S flags)"
    have P: "kt_inv c' t v s2" "k_free s2 \<subseteq> k_free s" "words (foot 3 (k_mem s2) t) \<subseteq> words (foot 3 (k_mem s) t) \<union> k_free s"
        "\<forall>x. x \<notin> k_free s \<union> words (foot 3 (k_mem s) t) \<longrightarrow> k_mem s2 x = k_mem s x"
      and L: "\<And>ks. length ks = 4 \<Longrightarrow> \<forall>k \<in> set ks. k < 512 \<Longrightarrow> leaf (k_mem s2) t ks =
        (if take (map_levels S) ks = take (map_levels S) (indices page)
         then Some (of_nat frame OR map_flags S flags, 4 - map_levels S) else leaf (k_mem s) t ks)"
      using s2(2) map_levels_LOG(3) [of S] unfolding kphys.map_post_def m by (auto simp: min_def)
    have c2: "k_cpu s2 = c'" using P(1) by (simp add: table_inv_def k_ok_def)
    have "4096 dvd cpu_ttbr0 c" using k by (simp add: k_ok_def)
    then have "kt_inv c t v (drop_guard g s2)"
      using kt_inv_cpu [OF P(1)] g(2) by (simp add: drop_guard_def c2)
    moreover have "k_mem (drop_guard g s2) = k_mem s2" "k_free (drop_guard g s2) = k_free s2"
      by (simp_all add: drop_guard_def k_mem_def k_free_def)
    ultimately show ?thesis using P L indices_less by (auto simp: red s2(1))
  qed (simp add: red)
qed

section \<open>Backing virtual pages\<close>

context frame_allocator
begin

lemma tinv_cong:
  assumes "tinv d s t" and "invar s'" and "free s' \<subseteq> free s" and "\<forall>x. x \<notin> free s \<longrightarrow> mem s' x = mem s x"
  shows "tinv d s' t" and "foot d (mem s') t = foot d (mem s) t"
    and "length ks \<le> Suc d \<Longrightarrow> \<forall>k \<in> set ks. k < 512 \<Longrightarrow> leaf (mem s') t ks = leaf (mem s) t ks"
proof -
  have same: "\<forall>x \<in> words (foot d (mem s) t). mem s' x = mem s x"
    using assms(1,4) unfolding table_inv_def by blast
  show F: "foot d (mem s') t = foot d (mem s) t" using same by (rule foot_cong)
  show "tinv d s' t"
    using assms tree_cong [OF same] unfolding table_inv_def F by blast
  show "length ks \<le> Suc d \<Longrightarrow> \<forall>k \<in> set ks. k < 512 \<Longrightarrow> leaf (mem s') t ks = leaf (mem s) t ks"
    using same by (rule leaf_cong)
qed

end

lemma heap_bounds: "KERNEL_HEAP_START = 0xff4000000000" "KERNEL_HEAP_END = 0xff8000000000"
  "KERNEL_HEAP_START + 2 ^ LOG_KERNEL_HEAP_SIZE = KERNEL_HEAP_END" "KERNEL_HEAP_END < 2 ^ 48"
  by (simp_all add: KERNEL_HEAP_START_def KERNEL_HEAP_END_def KERNEL_MEMORY_END_def KERNEL_HEAP_SIZE_def
      LOG_KERNEL_HEAP_SIZE_def)

lemma heap_limits: "18 \<le> LOG_KERNEL_HEAP_SIZE" "LOG_KERNEL_HEAP_SIZE < 64" "BYTES Size1G dvd KERNEL_HEAP_START"
  "KERNEL_HEAP_START + 2 ^ LOG_KERNEL_HEAP_SIZE < USIZE_LIMIT"
  unfolding heap_bounds by (simp_all add: LOG_KERNEL_HEAP_SIZE_def BYTES_def USIZE_LIMIT_def dvd_eq_mod_eq_0)

definition backed :: "page_size \<Rightarrow> memory \<Rightarrow> address \<Rightarrow> page \<Rightarrow> frame \<Rightarrow> bool" where
  "backed S m t p f \<longleftrightarrow> (\<forall>a. p \<le> a \<longrightarrow> a < p + BYTES S \<longrightarrow>
     leaf m t (indices a) = Some (of_nat f OR map_flags S (kernel_data_flags S), 4 - map_levels S))"

definition frame_fresh :: "page_size \<Rightarrow> kernel \<Rightarrow> frame \<Rightarrow> bool" where
  "frame_fresh S s f \<longleftrightarrow> 0 < f \<and> BYTES S dvd f \<and> {f..<f + BYTES S} \<subseteq> k_free s"

definition frames_of :: "page_size \<Rightarrow> frame list \<Rightarrow> address set" where
  "frames_of S fs = (\<Union>f \<in> set fs. {f..<f + BYTES S})"

lemma take_frame:
  assumes inv: "kt_inv c t v s"
  shows "phys_acquire S s = Ok (s, None) \<or>
    (\<exists>s1 f. phys_acquire S s = Ok (s1, Some f) \<and> kt_inv c t v s1 \<and> frame_fresh S s f
      \<and> k_free s1 = k_free s - {f..<f + BYTES S} \<and> foot 3 (k_mem s1) t = foot 3 (k_mem s) t
      \<and> (\<forall>x. x \<notin> k_free s \<longrightarrow> k_mem s1 x = k_mem s x)
      \<and> (\<forall>a. leaf (k_mem s1) t (indices a) = leaf (k_mem s) t (indices a)))"
proof -
  have k: "k_ok c t v s" using inv by (simp add: table_inv_def)
  from kphys.alloc_cases [OF k, of S] show ?thesis
  proof (elim disjE exE conjE)
    fix s1 f
    assume a: "phys_acquire S s = Ok (s1, Some f)" "k_ok c t v s1" "0 < f" "BYTES S dvd f"
      "{f..<f + BYTES S} \<subseteq> k_free s" "k_free s1 = k_free s - {f..<f + BYTES S}"
      "\<forall>a. a \<notin> k_free s \<longrightarrow> k_mem s1 a = k_mem s a"
    have "k_free s1 \<subseteq> k_free s" by (simp add: a(6))
    note cong = kphys.tinv_cong [OF inv a(2) this a(7)]
    have "leaf (k_mem s1) t (indices a) = leaf (k_mem s) t (indices a)" for a
      by (rule cong(3)) (simp_all add: indices_less)
    then show ?thesis using a cong(1,2) by (auto simp: frame_fresh_def)
  qed simp
qed

lemma back_one:
  assumes inv: "kt_inv c t v s" and al: "BYTES S dvd start" "KERNEL_HEAP_START \<le> start"
    and e: "start + i * BYTES S + BYTES S \<le> KERNEL_HEAP_END"
    and un: "leaf (k_mem s) t (indices (start + i * BYTES S)) = None"
  defines "p \<equiv> start + i * BYTES S"
  defines "r \<equiv> rbind (phys_acquire S s) (\<lambda>(s1, r). rbind (unwrap r) (\<lambda>frame.
      rbind (page_forward S start i) (\<lambda>page. mapper_map S s1 page frame (kernel_data_flags S))))"
  shows "r = Panic UnwrapNone \<or>
    (\<exists>s' f. r = Ok s' \<and> kt_inv c t v s' \<and> frame_fresh S s f \<and> k_free s' \<subseteq> k_free s - {f..<f + BYTES S}
      \<and> words (foot 3 (k_mem s') t) \<subseteq> words (foot 3 (k_mem s) t) \<union> (k_free s - {f..<f + BYTES S})
      \<and> (\<forall>a < 2 ^ 48. leaf (k_mem s') t (indices a) = (if p \<le> a \<and> a < p + BYTES S
           then Some (of_nat f OR map_flags S (kernel_data_flags S), 4 - map_levels S) else leaf (k_mem s) t (indices a))))"
  using take_frame [OF inv, of S]
proof (elim disjE exE conjE)
  fix s1 f
  assume a: "phys_acquire S s = Ok (s1, Some f)" "kt_inv c t v s1" "frame_fresh S s f"
    "k_free s1 = k_free s - {f..<f + BYTES S}" "foot 3 (k_mem s1) t = foot 3 (k_mem s) t"
    and l1: "\<forall>a. leaf (k_mem s1) t (indices a) = leaf (k_mem s) t (indices a)"
  have B: "4096 dvd BYTES S" "4096 \<le> BYTES S" by (cases S; simp add: BYTES_def dvd_eq_mod_eq_0)+
  have p: "in_kernel_heap p" "p < 2 ^ 48" "BYTES S dvd p"
    using al e B(2) heap_bounds(4) by (auto simp: in_kernel_heap_def page_start_def p_def)
  have "f \<in> k_free s" using a(3) B(2) by (auto simp: frame_fresh_def)
  then have f: "4096 dvd f" "f < 2 ^ 48"
    using a(3) B(1) inv by (auto simp: frame_fresh_def table_inv_def intro: dvd_trans)
  have nb: "\<not> covers (k_mem s1) t p (4 - map_levels S)" using un l1 by (simp add: covers_def p_def)
  have pf: "page_forward S start i = Ok p"
    unfolding p_def using p(2) by (intro page_forward_Ok al(1)) (simp add: USIZE_LIMIT_def p_def)
  from mapper_map_cases [OF a(2) p(1,2) f flags_fit_all(6) nb] show ?thesis
  proof (elim disjE exE conjE)
    fix s2
    assume m: "mapper_map S s1 p f (kernel_data_flags S) = Ok s2" "kt_inv c t v s2" "k_free s2 \<subseteq> k_free s1"
      "words (foot 3 (k_mem s2) t) \<subseteq> words (foot 3 (k_mem s1) t) \<union> k_free s1"
      and l2: "\<forall>a. leaf (k_mem s2) t (indices a) = (if take (map_levels S) (indices a) = take (map_levels S) (indices p)
          then Some (of_nat f OR map_flags S (kernel_data_flags S), 4 - map_levels S) else leaf (k_mem s1) t (indices a))"
    have "\<forall>a < 2 ^ 48. leaf (k_mem s2) t (indices a) = (if p \<le> a \<and> a < p + BYTES S
        then Some (of_nat f OR map_flags S (kernel_data_flags S), 4 - map_levels S) else leaf (k_mem s) t (indices a))"
      using l1 l2 page_prefix [OF p(3,2)] by simp
    then show ?thesis
      using a(1,3) pf m unfolding r_def a(4,5) by (intro disjI2 exI [of _ s2] exI [of _ f]) simp
  qed (use a(1) pf in \<open>simp add: r_def\<close>)
qed (simp add: r_def)

lemma backed_step:
  assumes "apart (map (\<lambda>f. {f..<f + BYTES S}) fs)" "\<forall>g \<in> set fs. frame_fresh S s2 g"
    and "frame_fresh S s f" and "k_free s2 \<subseteq> k_free s - {f..<f + BYTES S}"
  shows "apart (map (\<lambda>f. {f..<f + BYTES S}) (f # fs))" and "\<forall>g \<in> set (f # fs). frame_fresh S s g"
proof -
  have "\<forall>g \<in> set fs. {f..<f + BYTES S} \<inter> {g..<g + BYTES S} = {}" using assms(2,4) unfolding frame_fresh_def by blast
  then show "apart (map (\<lambda>f. {f..<f + BYTES S}) (f # fs))" using assms(1) by simp
  show "\<forall>g \<in> set (f # fs). frame_fresh S s g" using assms(2-4) by (auto simp: frame_fresh_def)
qed

lemma back_pages_cases:
  "kt_inv c t v s \<Longrightarrow> BYTES S dvd start \<Longrightarrow> KERNEL_HEAP_START \<le> start
    \<Longrightarrow> start + (i + n) * BYTES S \<le> KERNEL_HEAP_END
    \<Longrightarrow> \<forall>a. start + i * BYTES S \<le> a \<longrightarrow> a < start + (i + n) * BYTES S \<longrightarrow> leaf (k_mem s) t (indices a) = None \<Longrightarrow>
   back_pages S s start i n = Panic UnwrapNone \<or>
   (\<exists>s' fs. back_pages S s start i n = Ok s' \<and> kt_inv c t v s' \<and> length fs = n
     \<and> apart (map (\<lambda>f. {f..<f + BYTES S}) fs) \<and> (\<forall>f \<in> set fs. frame_fresh S s f)
     \<and> k_free s' \<subseteq> k_free s - frames_of S fs
     \<and> words (foot 3 (k_mem s') t) \<subseteq> words (foot 3 (k_mem s) t) \<union> (k_free s - frames_of S fs)
     \<and> (\<forall>j < n. backed S (k_mem s') t (start + (i + j) * BYTES S) (fs ! j))
     \<and> (\<forall>a < 2 ^ 48. a < start + i * BYTES S \<or> start + (i + n) * BYTES S \<le> a \<longrightarrow>
          leaf (k_mem s') t (indices a) = leaf (k_mem s) t (indices a)))"
proof (induction n arbitrary: s i)
  case (Suc n)
  let ?B = "BYTES S" and ?w = "\<lambda>f. of_nat f OR map_flags S (kernel_data_flags S)"
  let ?p = "start + i * ?B"
  let ?r = "rbind (phys_acquire S s) (\<lambda>(s1, r). rbind (unwrap r) (\<lambda>frame.
      rbind (page_forward S start i) (\<lambda>page. mapper_map S s1 page frame (kernel_data_flags S))))"
  have step: "back_pages S s start i (Suc n) = rbind ?r (\<lambda>s2. back_pages S s2 start (i + 1) n)"
    by (simp add: rbind_assoc split_def)
  have e: "?p + ?B \<le> KERNEL_HEAP_END" using Suc.prems(4) by (simp add: algebra_simps)
  have un: "leaf (k_mem s) t (indices ?p) = None" using Suc.prems(5) by (simp add: add_mult_distrib)
  from back_one [OF Suc.prems(1-3) e un] show ?case
  proof (elim disjE exE conjE)
    fix s2 f
    assume m: "?r = Ok s2" "kt_inv c t v s2" "frame_fresh S s f" "k_free s2 \<subseteq> k_free s - {f..<f + ?B}"
      "words (foot 3 (k_mem s2) t) \<subseteq> words (foot 3 (k_mem s) t) \<union> (k_free s - {f..<f + ?B})"
      and l2: "\<forall>a < 2 ^ 48. leaf (k_mem s2) t (indices a) = (if ?p \<le> a \<and> a < ?p + ?B
          then Some (?w f, 4 - map_levels S) else leaf (k_mem s) t (indices a))"
    have e2: "start + (i + 1 + n) * ?B \<le> KERNEL_HEAP_END" using Suc.prems(4) by simp
    then have un2: "\<forall>a. start + (i + 1) * ?B \<le> a \<longrightarrow> a < start + (i + 1 + n) * ?B \<longrightarrow> leaf (k_mem s2) t (indices a) = None"
      using l2 Suc.prems(5) heap_bounds(4) by (auto simp: algebra_simps)
    from Suc.IH [OF m(2) Suc.prems(2,3) e2 un2] show ?thesis
    proof (elim disjE exE conjE)
      fix s' fs
      assume h: "back_pages S s2 start (i + 1) n = Ok s'" "kt_inv c t v s'" "length fs = n"
        "apart (map (\<lambda>f. {f..<f + ?B}) fs)" "\<forall>f \<in> set fs. frame_fresh S s2 f"
        "k_free s' \<subseteq> k_free s2 - frames_of S fs"
        "words (foot 3 (k_mem s') t) \<subseteq> words (foot 3 (k_mem s2) t) \<union> (k_free s2 - frames_of S fs)"
        "\<forall>j < n. backed S (k_mem s') t (start + (i + 1 + j) * ?B) (fs ! j)"
        and l3: "\<forall>a < 2 ^ 48. a < start + (i + 1) * ?B \<or> start + (i + 1 + n) * ?B \<le> a \<longrightarrow>
          leaf (k_mem s') t (indices a) = leaf (k_mem s2) t (indices a)"
      note fr = backed_step [OF h(4,5) m(3,4)]
      have U: "frames_of S (f # fs) = {f..<f + ?B} \<union> frames_of S fs" by (simp add: frames_of_def)
      have "frames_of S fs \<inter> words (foot 3 (k_mem s2) t) = {}"
        using h(5) m(2) unfolding frames_of_def frame_fresh_def table_inv_def by blast
      then have "words (foot 3 (k_mem s') t) \<subseteq> words (foot 3 (k_mem s) t) \<union> (k_free s - frames_of S (f # fs))"
        "k_free s' \<subseteq> k_free s - frames_of S (f # fs)"
        unfolding U using h(6,7) m(4,5) by blast+
      moreover have "backed S (k_mem s') t (start + (i + j) * ?B) ((f # fs) ! j)" if "j < Suc n" for j
      proof (cases j)
        case 0
        have "leaf (k_mem s') t (indices x) = Some (?w f, 4 - map_levels S)" if x: "?p \<le> x" "x < ?p + ?B" for x
          using l2 l3 x e heap_bounds(4) by (simp add: algebra_simps)
        then show ?thesis by (simp add: backed_def 0)
      qed (use h(8) that in simp)
      moreover have "leaf (k_mem s') t (indices x) = leaf (k_mem s) t (indices x)"
        if "x < 2 ^ 48" "x < ?p \<or> start + (i + Suc n) * ?B \<le> x" for x
        using l3 l2 that by (auto simp: algebra_simps)
      ultimately show ?thesis
        using step m(1) h(1,2,3) fr by (intro disjI2 exI [of _ s'] exI [of _ "f # fs"]) simp
    qed (use step m(1) in simp)
  qed (use step in simp)
qed (auto simp: frames_of_def intro!: exI [of _ "[]"])

section \<open>The kernel heap as a page source\<close>

definition kheap_inv :: "cpu \<Rightarrow> address \<Rightarrow> kernel \<Rightarrow> bool" where
  "kheap_inv c t s \<longleftrightarrow> kt_inv c t (k_virt s) s \<and> bm_layout LOG_KERNEL_HEAP_SIZE KERNEL_HEAP_START (k_virt s)
     \<and> (\<forall>a \<in> bm_free LOG_KERNEL_HEAP_SIZE (k_virt s). leaf (k_mem s) t (indices a) = None)"

definition kheap_avail :: "kernel \<Rightarrow> address set" where
  "kheap_avail s = bm_free LOG_KERNEL_HEAP_SIZE (k_virt s)"

definition kheap_owned :: "kernel \<Rightarrow> address set" where
  "kheap_owned s = {a \<in> {KERNEL_HEAP_START..<KERNEL_HEAP_END}. leaf (k_mem s) (k_table s) (indices a) \<noteq> None}"

lemma kheap_table: "kheap_inv c t s \<Longrightarrow> k_table s = t"
  by (simp add: kheap_inv_def table_inv_def k_ok_def)

lemma kh_acquire_cases:
  assumes inv: "kheap_inv c t s" and n: "0 < n" "n * BYTES S < USIZE_LIMIT"
  shows "kh_acquire_pages S s n = Panic UnwrapNone \<or>
    (\<exists>s' p fs. kh_acquire_pages S s n = Ok (s', Some (p, p + n * BYTES S)) \<and> kheap_inv c t s' \<and> BYTES S dvd p
      \<and> {p..<p + n * BYTES S} \<subseteq> kheap_avail s \<and> kheap_avail s' = kheap_avail s - {p..<p + n * BYTES S}
      \<and> length fs = n \<and> apart (map (\<lambda>f. {f..<f + BYTES S}) fs) \<and> (\<forall>f \<in> set fs. frame_fresh S s f)
      \<and> k_free s' \<subseteq> k_free s - frames_of S fs \<and> frames_of S fs \<inter> words (foot 3 (k_mem s') t) = {}
      \<and> (\<forall>j < n. backed S (k_mem s') t (p + j * BYTES S) (fs ! j))
      \<and> (\<forall>a < 2 ^ 48. a < p \<or> p + n * BYTES S \<le> a \<longrightarrow> leaf (k_mem s') t (indices a) = leaf (k_mem s) t (indices a)))"
proof -
  let ?v = "k_virt s" and ?L = LOG_KERNEL_HEAP_SIZE and ?B = "BYTES S"
  have l: "bm_layout ?L KERNEL_HEAP_START ?v" and kt: "kt_inv c t ?v s"
    and un: "\<forall>a \<in> bm_free ?L ?v. leaf (k_mem s) t (indices a) = None"
    using inv by (auto simp: kheap_inv_def)
  from bm.acquire_cases [OF l n] show ?thesis
  proof (elim disjE exE conjE)
    fix v' p
    assume a: "bm_acquire ?L S ?v n = Ok (v', p, p + n * ?B)" "bm_layout ?L KERNEL_HEAP_START v'" "?B dvd p"
      "{p..<p + n * ?B} \<subseteq> bm_free ?L ?v" "bm_free ?L v' = bm_free ?L ?v - {p..<p + n * ?B}"
    let ?s1 = "s\<lparr>k_virt := v'\<rparr>"
    have m: "k_mem ?s1 = k_mem s" "k_free ?s1 = k_free s" by (simp_all add: k_mem_def k_free_def)
    have kt1: "kt_inv c t v' ?s1" using kt by (auto simp: table_inv_def k_ok_def k_mem_def k_free_def)
    have "{p..<p + n * ?B} \<subseteq> {KERNEL_HEAP_START..<KERNEL_HEAP_END}"
      using a(4) bm.free_in_region [OF l] unfolding heap_bounds(3) by blast
    then have b: "KERNEL_HEAP_START \<le> p" "p + (0 + n) * ?B \<le> KERNEL_HEAP_END" using n(1) by (auto simp: ivl_subset)
    have "\<forall>x. p + 0 * ?B \<le> x \<longrightarrow> x < p + (0 + n) * ?B \<longrightarrow> leaf (k_mem ?s1) t (indices x) = None"
      using un a(4) unfolding m by (auto dest: subsetD)
    from back_pages_cases [OF kt1 a(3) b this] show ?thesis
    proof (elim disjE exE conjE)
      fix s' fs
      assume h: "back_pages S ?s1 p 0 n = Ok s'" "kt_inv c t v' s'" "length fs = n"
        "apart (map (\<lambda>f. {f..<f + ?B}) fs)" "\<forall>f \<in> set fs. frame_fresh S ?s1 f"
        "k_free s' \<subseteq> k_free ?s1 - frames_of S fs"
        "words (foot 3 (k_mem s') t) \<subseteq> words (foot 3 (k_mem ?s1) t) \<union> (k_free ?s1 - frames_of S fs)"
        "\<forall>j < n. backed S (k_mem s') t (p + (0 + j) * ?B) (fs ! j)"
        and l3: "\<forall>a < 2 ^ 48. a < p + 0 * ?B \<or> p + (0 + n) * ?B \<le> a \<longrightarrow>
          leaf (k_mem s') t (indices a) = leaf (k_mem ?s1) t (indices a)"
      have v: "k_virt s' = v'" using h(2) by (simp add: table_inv_def k_ok_def)
      have fr: "\<forall>f \<in> set fs. frame_fresh S s f" using h(5) by (simp add: frame_fresh_def m)
      have "frames_of S fs \<inter> words (foot 3 (k_mem s) t) = {}"
        using fr kt unfolding frames_of_def frame_fresh_def table_inv_def by blast
      then have dj: "frames_of S fs \<inter> words (foot 3 (k_mem s') t) = {}" using h(7) unfolding m by blast
      have "leaf (k_mem s') t (indices x) = None" if "x \<in> bm_free ?L v'" for x
      proof -
        have x: "x \<in> bm_free ?L ?v" "x \<notin> {p..<p + n * ?B}" using that a(5) by auto
        then have "x < 2 ^ 48" using bm.free_in_region [OF l] heap_bounds(4) unfolding heap_bounds(3) by fastforce
        then show ?thesis using l3 un x unfolding m by auto
      qed
      then have "kheap_inv c t s'" using h(2) a(2) v by (simp add: kheap_inv_def)
      moreover have "kh_acquire_pages S s n = Ok (s', Some (p, p + n * ?B))"
        using a(1) h(1) by (simp add: kh_acquire_pages_def virtual_allocate_def)
      ultimately show ?thesis
        using a h l3 fr dj v unfolding m kheap_avail_def by (intro disjI2 exI [of _ s'] exI [of _ p] exI [of _ fs]) simp
    qed (simp add: kh_acquire_pages_def virtual_allocate_def a(1))
  qed (simp add: kh_acquire_pages_def virtual_allocate_def)
qed

lemma backed_owned:
  assumes "\<forall>j < n. backed S m t (p + j * BYTES S) (fs ! j)" and "p \<le> a" and "a < p + n * BYTES S"
  shows "leaf m t (indices a) \<noteq> None"
proof -
  let ?j = "(a - p) div BYTES S"
  have "?j < n" using assms(2,3) by (simp add: div_less_iff_less_mult)
  moreover have "?j * BYTES S \<le> a - p" by (rule div_times_less_eq_dividend)
  moreover have "a - p < ?j * BYTES S + BYTES S" using dividend_less_div_times [of "BYTES S" "a - p"] by simp
  ultimately have "p + ?j * BYTES S \<le> a" "a < p + ?j * BYTES S + BYTES S" "?j < n" using assms(2) by linarith+
  then show ?thesis using assms(1) by (simp add: backed_def)
qed

interpretation kheap: page_source kh_acquire_pages "kheap_inv c t" kheap_owned kheap_avail for c t
proof unfold_locales
  fix s
  assume inv: "kheap_inv c t s"
  then show "kheap_owned s \<inter> kheap_avail s = {}"
    using kheap_table [OF inv] by (auto simp: kheap_owned_def kheap_avail_def kheap_inv_def)
  show "kheap_owned s \<subseteq> {a. a + 1 < USIZE_LIMIT}" by (auto simp: kheap_owned_def heap_bounds(2) USIZE_LIMIT_def)
next
  fix s n s' a e
  assume inv: "kheap_inv c t s" and n: "0 < n" "n * BYTES Size2M < USIZE_LIMIT"
    and acq: "kh_acquire_pages Size2M s n = Ok (s', Some (a, e))"
  obtain fs where A: "kheap_inv c t s'" "BYTES Size2M dvd a" "e = a + n * BYTES Size2M" "{a..<e} \<subseteq> kheap_avail s"
      "kheap_avail s' = kheap_avail s - {a..<e}" and bk: "\<forall>j < n. backed Size2M (k_mem s') t (a + j * BYTES Size2M) (fs ! j)"
      and l: "\<forall>x < 2 ^ 48. x < a \<or> e \<le> x \<longrightarrow> leaf (k_mem s') t (indices x) = leaf (k_mem s) t (indices x)"
    using kh_acquire_cases [OF inv n] acq by auto
  have "kheap_avail s \<subseteq> {KERNEL_HEAP_START..<KERNEL_HEAP_END}"
    using inv bm.free_in_region unfolding kheap_inv_def kheap_avail_def heap_bounds(3) [symmetric] by blast
  then have sub: "{a..<e} \<subseteq> {KERNEL_HEAP_START..<KERNEL_HEAP_END}" using A(4) by blast
  then have "KERNEL_HEAP_START \<le> a" "e \<le> KERNEL_HEAP_END" using n(1) A(3) by (auto simp: ivl_subset)
  then have b: "0 < a" "e < USIZE_LIMIT" by (auto simp: heap_bounds(1,2) USIZE_LIMIT_def)
  have "x \<in> kheap_owned s' \<longleftrightarrow> x \<in> kheap_owned s \<union> {a..<e}" for x
  proof (cases "x \<in> {a..<e}")
    case True
    then show ?thesis using sub backed_owned [OF bk] A(1,3) by (auto simp: kheap_owned_def kheap_table)
  next
    case False
    then show ?thesis using l heap_bounds(4) A(1) inv by (auto simp: kheap_owned_def kheap_table)
  qed
  then show "kheap_inv c t s' \<and> 0 < a \<and> BYTES Size2M dvd a \<and> e = a + n * BYTES Size2M \<and> e < USIZE_LIMIT
      \<and> {a..<e} \<subseteq> kheap_avail s \<and> kheap_avail s' \<subseteq> kheap_avail s - {a..<e} \<and> kheap_owned s' = kheap_owned s \<union> {a..<e}"
    using A b by blast
qed

section \<open>Releasing pages never returns their addresses\<close>

lemma guard_virt: "with_kernel_address_space s = Ok (g, s1) \<Longrightarrow> k_virt s1 = k_virt s"
  by (auto simp: with_kernel_address_space_def rbind_Ok_iff)

lemma phys_release_virt: "phys_release S s f = Ok s' \<Longrightarrow> k_virt s' = k_virt s"
  by (auto simp: phys_release_def rbind_Ok_iff drop_guard_def Let_def dest: guard_virt)

lemma clear_entry_virt: "k_virt (clear_entry k_mem k_put s t i) = k_virt s"
  by (simp add: clear_entry_def k_put_def)

lemma unmap_p3_virt: "unmap_p3 phys_release k_mem k_put S s p4 i4 p3 i3 = Ok s' \<Longrightarrow> k_virt s' = k_virt s"
  by (auto simp: unmap_p3_def rbind_Ok_iff Let_def clear_entry_virt dest: phys_release_virt split: if_splits)

lemma unmap_p2_virt: "unmap_p2 phys_release k_mem k_put S s p4 i4 p3 i3 p2 i2 = Ok s' \<Longrightarrow> k_virt s' = k_virt s"
  by (auto simp: unmap_p2_def rbind_Ok_iff Let_def clear_entry_virt dest!: phys_release_virt unmap_p3_virt split: if_splits)

lemma pt_unmap_virt: "pt_unmap phys_release k_mem k_put S s p4 page = Ok s' \<Longrightarrow> k_virt s' = k_virt s"
  by (auto simp: pt_unmap_def rbind_Ok_iff Let_def clear_entry_virt
      dest!: phys_release_virt unmap_p3_virt unmap_p2_virt split: if_splits)

lemma mapper_virt:
  "mapper_translate s a = Ok (s', r) \<Longrightarrow> k_virt s' = k_virt s"
  "mapper_unmap S s page = Ok s' \<Longrightarrow> k_virt s' = k_virt s"
  by (auto simp: mapper_translate_def mapper_unmap_def rbind_Ok_iff drop_guard_def dest!: guard_virt pt_unmap_virt)

lemma release_page_virt: "release_page S s page = Ok s' \<Longrightarrow> k_virt s' = k_virt s"
  by (auto simp: release_page_def rbind_Ok_iff dest!: mapper_virt phys_release_virt)

lemma release_pages_virt: "kh_release_pages S s a e = Ok s' \<Longrightarrow> k_virt s' = k_virt s"
proof (induction S s a e rule: kh_release_pages.induct)
  case (1 S s a e)
  show ?case
  proof (cases "a < e")
    case True
    then obtain q s1 where "page_forward S a 1 = Ok q" "release_page S s a = Ok s1" "kh_release_pages S s1 q e = Ok s'"
      using "1.prems" by (subst (asm) kh_release_pages.simps) (auto simp: rbind_Ok_iff)
    then show ?thesis using "1.IH" [OF True] release_page_virt by metis
  qed (use "1.prems" in \<open>simp add: kh_release_pages.simps [of S s a e]\<close>)
qed

section \<open>Start-up\<close>

lemma kernel_boot:
  assumes "frames_sane frames" and "\<forall>(a, b) \<in> set frames. b \<le> 2 ^ 48" and "\<exists>(a, b) \<in> set frames. a < b"
  shows "\<exists>s. kheap_inv (k_cpu s) (k_table s) s \<and> (\<forall>a. leaf (k_mem s) (k_table s) (indices a) = None)
    \<and> card (k_free s) + 4096 = card (\<Union>(a, b) \<in> set frames. {a..<b})"
proof -
  obtain p p4 where p: "pt_inv p p4" "\<forall>a. leaf (ph_mem p) p4 (indices a) = None"
      "card (ph_free p) + 4096 = card (\<Union>(a, b) \<in> set frames. {a..<b})"
    using boot_table [OF assms, of undefined] by blast
  obtain v where v: "bm_layout LOG_KERNEL_HEAP_SIZE KERNEL_HEAP_START v" using bm_init_Ok [OF heap_limits] by blast
  let ?s = "\<lparr>k_phys = p, k_cpu = \<lparr>cpu_daif = 0, cpu_ttbr0 = p4\<rparr>, k_table = p4, k_virt = v\<rparr>"
  have "table_ok p4" using pt_inv_tree [OF p(1)] by (rule tree_table_ok)
  then have "kheap_inv (k_cpu ?s) (k_table ?s) ?s"
    using p(1,2) v by (auto simp: kheap_inv_def table_inv_def k_ok_def k_free_def k_mem_def table_ok_def)
  then show ?thesis using p(2,3) by (intro exI [of _ ?s]) (simp add: k_mem_def k_free_def)
qed

section \<open>Properties\<close>

text \<open>C16: the kernel heap backs what it hands out. \<^verbatim>\<open>KernelHeap::acquire_pages\<close> either panics because
  virtual addresses or frames have run out, or returns a range of unused virtual pages of the heap in
  which page \<open>j\<close> translates to the \<open>j\<close>-th of \<open>n\<close> frames; the frames were free, are pairwise disjoint, are
  aligned, are no page tables and are no longer free, and no other address changes its translation.
  The invariant of virtual allocator, frame allocator and page table is kept.\<close>

theorem kernel_acquire_backed:
  assumes "kheap_inv c t s" and "0 < n" and "n * BYTES S < USIZE_LIMIT"
  shows "kh_acquire_pages S s n = Panic UnwrapNone \<or>
    (\<exists>s' p fs. kh_acquire_pages S s n = Ok (s', Some (p, p + n * BYTES S)) \<and> kheap_inv c t s'
      \<and> {p..<p + n * BYTES S} \<subseteq> kheap_avail s \<and> kheap_avail s' = kheap_avail s - {p..<p + n * BYTES S}
      \<and> length fs = n \<and> apart (map (\<lambda>f. {f..<f + BYTES S}) fs)
      \<and> (\<forall>f \<in> set fs. BYTES S dvd f \<and> {f..<f + BYTES S} \<subseteq> k_free s)
      \<and> frames_of S fs \<inter> (k_free s' \<union> words (foot 3 (k_mem s') t)) = {}
      \<and> (\<forall>j < n. \<forall>off < BYTES S. pt_translate (k_mem s') t (p + j * BYTES S + off) = Ok (Some (fs ! j + off)))
      \<and> (\<forall>a < 2 ^ 48. a < p \<or> p + n * BYTES S \<le> a \<longrightarrow> pt_translate (k_mem s') t a = pt_translate (k_mem s) t a))"
  using kh_acquire_cases [OF assms]
proof (elim disjE exE conjE)
  fix s' p fs
  assume h: "kh_acquire_pages S s n = Ok (s', Some (p, p + n * BYTES S))" "kheap_inv c t s'" "BYTES S dvd p"
    "{p..<p + n * BYTES S} \<subseteq> kheap_avail s" "kheap_avail s' = kheap_avail s - {p..<p + n * BYTES S}"
    "length fs = n" "apart (map (\<lambda>f. {f..<f + BYTES S}) fs)" "\<forall>f \<in> set fs. frame_fresh S s f"
    "k_free s' \<subseteq> k_free s - frames_of S fs" "frames_of S fs \<inter> words (foot 3 (k_mem s') t) = {}"
    "\<forall>j < n. backed S (k_mem s') t (p + j * BYTES S) (fs ! j)"
    and l: "\<forall>a < 2 ^ 48. a < p \<or> p + n * BYTES S \<le> a \<longrightarrow> leaf (k_mem s') t (indices a) = leaf (k_mem s) t (indices a)"
  have T: "tree_ok 3 (k_mem s) t" "tree_ok 3 (k_mem s') t" and bnd: "k_free s \<subseteq> {..<2 ^ 48}"
    using assms(1) h(2) by (auto simp: kheap_inv_def table_inv_def)
  have "pt_translate (k_mem s') t (p + j * BYTES S + off) = Ok (Some (fs ! j + off))" if j: "j < n" "off < BYTES S" for j off
  proof -
    have f: "frame_fresh S s (fs ! j)" using h(6,8) j by simp
    then have "fs ! j \<in> k_free s" by (auto simp: frame_fresh_def)
    moreover have "4096 dvd BYTES S" by (cases S) (simp_all add: BYTES_def dvd_eq_mod_eq_0)
    ultimately have g: "4096 dvd fs ! j" "fs ! j < 2 ^ 48" using f bnd by (auto simp: frame_fresh_def intro: dvd_trans)
    have "leaf (k_mem s') t (indices (p + j * BYTES S + off))
        = Some (of_nat (fs ! j) OR map_flags S (kernel_data_flags S), 4 - map_levels S)"
      using h(11) j by (simp add: backed_def)
    moreover have "(p + j * BYTES S + off) mod BYTES S = off"
    proof -
      obtain q where "p = BYTES S * q" using h(3) by blast
      then have "p + j * BYTES S + off = off + BYTES S * (q + j)" by (simp add: algebra_simps)
      then show ?thesis using j(2) by simp
    qed
    ultimately show ?thesis
      using pte_set_Ok(2) [OF g flags_fit_all(6)] map_levels_LOG(1) [of S]
      by (simp add: pt_translate_walk [OF T(2)] walk_def BYTES_def)
  qed
  moreover have "pt_translate (k_mem s') t a = pt_translate (k_mem s) t a"
    if "a < 2 ^ 48" "a < p \<or> p + n * BYTES S \<le> a" for a
    using l that by (auto simp: pt_translate_walk [OF T(1)] pt_translate_walk [OF T(2)] walk_def)
  moreover have "frames_of S fs \<inter> (k_free s' \<union> words (foot 3 (k_mem s') t)) = {}" using h(9,10) by blast
  ultimately show ?thesis
    using h(1-8) by (intro disjI2 exI [of _ s'] exI [of _ p] exI [of _ fs]) (auto simp: frame_fresh_def)
qed simp

theorem kernel_acquire_backed_witness:
  "\<exists>s. kheap_inv (k_cpu s) (k_table s) s \<and> (kh_acquire_pages Size2M s 2 = Panic UnwrapNone \<or>
    (\<exists>s' p fs. kh_acquire_pages Size2M s 2 = Ok (s', Some (p, p + 2 * BYTES Size2M)) \<and> length fs = 2
      \<and> pt_translate (k_mem s') (k_table s) (p + 1 * BYTES Size2M + 5) = Ok (Some (fs ! 1 + 5))))"
proof -
  obtain s where s: "kheap_inv (k_cpu s) (k_table s) s"
    using kernel_boot [of "[(0x200000, 0x3b400000)]"] by (auto simp: frames_sane_def USIZE_LIMIT_def dvd_eq_mod_eq_0)
  have pos2: "0 < (2::nat)" by simp
  have "(2::nat) * BYTES Size2M < USIZE_LIMIT" by (simp add: BYTES_def USIZE_LIMIT_def)
  from kernel_acquire_backed [OF s pos2 this] show ?thesis
  proof (elim disjE exE conjE)
    fix s' p fs
    assume "kh_acquire_pages Size2M s 2 = Ok (s', Some (p, p + 2 * BYTES Size2M))" "length fs = 2"
      "\<forall>j < 2. \<forall>off < BYTES Size2M. pt_translate (k_mem s') (k_table s) (p + j * BYTES Size2M + off) = Ok (Some (fs ! j + off))"
    moreover have "(5::nat) < BYTES Size2M" by (simp add: BYTES_def)
    ultimately show ?thesis using s by (metis one_less_numeral_iff semiring_norm(76))
  qed (use s in auto)
qed

lemma not_clear: "entry_at m t 1 \<noteq> 0 \<Longrightarrow> \<not> table_is_clear m t"
  by (auto simp: table_is_clear_iff intro!: exI [of _ 1])

lemmas table_eval =
  pt_translate_def pt_unmap_def get_index_eq entry_at_def pte_is_empty_def get_next_table_def pte_present_def
  pte_is_block_def pte_flags_def flags_contains_def PRESENT_def SMALL_PAGE_def FLAGS_MASK_def ADDRESS_MASK_def
  pte_address_def page_start_def addr_add_def PAGE_MASK_def clear_entry_def set_entry_def not_clear

lemmas guard_eval =
  with_kernel_address_space_def enable_temporarily_def table_get_def drop_guard_def page_tables_drop_def table_set_def
  interrupt_is_enabled_def DAIF_I_def interrupt_disable_def interrupt_enable_def uninterruptible_lock_def
  uninterruptible_unlock_def

lemmas release_eval =
  kh_release_pages.simps page_forward_Ok BYTES_def KERNEL_HEAP_START_def KERNEL_MEMORY_END_def KERNEL_HEAP_SIZE_def
  LOG_KERNEL_HEAP_SIZE_def USIZE_LIMIT_def dvd_eq_mod_eq_0 release_page_def mapper_translate_def Let_def k_mem_def
  ppr_new_def mapper_unmap_def in_kernel_heap_def KERNEL_HEAP_END_def k_put_def phys_release_def ppr_release_def
  ppr_release_cell_def ppr_push_def frame_size_class(1) [of Size4K, simplified] rassert_def idx_def upd_def
  table_eval guard_eval

text \<open>Pages given back to the kernel heap are lost to it. Whenever \<^verbatim>\<open>release_pages\<close> returns, the
  virtual page allocator is unchanged: the released addresses can never be handed out again, so the
  heap's address space shrinks with every released range.\<close>

theorem release_pages_keeps_virtual:
  assumes "kh_release_pages S s start e = Ok s'"
  shows "k_virt s' = k_virt s \<and> kheap_avail s' = kheap_avail s"
  using release_pages_virt [OF assms] by (simp add: kheap_avail_def)

theorem release_pages_keeps_virtual_witness:
  "\<exists>s'. kh_release_pages Size4K
      \<lparr>k_phys = ppr_new ((\<lambda>_. 0)(0x1ff0 := 0x2003, 0x2800 := 0x3003, 0x3000 := 0x4003, 0x4000 := 0x5003, 0x4008 := 0x6003)),
       k_cpu = \<lparr>cpu_daif = 0, cpu_ttbr0 = 0x1000\<rparr>, k_table = 0x1000, k_virt = \<lparr>bm_base = 0, bm_table = [0]\<rparr>\<rparr>
      KERNEL_HEAP_START (KERNEL_HEAP_START + 4096) = Ok s'
    \<and> k_virt s' = \<lparr>bm_base = 0, bm_table = [0]\<rparr>"
proof -
  let ?s = "\<lparr>k_phys = ppr_new ((\<lambda>_. 0)(0x1ff0 := 0x2003, 0x2800 := 0x3003, 0x3000 := 0x4003, 0x4000 := 0x5003, 0x4008 := 0x6003)),
     k_cpu = \<lparr>cpu_daif = 0, cpu_ttbr0 = 0x1000\<rparr>, k_table = 0x1000, k_virt = \<lparr>bm_base = 0, bm_table = [0]\<rparr>\<rparr>"
  have "case kh_release_pages Size4K ?s KERNEL_HEAP_START (KERNEL_HEAP_START + 4096) of Ok _ \<Rightarrow> True | Panic _ \<Rightarrow> False"
    by (simp add: release_eval)
  then obtain s' where r: "kh_release_pages Size4K ?s KERNEL_HEAP_START (KERNEL_HEAP_START + 4096) = Ok s'"
    by (auto split: res.splits)
  from release_pages_keeps_virtual [OF r] r show ?thesis by (intro exI [of _ s']) (simp only: kernel.select_convs)
qed

text \<open>In a state whose processor fields are those of the lock's owner, releasing the lock changes nothing.\<close>

lemma heap_unlock_same:
  assumes "k_cpu (fl_pr s) = k_cpu (fl_pr s0)"
  shows "heap_unlock (interrupt_is_enabled (k_cpu (fl_pr s0))) s = s"
  using assms by (simp add: heap_unlock_def uninterruptible_unlock_def enable_enabled)

lemma kernel_start:
  assumes "kheap_inv c t k"
  shows "kheap.live_heap c t KERNEL_LOG_HEAP_SIZE (fl_init (fl_new KERNEL_LOG_HEAP_SIZE m k), [])"
proof (rule kheap.live_heapI)
  show "kheap.heap_inv c t KERNEL_LOG_HEAP_SIZE (fl_init (fl_new KERNEL_LOG_HEAP_SIZE m k)) (\<lambda>_. [])"
    using fl_new_pool(1) [of KERNEL_LOG_HEAP_SIZE m k] fl_new_pool(2) assms unfolding kheap.heap_inv_def
    by (simp add: fl_init_def fl_new_def)
qed (simp_all add: fl_init_def fl_new_def)

lemma live_heap_cpu: "kheap.live_heap c t lh (s, live) \<Longrightarrow> k_cpu (fl_pr s) = c"
  by (auto simp: kheap.live_heap_def kheap.heap_inv_def kheap_inv_def table_inv_def k_ok_def)

text \<open>A small allocation in the kernel. Between calls the kernel heap keeps its live objects
  disjoint and inside mapped heap memory; a request below 2M then panics (out of frames or
  addresses) or returns a block that is aligned as requested, has room for the request, overlaps no
  live object, and is mapped at every address, and the invariant holds again with the new object.\<close>

theorem kernel_alloc_mapped:
  assumes "kheap.live_heap c t KERNEL_LOG_HEAP_SIZE (s, live)"
    and "0 < lay_size l" and "is_power_of_two (lay_align l)" and "pad_to_align_size l < BYTES Size2M"
  shows "(\<exists>f. kernel_alloc s l = Panic f) \<or>
    (\<exists>s' a. kernel_alloc s l = Ok (s', a) \<and> kheap.live_heap c t KERNEL_LOG_HEAP_SIZE (s', (a, l) # live)
      \<and> lay_align l dvd a \<and> {a..<a + lay_size l} \<subseteq> obj_set (a, l) \<and> (\<forall>r \<in> set live. obj_set (a, l) \<inter> obj_set r = {})
      \<and> (\<forall>x \<in> obj_set (a, l). \<exists>y. pt_translate (k_mem (fl_pr s')) t x = Ok (Some y)))"
proof (cases "kernel_alloc s l")
  case (Ok r)
  obtain s' a where r: "r = (s', a)" by (cases r)
  have "fl_cell_size l \<le> 2 ^ 21" using assms(4) by (simp add: fl_cell_size_def MIN_SIZE_def BYTES_def)
  then have "clog2 (fl_cell_size l) \<le> 21" by (rule clog2_least)
  then have lay: "layout_ok KERNEL_LOG_HEAP_SIZE l" using assms(2,3) by (simp add: layout_ok_def KERNEL_LOG_HEAP_SIZE_def)
  obtain s1 where s1: "fl_alloc KERNEL_LOG_HEAP_SIZE kh_acquire_pages s l = Ok (s1, a)"
      "s' = heap_unlock (interrupt_is_enabled (k_cpu (fl_pr s))) s1"
    using Ok r assms(4) by (auto simp: kernel_alloc_def uninterruptible_lock_def rbind_Ok_iff)
  have L1: "kheap.live_heap c t KERNEL_LOG_HEAP_SIZE (s1, (a, l) # live)"
    by (rule kheap.live_heap_alloc [OF assms(1) lay _ s1(1)]) (simp add: KERNEL_LOG_HEAP_SIZE_def)
  have "s' = s1" unfolding s1(2) by (rule heap_unlock_same) (simp add: live_heap_cpu [OF L1] live_heap_cpu [OF assms(1)])
  then have L: "kheap.live_heap c t KERNEL_LOG_HEAP_SIZE (s', (a, l) # live)" using L1 by simp
  then have ap: "apart (map obj_set ((a, l) # live))" and ok: "obj_ok KERNEL_LOG_HEAP_SIZE (a, l)"
    and own: "obj_set (a, l) \<subseteq> kheap_owned (fl_pr s')" and inv: "kheap_inv c t (fl_pr s')"
    by (auto simp: kheap.live_heap_def kheap.heap_inv_def)
  have "tree_ok 3 (k_mem (fl_pr s')) t" using inv by (simp add: kheap_inv_def table_inv_def)
  then have "\<exists>y. pt_translate (k_mem (fl_pr s')) t x = Ok (Some y)" if "x \<in> obj_set (a, l)" for x
    using own that kheap_table [OF inv] by (auto simp: kheap_owned_def pt_translate_walk walk_def)
  moreover have "lay_align l dvd a" "{a..<a + lay_size l} \<subseteq> obj_set (a, l)"
    using cell_fits_layout ok unfolding obj_ok_def by fastforce+
  ultimately show ?thesis using Ok r L ap by (intro disjI2 exI [of _ s'] exI [of _ a]) simp
qed simp

theorem kernel_alloc_mapped_witness:
  "\<exists>s. kheap.live_heap (k_cpu (fl_pr s)) (k_table (fl_pr s)) KERNEL_LOG_HEAP_SIZE (s, [])
    \<and> ((\<exists>f. kernel_alloc s \<lparr>lay_size = 48, lay_align = 16\<rparr> = Panic f)
       \<or> (\<exists>s' a. kernel_alloc s \<lparr>lay_size = 48, lay_align = 16\<rparr> = Ok (s', a) \<and> 16 dvd a
           \<and> (\<exists>y. pt_translate (k_mem (fl_pr s')) (k_table (fl_pr s)) a = Ok (Some y))))"
proof -
  obtain k where k: "kheap_inv (k_cpu k) (k_table k) k"
    using kernel_boot [of "[(0x200000, 0x3b400000)]"] by (auto simp: frames_sane_def USIZE_LIMIT_def dvd_eq_mod_eq_0)
  define s where "s = fl_init (fl_new KERNEL_LOG_HEAP_SIZE (\<lambda>_. 0) k)"
  have "fl_pr s = k" by (simp add: s_def fl_init_def fl_new_def)
  then have s: "kheap.live_heap (k_cpu (fl_pr s)) (k_table (fl_pr s)) KERNEL_LOG_HEAP_SIZE (s, [])"
    using kernel_start [OF k, of "\<lambda>_. 0"] by (simp add: s_def)
  have "is_power_of_two 16" "pad_to_align_size \<lparr>lay_size = 48, lay_align = 16\<rparr> < BYTES Size2M" by code_simp+
  with kernel_alloc_mapped [OF s, of "\<lparr>lay_size = 48, lay_align = 16\<rparr>"]
  show ?thesis using s by (auto simp: obj_set_def cell_range_def subset_iff)
qed

section \<open>Object heap over the virtual page allocator\<close>

text \<open>The free-list allocator as the kernel instantiates it, with its pages taken from and given back to
  the virtual page allocator (\<^verbatim>\<open>virtual_allocate\<close>, \<^verbatim>\<open>virtual_release\<close>).\<close>

definition vp_acquire :: "bitmap acquire_pages" where
  "vp_acquire S v pages =
     rbind (bm_acquire LOG_KERNEL_HEAP_SIZE S v pages) (\<lambda>(v', start, e). Ok (v', Some (start, e)))"

definition vp_release :: "bitmap release_pages" where
  "vp_release = bm_release LOG_KERNEL_HEAP_SIZE"

abbreviation vp_inv :: "bitmap \<Rightarrow> bool" where
  "vp_inv \<equiv> bm_layout LOG_KERNEL_HEAP_SIZE KERNEL_HEAP_START"

abbreviation vp_avail :: "bitmap \<Rightarrow> address set" where
  "vp_avail \<equiv> bm_free LOG_KERNEL_HEAP_SIZE"

definition vp_owned :: "bitmap \<Rightarrow> address set" where
  "vp_owned v = {KERNEL_HEAP_START..<KERNEL_HEAP_END} - vp_avail v"

interpretation vpages: page_resource vp_acquire vp_inv vp_owned vp_avail vp_release
proof unfold_locales
  fix v
  show "vp_owned v \<inter> vp_avail v = {}" by (auto simp: vp_owned_def)
  show "vp_owned v \<subseteq> {a. a + 1 < USIZE_LIMIT}" by (auto simp: vp_owned_def heap_bounds(2) USIZE_LIMIT_def)
next
  fix v n v' a e
  assume inv: "vp_inv v" and n: "0 < n" "n * BYTES Size2M < USIZE_LIMIT" and acq: "vp_acquire Size2M v n = Ok (v', Some (a, e))"
  have A: "vp_inv v'" "BYTES Size2M dvd a" "e = a + n * BYTES Size2M" "{a..<e} \<subseteq> vp_avail v" "vp_avail v' = vp_avail v - {a..<e}"
    using bm.acquire_cases [OF inv n] acq by (auto simp: vp_acquire_def)
  have reg: "vp_avail v \<subseteq> {KERNEL_HEAP_START..<KERNEL_HEAP_END}"
    using bm.free_in_region [OF inv] unfolding heap_bounds(3) .
  then have "{a..<e} \<subseteq> {KERNEL_HEAP_START..<KERNEL_HEAP_END}" using A(4) by blast
  then have "KERNEL_HEAP_START \<le> a" "e \<le> KERNEL_HEAP_END" using n(1) A(3) by (auto simp: ivl_subset)
  then have "0 < a" "e < USIZE_LIMIT" by (auto simp: heap_bounds(1,2) USIZE_LIMIT_def)
  moreover have "vp_owned v' = vp_owned v \<union> {a..<e}" using A(4,5) reg by (auto simp: vp_owned_def)
  ultimately show "vp_inv v' \<and> 0 < a \<and> BYTES Size2M dvd a \<and> e = a + n * BYTES Size2M \<and> e < USIZE_LIMIT
      \<and> {a..<e} \<subseteq> vp_avail v \<and> vp_avail v' \<subseteq> vp_avail v - {a..<e} \<and> vp_owned v' = vp_owned v \<union> {a..<e}"
    using A by simp
next
  fix v a n
  assume inv: "vp_inv v" and a: "BYTES Size2M dvd a" "0 < n" "{a..<a + n * BYTES Size2M} \<subseteq> vp_owned v"
  have r: "{a..<a + n * BYTES Size2M} \<subseteq> {KERNEL_HEAP_START..<KERNEL_HEAP_START + 2 ^ LOG_KERNEL_HEAP_SIZE}"
      "{a..<a + n * BYTES Size2M} \<inter> vp_avail v = {}"
    using a(3) unfolding heap_bounds(3) vp_owned_def by blast+
  from bm.release_Ok [OF inv a(1,2) r]
  show "\<exists>v'. vp_release Size2M v a (a + n * BYTES Size2M) = Ok v' \<and> vp_inv v'
      \<and> vp_owned v' = vp_owned v - {a..<a + n * BYTES Size2M} \<and> vp_avail v' \<subseteq> vp_avail v \<union> {a..<a + n * BYTES Size2M}"
    by (auto simp: vp_release_def vp_owned_def)
qed

definition vp_alloc :: "bitmap heap_alloc" where
  "vp_alloc s l =
     (if pad_to_align_size l < BYTES Size2M then fl_alloc KERNEL_LOG_HEAP_SIZE vp_acquire s l else Panic Unimplemented)"

lemma vp_alloc_entry: "alloc_entry KERNEL_LOG_HEAP_SIZE vp_acquire vp_alloc"
  unfolding alloc_entry_def
proof (intro allI impI)
  fix s l x
  assume a: "vp_alloc s l = Ok x"
  then have "pad_to_align_size l < 2 ^ 21" by (auto simp: vp_alloc_def BYTES_def split: if_splits)
  then have "fl_cell_size l \<le> 2 ^ 21" by (simp add: fl_cell_size_def MIN_SIZE_def)
  then have "clog2 (fl_cell_size l) \<le> 21" by (rule clog2_least)
  with a show "max (clog2 (fl_cell_size l)) 21 < KERNEL_LOG_HEAP_SIZE
      \<and> fl_alloc KERNEL_LOG_HEAP_SIZE vp_acquire s l = Ok x"
    by (auto simp: vp_alloc_def KERNEL_LOG_HEAP_SIZE_def split: if_splits)
qed



end
