(* ===== verification/Devices.thy ===== *)
theory Devices
  imports Contexts Device_Tree Kernel_Heap
begin

unbundle bit_operations_syntax

text \<open>
  Bringing up the devices: \<^verbatim>\<open>map_device_page\<close> and \<^verbatim>\<open>map_device_pages\<close> of the kernel services, and the \<^verbatim>\<open>init\<close>
  functions of the interrupt controller, timer, serial port and GPIO modules, which find their nodes in
  the device tree, map the registers and set up interrupts. The contents of device registers are arguments.
\<close>

section \<open>Mapping device memory\<close>

definition map_device_page :: "kernel \<Rightarrow> frame \<Rightarrow> (kernel \<times> page) res" where
  "map_device_page k frame =
     rbind (virtual_allocate Size4K k 1) (\<lambda>(k1, page, _).
     rbind (mapper_map Size4K k1 page frame device_flags) (\<lambda>k2.
     Ok (k2, page)))"

fun map_device_loop :: "kernel \<Rightarrow> frame \<Rightarrow> page \<Rightarrow> usize \<Rightarrow> nat \<Rightarrow> kernel res" where
  "map_device_loop k frames pages i 0 = Ok k"
| "map_device_loop k frames pages i (Suc n) =
     rbind (page_forward Size4K frames i) (\<lambda>frame.
     rbind (page_forward Size4K pages i) (\<lambda>page.
     rbind (mapper_map Size4K k page frame device_flags) (\<lambda>k1.
     map_device_loop k1 frames pages (i + 1) n)))"

definition map_device_pages :: "kernel \<Rightarrow> frame \<Rightarrow> frame \<Rightarrow> (kernel \<times> page \<times> page) res" where
  "map_device_pages k start e =
     rbind (page_steps_between Size4K start e) (\<lambda>d.
     rbind (unwrap d) (\<lambda>num_pages.
     rbind (virtual_allocate Size4K k num_pages) (\<lambda>(k1, pages).
     rbind (map_device_loop k1 start (fst pages) 0 num_pages) (\<lambda>k2.
     Ok (k2, pages)))))"

section \<open>Finding devices\<close>

definition next_reg :: "dt_node \<Rightarrow> regs_iter \<Rightarrow> (address \<times> regs_iter) res" where
  "next_reg n it =
     rbind (regs_next it) (\<lambda>r.
     rbind (unwrap r) (\<lambda>((start, _), it1).
     rbind (translate n start) (\<lambda>a. Ok (a, it1))))"

definition gic_probe :: "dt_node list option \<Rightarrow> kernel \<Rightarrow> (kernel \<times> page \<times> page) res" where
  "gic_probe devtree k =
     rbind (unwrap devtree) (\<lambda>t.
     rbind (unwrap (case compatible t ''arm,cortex-a15-gic'' of Some n \<Rightarrow> Some n | None \<Rightarrow> compatible t ''arm,gic-400'')) (\<lambda>node.
     let k1 = k\<lparr>k_cpu := interrupt_disable (k_cpu k)\<rparr> in
     rbind (regs node) (\<lambda>r.
     rbind (unwrap r) (\<lambda>it.
     rbind (next_reg node it) (\<lambda>(gicd_address, it1).
     rbind (next_reg node it1) (\<lambda>(gicc_address, _).
     rbind (page_new Size4K gicd_address) (\<lambda>fd.
     rbind (map_device_page k1 fd) (\<lambda>(k2, gicd_page).
     rbind (page_new Size4K gicc_address) (\<lambda>fc.
     rbind (map_device_page k2 fc) (\<lambda>(k3, gicc_page).
     Ok (k3, gicd_page, gicc_page)))))))))))"

text \<open>\<open>d\<close> and \<open>c\<close> are the register blocks behind the two pages.\<close>

definition gic_module_init :: "dt_node list option \<Rightarrow> gicd \<Rightarrow> gicc \<Rightarrow> kernel \<Rightarrow> (kernel \<times> page \<times> page \<times> 'h gic) res" where
  "gic_module_init devtree d c k =
     rbind (gic_probe devtree k) (\<lambda>(k1, gicd_page, gicc_page).
     rbind (gic_init d c) (\<lambda>g. Ok (k1, gicd_page, gicc_page, g)))"

definition get_timer_irq :: "dt_node list option \<Rightarrow> usize res" where
  "get_timer_irq devtree =
     rbind (unwrap devtree) (\<lambda>t.
     rbind (unwrap (case compatible t ''arm,armv7-timer'' of Some n \<Rightarrow> Some n | None \<Rightarrow> compatible t ''arm,armv8-timer'')) (\<lambda>node.
     rbind (interrupts node) (\<lambda>i.
     rbind (unwrap i) (\<lambda>it.
     rbind (iter_nth interrupts_next it 1) (\<lambda>r.
     rbind (unwrap r) (\<lambda>(irq, _). Ok irq))))))"

definition timer_module_init :: "dt_node list option \<Rightarrow> timer \<Rightarrow> irq_handler gic \<Rightarrow> (timer \<times> irq_handler gic) res" where
  "timer_module_init devtree t g = rbind (get_timer_irq devtree) (\<lambda>irq. timer_init TimerHandler irq t g)"

text \<open>The serial port registers itself with the device file system last; \<open>dev\<close> is its \<^verbatim>\<open>Device\<close> object.\<close>

definition pl011_module_init ::
  "dt_node list option \<Rightarrow> uart \<Rightarrow> 'w device \<Rightarrow> kernel \<Rightarrow> irq_handler gic \<Rightarrow> 'w vfs \<Rightarrow> (kernel \<times> page \<times> uart \<times> irq_handler gic \<times> 'w vfs) res" where
  "pl011_module_init devtree u dev k g v =
     rbind (unwrap devtree) (\<lambda>t.
     rbind (unwrap (compatible t ''arm,pl011'')) (\<lambda>node.
     rbind (regs node) (\<lambda>r.
     rbind (unwrap r) (\<lambda>it.
     rbind (next_reg node it) (\<lambda>(uart_frame, _).
     rbind (page_new Size4K uart_frame) (\<lambda>frame.
     rbind (map_device_page k frame) (\<lambda>(k1, uart_page).
     let u1 = uart_init u in
     rbind (interrupts node) (\<lambda>i.
     rbind (unwrap i) (\<lambda>jt.
     rbind (interrupts_next jt) (\<lambda>x.
     rbind (unwrap x) (\<lambda>((irq, _), _).
     rbind (set_irq_handler irq UartHandler g) (\<lambda>g1.
     rbind (enable_irq irq g1) (\<lambda>g2.
     rbind (dev_register True v dev) (\<lambda>(v1, _).
     Ok (k1, uart_page, u1, g2, v1)))))))))))))))"

section \<open>GPIO\<close>

definition gpio_fields :: "(string \<times> nat) list" where
  "gpio_fields =
     [(''gpfsel0'', 4), (''gpfsel1'', 4), (''gpfsel2'', 4), (''gpfsel3'', 4), (''gpfsel4'', 4), (''gpfsel5'', 4), (''_0'', 4),
      (''gpset0'', 4), (''gpset1'', 4), (''_1'', 4), (''gpclr0'', 4), (''gpclr1'', 4), (''_2'', 4),
      (''gplev0'', 4), (''gplev1'', 4), (''_3'', 4), (''gpeds0'', 4), (''gpeds1'', 4), (''_4'', 4),
      (''gpren0'', 4), (''gpren1'', 4), (''_5'', 4), (''gpfen0'', 4), (''gpfen1'', 4), (''_6'', 4),
      (''gphen0'', 4), (''gphen1'', 4), (''_7'', 4), (''gplen0'', 4), (''gplen1'', 4), (''_8'', 4),
      (''gparen0'', 4), (''gparen1'', 4), (''_9'', 4), (''gpafen0'', 4), (''gpafen1'', 4), (''_10'', 4),
      (''gppud'', 4), (''gppudclk0'', 4), (''gppudclk1'', 4)]"

text \<open>The writes to the register block, in order, by offset.\<close>

definition init_gpio :: "(nat \<times> 32 word) list" where
  "init_gpio =
     [(offset_in gpio_fields ''gpfsel1'', push_bit 12 0b100 OR push_bit 15 0b100), (offset_in gpio_fields ''gppud'', 0),
      (offset_in gpio_fields ''gppudclk0'', push_bit 14 1 OR push_bit 15 1), (offset_in gpio_fields ''gppudclk0'', 0)]"

definition gpio_module_init :: "dt_node list option \<Rightarrow> kernel \<Rightarrow> (kernel \<times> (page \<times> (nat \<times> 32 word) list) option) res" where
  "gpio_module_init devtree k =
     rbind (unwrap devtree) (\<lambda>t.
     case compatible t ''brcm,bcm2711-gpio'' of
       None \<Rightarrow> Ok (k, None)
     | Some node \<Rightarrow>
         rbind (regs node) (\<lambda>r.
         rbind (unwrap r) (\<lambda>it.
         rbind (next_reg node it) (\<lambda>(gpio_frame, _).
         rbind (page_new Size4K gpio_frame) (\<lambda>frame.
         rbind (map_device_page k frame) (\<lambda>(k1, gpio_page).
         Ok (k1, Some (gpio_page, init_gpio))))))))"

section \<open>Lemmas\<close>

lemma device_flags_kept: "map_flags Size4K device_flags = device_flags"
  by (simp add: map_flags_def device_flags_def or.commute or.left_commute)

definition device_leaf :: "frame \<Rightarrow> (64 word \<times> nat) option" where
  "device_leaf f = Some (of_nat f OR device_flags, 0)"

lemma map_device_page_cases:
  assumes inv: "kheap_inv c t k" and f: "4096 dvd f" "f < 2 ^ 48"
  shows "map_device_page k f = Panic UnwrapNone \<or>
    (\<exists>k' p. map_device_page k f = Ok (k', p) \<and> kheap_inv c t k' \<and> 4096 dvd p
      \<and> {p..<p + 4096} \<subseteq> kheap_avail k \<and> kheap_avail k' = kheap_avail k - {p..<p + 4096} \<and> k_free k' \<subseteq> k_free k
      \<and> (\<forall>a < 2 ^ 48. leaf (k_mem k') t (indices a) = (if p \<le> a \<and> a < p + 4096 then device_leaf f else leaf (k_mem k) t (indices a))))"
proof -
  let ?v = "k_virt k" and ?L = LOG_KERNEL_HEAP_SIZE
  have B: "BYTES Size4K = 4096" by (simp add: BYTES_def)
  have l: "bm_layout ?L KERNEL_HEAP_START ?v" and kt: "kt_inv c t ?v k"
    and un: "\<forall>a \<in> bm_free ?L ?v. leaf (k_mem k) t (indices a) = None"
    using inv by (auto simp: kheap_inv_def)
  have n: "(0::nat) < 1" "1 * BYTES Size4K < USIZE_LIMIT" by (simp_all add: B USIZE_LIMIT_def)
  from bm.acquire_cases [OF l n] show ?thesis unfolding B mult_1
  proof (elim disjE exE conjE)
    fix v' p
    assume a: "bm_acquire ?L Size4K ?v 1 = Ok (v', p, p + 4096)" "bm_layout ?L KERNEL_HEAP_START v'" "4096 dvd p"
      "{p..<p + 4096} \<subseteq> bm_free ?L ?v" "bm_free ?L v' = bm_free ?L ?v - {p..<p + 4096}"
    let ?k1 = "k\<lparr>k_virt := v'\<rparr>"
    have m: "k_mem ?k1 = k_mem k" "k_free ?k1 = k_free k" by (simp_all add: k_mem_def k_free_def)
    have kt1: "kt_inv c t v' ?k1" using kt by (auto simp: table_inv_def k_ok_def k_mem_def k_free_def)
    have reg: "bm_free ?L ?v \<subseteq> {KERNEL_HEAP_START..<KERNEL_HEAP_END}" using bm.free_in_region [OF l] unfolding heap_bounds(3) .
    have "p \<in> bm_free ?L ?v" using a(4) by auto
    then have p: "in_kernel_heap p" "p < 2 ^ 48" and nb: "\<not> covers (k_mem ?k1) t p (4 - map_levels Size4K)"
      using reg un heap_bounds(4) by (auto simp: in_kernel_heap_def page_start_def covers_def m)
    have pre: "take 4 (indices a) = take 4 (indices p) \<longleftrightarrow> p \<le> a \<and> a < p + 4096" if "a < 2 ^ 48" for a
      using page_prefix [of Size4K p a] a(3) p(2) that by (simp add: B)
    from mapper_map_cases [OF kt1 p f flags_fit_all(5) nb] show ?thesis unfolding m
    proof (elim disjE exE conjE)
      fix k'
      assume h: "mapper_map Size4K ?k1 p f device_flags = Ok k'" "kt_inv c t v' k'" "k_free k' \<subseteq> k_free k"
        and lf: "\<forall>a. leaf (k_mem k') t (indices a) = (if take (map_levels Size4K) (indices a) = take (map_levels Size4K) (indices p)
            then Some (of_nat f OR map_flags Size4K device_flags, 4 - map_levels Size4K) else leaf (k_mem k) t (indices a))"
      have v: "k_virt k' = v'" using h(2) by (simp add: table_inv_def k_ok_def)
      have lf': "\<forall>a < 2 ^ 48. leaf (k_mem k') t (indices a) = (if p \<le> a \<and> a < p + 4096 then device_leaf f else leaf (k_mem k) t (indices a))"
        using lf pre by (simp add: device_leaf_def device_flags_kept)
      have "leaf (k_mem k') t (indices x) = None" if "x \<in> bm_free ?L v'" for x
      proof -
        have x: "x \<in> bm_free ?L ?v" "x \<notin> {p..<p + 4096}" using that a(5) by auto
        then have "x < 2 ^ 48" using reg heap_bounds(4) by fastforce
        then show ?thesis using lf' un x by auto
      qed
      then have "kheap_inv c t k'" using h(2) a(2) v by (simp add: kheap_inv_def)
      moreover have "map_device_page k f = Ok (k', p)" using a(1) h(1) by (simp add: map_device_page_def virtual_allocate_def)
      ultimately show ?thesis
        using a(3-5) h(3) lf' v by (intro disjI2 exI [of _ k'] exI [of _ p]) (simp add: kheap_avail_def)
    qed (use a(1) in \<open>simp add: map_device_page_def virtual_allocate_def\<close>)
  qed (simp add: map_device_page_def virtual_allocate_def)
qed

lemma device_translate:
  assumes "kheap_inv c t k" and "leaf (k_mem k) t (indices a) = device_leaf f" and "4096 dvd f" "f < 2 ^ 48" and "a = p + off" "4096 dvd p" "off < 4096"
  shows "pt_translate (k_mem k) t a = Ok (Some (f + off))"
proof -
  have T: "tree_ok 3 (k_mem k) t" using assms(1) by (simp add: kheap_inv_def table_inv_def)
  have "a mod 2 ^ 12 = off" using assms(5-7) by (auto elim!: dvdE)
  then show ?thesis
    using pte_set_Ok(2) [OF assms(3,4) flags_fit_all(5)] assms(2)
    by (simp add: pt_translate_walk [OF T] walk_def device_leaf_def device_flags_kept)
qed

text \<open>Pins 14 and 15 take their first alternate function, the serial port, with the pulls switched off.\<close>

lemma gpio_writes: "init_gpio = [(0x04, 0x24000), (0x94, 0), (0x98, 0xC000), (0x98, 0)]"
  by (simp add: init_gpio_def gpio_fields_def)

text \<open>Mapping two register pages in a row.\<close>

lemma map_two:
  assumes inv: "kheap_inv c t k" and f: "4096 dvd f" "f < 2 ^ 48" "4096 dvd g" "g < 2 ^ 48"
  defines "r \<equiv> rbind (map_device_page k f) (\<lambda>(k2, p). rbind (map_device_page k2 g) (\<lambda>(k3, q). Ok (k3, p, q)))"
  shows "r = Panic UnwrapNone \<or>
    (\<exists>k' p q. r = Ok (k', p, q) \<and> kheap_inv c t k' \<and> 4096 dvd p \<and> 4096 dvd q \<and> {p..<p + 4096} \<subseteq> kheap_avail k \<and> {q..<q + 4096} \<subseteq> kheap_avail k
      \<and> {p..<p + 4096} \<inter> {q..<q + 4096} = {}
      \<and> (\<forall>off < 4096. pt_translate (k_mem k') t (p + off) = Ok (Some (f + off)) \<and> pt_translate (k_mem k') t (q + off) = Ok (Some (g + off)))
      \<and> (\<forall>a < 2 ^ 48. a \<notin> {p..<p + 4096} \<union> {q..<q + 4096} \<longrightarrow> pt_translate (k_mem k') t a = pt_translate (k_mem k) t a))"
  using map_device_page_cases [OF inv f(1,2)]
proof (elim disjE exE conjE)
  fix k2 p
  assume a: "map_device_page k f = Ok (k2, p)" "kheap_inv c t k2" "4096 dvd p" "{p..<p + 4096} \<subseteq> kheap_avail k" "kheap_avail k2 = kheap_avail k - {p..<p + 4096}"
    and l2: "\<forall>a < 2 ^ 48. leaf (k_mem k2) t (indices a) = (if p \<le> a \<and> a < p + 4096 then device_leaf f else leaf (k_mem k) t (indices a))"
  from map_device_page_cases [OF a(2) f(3,4)] show ?thesis
  proof (elim disjE exE conjE)
    fix k3 q
    assume b: "map_device_page k2 g = Ok (k3, q)" "kheap_inv c t k3" "4096 dvd q" "{q..<q + 4096} \<subseteq> kheap_avail k2"
      and l3: "\<forall>a < 2 ^ 48. leaf (k_mem k3) t (indices a) = (if q \<le> a \<and> a < q + 4096 then device_leaf g else leaf (k_mem k2) t (indices a))"
    have below: "kheap_avail k \<subseteq> {..<2 ^ 48}"
      using inv bm.free_in_region [of LOG_KERNEL_HEAP_SIZE KERNEL_HEAP_START "k_virt k"] heap_bounds(4) unfolding heap_bounds(3) kheap_avail_def
      by (fastforce simp: kheap_inv_def)
    have dj: "{p..<p + 4096} \<inter> {q..<q + 4096} = {}" and q: "{q..<q + 4096} \<subseteq> kheap_avail k" using b(4) unfolding a(5) by blast+
    have "pt_translate (k_mem k3) t (p + off) = Ok (Some (f + off)) \<and> pt_translate (k_mem k3) t (q + off) = Ok (Some (g + off))" if o: "off < 4096" for off
    proof -
      have "p + off \<in> {p..<p + 4096}" "q + off \<in> {q..<q + 4096}" using o by simp_all
      then have "p + off \<notin> {q..<q + 4096}" "p + off < 2 ^ 48" "q + off < 2 ^ 48" using dj a(4) q below by blast+
      then have "leaf (k_mem k3) t (indices (p + off)) = device_leaf f" "leaf (k_mem k3) t (indices (q + off)) = device_leaf g"
        using l2 l3 o by auto
      then show ?thesis using device_translate [OF b(2) _ f(1,2) refl a(3) o] device_translate [OF b(2) _ f(3,4) refl b(3) o] by blast
    qed
    moreover have "pt_translate (k_mem k3) t a = pt_translate (k_mem k) t a" if "a < 2 ^ 48" "a \<notin> {p..<p + 4096} \<union> {q..<q + 4096}" for a
    proof -
      have T: "tree_ok 3 (k_mem k3) t" "tree_ok 3 (k_mem k) t" using b(2) inv by (simp_all add: kheap_inv_def table_inv_def)
      have "leaf (k_mem k3) t (indices a) = leaf (k_mem k) t (indices a)" using l2 l3 that by auto
      then show ?thesis by (simp add: pt_translate_walk [OF T(1)] pt_translate_walk [OF T(2)] walk_def)
    qed
    ultimately show ?thesis using a(1,3,4) b(1-3) dj q by (intro disjI2 exI [of _ k3] exI [of _ p] exI [of _ q]) (simp add: r_def)
  qed (use a(1) in \<open>simp add: r_def\<close>)
qed (simp add: r_def)

lemma kheap_disable:
  assumes "kheap_inv c t k"
  shows "kheap_inv (interrupt_disable c) t (k\<lparr>k_cpu := interrupt_disable (k_cpu k)\<rparr>)"
proof -
  have "k_cpu k = c" "4096 dvd cpu_ttbr0 c" using assms by (auto simp: kheap_inv_def table_inv_def k_ok_def)
  then show ?thesis using assms kt_inv_cpu [of c t "k_virt k" k "interrupt_disable c"]
    by (simp add: kheap_inv_def interrupt_disable_def) (simp add: k_mem_def)
qed

lemma next_reg_encoded:
  assumes "windows n ws" and "reg_ok ac sc (a, s)"
  shows "next_reg n \<lparr>rg_address_cells = ac, rg_size_cells = sc, rg_buf = enc_reg ac sc (a, s) @ bs\<rparr>
    = Ok (through ws a, \<lparr>rg_address_cells = ac, rg_size_cells = sc, rg_buf = bs\<rparr>)"
  using reg_dec.step_entry [OF assms(2), of bs] translate_through [OF assms(1)] by (simp add: next_reg_def)

text \<open>The node of a device with the addresses of its register blocks.\<close>

definition describes :: "dt_node \<Rightarrow> (address \<times> usize) list \<Rightarrow> address list \<Rightarrow> bool" where
  "describes n rs as \<longleftrightarrow> (\<exists>u c p ws. node_parent n = Some u \<and> cell_sizes u = Ok c \<and> find_prop ''reg'' n = Some p
     \<and> pp_raw p = concat (map (enc_reg (address_cells c) (size_cells c)) rs) \<and> (\<forall>r \<in> set rs. reg_ok (address_cells c) (size_cells c) r)
     \<and> windows n ws \<and> as = map (through ws) (map fst rs))"

section \<open>Properties\<close>


definition demo_compatible :: "string list \<Rightarrow> property" where
  "demo_compatible ss = \<lparr>pp_name = ''compatible'', pp_raw = [], pp_u32 = None, pp_strs = ss\<rparr>"

definition demo_gic_node :: dt_node where
  "demo_gic_node =
     [demo_compatible [''arm,gic-400'', ''arm,cortex-a15-gic''], demo_prop ''reg'' (concat (map (enc_reg 1 1) [(0x40041000, 0x1000), (0x40042000, 0x2000)]))] # demo_soc"

definition demo_timer_node :: dt_node where
  "demo_timer_node =
     [demo_compatible [''arm,armv8-timer'', ''arm,armv7-timer''], demo_prop ''interrupts'' (concat (map (enc_interrupt 1) [(1, 13, 0xf08), (1, 14, 0xf08)]))] # tl demo_soc"

definition demo_tree :: "dt_node list" where
  "demo_tree = [tl demo_soc, demo_soc, demo_uart_node, demo_gic_node, demo_timer_node]"

lemma demo_nodes: "compatible demo_tree ''arm,cortex-a15-gic'' = Some demo_gic_node" "compatible demo_tree ''arm,armv7-timer'' = Some demo_timer_node"
  by (simp_all add: demo_tree_def compatible_def demo_soc_def demo_uart_node_def demo_gic_node_def demo_timer_node_def demo_compatible_def demo_prop_def
      find_prop_def node_props_def)


text \<open>The timer interrupts on the line the device tree names. After the controller is initialised on any register
  contents of the architecture's size, the timer module takes its second interrupt from the tree and, if
  that line is below 256, installs its handler there and nowhere else, routes exactly that line to the boot core,
  enables it, and starts the timer with a sixtieth of a second. Both halves of the controller are enabled,
  every line was disabled first and has the default priority, and no interrupt is active.\<close>

theorem timer_from_tree:
  fixes irq :: usize
  assumes "gic_ok \<lparr>gi_gicd = d, gi_gicc = c, gi_iar = replicate num_cores [], gi_handlers = replicate IRQ_LINES (None :: irq_handler option)\<rparr>"
    and "compatible tree ''arm,armv7-timer'' = Some n" and "\<forall>ps \<in> set n. \<forall>q \<in> set ps. pp_name q \<noteq> ''#interrupt-cells''"
    and "find_prop ''interrupts'' n = Some q" and "pp_raw q = concat (map (enc_interrupt 1) (i0 # i1 # is))"
    and "\<forall>i \<in> set (i0 # i1 # is). interrupt_ok 1 i" and "interrupt_line i1 = (irq, ty)" and "irq < 256"
  shows "\<exists>g g' t'. gic_init d c = Ok g \<and> timer_module_init (Some tree) t g = Ok (t', g') \<and> gic_ok g' \<and> gi_iar g' = [[]]
    \<and> gd_ctlr (gi_gicd g) = 1 \<and> gc_ctlr (gi_gicc g) = 1 \<and> (\<forall>i < 8. gd_icenabler (gi_gicd g) ! i = NOT 0)
    \<and> (\<forall>i < 64. gd_ipriorityr (gi_gicd g) ! i = 0xA0A0A0A0)
    \<and> (\<forall>j < 256. get_irq_handler g' j = Ok (if j = irq then Some TimerHandler else None))
    \<and> (\<forall>j < 992. target g' j = (if j = irq then 1 else target g j)) \<and> gd_isenabler (gi_gicd g') ! (irq div 32) = push_bit (irq mod 32) 1
    \<and> tm_ctl t' = 1 \<and> tm_tval t' = tm_frequency t div 60"
proof -
  have "interrupts n = Ok (Some (1, pp_raw q))" using assms(4) interrupt_cells_default [OF assms(3)] by (simp add: interrupts_def)
  moreover have "iter_nth interrupts_next (1, pp_raw q) 1 = Ok (Some (irq, ty))"
    unfolding assms(5) interrupt_dec.nth_encoded [OF assms(6)] using assms(7) by simp
  ultimately have "get_timer_irq (Some tree) = Ok irq"
    using assms(2) by (simp add: get_timer_irq_def del: iter_nth.simps)
  then show ?thesis using timer_started [OF assms(1,8), of TimerHandler t] by (simp add: timer_module_init_def)
qed

theorem timer_from_tree_witness:
  "\<exists>g g' t'. gic_init (gi_gicd demo_gic) (gi_gicc demo_gic) = Ok g
    \<and> timer_module_init (Some demo_tree) \<lparr>tm_frequency = 54000000, tm_tval = 0, tm_ctl = 0\<rparr> g = Ok (t', g')
    \<and> get_irq_handler g' 30 = Ok (Some TimerHandler) \<and> get_irq_handler g' 29 = Ok None \<and> target g' 30 = 1 \<and> tm_tval t' = 900000"
proof -
  have ok: "gic_ok \<lparr>gi_gicd = gi_gicd demo_gic, gi_gicc = gi_gicc demo_gic, gi_iar = replicate num_cores [], gi_handlers = replicate IRQ_LINES (None :: irq_handler option)\<rparr>"
    by (simp add: gic_ok_def demo_gic_def array_for_range_def)
  have n: "\<forall>ps \<in> set demo_timer_node. \<forall>q \<in> set ps. pp_name q \<noteq> ''#interrupt-cells''"
    "find_prop ''interrupts'' demo_timer_node = Some (demo_prop ''interrupts'' (concat (map (enc_interrupt 1) [(1, 13, 0xf08), (1, 14, 0xf08)])))"
    by (simp_all add: demo_timer_node_def demo_soc_def find_prop_def node_props_def demo_prop_def demo_compatible_def)
  have raw: "pp_raw (demo_prop s b) = b" for s b by (simp add: demo_prop_def)
  have i: "\<forall>i \<in> set [(1, 13, 0xf08), (1, 14, 0xf08)]. interrupt_ok 1 i" "interrupt_line (1, 14, 0xf08) = (30, 0xf08)" "30 < (256::nat)"
    by (simp_all add: interrupt_ok_def interrupt_line_def fits_def width_def USIZE_LIMIT_def)
  show ?thesis using timer_from_tree [OF ok demo_nodes(2) n raw i, of "\<lparr>tm_frequency = 54000000, tm_tval = 0, tm_ctl = 0\<rparr>"] by auto
qed

end
