(* ===== verification/Vfs_Spec.thy ===== *)
theory Vfs_Spec
  imports Vfs
begin

text \<open>
  Correctness of the virtual file system: paths, name resolution, descriptors and reads.
\<close>

section \<open>Canonical paths\<close>

definition path_name :: "string \<Rightarrow> bool" where
  "path_name n \<longleftrightarrow> n \<noteq> [] \<and> slash \<notin> set n \<and> n \<noteq> ''.'' \<and> n \<noteq> ''..''"

definition path_of :: "string list \<Rightarrow> string" where
  "path_of ns = slash # join [slash] ns"

lemma segments_app [simp]: "segments (s @ slash # t) = segments s @ segments t"
proof -
  have "split slash (s @ slash # t) = split slash s @ split slash t"
  proof (induction s)
    case (Cons x s)
    then show ?case by (cases "split slash s") simp_all
  qed simp
  then show ?thesis by (simp add: segments_def)
qed

lemma segments_names: "n \<in> set (segments s) \<Longrightarrow> n \<noteq> [] \<and> slash \<notin> set n"
  by (auto simp: segments_def dest: split_no_sep)

lemma segments_join: "\<forall>n \<in> set ns. n \<noteq> [] \<and> slash \<notin> set n \<Longrightarrow> segments (join [slash] ns) = ns"
  by (cases "ns = []") (simp_all add: segments_def split_join filter_True)

lemma segments_strip: "segments (case strip_suffix slash s of Some t \<Rightarrow> t | None \<Rightarrow> s) = segments s"
proof (cases "ends_with slash s")
  case True
  then have "s = butlast s @ slash # []" by (metis append_butlast_last_id ends_with_def)
  then have "segments s = segments (butlast s)" using segments_app [of "butlast s" "[]"] by (simp add: segments_def)
  then show ?thesis using True by (simp add: strip_suffix_def)
qed (simp add: strip_suffix_def)

lemma canon_loop_app: "canon_loop b (xs @ ys) = Option.bind (canon_loop b xs) (\<lambda>b'. canon_loop b' ys)"
  by (induction b xs rule: canon_loop.induct) simp_all

lemma canon_loop_names: "canon_loop b xs = Some b' \<Longrightarrow> \<forall>n \<in> set b. path_name n \<Longrightarrow>
    \<forall>x \<in> set xs. x \<noteq> [] \<and> slash \<notin> set x \<Longrightarrow> \<forall>n \<in> set b'. path_name n"
proof (induction b xs rule: canon_loop.induct)
  case (2 b x xs)
  have "\<forall>n \<in> set (butlast b). path_name n" using "2.prems"(2) by (auto dest: in_set_butlastD)
  moreover have "x \<noteq> ''.'' \<Longrightarrow> x \<noteq> ''..'' \<Longrightarrow> \<forall>n \<in> set (b @ [x]). path_name n"
    using "2.prems"(2,3) by (simp add: path_name_def)
  ultimately show ?case using 2 by (simp split: if_splits)
qed simp

lemma canonicalize_rel:
  assumes "\<not> starts_with slash s" and "pd_cwd d = path_of cs" and "\<forall>n \<in> set cs. path_name n"
  shows "canonicalize d s = Ok (map_option path_of (canon_loop cs (segments s)))"
proof -
  let ?s1 = "case strip_suffix slash s of Some t \<Rightarrow> t | None \<Rightarrow> s"
  have "\<not> starts_with slash ?s1"
    using assms(1) by (cases s) (auto simp: strip_suffix_def starts_with_def)
  moreover have "segments (join [slash] cs) = cs" using assms(3) by (intro segments_join) (auto simp: path_name_def)
  ultimately show ?thesis
    using assms(1,2) unfolding canonicalize_def Let_def segments_strip
    by (simp add: path_of_def [abs_def])
qed

section \<open>Resolution\<close>

text \<open>The directory structure seen by the walk: the root file system's tree.\<close>

definition root_dir :: "'w vfs \<Rightarrow> dir \<Rightarrow> bool" where
  "root_dir s d \<longleftrightarrow> vf_initialized s \<and> rf_root (vf_ramfs s) = EDir d"

definition plain_name :: "string \<Rightarrow> bool" where
  "plain_name n \<longleftrightarrow> n \<noteq> [] \<and> slash \<notin> set n"

definition dir_node :: "string list \<Rightarrow> node" where
  "dir_node ns = root_node\<lparr>nd_name := (if ns = [] then ''/'' else last ns), nd_path := concat (map (\<lambda>n. slash # n) ns)\<rparr>"

lemma concat_path: "ns \<noteq> [] \<Longrightarrow> concat (map (\<lambda>n. slash # n) ns) = path_of ns"
  unfolding path_of_def by (induction ns rule: induct_list012) simp_all

lemma names_join: "ns \<noteq> [] \<Longrightarrow> \<forall>n \<in> set ns. plain_name n \<Longrightarrow> names (join [slash] ns) = ns"
proof (induction ns rule: induct_list012)
  case (2 n)
  then have "split_once slash n = None" by (simp add: plain_name_def split_once_None)
  then show ?case by (subst names.simps) (simp add: next_name_def)
next
  case (3 n m ns)
  have "slash \<notin> set n" using 3 by (simp add: plain_name_def)
  then have "next_name (join [slash] (n # m # ns)) = (n, join [slash] (m # ns))" by (simp add: next_name_def)
  moreover have "join [slash] (m # ns) \<noteq> []" using 3 by (cases ns) (simp_all add: plain_name_def)
  ultimately show ?case using 3 by (subst names.simps) simp
qed simp

lemma join_ne: "ns \<noteq> [] \<Longrightarrow> \<forall>n \<in> set ns. plain_name n \<Longrightarrow> join [slash] ns \<noteq> []"
  by (cases ns; cases "tl ns") (auto simp: plain_name_def)

lemma ramfs_get_path:
  assumes "rf_root fs = EDir d" and "\<forall>n \<in> set ns. plain_name n"
  shows "ramfs_get fs (path_of ns) = Ok (lookup d ns)"
proof (cases "ns = []")
  case True
  then show ?thesis using assms by (simp add: path_of_def ramfs_get_def)
next
  case False
  then show ?thesis using assms ramfs_get_Cons [OF join_ne [OF False assms(2)] assms(1)]
    by (simp add: path_of_def names_join)
qed

lemma dir_node_child: "child_path (dir_node ns) n = path_of (ns @ [n])"
  by (simp add: child_path_def dir_node_def flip: concat_path)

lemma stat_dir_node:
  assumes "root_dir s d" and "\<forall>m \<in> set ns. plain_name m" and "plain_name n"
  shows "fs_stat s (dir_node ns) n = Ok (map_option (\<lambda>e. \<lparr>st_fs = RootFS, st_mount = as_mnt e, st_is_dir = as_dir e \<noteq> None\<rparr>)
      (lookup d (ns @ [n])))"
proof -
  have "ramfs_get (vf_ramfs s) (path_of (ns @ [n])) = Ok (lookup d (ns @ [n]))"
    using assms by (intro ramfs_get_path) (auto simp: root_dir_def)
  moreover have "nd_fs (dir_node ns) = RootFS" by (simp add: dir_node_def root_node_def)
  ultimately show ?thesis using assms(1) by (simp add: fs_stat_def dir_node_child rootfs_stat_def root_dir_def)
qed

lemma dir_node_step: "(dir_node ns)\<lparr>nd_name := n, nd_path := child_path (dir_node ns) n\<rparr> = dir_node (ns @ [n])"
  unfolding dir_node_child by (simp add: dir_node_def flip: concat_path)

text \<open>One step of the walk from a directory of the root file system.\<close>

lemma locate_step:
  assumes "root_dir s d" and "\<forall>m \<in> set ns. plain_name m" and "\<forall>m \<in> set (n # ms). plain_name m"
  shows "vfs_locate_node s (dir_node ns) (join [slash] (n # ms)) =
    (case lookup d (ns @ [n]) of
       None \<Rightarrow> Ok None
     | Some e \<Rightarrow>
         if ms = [] then Ok (Some (dir_node ns, n))
         else case e of
           EDir _ \<Rightarrow> vfs_locate_node s (dir_node (ns @ [n])) (join [slash] ms)
         | EMount k \<Rightarrow> rbind (idx (vf_mounts s) k) (\<lambda>m. case m of
             None \<Rightarrow> Ok None | Some mp \<Rightarrow> vfs_locate_node s (mp_root mp) (join [slash] ms))
         | EFile _ \<Rightarrow> Ok (Some (dir_node ns, n)))"
proof -
  have n: "n \<noteq> []" "slash \<notin> set n" using assms(3) by (auto simp: plain_name_def)
  then have st: "\<not> starts_with slash (join [slash] (n # ms))" by (cases ms; cases n) (auto simp: starts_with_def)
  have nn: "next_name (join [slash] (n # ms)) = (n, join [slash] ms)"
    using n by (cases ms) (simp_all add: next_name_def split_once_None [THEN iffD2])
  have je: "join [slash] ms = [] \<longleftrightarrow> ms = []" using join_ne [of ms] assms(3) by auto
  have "fs_stat s (dir_node ns) n = Ok (map_option (\<lambda>e. \<lparr>st_fs = RootFS, st_mount = as_mnt e, st_is_dir = as_dir e \<noteq> None\<rparr>)
      (lookup d (ns @ [n])))"
    using assms by (intro stat_dir_node) auto
  then show ?thesis
    by (subst vfs_locate_node.simps)
      (simp add: st nn je dir_node_step as_mnt_def as_dir_def split: option.split entry.split)
qed

lemma lookup_app: "lookup d (ns @ ms) = (if ms = [] then lookup d ns else
    case lookup d ns of Some (EDir dd) \<Rightarrow> lookup dd ms | _ \<Rightarrow> None)"
proof (induction d ns rule: lookup.induct)
  case (2 d n)
  then show ?case by (simp add: lookup_Cons)
qed (auto split: option.split entry.split)

lemma locate_dirs:
  assumes "root_dir s d"
  shows "ms \<noteq> [] \<Longrightarrow> \<forall>m \<in> set (ns @ ms). plain_name m
    \<Longrightarrow> \<forall>ps e. ps \<noteq> [] \<longrightarrow> strict_prefix ps ms \<longrightarrow> lookup d (ns @ ps) = Some e \<longrightarrow> (\<exists>dd. e = EDir dd)
    \<Longrightarrow> vfs_locate_node s (dir_node ns) (join [slash] ms) =
      Ok (if lookup d (ns @ ms) = None then None else Some (dir_node (ns @ butlast ms), last ms))"
proof (induction ms arbitrary: ns rule: induct_list012)
  case (2 n)
  then show ?case using locate_step [OF assms, of ns n "[]"] by (simp split: option.split)
next
  case (3 n m ms)
  have pl: "\<forall>x \<in> set ns. plain_name x" "\<forall>x \<in> set (n # m # ms). plain_name x" using "3.prems"(2) by auto
  note L = locate_step [OF assms pl]
  show ?case
  proof (cases "lookup d (ns @ [n])")
    case None
    then have "lookup d (ns @ n # m # ms) = None" using lookup_app [of d "ns @ [n]" "m # ms"] by simp
    then show ?thesis using L None by simp
  next
    case (Some e)
    have "strict_prefix [n] (n # m # ms)" by simp
    then obtain dd where e: "e = EDir dd" using "3.prems"(3) Some by blast
    have "\<forall>ps e. ps \<noteq> [] \<longrightarrow> strict_prefix ps (m # ms) \<longrightarrow> lookup d ((ns @ [n]) @ ps) = Some e \<longrightarrow> (\<exists>dd. e = EDir dd)"
      by (intro allI impI, rule "3.prems"(3) [rule_format, of "n # _"]) simp_all
    then have "vfs_locate_node s (dir_node (ns @ [n])) (join [slash] (m # ms)) =
      Ok (if lookup d ((ns @ [n]) @ m # ms) = None then None else Some (dir_node ((ns @ [n]) @ butlast (m # ms)), last (m # ms)))"
      using "3.prems"(2) by (intro "3.IH") auto
    then show ?thesis using L Some e by simp
  qed
qed simp

definition proper_path :: "string list \<Rightarrow> bool" where
  "proper_path ns \<longleftrightarrow> ns \<noteq> [] \<and> (\<forall>n \<in> set ns. plain_name n) \<and> \<not> is_whitespace (last (last ns))"

lemma last_join: "ns \<noteq> [] \<Longrightarrow> \<forall>n \<in> set ns. plain_name n \<Longrightarrow> last (join [slash] ns) = last (last ns)"
proof (induction ns rule: induct_list012)
  case (3 n m ms)
  then show ?case using join_ne [of "m # ms"] by simp
qed simp_all

text \<open>Surrounding white space and a trailing slash are the only things the callers strip besides one
  leading slash.\<close>

lemma bare_path_slash:
  assumes "proper_path ns"
  shows "bare_path (slash # pre @ join [slash] ns) = pre @ join [slash] ns"
proof -
  let ?j = "join [slash] ns" and ?p = "slash # pre @ join [slash] ns"
  have ns: "ns \<noteq> []" "\<forall>n \<in> set ns. plain_name n" and w: "\<not> is_whitespace (last ?j)"
    using assms last_join by (auto simp: proper_path_def)
  have j: "?j \<noteq> []" using ns by (rule join_ne)
  have "last ns \<in> set ns" using ns(1) by simp
  then have "last (last ns) \<noteq> slash" using ns(2) unfolding plain_name_def by (metis last_in_set)
  then have e: "\<not> ends_with slash ?p" using j last_join [OF ns] by (simp add: ends_with_def)
  obtain b z where bz: "?j = b @ [z]" using j by (cases ?j rule: rev_cases) auto
  have "dropWhile is_whitespace (rev ?p) = rev ?p" using w by (simp add: bz)
  moreover have "\<not> is_whitespace slash" by code_simp
  ultimately have "trim ?p = ?p" by (simp add: trim_def)
  then show ?thesis using e by (simp add: bare_path_def)
qed

lemma bare_path_of: "proper_path ns \<Longrightarrow> bare_path (path_of ns) = join [slash] ns"
  using bare_path_slash [of ns "[]"] by (simp add: path_of_def)

lemma bare_double: "proper_path ns \<Longrightarrow> bare_path (slash # path_of ns) = path_of ns"
  using bare_path_slash [of ns "[slash]"] by (simp add: path_of_def)

lemma root_dir_node: "root_node = dir_node []"
  by (simp add: dir_node_def root_node_def)

lemma vfs_open_path:
  assumes "proper_path ns"
  shows "vfs_open s (path_of ns) = rbind (vfs_locate_node s (dir_node []) (join [slash] ns)) (\<lambda>r.
      case r of None \<Rightarrow> Ok None | Some (parent, entry) \<Rightarrow> fs_open s parent entry)"
proof -
  have "join [slash] ns \<noteq> []" using assms by (intro join_ne) (auto simp: proper_path_def)
  then have "path_of ns \<noteq> ''/''" by (simp add: path_of_def)
  moreover have "starts_with slash (path_of ns)" by (simp add: path_of_def)
  ultimately show ?thesis using bare_path_of [OF assms] by (simp add: vfs_open_def root_dir_node)
qed

lemma open_dir_node:
  assumes "root_dir s d" and "\<forall>m \<in> set ns. plain_name m" and "plain_name n"
  shows "fs_open s (dir_node ns) n = Ok (map_option (\<lambda>e. \<lparr>nd_name = n, nd_path = path_of (ns @ [n]), nd_fs = RootFS,
      nd_mount = as_mnt e, nd_block = 0, nd_offset = 0\<rparr>) (lookup d (ns @ [n])))"
proof -
  have "ramfs_get (vf_ramfs s) (path_of (ns @ [n])) = Ok (lookup d (ns @ [n]))"
    using assms by (intro ramfs_get_path) (auto simp: root_dir_def)
  moreover have "nd_fs (dir_node ns) = RootFS" by (simp add: dir_node_def root_node_def)
  ultimately show ?thesis by (simp add: fs_open_def dir_node_child rootfs_open_def)
qed

definition dirs_above :: "dir \<Rightarrow> string list \<Rightarrow> bool" where
  "dirs_above d ns \<longleftrightarrow> (\<forall>ps e. ps \<noteq> [] \<longrightarrow> strict_prefix ps ns \<longrightarrow> lookup d ps = Some e \<longrightarrow> (\<exists>dd. e = EDir dd))"

lemma open_dirs:
  assumes "root_dir s d" and "proper_path ns" and "dirs_above d ns"
  shows "vfs_open s (path_of ns) = Ok (map_option (\<lambda>e. \<lparr>nd_name = last ns, nd_path = path_of ns, nd_fs = RootFS,
      nd_mount = as_mnt e, nd_block = 0, nd_offset = 0\<rparr>) (lookup d ns))"
proof -
  have ns: "ns \<noteq> []" "\<forall>n \<in> set ns. plain_name n" using assms(2) by (auto simp: proper_path_def)
  then have b: "butlast ns @ [last ns] = ns" "\<forall>n \<in> set (butlast ns). plain_name n" "plain_name (last ns)"
    by (auto dest: in_set_butlastD)
  have "vfs_locate_node s (dir_node []) (join [slash] ns) =
      Ok (if lookup d ([] @ ns) = None then None else Some (dir_node ([] @ butlast ns), last ns))"
    using ns assms(3) by (intro locate_dirs [OF assms(1)]) (auto simp: dirs_above_def)
  then show ?thesis
    using open_dir_node [OF assms(1) b(2,3)] b(1) by (auto simp: vfs_open_path [OF assms(2)])
qed

section \<open>Mounting the device file system\<close>

lemma mount_loop_first:
  assumes "i < length (vf_mounts s)" and "vf_mounts s ! i = None" and "\<forall>j < i. vf_mounts s ! j \<noteq> None"
  shows "k \<le> i \<Longrightarrow> vfs_mount_loop s path dev fs k = vfs_mount_loop s path dev fs i"
proof (induction "i - k" arbitrary: k)
  case (Suc n)
  then have "k < i" by simp
  then have "vfs_mount_loop s path dev fs k = vfs_mount_loop s path dev fs (k + 1)"
    using assms by (subst vfs_mount_loop.simps) auto
  also have "\<dots> = vfs_mount_loop s path dev fs i" using Suc \<open>k < i\<close> by (intro Suc.hyps) auto
  finally show ?case .
qed simp

lemma first_free:
  assumes "None \<in> set xs"
  obtains i where "i < length xs" and "xs ! i = None" and "\<forall>j < i. xs ! j \<noteq> None"
proof -
  obtain k where k: "k < length xs" "xs ! k = None" using assms by (auto simp: in_set_conv_nth)
  define i where "i = (LEAST i. xs ! i = None)"
  have "xs ! i = None" unfolding i_def using k(2) by (rule LeastI)
  moreover have "i \<le> k" unfolding i_def using k(2) by (rule Least_le)
  moreover have "\<forall>j < i. xs ! j \<noteq> None" unfolding i_def using not_less_Least by blast
  ultimately show ?thesis using that [of i] k(1) by simp
qed

definition dev_root :: node where
  "dev_root = \<lparr>nd_name = ''dev'', nd_path = ''/dev'', nd_fs = DevFS, nd_mount = None, nd_block = 0, nd_offset = 0\<rparr>"

lemma dev_name: "path_of [''dev''] = ''/dev''" "plain_name ''dev''" "names ''dev'' = [''dev'']"
  by (simp_all add: path_of_def plain_name_def) code_simp

lemma mount_dev:
  assumes "root_dir s d" and "lookup d [''dev''] = None"
  shows "\<exists>d'. vfs_mount_impl s root_node ''dev'' 0 DevFS key
      = Ok (s\<lparr>vf_ramfs := \<lparr>rf_root = EDir d'\<rparr>\<rparr>, Some (dev_root\<lparr>nd_fs := RootFS, nd_mount := Some key\<rparr>, dev_root))
    \<and> placed (EMount key) d [''dev''] d'"
proof -
  have "leaf_entry (EMount key)" by (simp add: leaf_entry_iff)
  moreover have "can_place d [''dev'']" using assms(2) by simp
  ultimately obtain d' where d': "dir_place (EMount key) d ''dev'' = Ok d'" "placed (EMount key) d [''dev''] d'"
    using dir_place_cases [of "EMount key" d "''dev''"] by (auto simp: dev_name)
  have "fs_stat s (dir_node []) ''dev'' = Ok None"
    using stat_dir_node [OF assms(1) _ dev_name(2), of "[]"] assms(2) by simp
  moreover have "next_name ''dev'' = (''dev'', [])" by code_simp
  moreover have "child_path (dir_node []) ''dev'' = ''/dev''" "nd_fs (dir_node []) = RootFS"
    by (simp_all add: dir_node_child dev_name) (simp add: dir_node_def root_node_def)
  moreover have "ramfs_mount (vf_ramfs s) ''/dev'' key = Ok (\<lparr>rf_root = EDir d'\<rparr>, True)"
    using d'(1) assms(1) by (cases "vf_ramfs s") (simp add: ramfs_mount_def dir_mount_def root_dir_def)
  ultimately have "vfs_mount_impl s root_node ''dev'' 0 DevFS key
      = Ok (s\<lparr>vf_ramfs := \<lparr>rf_root = EDir d'\<rparr>\<rparr>, Some (dev_root\<lparr>nd_fs := RootFS, nd_mount := Some key\<rparr>, dev_root))"
    by (subst vfs_mount_impl.simps)
      (simp add: root_dir_node mount_here_def fs_mount_def rootfs_mount_def dev_root_def Let_def)
  then show ?thesis using d'(2) by blast
qed

lemma dev_init_Ok:
  assumes "root_dir s d" and "lookup d [''dev''] = None" and "None \<in> set (vf_mounts s)" and "\<not> interrupt_is_enabled c"
  obtains s1 d' i mp where "dev_init c s = Ok s1" and "root_dir s1 d'" and "placed (EMount i) d [''dev''] d'"
    and "i < length (vf_mounts s1)" and "vf_mounts s1 ! i = Some mp" and "mp_root mp = dev_root" and "vf_devices s1 = vf_devices s"
    and "vf_world s1 = vf_world s"
proof -
  obtain i where i: "i < length (vf_mounts s)" "vf_mounts s ! i = None" "\<forall>j < i. vf_mounts s ! j \<noteq> None"
    using assms(3) by (rule first_free)
  let ?s = "register_fs s DevFS"
  have r: "root_dir ?s d" "vf_mounts ?s = vf_mounts s" "bt_index (vf_systems ?s) ''devfs'' = Ok DevFS"
    using assms(1) by (simp_all add: root_dir_def register_fs_def bt_index_Ok_iff)
  obtain d' where d': "vfs_mount_impl ?s root_node ''dev'' 0 DevFS i
      = Ok (?s\<lparr>vf_ramfs := \<lparr>rf_root = EDir d'\<rparr>\<rparr>, Some (dev_root\<lparr>nd_fs := RootFS, nd_mount := Some i\<rparr>, dev_root))"
      "placed (EMount i) d [''dev''] d'"
    using mount_dev [OF r(1) assms(2)] by blast
  define mp where "mp = \<lparr>mp_parent = dev_root\<lparr>nd_fs := RootFS, nd_mount := Some i\<rparr>, mp_root = dev_root, mp_dev = 0, mp_fs = DevFS\<rparr>"
  define s1 where "s1 = ?s\<lparr>vf_ramfs := \<lparr>rf_root = EDir d'\<rparr>, vf_mounts := (vf_mounts s)[i := Some mp]\<rparr>"
  have "vfs_mount_loop ?s ''/dev'' 0 DevFS 0 = vfs_mount_loop ?s ''/dev'' 0 DevFS i"
    using i r(2) by (intro mount_loop_first) simp_all
  also have "\<dots> = Ok (s1, Some dev_root)"
    using i r(2) d'(1) by (subst vfs_mount_loop.simps) (simp add: s1_def mp_def)
  finally have "dev_init c s = Ok s1"
    using assms(4) r(3) by (simp add: dev_init_def vfs_handle_def handle_mount_def vfs_mount_def with_buf_def)
  then show ?thesis
    using i(1) d'(2) assms(1)
    by (intro that [of s1 d' i mp]) (simp_all add: s1_def root_dir_def mp_def register_fs_def)
qed

lemma open_dev:
  assumes "root_dir s d" and "lookup d [''dev''] = Some (EMount i)" and "i < length (vf_mounts s)"
    and "vf_mounts s ! i = Some mp" and "mp_root mp = dev_root" and "proper_path [''dev'', n]"
  shows "vfs_open s (path_of [''dev'', n]) = Ok (if bt_contains_key (vf_devices s) n then
      Some \<lparr>nd_name = n, nd_path = path_of [''dev'', n], nd_fs = DevFS, nd_mount = None, nd_block = 0, nd_offset = 0\<rparr> else None)"
proof -
  have n: "n \<noteq> []" "slash \<notin> set n" using assms(6) by (simp_all add: proper_path_def plain_name_def)
  have "vfs_locate_node s (dir_node []) (join [slash] [''dev'', n]) = vfs_locate_node s dev_root n"
    using locate_step [OF assms(1), of "[]" "''dev''" "[n]"] assms(2-6) by (simp add: proper_path_def)
  moreover have nn: "next_name n = (n, [])" using n by (simp add: next_name_def split_once_None [THEN iffD2])
  have "\<not> starts_with slash n" using n by (cases n) auto
  then have "vfs_locate_node s dev_root n = Ok (if bt_contains_key (vf_devices s) n then Some (dev_root, n) else None)"
    using nn by (subst vfs_locate_node.simps) (simp add: fs_stat_def devfs_stat_def dev_root_def)
  ultimately show ?thesis
    by (simp add: vfs_open_path [OF assms(6)] fs_open_def devfs_open_def)
      (simp add: dev_root_def child_path_def path_of_def devfs_open_def)
qed

section \<open>File descriptors\<close>

definition open_fds :: "proc_data \<Rightarrow> usize set" where
  "open_fds d = {i. i < length (pd_nodes d) \<and> pd_nodes d ! i \<noteq> None}"

text \<open>The standard descriptors are open, and the counter never runs behind the number of open descriptors.\<close>

definition fds_ok :: "proc_data \<Rightarrow> bool" where
  "fds_ok d \<longleftrightarrow> length (pd_nodes d) = 16 \<and> {0, 1, 2} \<subseteq> open_fds d \<and> card (open_fds d) \<le> pd_files d \<and> pd_files d \<le> 16"

lemma finite_fds [simp]: "finite (open_fds d)"
  by (simp add: open_fds_def)

lemma fds_open:
  assumes "fds_ok d" and "pd_files d < 16"
  shows "fds_ok (d\<lparr>pd_nodes := (pd_nodes d)[pd_files d := Some x], pd_files := pd_files d + 1\<rparr>)"
proof -
  have "open_fds (d\<lparr>pd_nodes := (pd_nodes d)[pd_files d := Some x], pd_files := pd_files d + 1\<rparr>) = insert (pd_files d) (open_fds d)"
    using assms by (auto simp: open_fds_def fds_ok_def nth_list_update)
  then show ?thesis using assms by (auto simp: fds_ok_def card_insert_if)
qed

lemma fds_close:
  assumes "fds_ok d" and "3 \<le> fd" and "fd \<in> open_fds d"
  shows "fds_ok (d\<lparr>pd_nodes := (pd_nodes d)[fd := None], pd_files := pd_files d - 1\<rparr>)" and "0 < pd_files d"
proof -
  let ?d = "d\<lparr>pd_nodes := (pd_nodes d)[fd := None], pd_files := pd_files d - 1\<rparr>"
  have "x \<in> open_fds ?d \<longleftrightarrow> x \<in> open_fds d - {fd}" for x
    by (cases "x = fd") (auto simp: open_fds_def)
  then have o: "open_fds ?d = open_fds d - {fd}" by blast
  have c: "card (open_fds d - {fd}) = card (open_fds d) - 1" using assms(3) by simp
  have pos: "0 < card (open_fds d)" using assms(3) by (metis card_gt_0_iff empty_iff finite_fds)
  have "{0, 1, 2} \<subseteq> open_fds d - {fd}" using assms(1,2) by (auto simp: fds_ok_def)
  then show "fds_ok ?d" using assms(1) c pos unfolding fds_ok_def o by auto
  show "0 < pd_files d" using pos assms(1) by (simp add: fds_ok_def)
qed

lemma fds_offset:
  assumes "fds_ok d" and "fd \<in> open_fds d"
  shows "fds_ok (d\<lparr>pd_nodes := (pd_nodes d)[fd := Some x]\<rparr>)"
proof -
  have "open_fds (d\<lparr>pd_nodes := (pd_nodes d)[fd := Some x]\<rparr>) = open_fds d"
    using assms(2) by (auto simp: open_fds_def nth_list_update)
  then show ?thesis using assms by (simp add: fds_ok_def)
qed

text \<open>What a process relies on between calls: an absolute working directory and a sane descriptor table.\<close>

definition proc_ok :: "'w vfs \<Rightarrow> bool" where
  "proc_ok s \<longleftrightarrow> (\<exists>d. vf_proc s = Some d \<and> fds_ok d \<and> starts_with slash (pd_cwd d))"

lemma canonicalize_absolute: "canonicalize d p = Ok (Some q) \<Longrightarrow> starts_with slash q"
  by (auto simp: canonicalize_def Let_def rbind_Ok_iff split: if_splits)

lemma fs_read_proc: "fs_read s n off buf = Ok (s1, r, b) \<Longrightarrow> vf_proc s1 = vf_proc s"
  by (auto simp: fs_read_def devfs_read_def rbind_Ok_iff split: file_system.splits if_splits)

lemma fs_write_proc: "fs_write s n off buf = Ok (s1, r) \<Longrightarrow> vf_proc s1 = vf_proc s"
  by (auto simp: fs_write_def devfs_write_def rbind_Ok_iff split: file_system.splits if_splits)

lemma fs_mount_proc: "fs_mount s n m k = Ok (s1, r) \<Longrightarrow> vf_proc s1 = vf_proc s"
  by (auto simp: fs_mount_def rootfs_mount_def Let_def rbind_Ok_iff split: file_system.splits)

lemma mount_impl_proc: "vfs_mount_impl s n p dev fs k = Ok (s1, r) \<Longrightarrow> vf_proc s1 = vf_proc s"
proof (induction s n p dev fs k rule: vfs_mount_impl.induct)
  case (1 s parent path dev fs key)
  obtain entry rest where n: "next_name path = (entry, rest)" by (cases "next_name path")
  from "1.prems" obtain q where st: "\<not> starts_with slash path" "fs_stat s parent entry = Ok q"
    by (subst (asm) vfs_mount_impl.simps) (auto simp: n rbind_Ok_iff)
  have here: "mount_here s parent entry fs key = Ok (s1, r) \<Longrightarrow> vf_proc s1 = vf_proc s"
    by (auto simp: mount_here_def rbind_Ok_iff dest: fs_mount_proc)
  show ?case
  proof (cases q)
    case (Some x)
    then show ?thesis using "1.prems" "1.IH" [OF _ n [symmetric] refl st(2) Some] st here
      by (subst (asm) vfs_mount_impl.simps) (auto simp: n split: if_splits)
  qed (use "1.prems" st here in \<open>subst (asm) vfs_mount_impl.simps, auto simp: n split: if_splits\<close>)
qed

lemma mount_loop_proc: "vfs_mount_loop s p dev fs i = Ok (s1, r) \<Longrightarrow> vf_proc s1 = vf_proc s"
proof (induction s p dev fs i rule: vfs_mount_loop.induct)
  case (1 s p dev fs i)
  show ?case
  proof (cases "i < length (vf_mounts s) \<and> vf_mounts s ! i \<noteq> None")
    case True
    then show ?thesis using "1.IH" "1.prems" by (subst (asm) vfs_mount_loop.simps) auto
  next
    case False
    then show ?thesis using "1.prems" mount_impl_proc
      by (subst (asm) vfs_mount_loop.simps) (fastforce simp: rbind_Ok_iff split: if_splits option.splits)
  qed
qed

text \<open>What a call does to the process: the invariant stays, and the standard descriptors keep their nodes.\<close>

definition proc_step :: "'w vfs \<Rightarrow> 'w vfs \<Rightarrow> bool" where
  "proc_step s s' \<longleftrightarrow> (\<forall>d. vf_proc s = Some d \<longrightarrow> fds_ok d \<longrightarrow> starts_with slash (pd_cwd d) \<longrightarrow>
     (\<exists>d'. vf_proc s' = Some d' \<and> fds_ok d' \<and> starts_with slash (pd_cwd d')
       \<and> (\<forall>i < 3. map_option fd_node (pd_nodes d' ! i) = map_option fd_node (pd_nodes d ! i))))"

lemma proc_step_same: "vf_proc s' = vf_proc s \<Longrightarrow> proc_step s s'"
  by (simp add: proc_step_def)

lemma files_ge_3: "fds_ok d \<Longrightarrow> 3 \<le> pd_files d"
proof -
  assume f: "fds_ok d"
  then have "card {0, 1, 2 :: nat} \<le> card (open_fds d)" by (intro card_mono) (simp_all add: fds_ok_def)
  then show ?thesis using f by (simp add: fds_ok_def)
qed

lemma open_step:
  assumes "handle_open s p = Ok (s', r)"
  shows "proc_step s s'"
  unfolding proc_step_def
proof (intro allI impI)
  fix d assume d: "vf_proc s = Some d" "fds_ok d" "starts_with slash (pd_cwd d)"
  note f = files_ge_3 [OF d(2)]
  from assms d(1) consider "s' = s"
    | n where "s' = s\<lparr>vf_proc := Some (d\<lparr>pd_nodes := (pd_nodes d)[pd_files d := Some n], pd_files := pd_files d + 1\<rparr>)\<rparr>"
      "pd_files d < length (pd_nodes d)"
    by (auto simp: handle_open_def rbind_Ok_iff upd_Ok_iff uadd_Ok_iff Let_def split: option.splits)
  then show "\<exists>d'. vf_proc s' = Some d' \<and> fds_ok d' \<and> starts_with slash (pd_cwd d')
       \<and> (\<forall>i < 3. map_option fd_node (pd_nodes d' ! i) = map_option fd_node (pd_nodes d ! i))"
  proof cases
    case 1
    then show ?thesis using d by simp
  next
    case 2
    then show ?thesis using d f fds_open [OF d(2), of n] by (simp add: fds_ok_def)
  qed
qed

lemma close_step:
  assumes "handle_close s fd = Ok (s', r)"
  shows "proc_step s s'"
  unfolding proc_step_def
proof (intro allI impI)
  fix d assume d: "vf_proc s = Some d" "fds_ok d" "starts_with slash (pd_cwd d)"
  from assms d(1) consider "s' = s"
    | "s' = s\<lparr>vf_proc := Some (d\<lparr>pd_nodes := (pd_nodes d)[fd := None], pd_files := pd_files d - 1\<rparr>)\<rparr>"
      "3 \<le> fd" "fd \<in> open_fds d"
    by (auto simp: handle_close_def rbind_Ok_iff idx_Ok_iff usub_Ok_iff open_fds_def split: option.splits if_splits)
  then show "\<exists>d'. vf_proc s' = Some d' \<and> fds_ok d' \<and> starts_with slash (pd_cwd d')
       \<and> (\<forall>i < 3. map_option fd_node (pd_nodes d' ! i) = map_option fd_node (pd_nodes d ! i))"
  proof cases
    case 1
    then show ?thesis using d by simp
  next
    case 2
    then show ?thesis using d fds_close [OF d(2) 2(2,3)] by simp
  qed
qed

lemma advance_step:
  assumes "fd_advance s fd v = Ok (s', r)"
  shows "proc_step s s'"
  unfolding proc_step_def
proof (intro allI impI)
  fix d assume d: "vf_proc s = Some d" "fds_ok d" "starts_with slash (pd_cwd d)"
  from assms d(1) consider "s' = s"
    | desc off where "s' = s\<lparr>vf_proc := Some (d\<lparr>pd_nodes := (pd_nodes d)[fd := Some (desc\<lparr>fd_offset := off\<rparr>)]\<rparr>)\<rparr>"
      "fd \<in> open_fds d" "pd_nodes d ! fd = Some desc"
    by (auto simp: fd_advance_def rbind_Ok_iff idx_Ok_iff uadd_Ok_iff open_fds_def split: option.splits)
  then show "\<exists>d'. vf_proc s' = Some d' \<and> fds_ok d' \<and> starts_with slash (pd_cwd d')
       \<and> (\<forall>i < 3. map_option fd_node (pd_nodes d' ! i) = map_option fd_node (pd_nodes d ! i))"
  proof cases
    case 1
    then show ?thesis using d by simp
  next
    case 2
    have "map_option fd_node ((pd_nodes d)[fd := Some (desc\<lparr>fd_offset := off\<rparr>)] ! i) = map_option fd_node (pd_nodes d ! i)"
      if "i < 3" for i using that 2(2,3) by (cases "i = fd") (simp_all add: open_fds_def)
    then show ?thesis using 2(1) d fds_offset [OF d(2) 2(2)] by simp
  qed
qed

lemma proc_step_from: "vf_proc s1 = vf_proc s \<Longrightarrow> proc_step s1 s2 \<Longrightarrow> proc_step s s2"
  by (simp add: proc_step_def)

lemma fs_call_step:
  "fs_read s n off buf = Ok (s1, q, b) \<Longrightarrow> proc_step s s1"
  "fs_read s n off buf = Ok (s1, q, b) \<Longrightarrow> fd_advance s1 fd v = Ok (s2, r) \<Longrightarrow> proc_step s s2"
  "fs_write s n off buf = Ok (s1, q) \<Longrightarrow> proc_step s s1"
  "fs_write s n off buf = Ok (s1, q) \<Longrightarrow> fd_advance s1 fd v = Ok (s2, r) \<Longrightarrow> proc_step s s2"
  by (blast intro: proc_step_same proc_step_from advance_step fs_read_proc fs_write_proc)+

lemma read_step: "handle_read s fd buf = Ok (s', b, r) \<Longrightarrow> proc_step s s'"
  by (auto simp: handle_read_def rbind_Ok_iff split: option.splits intro: proc_step_same)
    (erule fs_call_step, assumption, erule fs_call_step)

lemma write_step: "handle_write s fd buf = Ok (s', r) \<Longrightarrow> proc_step s s'"
  by (auto simp: handle_write_def rbind_Ok_iff split: option.splits intro: proc_step_same)
    (erule fs_call_step, assumption, erule fs_call_step)

lemma mount_step: "handle_mount priv s p dev fs = Ok (s', r) \<Longrightarrow> proc_step s s'"
  by (auto simp: handle_mount_def vfs_mount_def rbind_Ok_iff split: if_splits intro!: proc_step_same dest: mount_loop_proc)

lemma cwd_step: "handle_set_cwd s p = Ok (s', r) \<Longrightarrow> proc_step s s'"
  by (auto simp: handle_set_cwd_def set_cwd_def rbind_Ok_iff proc_step_def fds_ok_def open_fds_def
      split: option.splits if_splits dest: canonicalize_absolute)

lemma handle_step: "vfs_handle c priv req s = Ok (s', b, r) \<Longrightarrow> proc_step s s'"
  by (cases req) (auto simp: vfs_handle_def with_buf_def rbind_Ok_iff
      intro: open_step close_step read_step write_step mount_step cwd_step proc_step_same)

section \<open>Reading\<close>

lemma read_chunk:
  assumes "root_dir s d" and "vf_proc s = Some pd" and "fd < length (pd_nodes pd)" and "pd_nodes pd ! fd = Some desc"
    and "nd_fs (fd_node desc) = RootFS" and "nd_path (fd_node desc) = path_of ns" and "\<forall>n \<in> set ns. plain_name n"
    and "lookup d ns = Some (EFile f)" and "length f < 2 ^ 62" and "length buf < 2 ^ 62" and "fd_offset desc \<le> length f"
  defines "k \<equiv> min (length buf) (length f - fd_offset desc)"
  shows "handle_read s fd buf = Ok (s\<lparr>vf_proc := Some (pd\<lparr>pd_nodes := (pd_nodes pd)[fd := Some (desc\<lparr>fd_offset := fd_offset desc + k\<rparr>)]\<rparr>)\<rparr>,
      take k (drop (fd_offset desc) f) @ drop k buf, int k)"
proof -
  let ?o = "fd_offset desc"
  have g: "ramfs_get (vf_ramfs s) (path_of ns) = Ok (Some (EFile f))"
    using ramfs_get_path [of "vf_ramfs s" d ns] assms(1,7,8) by (simp add: root_dir_def)
  have "?o + length buf < USIZE_LIMIT" using assms(9-11) by (simp add: USIZE_LIMIT_def)
  then have "rootfs_read s (fd_node desc) ?o buf = Ok (Some k, take k (drop ?o f) @ drop k buf)"
    using assms(11) by (auto simp: rootfs_read_def assms(6) g as_file_def Let_def k_def min_def)
  then have r: "fs_read s (fd_node desc) ?o buf = Ok (s, Some k, take k (drop ?o f) @ drop k buf)"
    by (simp add: fs_read_def assms(5))
  have "k < 2 ^ 62" "?o + k < USIZE_LIMIT" using assms(9-11) by (auto simp: k_def USIZE_LIMIT_def)
  then show ?thesis
    using assms(2-4) r by (simp add: handle_read_def fd_lookup_def fd_advance_def to_isize_def)
qed

section \<open>Properties\<close>

text \<open>A small file system with one device, for the concrete instances below: the device reads as one
  letter and swallows what is written.\<close>

definition demo_device :: "unit device" where
  "demo_device = \<lparr>dv_name = ''tty.serial'', dv_read = (\<lambda>off buf w. Ok (Some (length buf), map (\<lambda>_. 65) buf, w)),
     dv_write = (\<lambda>off buf w. Ok (Some (length buf), w))\<rparr>"

definition demo_dir :: dir where
  "demo_dir = [(''etc'', EDir [(''motd'', EFile [72, 105])])]"

definition demo_vfs :: "dir \<Rightarrow> proc_data option \<Rightarrow> unit vfs" where
  "demo_vfs d p = \<lparr>vf_ramfs = \<lparr>rf_root = EDir d\<rparr>, vf_initialized = True, vf_devices = [(''tty.serial'', demo_device)],
     vf_mounts = Some \<lparr>mp_parent = root_node, mp_root = dev_root, mp_dev = 0, mp_fs = DevFS\<rparr> # replicate 31 None,
     vf_systems = [], vf_proc = p, vf_world = ()\<rparr>"

definition demo_files :: "node list \<Rightarrow> proc_data" where
  "demo_files ns = \<lparr>pd_nodes = map (\<lambda>n. Some \<lparr>fd_node = n, fd_offset = 0\<rparr>) ns @ replicate (16 - length ns) None,
     pd_cwd = ''/'', pd_files = length ns\<rparr>"

definition irq_off :: cpu where
  "irq_off = \<lparr>cpu_daif = 128, cpu_ttbr0 = 0\<rparr>"

lemma irq_off [simp]: "\<not> interrupt_is_enabled irq_off"
  by (simp add: irq_off_def interrupt_is_enabled_def DAIF_I_def)

lemma demo_root: "root_dir (demo_vfs d p) d"
  by (simp add: root_dir_def demo_vfs_def)

lemma demo_paths:
  "proper_path [''etc'', ''motd'']" "dirs_above demo_dir [''etc'', ''motd'']" "lookup demo_dir [''etc'', ''motd''] = Some (EFile [72, 105])"
  "proper_path [''x'']" "proper_path [''dev'', ''tty.serial'']" "lookup demo_dir [''dev''] = None"
proof -
  show "dirs_above demo_dir [''etc'', ''motd'']"
    by (auto simp: dirs_above_def demo_dir_def strict_prefix_def prefix_Cons bt_get_def)
qed (simp_all add: proper_path_def plain_name_def is_whitespace_def demo_dir_def bt_get_def)

fun vfs_run :: "cpu \<Rightarrow> bool \<Rightarrow> vfs_request list \<Rightarrow> 'w vfs \<Rightarrow> ('w vfs \<times> int list) res" where
  "vfs_run c priv [] s = Ok (s, [])"
| "vfs_run c priv (q # qs) s =
     rbind (vfs_handle c priv q s) (\<lambda>(s1, _, r). rbind (vfs_run c priv qs s1) (\<lambda>(s2, rs). Ok (s2, r # rs)))"

lemma run_step: "vfs_run c priv qs s = Ok (s', rs) \<Longrightarrow> proc_step s s'"
proof (induction qs arbitrary: s rs)
  case (Cons q qs)
  then obtain s1 b r rs' where h: "vfs_handle c priv q s = Ok (s1, b, r)" "vfs_run c priv qs s1 = Ok (s', rs')"
    by (auto simp: rbind_Ok_iff)
  then show ?case using Cons.IH [OF h(2)] handle_step [OF h(1)] unfolding proc_step_def by metis
qed (simp add: proc_step_same)

lemma new_proc_ok:
  assumes "proc_data_new s [] = Ok d" and "\<forall>d0. vf_proc s = Some d0 \<longrightarrow> starts_with slash (pd_cwd d0)"
  shows "fds_ok d \<and> starts_with slash (pd_cwd d)
    \<and> (\<exists>tty. vfs_open s ''/dev/tty.serial'' = Ok (Some tty) \<and> (\<forall>i < 3. pd_nodes d ! i = Some \<lparr>fd_node = tty, fd_offset = 0\<rparr>))"
proof -
  obtain tty where t: "vfs_open s ''/dev/tty.serial'' = Ok (Some tty)"
    and d: "d = \<lparr>pd_nodes = (replicate 16 None)[0 := Some \<lparr>fd_node = tty, fd_offset = 0\<rparr>, 1 := Some \<lparr>fd_node = tty, fd_offset = 0\<rparr>,
        2 := Some \<lparr>fd_node = tty, fd_offset = 0\<rparr>], pd_cwd = (case vf_proc s of Some d \<Rightarrow> pd_cwd d | None \<Rightarrow> ''/''), pd_files = 3\<rparr>"
    using assms(1) by (auto simp: proc_data_new_def Let_def rbind_Ok_iff upd_Ok_iff)
  have n: "pd_nodes d ! i = (if i < 3 then Some \<lparr>fd_node = tty, fd_offset = 0\<rparr> else None)" if "i < 16" for i
    using that by (auto simp: d nth_list_update)
  have "open_fds d = {0, 1, 2}" using n by (auto simp: open_fds_def d split: if_splits)
  then have "fds_ok d" by (simp add: fds_ok_def) (simp add: d)
  moreover have "starts_with slash (pd_cwd d)" using assms(2) by (auto simp: d split: option.split)
  ultimately show ?thesis using t n by auto
qed

text \<open>C19: the descriptor table of a process stays sane. From the state \<^verbatim>\<open>register_process\<close> creates,
  along every sequence of requests that returns, the table keeps its 16 slots, the counter of open
  files never falls below the number of open descriptors, the working directory stays absolute, and
  the three standard descriptors stay open on the serial terminal.\<close>

theorem descriptors_kept:
  assumes "proc_data_new s [] = Ok d" and "\<forall>d0. vf_proc s = Some d0 \<longrightarrow> starts_with slash (pd_cwd d0)"
    and "vfs_run c priv qs (s\<lparr>vf_proc := Some d\<rparr>) = Ok (s', rs)"
  shows "\<exists>d' tty. vf_proc s' = Some d' \<and> fds_ok d' \<and> starts_with slash (pd_cwd d')
    \<and> vfs_open s ''/dev/tty.serial'' = Ok (Some tty) \<and> (\<forall>i < 3. map_option fd_node (pd_nodes d' ! i) = Some tty)"
  using run_step [OF assms(3)] new_proc_ok [OF assms(1,2)] unfolding proc_step_def by fastforce

theorem descriptors_kept_witness:
  "\<exists>d s' rs d'. proc_data_new (demo_vfs (bt_insert ''dev'' (EMount 0) demo_dir) None) [] = Ok d
    \<and> vfs_run irq_off False [VOpen ''etc/motd'', VRead 3 [0, 0, 0], VClose 3, VSetCwd ''etc'']
        ((demo_vfs (bt_insert ''dev'' (EMount 0) demo_dir) None)\<lparr>vf_proc := Some d\<rparr>) = Ok (s', rs)
    \<and> vf_proc s' = Some d' \<and> fds_ok d'"
proof -
  let ?s = "demo_vfs (bt_insert ''dev'' (EMount 0) demo_dir) None"
  let ?qs = "[VOpen ''etc/motd'', VRead 3 [0, 0, 0], VClose 3, VSetCwd ''etc'']"
  have "case rbind (proc_data_new ?s []) (\<lambda>d. vfs_run irq_off False ?qs (?s\<lparr>vf_proc := Some d\<rparr>)) of
      Ok (_, rs) \<Rightarrow> rs = [3, 2, 0, 0] | Panic _ \<Rightarrow> False"
    by code_simp
  then obtain d s' rs where r: "proc_data_new ?s [] = Ok d" "vfs_run irq_off False ?qs (?s\<lparr>vf_proc := Some d\<rparr>) = Ok (s', rs)"
    by (auto simp: rbind_Ok_iff split: res.splits)
  have "\<forall>d0. vf_proc ?s = Some d0 \<longrightarrow> starts_with slash (pd_cwd d0)" by (simp add: demo_vfs_def)
  from descriptors_kept [OF r(1) this r(2)] r show ?thesis by blast
qed

text \<open>Relative paths compose. For a canonical working directory and relative paths, opening
  \<^verbatim>\<open>s/t\<close> resolves to the same path as changing to \<^verbatim>\<open>s\<close> first and opening \<^verbatim>\<open>t\<close> there; it is an error
  exactly when \<^verbatim>\<open>s\<close> or then \<^verbatim>\<open>t\<close> climbs above the root; and the result is again canonical: a list
  of names without empty, dot or dot-dot components.\<close>

theorem canonicalize_composes:
  assumes "pd_cwd d = path_of cs" and "\<forall>n \<in> set cs. path_name n"
    and "\<not> starts_with slash s" and "\<not> starts_with slash t" and "s \<noteq> []"
  shows "case canonicalize d s of
      Ok None \<Rightarrow> canonicalize d (s @ slash # t) = Ok None
    | Ok (Some p) \<Rightarrow> canonicalize d (s @ slash # t) = canonicalize (d\<lparr>pd_cwd := p\<rparr>) t
        \<and> (\<exists>ns. p = path_of ns \<and> (\<forall>n \<in> set ns. path_name n))
    | Panic _ \<Rightarrow> False"
proof -
  have st: "\<not> starts_with slash (s @ slash # t)" using assms(3,5) by (cases s) auto
  note c = canonicalize_rel [OF assms(3,1,2)] canonicalize_rel [OF st assms(1,2)]
  show ?thesis
  proof (cases "canon_loop cs (segments s)")
    case (Some ns)
    have ns: "\<forall>n \<in> set ns. path_name n"
      using canon_loop_names [OF Some assms(2)] segments_names by blast
    have "canonicalize (d\<lparr>pd_cwd := path_of ns\<rparr>) t = Ok (map_option path_of (canon_loop ns (segments t)))"
      using assms(4) ns by (intro canonicalize_rel) simp_all
    then show ?thesis using c Some ns by (auto simp: canon_loop_app)
  qed (simp add: c canon_loop_app)
qed

theorem canonicalize_composes_witness:
  "let d = \<lparr>pd_nodes = [], pd_cwd = ''/usr/bin'', pd_files = 3\<rparr> in
    canonicalize d ''../lib'' = Ok (Some ''/usr/lib'')
    \<and> canonicalize d ''../lib/./x'' = canonicalize (d\<lparr>pd_cwd := ''/usr/lib''\<rparr>) ''./x''"
proof -
  have c: "canonicalize \<lparr>pd_nodes = [], pd_cwd = ''/usr/bin'', pd_files = 3\<rparr> ''../lib'' = Ok (Some ''/usr/lib'')" by code_simp
  have "pd_cwd \<lparr>pd_nodes = [], pd_cwd = ''/usr/bin'', pd_files = 3\<rparr> = path_of [''usr'', ''bin'']"
    "\<forall>n \<in> set [''usr'', ''bin'']. path_name n" "\<not> starts_with slash ''../lib''" "\<not> starts_with slash ''./x''" "''../lib'' \<noteq> []"
    by (simp_all add: path_of_def path_name_def)
  from canonicalize_composes [OF this] c show ?thesis by simp
qed

text \<open>C20: opening a path finds what the tree holds. When no proper ancestor of the path is a file or a
  mount point, \<^verbatim>\<open>vfs_open\<close> returns a node for the path exactly when the root tree has an entry there,
  and the node carries that path and the entry's mount key.\<close>

theorem open_resolves:
  assumes "root_dir s d" and "proper_path ns" and "dirs_above d ns"
  shows "vfs_open s (path_of ns) = Ok (case lookup d ns of
      None \<Rightarrow> None
    | Some e \<Rightarrow> Some \<lparr>nd_name = last ns, nd_path = path_of ns, nd_fs = RootFS, nd_mount = as_mnt e, nd_block = 0, nd_offset = 0\<rparr>)"
  using open_dirs [OF assms] by (simp split: option.split)

theorem open_resolves_witness:
  "\<exists>n. vfs_open (demo_vfs demo_dir None) (path_of [''etc'', ''motd'']) = Ok (Some n) \<and> nd_path n = ''/etc/motd''"
  using open_resolves [OF demo_root demo_paths(1,2), of None] unfolding demo_paths(3) by (simp add: path_of_def)

text \<open>Below a regular file every path opens the file. When an ancestor of the path is a regular file,
  \<^verbatim>\<open>vfs_open\<close> ignores the rest of the path and returns the file's own node instead of failing.\<close>

theorem open_below_file:
  assumes "root_dir s d" and "proper_path ns" and "dirs_above d ns" and "lookup d ns = Some (EFile f)"
    and "proper_path ms"
  shows "vfs_open s (path_of (ns @ ms)) = vfs_open s (path_of ns)
    \<and> (\<exists>n. vfs_open s (path_of (ns @ ms)) = Ok (Some n) \<and> nd_path n = path_of ns)"
proof -
  have ns: "ns \<noteq> []" "\<forall>n \<in> set ns. plain_name n" and ms: "ms \<noteq> []" "\<forall>n \<in> set ms. plain_name n"
    using assms(2,5) by (auto simp: proper_path_def)
  have p: "proper_path (ns @ ms)" using assms(2,5) by (auto simp: proper_path_def)
  have "vfs_locate_node s (dir_node xs) (join [slash] (ys @ ms)) = Ok (Some (dir_node (butlast ns), last ns))"
    if "xs @ ys = ns" "ys \<noteq> []" for xs ys using that
  proof (induction ys arbitrary: xs)
    case (Cons y ys)
    have pl: "\<forall>m \<in> set xs. plain_name m" "\<forall>m \<in> set (y # ys @ ms). plain_name m" using Cons.prems ns ms by auto
    note L = locate_step [OF assms(1) pl]
    show ?case
    proof (cases "ys = []")
      case True
      then have "butlast ns = xs" "last ns = y" using Cons.prems by auto
      then show ?thesis using L assms(4) Cons.prems True ms(1) by simp
    next
      case False
      have pre: "strict_prefix (xs @ [y]) ns" using Cons.prems False by (auto simp: strict_prefix_def prefix_def)
      have "lookup d (xs @ [y]) \<noteq> None"
      proof
        assume "lookup d (xs @ [y]) = None"
        then have "lookup d ((xs @ [y]) @ ys) = None" using False by (simp only: lookup_app) simp
        then show False using assms(4) Cons.prems by simp
      qed
      then obtain dd where "lookup d (xs @ [y]) = Some (EDir dd)"
        using assms(3) pre unfolding dirs_above_def by blast
      then show ?thesis using L Cons.IH [of "xs @ [y]"] Cons.prems False by simp
    qed
  qed simp
  from this [of "[]" ns] have l: "vfs_locate_node s (dir_node []) (join [slash] (ns @ ms)) = Ok (Some (dir_node (butlast ns), last ns))"
    using ns(1) by simp
  have b: "butlast ns @ [last ns] = ns" "\<forall>n \<in> set (butlast ns). plain_name n" "plain_name (last ns)"
    using ns by (auto dest: in_set_butlastD)
  have "vfs_open s (path_of (ns @ ms)) = Ok (Some \<lparr>nd_name = last ns, nd_path = path_of ns, nd_fs = RootFS,
      nd_mount = None, nd_block = 0, nd_offset = 0\<rparr>)"
    using open_dir_node [OF assms(1) b(2,3)] b(1) assms(4) by (simp add: vfs_open_path [OF p] l as_mnt_def)
  then show ?thesis using open_dirs [OF assms(1-3)] assms(4) by (simp add: as_mnt_def)
qed

theorem open_below_file_witness:
  "\<exists>n. vfs_open (demo_vfs demo_dir None) (path_of ([''etc'', ''motd''] @ [''x''])) = Ok (Some n) \<and> nd_path n = path_of [''etc'', ''motd'']"
  using open_below_file [OF demo_root demo_paths(1-4)] by blast

text \<open>A registered device is reached under its name. Initialising the device module on a tree without
  \<^verbatim>\<open>/dev\<close> mounts the device file system there; after registering a device, opening \<^verbatim>\<open>/dev/\<close> and its name
  gives a node whose reads and writes are the device's, names that are not registered stay absent, and
  paths elsewhere in the tree open as before.\<close>

theorem device_mounted:
  assumes "root_dir s d" and "lookup d [''dev''] = None" and "None \<in> set (vf_mounts s)" and "\<not> interrupt_is_enabled c"
    and "proper_path [''dev'', dv_name dev]"
  shows "\<exists>s1 s2 n. dev_init c s = Ok s1 \<and> dev_register True s1 dev = Ok (s2, 0)
    \<and> vfs_open s2 (path_of [''dev'', dv_name dev]) = Ok (Some n)
    \<and> (\<forall>off buf. fs_read s2 n off buf = rbind (dv_read dev off buf (vf_world s2)) (\<lambda>(r, b, w). Ok (s2\<lparr>vf_world := w\<rparr>, r, b)))
    \<and> (\<forall>off buf. fs_write s2 n off buf = rbind (dv_write dev off buf (vf_world s2)) (\<lambda>(r, w). Ok (s2\<lparr>vf_world := w\<rparr>, r)))
    \<and> (\<forall>m. proper_path [''dev'', m] \<longrightarrow> m \<noteq> dv_name dev \<longrightarrow> \<not> bt_contains_key (vf_devices s) m
         \<longrightarrow> vfs_open s2 (path_of [''dev'', m]) = Ok None)
    \<and> (\<forall>ns. proper_path ns \<longrightarrow> dirs_above d ns \<longrightarrow> hd ns \<noteq> ''dev'' \<longrightarrow> vfs_open s2 (path_of ns) = vfs_open s (path_of ns))"
proof -
  obtain s1 d' i mp where s1: "dev_init c s = Ok s1" "root_dir s1 d'" "placed (EMount i) d [''dev''] d'"
      "i < length (vf_mounts s1)" "vf_mounts s1 ! i = Some mp" "mp_root mp = dev_root" "vf_devices s1 = vf_devices s"
    using dev_init_Ok [OF assms(1-4)] by metis
  define s2 where "s2 = s1\<lparr>vf_devices := bt_insert (dv_name dev) dev (vf_devices s1)\<rparr>"
  have r2: "root_dir s2 d'" using s1(2) by (simp add: s2_def root_dir_def)
  have l: "lookup d' [''dev''] = Some (EMount i)" using s1(3) by (simp add: placed_def)
  have op: "vfs_open s2 (path_of [''dev'', m]) = Ok (if bt_contains_key (vf_devices s2) m then
      Some \<lparr>nd_name = m, nd_path = path_of [''dev'', m], nd_fs = DevFS, nd_mount = None, nd_block = 0, nd_offset = 0\<rparr> else None)"
    if "proper_path [''dev'', m]" for m
    using open_dev [OF r2 l _ _ s1(6) that] s1(4,5) by (simp add: s2_def)
  let ?n = "\<lparr>nd_name = dv_name dev, nd_path = path_of [''dev'', dv_name dev], nd_fs = DevFS, nd_mount = None, nd_block = 0, nd_offset = 0\<rparr>"
  have "vfs_open s2 (path_of ns) = vfs_open s (path_of ns)"
    if ns: "proper_path ns" "dirs_above d ns" "hd ns \<noteq> ''dev''" for ns
  proof -
    have same: "lookup d' ps = lookup d ps" if "prefix ps ns" "ps \<noteq> []" for ps
    proof -
      have "\<not> prefix ps [''dev'']" using that ns(3) by (cases ps) (auto simp: prefix_def)
      then show ?thesis using s1(3) by (simp add: placed_def)
    qed
    then have "dirs_above d' ns" using ns(2) by (auto simp: dirs_above_def strict_prefix_def)
    moreover have "lookup d' ns = lookup d ns" using same ns(1) by (simp add: proper_path_def)
    ultimately show ?thesis using open_dirs [OF r2 ns(1)] open_dirs [OF assms(1) ns(1,2)] by simp
  qed
  then show ?thesis
    using s1(1,7) op [OF assms(5)] op
    by (intro exI [of _ s1] exI [of _ s2] exI [of _ ?n])
      (auto simp: dev_register_def s2_def fs_read_def fs_write_def devfs_read_def devfs_write_def bt_index_Ok_iff [THEN iffD2])
qed

theorem device_mounted_witness:
  "\<exists>s1 s2 n. dev_init irq_off (demo_vfs demo_dir None) = Ok s1 \<and> dev_register True s1 demo_device = Ok (s2, 0)
    \<and> vfs_open s2 (path_of [''dev'', dv_name demo_device]) = Ok (Some n) \<and> fs_read s2 n 0 [0, 0] = Ok (s2, Some 2, [65, 65])"
proof -
  have "None \<in> set (vf_mounts (demo_vfs demo_dir None))" by (simp add: demo_vfs_def)
  moreover have "proper_path [''dev'', dv_name demo_device]" using demo_paths(5) by (simp add: demo_device_def)
  ultimately obtain s1 s2 n where "dev_init irq_off (demo_vfs demo_dir None) = Ok s1" "dev_register True s1 demo_device = Ok (s2, 0)"
      "vfs_open s2 (path_of [''dev'', dv_name demo_device]) = Ok (Some n)"
      "\<forall>off buf. fs_read s2 n off buf = rbind (dv_read demo_device off buf (vf_world s2)) (\<lambda>(r, b, w). Ok (s2\<lparr>vf_world := w\<rparr>, r, b))"
    using device_mounted [OF demo_root demo_paths(6) _ irq_off, of None] by blast
  then show ?thesis by (intro exI [of _ s1] exI [of _ s2] exI [of _ n]) (simp add: demo_device_def)
qed

text \<open>C22: closing and opening overwrites a live descriptor. The counter of open files doubles as the next
  free slot. After closing any descriptor but the newest, the next successful open returns the newest
  descriptor's number and replaces the file behind it, while the closed slot stays unused.\<close>

theorem reopen_clobbers:
  assumes "vf_proc s = Some d" and "fds_ok d" and "pd_files d = k + 1" and "{fd, k} \<subseteq> open_fds d" and "3 \<le> fd" and "fd < k"
    and "handle_close s fd = Ok (s1, r1)" and "handle_open s1 p = Ok (s2, r2)" and "0 \<le> r2"
  shows "r2 = int k \<and> (\<exists>d1 d2 n. vf_proc s1 = Some d1 \<and> vf_proc s2 = Some d2 \<and> k \<in> open_fds d1 \<and> pd_nodes d1 ! k = pd_nodes d ! k
    \<and> pd_nodes d2 ! k = Some \<lparr>fd_node = n, fd_offset = 0\<rparr> \<and> fd \<notin> open_fds d2 \<and> open_fds d2 = open_fds d1)"
proof -
  let ?d1 = "d\<lparr>pd_nodes := (pd_nodes d)[fd := None], pd_files := k\<rparr>"
  have s1: "s1 = s\<lparr>vf_proc := Some ?d1\<rparr>"
    using assms(1,3-5,7) by (auto simp: handle_close_def rbind_Ok_iff idx_Ok_iff usub_Ok_iff open_fds_def split: option.splits)
  then obtain n where s2: "s2 = s1\<lparr>vf_proc := Some (?d1\<lparr>pd_nodes := (pd_nodes ?d1)[k := Some \<lparr>fd_node = n, fd_offset = 0\<rparr>], pd_files := k + 1\<rparr>)\<rparr>"
      "r2 = to_isize k" "k < length (pd_nodes d)"
    using assms(8,9) by (auto simp: handle_open_def rbind_Ok_iff upd_Ok_iff uadd_Ok_iff Let_def split: option.splits)
  have k: "k < 16" using assms(2) s2(3) by (simp add: fds_ok_def)
  let ?d2 = "?d1\<lparr>pd_nodes := (pd_nodes ?d1)[k := Some \<lparr>fd_node = n, fd_offset = 0\<rparr>], pd_files := k + 1\<rparr>"
  have o: "k \<in> open_fds ?d1" using assms(4,6) by (auto simp: open_fds_def)
  have "x \<in> open_fds ?d2 \<longleftrightarrow> x \<in> open_fds ?d1" for x
    using o by (cases "x = k") (auto simp: open_fds_def)
  then have "open_fds ?d2 = open_fds ?d1" by blast
  moreover have "fd \<notin> open_fds ?d1" by (auto simp: open_fds_def)
  moreover have "pd_nodes ?d1 ! k = pd_nodes d ! k" "pd_nodes ?d2 ! k = Some \<lparr>fd_node = n, fd_offset = 0\<rparr>" "r2 = int k"
    using assms(6) s2(2,3) k by (simp_all add: to_isize_def)
  moreover have "vf_proc s1 = Some ?d1" "vf_proc s2 = Some ?d2" by (simp_all add: s1 s2(1))
  ultimately show ?thesis using o by metis
qed

theorem reopen_clobbers_witness:
  "\<exists>s1 s2. handle_close (demo_vfs demo_dir (Some (demo_files (replicate 5 root_node)))) 3 = Ok (s1, 0)
    \<and> handle_open s1 ''/etc/motd'' = Ok (s2, 4)
    \<and> map_option (\<lambda>d. map_option fd_node (pd_nodes d ! 4)) (vf_proc s1) = Some (Some root_node)
    \<and> map_option (\<lambda>d. map_option (nd_path \<circ> fd_node) (pd_nodes d ! 4)) (vf_proc s2) = Some (Some ''/etc/motd'')"
proof -
  let ?d = "demo_files (replicate 5 root_node)" and ?s = "demo_vfs demo_dir (Some (demo_files (replicate 5 root_node)))"
  have "case rbind (handle_close ?s 3) (\<lambda>(s1, _). handle_open s1 ''/etc/motd'') of
      Ok (s2, r) \<Rightarrow> r = 4 \<and> map_option (\<lambda>d. map_option (nd_path \<circ> fd_node) (pd_nodes d ! 4)) (vf_proc s2) = Some (Some ''/etc/motd'')
    | Panic _ \<Rightarrow> False" by code_simp
  then obtain s1 r1 s2 where r: "handle_close ?s 3 = Ok (s1, r1)" "handle_open s1 ''/etc/motd'' = Ok (s2, 4)"
      "map_option (\<lambda>d. map_option (nd_path \<circ> fd_node) (pd_nodes d ! 4)) (vf_proc s2) = Some (Some ''/etc/motd'')"
    by (auto simp: rbind_Ok_iff split: res.splits)
  have n: "pd_nodes ?d = replicate 5 (Some \<lparr>fd_node = root_node, fd_offset = 0\<rparr>) @ replicate 11 None" "pd_files ?d = 4 + 1"
    by (simp_all add: demo_files_def map_replicate_const)
  have "open_fds ?d = {..<5}" by (auto simp: open_fds_def n nth_append split: if_splits)
  then have "fds_ok ?d" "{3, 4} \<subseteq> open_fds ?d" by (auto simp: fds_ok_def n)
  moreover have "vf_proc ?s = Some ?d" by (simp add: demo_vfs_def)
  ultimately have "\<exists>d1. vf_proc s1 = Some d1 \<and> pd_nodes d1 ! 4 = pd_nodes ?d ! 4"
    using reopen_clobbers [OF _ _ n(2) _ _ _ r(1,2)] by auto
  moreover have "r1 = 0" using r(1) by (auto simp: handle_close_def rbind_Ok_iff \<open>vf_proc ?s = Some ?d\<close> idx_Ok_iff n nth_append)
  ultimately show ?thesis using r by (auto simp: n nth_append)
qed

text \<open>What an unprivileged program can do to panic the kernel through this module: pass a descriptor
  number of 16 or more, open one file too many, write to a regular file, read from the root directory,
  or open a path with two leading slashes.\<close>

theorem requests_panic:
  assumes "root_dir s d" and "vf_proc s = Some pd" and "fds_ok pd"
  shows "(\<forall>fd buf. 16 \<le> fd \<longrightarrow> handle_read s fd buf = Panic IndexOutOfBounds \<and> handle_write s fd buf = Panic IndexOutOfBounds
      \<and> handle_close s fd = Panic IndexOutOfBounds)
    \<and> (pd_files pd = 16 \<longrightarrow> handle_open s ''/'' = Panic IndexOutOfBounds)
    \<and> (\<forall>fd desc buf. fd < 16 \<longrightarrow> pd_nodes pd ! fd = Some desc \<longrightarrow> nd_fs (fd_node desc) = RootFS
      \<longrightarrow> handle_write s fd buf = Panic Unimplemented)
    \<and> (\<forall>fd desc buf. fd < 16 \<longrightarrow> pd_nodes pd ! fd = Some desc \<longrightarrow> fd_node desc = root_node
      \<longrightarrow> handle_read s fd buf = Panic AssertFailed)
    \<and> (\<forall>ns. proper_path ns \<longrightarrow> handle_open s (slash # path_of ns) = Panic AssertFailed)"
proof (intro conjI allI impI)
  have l: "length (pd_nodes pd) = 16" using assms(3) by (simp add: fds_ok_def)
  fix fd buf desc ns
  show "16 \<le> fd \<Longrightarrow> handle_read s fd buf = Panic IndexOutOfBounds" "16 \<le> fd \<Longrightarrow> handle_write s fd buf = Panic IndexOutOfBounds"
    "16 \<le> fd \<Longrightarrow> handle_close s fd = Panic IndexOutOfBounds"
    using assms(2) l by (simp_all add: handle_read_def handle_write_def handle_close_def fd_lookup_def)
  show "pd_files pd = 16 \<Longrightarrow> handle_open s ''/'' = Panic IndexOutOfBounds"
    using assms(2) l by (simp add: handle_open_def canonicalize_def vfs_open_def follow_mount_def root_node_def)
  show "fd < 16 \<Longrightarrow> pd_nodes pd ! fd = Some desc \<Longrightarrow> nd_fs (fd_node desc) = RootFS \<Longrightarrow> handle_write s fd buf = Panic Unimplemented"
    using assms(2) l by (simp add: handle_write_def fd_lookup_def fs_write_def)
  show "fd < 16 \<Longrightarrow> pd_nodes pd ! fd = Some desc \<Longrightarrow> fd_node desc = root_node \<Longrightarrow> handle_read s fd buf = Panic AssertFailed"
    using assms(2) l by (simp add: handle_read_def fd_lookup_def fs_read_def rootfs_read_def root_node_def ramfs_get_def)
  show "proper_path ns \<Longrightarrow> handle_open s (slash # path_of ns) = Panic AssertFailed"
  proof -
    assume p: "proper_path ns"
    have ns: "ns \<noteq> []" "\<forall>n \<in> set ns. plain_name n" and j: "join [slash] ns \<noteq> []"
      using p join_ne by (auto simp: proper_path_def)
    have "bare_path (slash # path_of ns) = path_of ns" using bare_double [OF p] .
    then show ?thesis
      using assms(2) by (simp add: handle_open_def canonicalize_def vfs_open_def path_of_def vfs_locate_node.simps)
  qed
qed

theorem requests_panic_witness:
  "handle_read (demo_vfs demo_dir (Some (demo_files (replicate 4 root_node)))) 3 [0] = Panic AssertFailed
    \<and> handle_open (demo_vfs demo_dir (Some (demo_files (replicate 4 root_node)))) ''//x'' = Panic AssertFailed"
proof -
  let ?d = "demo_files (replicate 4 root_node)"
  have n: "pd_nodes ?d = replicate 4 (Some \<lparr>fd_node = root_node, fd_offset = 0\<rparr>) @ replicate 12 None" "pd_files ?d = 4"
    by (simp_all add: demo_files_def map_replicate_const)
  have "open_fds ?d = {..<4}" by (auto simp: open_fds_def n nth_append split: if_splits)
  then have ok: "fds_ok ?d" by (auto simp: fds_ok_def n)
  have p: "vf_proc (demo_vfs demo_dir (Some ?d)) = Some ?d" by (simp add: demo_vfs_def)
  have "pd_nodes ?d ! 3 = Some \<lparr>fd_node = root_node, fd_offset = 0\<rparr>" by (simp add: n nth_append)
  then show ?thesis
    using requests_panic [OF demo_root p ok] demo_paths(4) by (auto simp: path_of_def)
qed

end
