(* ===== verification/User_Space.thy ===== *)
theory User_Space
  imports Contexts Kernel_Heap
begin

unbundle bit_operations_syntax

text \<open>
  User address spaces: \<^verbatim>\<open>MMState\<close> (\<^verbatim>\<open>task/proc.rs\<close>), \<^verbatim>\<open>sbrk\<close> and \<^verbatim>\<open>release_user_page_table\<close>
  (\<^verbatim>\<open>memory/utils.rs\<close>), and the part of \<^verbatim>\<open>task/runnables.rs\<close> that builds the page table, stack and arguments
  of a process.
\<close>

section \<open>Growing an address space\<close>

text \<open>Mapping a fresh frame in the table \<open>u\<close> behind the address-space guard, for the pages \<open>i\<close>, \<open>i + 1\<close>, \<dots> after
  \<open>start\<close>; the last argument counts the iterations left.\<close>

definition guarded_map :: "kernel \<Rightarrow> address \<Rightarrow> page \<Rightarrow> frame \<Rightarrow> page_flags \<Rightarrow> kernel res" where
  "guarded_map k u page frame flags =
     rbind (with_kernel_address_space k) (\<lambda>(g, k1).
     rbind (pt_map phys_acquire k_mem k_put Size4K k1 u page frame flags) (\<lambda>(k2, _).
     Ok (drop_guard g k2)))"

fun user_pages :: "page_flags \<Rightarrow> address \<Rightarrow> kernel \<Rightarrow> page \<Rightarrow> usize \<Rightarrow> nat \<Rightarrow> kernel res" where
  "user_pages flags u k start i 0 = Ok k"
| "user_pages flags u k start i (Suc n) =
     rbind (page_forward Size4K start i) (\<lambda>page.
     rbind (phys_acquire Size4K k) (\<lambda>(k1, r).
     rbind (unwrap r) (\<lambda>frame.
     rbind (guarded_map k1 u page frame flags) (\<lambda>k2.
     user_pages flags u k2 start (i + 1) n))))"

function sbrk_map :: "address \<Rightarrow> kernel \<Rightarrow> page \<Rightarrow> page \<Rightarrow> kernel res" where
  "sbrk_map u k page e =
     (if page < e then
        rbind (phys_acquire Size4K k) (\<lambda>(k1, r).
        rbind (unwrap r) (\<lambda>frame.
        rbind (pt_map phys_acquire k_mem k_put Size4K k1 u page frame user_data_flags_4k) (\<lambda>(k2, _).
        rbind (page_forward Size4K page 1) (\<lambda>next.
        sbrk_map u k2 next e))))
      else Ok k)"
  by pat_completeness auto
termination
  by (relation "measure (\<lambda>(u, k, page, e). e - page)") (auto dest!: page_forward_greater [unfolded One_nat_def])

declare sbrk_map.simps [simp del]

definition sbrk :: "kernel \<Rightarrow> mm_state \<Rightarrow> usize \<Rightarrow> (kernel \<times> mm_state \<times> (page \<times> page) option) res" where
  "sbrk k mm num_pages =
     rbind (sbrk_range (mm_highwater mm) num_pages) (\<lambda>(highwater, start, e).
     rbind (with_kernel_address_space k) (\<lambda>(g, k1).
     rbind (sbrk_map (mm_page_table mm) k1 start e) (\<lambda>k2.
     Ok (drop_guard g k2, mm\<lparr>mm_highwater := highwater\<rparr>, Some (start, e)))))"

section \<open>Releasing an address space\<close>

text \<open>\<open>release_level l\<close> is \<^verbatim>\<open>release_user_page_table\<close> for the level with \<^verbatim>\<open>ID\<close> \<open>l\<close>; level 0 is the empty type.\<close>

definition release_block :: "nat \<Rightarrow> kernel \<Rightarrow> address \<Rightarrow> kernel res" where
  "release_block l k page =
     (if l = 1 then rbind (page_new Size4K page) (phys_release Size4K k)
      else if l = 2 then rbind (page_new Size2M page) (phys_release Size2M k)
      else if l = 3 then rbind (page_new Size1G page) (phys_release Size1G k)
      else Panic Unreachable)"

fun release_loop :: "(kernel \<Rightarrow> address \<Rightarrow> kernel res) \<Rightarrow> nat \<Rightarrow> kernel \<Rightarrow> address \<Rightarrow> nat list \<Rightarrow> kernel res" where
  "release_loop next l k t [] = Ok k"
| "release_loop next l k t (i # is) =
     (let w = entry_at (k_mem k) t i in
      if l = 4 \<and> get_index L4 KERNEL_MEMORY_START \<le> i then Ok k
      else if pte_is_empty w \<or> \<not> pte_present w then release_loop next l k t is
      else if pte_is_block w \<or> l = 1 then
        rbind (release_block l k (pte_address w)) (\<lambda>k1. release_loop next l k1 t is)
      else
        rbind (next k (pte_address w)) (\<lambda>k1. release_loop next l k1 t is))"

primrec release_user_page_table :: "nat \<Rightarrow> kernel \<Rightarrow> address \<Rightarrow> kernel res" where
  "release_user_page_table 0 = (\<lambda>k t. Panic Unreachable)"
| "release_user_page_table (Suc d) = (\<lambda>k t.
     rbind (release_loop (release_user_page_table d) (Suc d) k t [0..<512]) (\<lambda>k1.
     rbind (page_new Size4K t) (phys_release Size4K k1)))"

section \<open>Memory state of a process\<close>

definition mm_new :: "kernel \<Rightarrow> (kernel \<times> mm_state) res" where
  "mm_new k =
     rbind (with_kernel_address_space k) (\<lambda>(g, k1).
     Ok (drop_guard g k1, \<lparr>mm_page_table = table_get (k_cpu k1), mm_highwater = USER_SPACE_START\<rparr>))"

definition mm_drop :: "kernel \<Rightarrow> mm_state \<Rightarrow> kernel res" where
  "mm_drop k mm =
     rbind (with_kernel_address_space k) (\<lambda>(g, k1).
     rbind (if page_start (pg_new g) \<noteq> mm_page_table mm then release_user_page_table 4 k1 (mm_page_table mm) else Ok k1) (\<lambda>k2.
     Ok (drop_guard g k2)))"

text \<open>The new table shares the entry that covers kernel memory with the table in use.\<close>

definition user_table_new :: "kernel \<Rightarrow> (kernel \<times> address) res" where
  "user_table_new k =
     rbind (pt_alloc phys_acquire k_mem k_put k) (\<lambda>(k1, page_table).
     let index = get_index L4 KERNEL_MEMORY_START in
     rbind (rassert (index = get_index L4 (KERNEL_MEMORY_END - 1))) (\<lambda>_.
     let k2 = k_put k1 (set_entry (k_mem k1) page_table index (entry_at (k_mem k1) (table_get (k_cpu k1)) index)) in
     Ok (k2\<lparr>k_cpu := table_set page_table (k_cpu k2)\<rparr>, page_table)))"

section \<open>Stack\<close>

definition USER_STACK_START :: address where "USER_STACK_START = 0x111900000"
definition USER_STACK_PAGES :: usize where "USER_STACK_PAGES = 4"
definition USER_STACK_SIZE :: usize where "USER_STACK_SIZE = USER_STACK_PAGES * BYTES Size4K"

fun position :: "'a \<Rightarrow> 'a list \<Rightarrow> usize option" where
  "position x [] = None"
| "position x (y # ys) = (if y = x then Some 0 else map_option Suc (position x ys))"

definition setup_user_stack :: "('f, 'm) sys \<Rightarrow> kernel \<Rightarrow> address \<Rightarrow> (kernel \<times> address) res" where
  "setup_user_stack s k page_table =
     rbind (task_current s) (\<lambda>x.
     rbind (unwrap x) (\<lambda>task.
     rbind (process_current s) (\<lambda>p.
     rbind (unwrap p) (\<lambda>proc.
     rbind (unwrap (position (tk_id task) (pr_threads proc))) (\<lambda>i.
     rbind (umul i USER_STACK_SIZE) (\<lambda>off.
     rbind (addr_add USER_STACK_START off) (\<lambda>user_stack_start.
     rbind (page_new Size4K user_stack_start) (\<lambda>start.
     rbind (user_pages user_stack_flags page_table k start 0 USER_STACK_PAGES) (\<lambda>k1.
     rbind (addr_add user_stack_start USER_STACK_SIZE) (\<lambda>top.
     Ok (k1, top)))))))))))"

end
