(* ===== verification/Table_Sharing.thy ===== *)
theory Table_Sharing
  imports Table_Unmap
begin

text \<open>
  Page tables that share subtrees. Mapping a page changes only the subtree its first index selects, so a
  subtree that several tables share, as all user tables share the one of the kernel, stays as it is.
\<close>

lemma siblings_kept:
  assumes T: "tree_ok (Suc d) m t" and i: "i < 512" and same: "\<forall>x \<in> words (siblings d m t i) - {t + 8 * i}. m' x = m x"
  shows "j < 512 \<Longrightarrow> j \<noteq> i \<Longrightarrow> below d m' t j = below d m t j" and "siblings d m' t i = siblings d m t i"
proof -
  have b: "below d m' t j = below d m t j" if j: "j < 512" "j \<noteq> i" for j
  proof (rule below_cong)
    have sub: "{t..<t + 4096} \<union> words (below d m t j) \<subseteq> words (siblings d m t i)" using j by (auto simp: siblings_def words_UN)
    have "words {t} \<inter> words (below d m t j) = {}"
      using T j by (intro words_disjoint) (auto simp: tree_ok.simps intro: below_ok [OF T])
    then have "t + 8 * i \<notin> words (below d m t j)" using entry_in_table [OF i, of t] by (auto simp: disjoint_iff)
    then show "\<forall>x \<in> words (below d m t j). m' x = m x" using same sub by blast
    have "t + 8 * j \<in> words (siblings d m t i)" using entry_in_table [OF j(1), of t] sub by blast
    then show "m' (t + 8 * j) = m (t + 8 * j)" using same j by simp
  qed
  then show "j < 512 \<Longrightarrow> j \<noteq> i \<Longrightarrow> below d m' t j = below d m t j" by blast
  show "siblings d m' t i = siblings d m t i" by (simp add: siblings_def b)
qed

context frame_source
begin

lemma siblings_not_free:
  assumes "tinv (Suc d) s t" and "i < 512"
  shows "words (siblings d (mem s) t i) \<inter> free s = {}"
proof -
  have "siblings d (mem s) t i \<subseteq> foot (Suc d) (mem s) t" using foot_siblings [OF assms(2)] by auto
  then have "words (siblings d (mem s) t i) \<subseteq> words (foot (Suc d) (mem s) t)" by (rule words_mono)
  then show ?thesis using assms(1) unfolding table_inv_def by blast
qed

lemma ensure_table_kept:
  assumes inv: "tinv (Suc d) s t" and i: "i < 512" and r: "ensure_table alloc mem put_mem s t i = Ok (s1, u)"
  shows "\<forall>x \<in> words (siblings d (mem s) t i) - {t + 8 * i}. mem s1 x = mem s x"
proof (cases "entry_at (mem s) t i = 0")
  case True
  have I: "invar s" and bnd: "free s \<subseteq> {..<2 ^ 48}" using inv by (auto simp: table_inv_def)
  have ti: "t + 8 * i \<notin> free s" by (rule tinv_entry_free [OF inv i])
  from alloc_frame4k_cases [OF I bnd] show ?thesis
  proof (elim disjE exE conjE)
    fix s0 f
    assume a: "alloc_frame4k alloc mem put_mem s = Ok (s0, f)" "invar s0" "free s0 = free s - {f..<f + 4096}"
      "\<forall>x. x \<notin> free s \<longrightarrow> mem s0 x = mem s x"
    obtain w where "s1 = put_mem s0 (set_entry (mem s0) t i w)"
      using r True a(1) by (auto simp: ensure_table_def pte_is_empty_def rbind_Ok_iff)
    moreover have "t + 8 * i \<notin> free s0" using ti a(3) by simp
    ultimately have "mem s1 = set_entry (mem s0) t i w" using put_entry(3) [OF a(2)] by simp
    then show ?thesis using a(4) siblings_not_free [OF inv i] by (auto simp: set_entry_apply)
  qed (use r True in \<open>simp add: ensure_table_def pte_is_empty_def\<close>)
qed (use r in \<open>auto simp: ensure_table_def pte_is_empty_def rbind_Ok_iff\<close>)

lemma map_path_kept:
  assumes inv: "tinv (Suc d) s t" and i: "i < 512" and js: "js \<noteq> []" "length js + length ks = Suc d" "\<forall>j \<in> set js \<union> set ks. j < 512"
    and w: "leaf_word (length ks) w" and bl: "\<forall>w' e. leaf (mem s) t (i # js @ ks) = Some (w', e) \<longrightarrow> e \<le> length ks"
    and r: "map_path alloc mem put_mem s t (i # js) w = Ok s'"
  shows "\<forall>x \<in> words (siblings d (mem s) t i) - {t + 8 * i}. mem s' x = mem s x"
proof -
  obtain s1 u where e: "ensure_table alloc mem put_mem s t i = Ok (s1, u)" "map_path alloc mem put_mem s1 u js w = Ok s'"
    using r js(1) by (auto simp: rbind_Ok_iff)
  note k1 = ensure_table_kept [OF inv i e(1)]
  have T: "tree_ok (Suc d) (mem s) t" using inv by (simp add: table_inv_def)
  let ?A = "tinv (Suc d) s1 t \<and> get_next_table (mem s1) t i = Some u \<and> free s1 \<subseteq> free s \<and> leaf (mem s1) t (i # js @ ks) = leaf (mem s) t (i # js @ ks)"
  have ?A
  proof (cases "entry_at (mem s) t i = 0")
    case True
    have "length (i # js @ ks) = Suc (Suc d)" "\<forall>k \<in> set (i # js @ ks). k < 512" using i js by auto
    then show ?A using ensure_table_cases [OF inv i True] e(1) by (auto simp del: leaf.simps)
  next
    case False
    then have "rbind (unwrap (get_next_table (mem s) t i)) (\<lambda>t'. Ok (s, t')) = Ok (s1, u)"
      using e(1) by (simp add: ensure_table_def pte_is_empty_def)
    then have "s1 = s" "get_next_table (mem s) t i = Some u" by (auto simp: rbind_Ok_iff)
    then show ?A using inv by (simp del: leaf.simps)
  qed
  then have A: "tinv (Suc d) s1 t" "get_next_table (mem s1) t i = Some u" "free s1 \<subseteq> free s"
      "leaf (mem s1) t (i # js @ ks) = leaf (mem s) t (i # js @ ks)"
    by blast+
  have T1: "tree_ok (Suc d) (mem s1) t" using A(1) by (simp add: table_inv_def)
  have "leaf (mem s1) t (i # js @ ks) = leaf (mem s1) u (js @ ks)" using js(1) by (intro leaf_next [OF A(2)]) simp
  then have "\<forall>w' e. leaf (mem s1) u (js @ ks) = Some (w', e) \<longrightarrow> e \<le> length ks" using A(4) bl by simp
  from map_path_cases [OF tinv_child [OF A(1) i A(2)] js(1,2) js(3) w this]
  have P: "\<forall>x. x \<notin> free s1 \<union> words (foot d (mem s1) u) \<longrightarrow> mem s' x = mem s1 x" using e(2) by (auto simp: map_post_def)
  have b: "below d (mem s1) t i = foot d (mem s1) u" using A(2) by (simp add: below_def)
  have "siblings d (mem s1) t i = siblings d (mem s) t i" by (rule siblings_kept(2) [OF T i k1])
  then have dj: "words (siblings d (mem s) t i) \<inter> (free s1 \<union> words (foot d (mem s1) u)) = {}"
    using siblings_not_free [OF A(1) i] words_below_siblings [OF T1 i] unfolding b by auto
  show ?thesis
  proof
    fix x
    assume x: "x \<in> words (siblings d (mem s) t i) - {t + 8 * i}"
    then have "x \<notin> free s1 \<union> words (foot d (mem s1) u)" using dj by blast
    then show "mem s' x = mem s x" using P bspec [OF k1 x] by simp
  qed
qed

text \<open>For 4K pages.\<close>

lemma pt_map_kept:
  assumes inv: "tinv 3 s p4" and f: "4096 dvd frame" "frame < 2 ^ 48" and fl: "flags_fit Size4K (map_flags Size4K flags)"
    and nb: "leaf (mem s) p4 (indices page) = None"
    and r: "pt_map alloc mem put_mem Size4K s p4 page frame flags = Ok (s', page')"
  shows "\<forall>x \<in> words (siblings 2 (mem s) p4 (get_index L4 page)) - {p4 + 8 * get_index L4 page}. mem s' x = mem s x"
proof -
  let ?w = "of_nat frame OR map_flags Size4K flags"
  let ?js = "[get_index L3 page, get_index L2 page, get_index L1 page]"
  have inv': "tinv (Suc 2) s p4" using inv by (simp add: numeral_3_eq_3)
  have lw: "leaf_word (length []) ?w" using pte_set_Ok [OF f fl] by (simp add: leaf_word_def)
  have m: "map_path alloc mem put_mem s p4 (get_index L4 page # ?js) ?w = Ok s'"
    using r unfolding pt_map_path [OF f fl] by (auto simp: indices_def rbind_Ok_iff)
  have l: "\<forall>w' e. leaf (mem s) p4 (get_index L4 page # ?js @ []) = Some (w', e) \<longrightarrow> e \<le> length []" using nb by (simp add: indices_def del: leaf.simps)
  show ?thesis by (rule map_path_kept [OF inv' _ _ _ _ lw l m]) simp_all
qed

text \<open>How many frames a map call takes at most.\<close>

lemma map_path_card:
  "tinv d s t \<Longrightarrow> js \<noteq> [] \<Longrightarrow> length js \<le> Suc d \<Longrightarrow> \<forall>j \<in> set js. j < 512 \<Longrightarrow> map_path alloc mem put_mem s t js w = Ok s' \<Longrightarrow>
   card (free s) \<le> card (free s') + (length js - 1) * 4096"
proof (induction js arbitrary: d s t)
  case (Cons i "is")
  have inv: "tinv d s t" and i: "i < 512" using Cons.prems(1,4) by auto
  show ?case
  proof (cases "is = []")
    case True
    have "invar s" using inv by (simp add: table_inv_def)
    then show ?thesis using put_entry(2) [OF _ tinv_entry_free [OF inv i]] Cons.prems(5) True by auto
  next
    case False
    then obtain d' where d: "d = Suc d'" using Cons.prems(3) by (cases d) (auto simp: Suc_le_eq)
    obtain s1 u where e: "ensure_table alloc mem put_mem s t i = Ok (s1, u)" "map_path alloc mem put_mem s1 u is w = Ok s'"
      using Cons.prems(5) False by (auto simp: rbind_Ok_iff)
    have "tinv d s1 t \<and> get_next_table (mem s1) t i = Some u \<and> card (free s) \<le> card (free s1) + 4096"
    proof (cases "entry_at (mem s) t i = 0")
      case True
      then show ?thesis using ensure_table_cases [OF inv [unfolded d] i True] e(1) d by auto
    next
      case False
      then show ?thesis using e(1) inv by (auto simp: ensure_table_def pte_is_empty_def rbind_Ok_iff)
    qed
    then have A: "tinv d s1 t" "get_next_table (mem s1) t i = Some u" "card (free s) \<le> card (free s1) + 4096" by auto
    have "card (free s1) \<le> card (free s') + (length is - 1) * 4096"
      using Cons.IH [OF tinv_child [OF A(1) [unfolded d] i A(2)] False _ _ e(2)] Cons.prems(3,4) d by simp
    moreover have "1 \<le> length is" using False by (cases "is") auto
    ultimately show ?thesis using A(3) by (simp add: algebra_simps)
  qed
qed simp

lemma pt_map_card:
  assumes inv: "tinv 3 s p4" and f: "4096 dvd frame" "frame < 2 ^ 48" and fl: "flags_fit Size4K (map_flags Size4K flags)"
    and r: "pt_map alloc mem put_mem Size4K s p4 page frame flags = Ok (s', page')"
  shows "card (free s) \<le> card (free s') + 3 * 4096"
  using map_path_card [OF inv, of "indices page"] r indices_less unfolding pt_map_path [OF f fl] by (auto simp: indices_def rbind_Ok_iff)

end

end
