(* ===== verification/User_Teardown.thy ===== *)
theory User_Teardown
  imports User_Space Table_Sharing
begin

text \<open>
  What \<^verbatim>\<open>release_user_page_table\<close> hands back. \<open>regions\<close> lists the frames in the order in which the code releases
  them; if they are disjoint and none is free, exactly they are free afterwards. A well-formed user table
  owns its frames in this sense.
\<close>

section \<open>The frames of a table\<close>

definition limit :: "nat \<Rightarrow> nat" where
  "limit l = (if l = 4 then 510 else 512)"

definition block_size :: "nat \<Rightarrow> page_size" where
  "block_size l = (if l = 1 then Size4K else if l = 2 then Size2M else Size1G)"

definition entry_regions :: "(memory \<Rightarrow> address \<Rightarrow> (page_size \<times> frame) list) \<Rightarrow> nat \<Rightarrow> memory \<Rightarrow> 64 word \<Rightarrow> (page_size \<times> frame) list" where
  "entry_regions sub l m w =
     (if w = 0 \<or> \<not> pte_present w then [] else if pte_is_block w \<or> l = 1 then [(block_size l, pte_address w)] else sub m (pte_address w))"

primrec regions :: "nat \<Rightarrow> memory \<Rightarrow> address \<Rightarrow> (page_size \<times> frame) list" where
  "regions 0 = (\<lambda>m t. [])"
| "regions (Suc d) = (\<lambda>m t. concat (map (\<lambda>i. entry_regions (regions d) (Suc d) m (entry_at m t i)) [0..<limit (Suc d)]) @ [(Size4K, t)])"

abbreviation area :: "(page_size \<times> frame) list \<Rightarrow> address set" where
  "area rs \<equiv> \<Union> (frame_set ` set rs)"

lemma kernel_index: "get_index L4 KERNEL_MEMORY_START = 510"
  by (simp add: get_index_eq KERNEL_MEMORY_START_def)

lemma table_in_area: "{t..<t + 4096} \<subseteq> area (regions (Suc d) m t)"
  by (auto simp: frame_set_def BYTES_def)

lemma entry_regions_cong:
  assumes "\<And>u. \<forall>x \<in> area (sub m u). m' x = m x \<Longrightarrow> sub m' u = sub m u" and "\<forall>x \<in> area (entry_regions sub l m w). m' x = m x"
  shows "entry_regions sub l m' w = entry_regions sub l m w"
  using assms by (auto simp: entry_regions_def split: if_splits)

lemma regions_cong: "\<forall>x \<in> area (regions l m t). m' x = m x \<Longrightarrow> regions l m' t = regions l m t"
proof (induction l arbitrary: t)
  case (Suc d)
  have "entry_at m' t i = entry_at m t i" if "i < 512" for i
  proof -
    have "t + 8 * i \<in> area (regions (Suc d) m t)" using table_in_area [of t d m] entry_in_table [OF that, of t] by blast
    then show ?thesis using bspec [OF Suc.prems] by (simp only: entry_at_def)
  qed
  moreover have "entry_regions (regions d) (Suc d) m' (entry_at m t i) = entry_regions (regions d) (Suc d) m (entry_at m t i)" if "i < limit (Suc d)" for i
    by (rule entry_regions_cong [OF Suc.IH]) (use Suc.prems that in auto)
  ultimately show ?case by (auto simp: limit_def intro!: arg_cong [where f = concat] map_cong split: if_splits)
qed simp

section \<open>Releasing\<close>

definition releasable :: "kernel \<Rightarrow> (page_size \<times> frame) list \<Rightarrow> bool" where
  "releasable k rs \<longleftrightarrow> apart (map frame_set rs) \<and> (\<forall>(S, f) \<in> set rs. 0 < f \<and> BYTES S dvd f \<and> f + BYTES S \<le> USIZE_LIMIT) \<and> area rs \<inter> k_free k = {}"

definition released :: "cpu \<Rightarrow> address \<Rightarrow> bitmap \<Rightarrow> kernel \<Rightarrow> (page_size \<times> frame) list \<Rightarrow> kernel \<Rightarrow> bool" where
  "released c t0 v k rs k' \<longleftrightarrow> k_ok c t0 v k' \<and> k_free k' = k_free k \<union> area rs \<and> (\<forall>x. x \<notin> area rs \<longrightarrow> k_mem k' x = k_mem k x)"

lemma releasable_append:
  assumes "releasable k (rs @ qs)"
  shows "releasable k rs" and "released c t0 v k rs k' \<Longrightarrow> releasable k' qs" and "area rs \<inter> area qs = {}"
proof -
  show d: "area rs \<inter> area qs = {}" using assms by (auto simp: releasable_def apart_append)
  show "releasable k rs" using assms by (auto simp: releasable_def apart_append)
  show "released c t0 v k rs k' \<Longrightarrow> releasable k' qs" using assms d by (auto simp: releasable_def released_def apart_append)
qed

lemma released_append:
  assumes "released c t0 v k rs k1" and "released c t0 v k1 qs k2"
  shows "released c t0 v k (rs @ qs) k2"
  using assms by (auto simp: released_def)

lemma release_one:
  assumes "k_ok c t0 v k" and "releasable k [(S, f)]"
  shows "\<exists>k'. rbind (page_new S f) (phys_release S k) = Ok k' \<and> released c t0 v k [(S, f)] k'"
proof -
  have f: "0 < f" "BYTES S dvd f" "f + BYTES S \<le> USIZE_LIMIT" "{f..<f + BYTES S} \<inter> k_free k = {}"
    using assms(2) by (auto simp: releasable_def frame_set_def)
  have "page_new S f = Ok f" using f(2) by (simp add: page_new_Ok_iff)
  then show ?thesis using kphys.dealloc_Ok [OF assms(1) f] by (auto simp: released_def frame_set_def)
qed

lemma release_block_one:
  assumes "k_ok c t0 v k" and "releasable k [(block_size l, f)]" and "1 \<le> l" and "l \<le> 3"
  shows "\<exists>k'. release_block l k f = Ok k' \<and> released c t0 v k [(block_size l, f)] k'"
proof -
  have "release_block l k f = rbind (page_new (block_size l) f) (phys_release (block_size l) k)"
    using assms(3,4) by (auto simp: release_block_def block_size_def)
  then show ?thesis using release_one [OF assms(1,2)] by simp
qed

definition no_block :: "nat \<Rightarrow> memory \<Rightarrow> address \<Rightarrow> nat list \<Rightarrow> bool" where
  "no_block l m t is \<longleftrightarrow> (l = 4 \<longrightarrow> (\<forall>i \<in> set is. \<not> pte_is_block (entry_at m t i) \<or> entry_at m t i = 0))"

lemma release_loop_Ok:
  assumes sub: "\<And>k u. 0 < d \<Longrightarrow> k_ok c t0 v k \<Longrightarrow> releasable k (regions d (k_mem k) u) \<Longrightarrow> \<exists>k'. next k u = Ok k' \<and> released c t0 v k (regions d (k_mem k) u) k'"
    and l: "d \<le> 3"
  shows "k_ok c t0 v k \<Longrightarrow> \<forall>i \<in> set is. i < limit (Suc d) \<Longrightarrow> no_block (Suc d) (k_mem k) t is
    \<Longrightarrow> releasable k (concat (map (\<lambda>i. entry_regions (regions d) (Suc d) (k_mem k) (entry_at (k_mem k) t i)) is) @ [(Size4K, t)])
    \<Longrightarrow> \<exists>k'. release_loop next (Suc d) k t is = Ok k'
      \<and> released c t0 v k (concat (map (\<lambda>i. entry_regions (regions d) (Suc d) (k_mem k) (entry_at (k_mem k) t i)) is)) k'"
proof (induction "is" arbitrary: k)
  case Nil
  then show ?case by (simp add: released_def)
next
  case (Cons i js)
  define E where "E = (\<lambda>m i. entry_regions (regions d) (Suc d) m (entry_at m t i))"
  let ?m = "k_mem k" and ?w = "entry_at (k_mem k) t i"
  let ?r = "E ?m i" and ?q = "concat (map (E ?m) js)"
  have i: "i < 512" "d = 3 \<longrightarrow> i < 510" using Cons.prems(2) by (auto simp: limit_def split: if_splits)
  have rel: "releasable k (?r @ ?q @ [(Size4K, t)])" using Cons.prems(4) by (simp add: E_def)
  define step where "step = (if pte_is_empty ?w \<or> \<not> pte_present ?w then Ok k
      else if pte_is_block ?w \<or> Suc d = 1 then release_block (Suc d) k (pte_address ?w) else next k (pte_address ?w))"
  have eq: "release_loop next (Suc d) k t (i # js) = rbind step (\<lambda>k1. release_loop next (Suc d) k1 t js)"
    using i(2) by (cases "d = 3") (simp_all add: step_def Let_def kernel_index)
  have "\<exists>k1. step = Ok k1 \<and> released c t0 v k ?r k1"
  proof (cases "?w = 0 \<or> \<not> pte_present ?w")
    case True
    then have "?r = []" by (simp add: E_def entry_regions_def)
    then show ?thesis using True Cons.prems(1) by (auto simp: step_def pte_is_empty_def released_def)
  next
    case w: False
    show ?thesis
    proof (cases "pte_is_block ?w \<or> Suc d = 1")
      case True
      then have r: "?r = [(block_size (Suc d), pte_address ?w)]" using w by (simp add: E_def entry_regions_def)
      have "Suc d \<le> 3" using True w l Cons.prems(3) by (cases "Suc d = 4") (auto simp: no_block_def)
      then show ?thesis using release_block_one [OF Cons.prems(1), of "Suc d"] releasable_append(1) [OF rel] w True
        unfolding r step_def by (simp add: pte_is_empty_def)
    next
      case False
      then have r: "?r = regions d ?m (pte_address ?w)" using w by (simp add: E_def entry_regions_def)
      then show ?thesis using sub [OF _ Cons.prems(1)] releasable_append(1) [OF rel] w False unfolding r step_def by (simp add: pte_is_empty_def)
    qed
  qed
  then obtain k1 where k1: "step = Ok k1" "released c t0 v k ?r k1" by blast
  have out: "\<forall>x. x \<notin> area ?r \<longrightarrow> k_mem k1 x = ?m x" using k1(2) by (simp add: released_def)
  have dj: "area ?r \<inter> area (?q @ [(Size4K, t)]) = {}" using releasable_append(3) [OF rel] .
  have ent: "entry_at (k_mem k1) t j = entry_at ?m t j" if "j < 512" for j
  proof -
    have "t + 8 * j \<in> area [(Size4K, t)]" using entry_in_table [OF that, of t] by (simp add: frame_set_def BYTES_def)
    then show ?thesis using out dj by (auto simp: entry_at_def)
  qed
  have same: "E (k_mem k1) j = E ?m j" if j: "j \<in> set js" for j
  proof -
    have "j < 512" using Cons.prems(2) j by (auto simp: limit_def split: if_splits)
    moreover have "\<forall>x \<in> area (E ?m j). k_mem k1 x = ?m x" using j out dj by auto
    ultimately show ?thesis unfolding E_def using entry_regions_cong [of "regions d" "k_mem k" "k_mem k1", OF regions_cong] ent by simp
  qed
  have q: "concat (map (E (k_mem k1)) js) = ?q" using same by (auto intro!: arg_cong [where f = concat])
  have ok1: "k_ok c t0 v k1" using k1(2) by (simp add: released_def)
  have nb: "no_block (Suc d) (k_mem k1) t js" using Cons.prems(2,3) ent by (auto simp: no_block_def limit_def)
  have "releasable k1 (?q @ [(Size4K, t)])" using releasable_append(2) [OF rel k1(2)] .
  then obtain k2 where "release_loop next (Suc d) k1 t js = Ok k2" "released c t0 v k1 ?q k2"
    using Cons.IH [OF ok1 _ nb] Cons.prems(2) q [unfolded E_def] by (auto simp: E_def)
  then have "released c t0 v k (?r @ ?q) k2" "release_loop next (Suc d) k t (i # js) = Ok k2"
    using released_append [OF k1(2)] eq k1(1) by simp_all
  then show ?case by (intro exI [of _ k2]) (simp add: E_def del: release_loop.simps)
qed

lemma release_loop_append:
  "l \<noteq> 4 \<or> (\<forall>i \<in> set is. i < 510) \<Longrightarrow> release_loop next l k t (is @ js) = rbind (release_loop next l k t is) (\<lambda>k1. release_loop next l k1 t js)"
  by (induction "is" arbitrary: k) (auto simp: Let_def kernel_index rbind_assoc)

lemma release_Ok:
  "l \<le> 4 \<Longrightarrow> k_ok c t0 v k \<Longrightarrow> releasable k (regions l (k_mem k) t) \<Longrightarrow> no_block l (k_mem k) t [0..<limit l] \<Longrightarrow> 0 < l \<Longrightarrow>
   \<exists>k'. release_user_page_table l k t = Ok k' \<and> released c t0 v k (regions l (k_mem k) t) k'"
proof (induction l arbitrary: k t)
  case (Suc d)
  let ?E = "\<lambda>i. entry_regions (regions d) (Suc d) (k_mem k) (entry_at (k_mem k) t i)"
  have sub: "\<exists>k'. release_user_page_table d k u = Ok k' \<and> released c t0 v k (regions d (k_mem k) u) k'"
    if "0 < d" "k_ok c t0 v k" "releasable k (regions d (k_mem k) u)" for k u
    using Suc.prems(1) that by (intro Suc.IH) (auto simp: no_block_def)
  have d3: "d \<le> 3" using Suc.prems(1) by simp
  obtain k1 where k1: "release_loop (release_user_page_table d) (Suc d) k t [0..<limit (Suc d)] = Ok k1" "released c t0 v k (concat (map ?E [0..<limit (Suc d)])) k1"
    using release_loop_Ok [OF sub d3 Suc.prems(2), of "[0..<limit (Suc d)]" t] Suc.prems(3,4) by auto
  have le: "limit (Suc d) + (512 - limit (Suc d)) = 512" by (simp add: limit_def)
  have cut: "[0..<512] = [0..<limit (Suc d)] @ [limit (Suc d)..<512]"
    using upt_add_eq_append [of 0 "limit (Suc d)" "512 - limit (Suc d)"] unfolding le by simp
  have "release_loop (release_user_page_table d) (Suc d) k1 t [limit (Suc d)..<512] = Ok k1"
    by (cases "d = 3") (simp_all add: limit_def upt_conv_Cons kernel_index Let_def)
  then have "release_loop (release_user_page_table d) (Suc d) k t [0..<512] = Ok k1"
    using k1(1) release_loop_append [of "Suc d" "[0..<limit (Suc d)]" "release_user_page_table d" k t "[limit (Suc d)..<512]"] cut
    by (simp add: limit_def split: if_splits)
  moreover have rel: "releasable k (concat (map ?E [0..<limit (Suc d)]) @ [(Size4K, t)])" using Suc.prems(3) by simp
  have ok1: "k_ok c t0 v k1" using k1(2) by (simp add: released_def)
  obtain k2 where k2: "rbind (page_new Size4K t) (phys_release Size4K k1) = Ok k2" "released c t0 v k1 [(Size4K, t)] k2"
    using release_one [OF ok1 releasable_append(2) [OF rel k1(2)]] by blast
  ultimately show ?case using released_append [OF k1(2) k2(2)] by (intro exI [of _ k2]) simp
qed simp

section \<open>Tables that own their frames\<close>

definition lregion :: "64 word \<times> nat \<Rightarrow> address set" where
  "lregion l = (case l of (w, e) \<Rightarrow> {pte_address w..<pte_address w + 2 ^ (12 + 9 * e)})"

definition paths :: "nat \<Rightarrow> nat list set" where
  "paths d = {ks. length ks = d \<and> (\<forall>k \<in> set ks. k < 512)}"

text \<open>Below the entries in \<open>I\<close> every frame is aligned, inside the physical address space, no page table, and mapped
  once.\<close>

definition leaf_fine :: "nat \<Rightarrow> memory \<Rightarrow> address \<Rightarrow> 64 word \<Rightarrow> nat \<Rightarrow> bool" where
  "leaf_fine d m t w e \<longleftrightarrow> pte_present w \<and> 0 < pte_address w \<and> 2 ^ (12 + 9 * e) dvd pte_address w
     \<and> pte_address w + 2 ^ (12 + 9 * e) \<le> 2 ^ 48 \<and> lregion (w, e) \<inter> words (foot d m t) = {}"

definition good :: "nat \<Rightarrow> memory \<Rightarrow> address \<Rightarrow> nat set \<Rightarrow> bool" where
  "good d m t I \<longleftrightarrow> (\<forall>i \<in> I. \<forall>ks \<in> paths d. \<forall>w e. leaf m t (i # ks) = Some (w, e) \<longrightarrow> leaf_fine d m t w e)
     \<and> (\<forall>i \<in> I. \<forall>ks \<in> paths d. \<forall>j \<in> I. \<forall>ls \<in> paths d. \<forall>w e w' e'. leaf m t (i # ks) = Some (w, e) \<longrightarrow> leaf m t (j # ls) = Some (w', e') \<longrightarrow>
          lregion (w, e) \<inter> lregion (w', e') \<noteq> {} \<longrightarrow> e = e' \<and> take (Suc d - e) (i # ks) = take (Suc d - e) (j # ls))"

definition tabs :: "nat \<Rightarrow> memory \<Rightarrow> address \<Rightarrow> nat \<Rightarrow> address set" where
  "tabs d m t i = (case d of 0 \<Rightarrow> {} | Suc d' \<Rightarrow> below d' m t i)"

definition leafs :: "nat \<Rightarrow> memory \<Rightarrow> address \<Rightarrow> nat \<Rightarrow> address set" where
  "leafs d m t i = {x. \<exists>ks \<in> paths d. \<exists>w e. leaf m t (i # ks) = Some (w, e) \<and> x \<in> lregion (w, e)}"

lemma leaf_level: "leaf m t ks = Some (w, e) \<Longrightarrow> e < length ks"
  by (induction ks arbitrary: t) (auto simp: Let_def intro: less_SucI split: if_splits option.splits)

lemma paths_Suc: "ks \<in> paths (Suc d) \<longleftrightarrow> (\<exists>j ls. ks = j # ls \<and> j < 512 \<and> ls \<in> paths d)"
  by (cases ks) (auto simp: paths_def)

lemma leaf_child:
  assumes "get_next_table m t i = Some u" and "ks \<in> paths (Suc d)"
  shows "leaf m t (i # ks) = leaf m u ks"
  using assms by (intro leaf_next) (auto simp: paths_def)

lemma good_child:
  assumes g: "good (Suc d) m t I" and i: "i \<in> I" "i < 512" and u: "get_next_table m t i = Some u"
  shows "good d m u {..<512}"
proof -
  have c: "leaf m u (j # ls) = leaf m t (i # j # ls)" "j # ls \<in> paths (Suc d)" if "j < 512" "ls \<in> paths d" for j ls
    using leaf_child [OF u, of "j # ls" d] that by (auto simp: paths_Suc)
  have sub: "words (foot d m u) \<subseteq> words (foot (Suc d) m t)" using i(2) u by (intro words_mono) (auto simp: foot_Suc below_def)
  have "leaf_fine d m u w e" if "j < 512" "ls \<in> paths d" "leaf m u (j # ls) = Some (w, e)" for j ls w e
  proof -
    have "leaf_fine (Suc d) m t w e" using g i(1) c [OF that(1,2)] that(3) unfolding good_def by metis
    then show ?thesis using sub by (auto simp: leaf_fine_def)
  qed
  moreover have "e = e' \<and> take (Suc d - e) (j # ls) = take (Suc d - e) (j' # ls')"
    if "j < 512" "ls \<in> paths d" "j' < 512" "ls' \<in> paths d" "leaf m u (j # ls) = Some (w, e)" "leaf m u (j' # ls') = Some (w', e')"
      "lregion (w, e) \<inter> lregion (w', e') \<noteq> {}" for j ls w e j' ls' w' e'
  proof -
    have "e = e' \<and> take (Suc (Suc d) - e) (i # j # ls) = take (Suc (Suc d) - e) (i # j' # ls')"
      using g i(1) c [OF that(1,2)] c [OF that(3,4)] that(5-7) unfolding good_def by metis
    moreover have "e \<le> d" using leaf_level [OF that(5)] that(2) by (simp add: paths_def)
    ultimately show ?thesis by (auto simp: Suc_diff_le)
  qed
  ultimately show ?thesis unfolding good_def by blast
qed

lemma apart_concat:
  "distinct is \<Longrightarrow> \<forall>i \<in> set is. apart (map f (g i)) \<Longrightarrow> \<forall>i \<in> set is. \<forall>j \<in> set is. i \<noteq> j \<longrightarrow> \<Union> (f ` set (g i)) \<inter> \<Union> (f ` set (g j)) = {}
   \<Longrightarrow> apart (map f (concat (map g is)))"
proof (induction "is")
  case (Cons i js)
  have "x \<inter> y = {}" if "x \<in> f ` set (g i)" "y \<in> f ` set (g j)" "j \<in> set js" for x y j
  proof -
    have ij: "i \<noteq> j" using Cons.prems(1) that(3) by auto
    have "\<Union> (f ` set (g i)) \<inter> \<Union> (f ` set (g j)) = {}" by (rule Cons.prems(3) [rule_format, OF _ _ ij]) (use that(3) in auto)
    then show ?thesis using that(1,2) by blast
  qed
  then show ?case using Cons by (auto simp: apart_append)
qed simp

lemma block_bytes: "d \<le> 2 \<Longrightarrow> BYTES (block_size (Suc d)) = 2 ^ (12 + 9 * d)"
  by (cases d; cases "d - 1") (auto simp: block_size_def BYTES_def)

definition framed :: "(page_size \<times> frame) list \<Rightarrow> bool" where
  "framed rs \<longleftrightarrow> apart (map frame_set rs) \<and> (\<forall>(S, f) \<in> set rs. 0 < f \<and> BYTES S dvd f \<and> f + BYTES S \<le> 2 ^ 48)"

lemma entry_cover:
  assumes T: "tree_ok d m t" and g: "good d m t I" and i: "i \<in> I" "i < 512" and d: "d \<le> 3"
    and child: "\<And>d' u. d = Suc d' \<Longrightarrow> tree_ok d' m u \<Longrightarrow> good d' m u {..<512} \<Longrightarrow> framed (regions d m u) \<and> area (regions d m u) = words (foot d' m u) \<union> (\<Union>j<512. leafs d' m u j)"
  shows "framed (entry_regions (regions d) (Suc d) m (entry_at m t i))
    \<and> area (entry_regions (regions d) (Suc d) m (entry_at m t i)) = words (tabs d m t i) \<union> leafs d m t i"
proof (cases "entry_at m t i = 0")
  case True
  then have "leafs d m t i = {}" "tabs d m t i = {}" by (auto simp: leafs_def tabs_def below_def split: nat.splits)
  then show ?thesis using True by (simp add: entry_regions_def framed_def)
next
  case w: False
  let ?w = "entry_at m t i"
  have ex: "replicate d 0 \<in> paths d" by (simp add: paths_def)
  show ?thesis
  proof (cases "d = 0 \<or> pte_is_block ?w")
    case True
    then have l: "leaf m t (i # ks) = Some (?w, d)" if "ks \<in> paths d" for ks using w that by (auto simp: Let_def paths_def)
    have fine: "leaf_fine d m t ?w d" using g i(1) ex l [OF ex] unfolding good_def by blast
    have d2: "d \<le> 2"
    proof (cases "d = 3")
      case True3: True
      then have "entry_ok 2 ?w" using T i(2) tree_ok.simps(2) [of 2 m t] by (simp add: numeral_3_eq_3)
      then show ?thesis using True True3 w by (simp add: entry_ok_def)
    qed (use d in simp)
    have r: "entry_regions (regions d) (Suc d) m ?w = [(block_size (Suc d), pte_address ?w)]"
      using True w fine by (auto simp: entry_regions_def leaf_fine_def)
    have "leafs d m t i = lregion (?w, d)" using l ex by (auto simp: leafs_def)
    moreover have "tabs d m t i = {}" using True by (auto simp: tabs_def below_def next_table_Some split: nat.splits option.splits)
    moreover have "frame_set (block_size (Suc d), pte_address ?w) = lregion (?w, d)" using block_bytes [OF d2] by (simp add: frame_set_def lregion_def)
    ultimately show ?thesis using fine block_bytes [OF d2] unfolding r by (simp add: framed_def leaf_fine_def)
  next
    case False
    then obtain d' where d': "d = Suc d'" by (cases d) auto
    obtain u where u: "get_next_table m t i = Some u" "tree_ok d' m u" using leaf_table [of d' m t i] T i(2) w False d' by blast
    have "framed (regions d m u) \<and> area (regions d m u) = words (foot d' m u) \<union> (\<Union>j<512. leafs d' m u j)"
      using child [OF d' u(2) good_child [OF g [unfolded d'] i u(1)]] .
    moreover have "entry_regions (regions d) (Suc d) m ?w = regions d m u" using u(1) w False by (auto simp: entry_regions_def next_table_Some d')
    moreover have "tabs d m t i = foot d' m u" using u(1) by (simp add: tabs_def d' below_def)
    moreover have "leafs d m t i = (\<Union>j<512. leafs d' m u j)"
    proof -
      have "leafs d m t i = {x. \<exists>ks \<in> paths (Suc d'). \<exists>w e. leaf m u ks = Some (w, e) \<and> x \<in> lregion (w, e)}"
        using leaf_child [OF u(1), of _ d'] by (auto simp: leafs_def d' simp del: leaf.simps)
      also have "\<dots> = (\<Union>j<512. leafs d' m u j)" unfolding leafs_def paths_Suc Bex_def by blast
      finally show ?thesis .
    qed
    ultimately show ?thesis by simp
  qed
qed

lemma tabs_foot: "tree_ok d m t \<Longrightarrow> i < 512 \<Longrightarrow> tabs d m t i \<subseteq> foot d m t"
  by (cases d) (auto simp: tabs_def foot_Suc)

lemma tabs_disjoint:
  assumes "tree_ok d m t" and "i < 512"
  shows "words {t} \<inter> words (tabs d m t i) = {}" and "j < 512 \<Longrightarrow> i \<noteq> j \<Longrightarrow> words (tabs d m t i) \<inter> words (tabs d m t j) = {}"
proof -
  have ok: "\<forall>u \<in> tabs d m t k. table_ok u" if "k < 512" for k using tree_foot_ok [OF assms(1)] tabs_foot [OF assms(1) that] by blast
  show "words {t} \<inter> words (tabs d m t i) = {}"
    using assms ok tree_table_ok [OF assms(1)] by (intro words_disjoint) (auto simp: tabs_def tree_ok.simps split: nat.splits)
  show "words (tabs d m t i) \<inter> words (tabs d m t j) = {}" if "j < 512" "i \<noteq> j"
  proof (intro words_disjoint ok that assms(2))
    show "tabs d m t i \<inter> tabs d m t j = {}"
    proof (cases d)
      case (Suc d')
      then have "below d' m t i \<inter> below d' m t j = {}" using assms that unfolding Suc tree_ok.simps by blast
      then show ?thesis by (simp add: tabs_def Suc)
    qed (simp add: tabs_def)
  qed
qed

lemma leafs_disjoint:
  assumes g: "good d m t I" and i: "i \<in> I"
  shows "leafs d m t i \<inter> words (foot d m t) = {}" and "j \<in> I \<Longrightarrow> i \<noteq> j \<Longrightarrow> leafs d m t i \<inter> leafs d m t j = {}"
proof -
  show "leafs d m t i \<inter> words (foot d m t) = {}"
    using g i unfolding good_def leafs_def leaf_fine_def by blast
  show "leafs d m t i \<inter> leafs d m t j = {}" if j: "j \<in> I" "i \<noteq> j"
  proof -
    have False if x: "ks \<in> paths d" "leaf m t (i # ks) = Some (w, e)" "x \<in> lregion (w, e)" "ls \<in> paths d" "leaf m t (j # ls) = Some (w', e')" "x \<in> lregion (w', e')"
      for x ks ls w e w' e'
    proof -
      have "take (Suc d - e) (i # ks) = take (Suc d - e) (j # ls)" using g i j(1) x unfolding good_def by blast
      moreover have "e \<le> d" using leaf_level [OF x(2)] x(1) by (simp add: paths_def)
      ultimately show False using j(2) by (simp add: Suc_diff_le)
    qed
    then show ?thesis unfolding leafs_def by blast
  qed
qed

lemma table_cover:
  "tree_ok d m t \<Longrightarrow> good d m t {..<limit (Suc d)} \<Longrightarrow> d \<le> 3 \<Longrightarrow>
   framed (regions (Suc d) m t) \<and> area (regions (Suc d) m t) = {t..<t + 4096} \<union> (\<Union>i<limit (Suc d). words (tabs d m t i) \<union> leafs d m t i)"
proof (induction d arbitrary: t rule: less_induct)
  case (less d)
  let ?L = "limit (Suc d)"
  let ?E = "\<lambda>i. entry_regions (regions d) (Suc d) m (entry_at m t i)"
  have L: "i < 512" if "i < ?L" for i using that by (auto simp: limit_def split: if_splits)
  have child: "framed (regions d m u) \<and> area (regions d m u) = words (foot d' m u) \<union> (\<Union>j<512. leafs d' m u j)"
    if "d = Suc d'" "tree_ok d' m u" "good d' m u {..<512}" for d' u
  proof -
    have l: "limit (Suc d') = 512" using less.prems(3) that(1) by (simp add: limit_def)
    have "words (foot d' m u) = {u..<u + 4096} \<union> (\<Union>i<512. words (tabs d' m u i))" by (cases d') (auto simp: tabs_def foot_Suc words_UN)
    then show ?thesis using less.IH [of d' u] less.prems(3) that unfolding l by auto
  qed
  have E: "framed (?E i)" "area (?E i) = words (tabs d m t i) \<union> leafs d m t i" if "i < ?L" for i
    using entry_cover [OF less.prems(1,2) _ L [OF that] less.prems(3) child] that by auto
  have dj: "area (?E i) \<inter> area (?E j) = {}" if "i < ?L" "j < ?L" "i \<noteq> j" for i j
  proof -
    have "words (tabs d m t k) \<subseteq> words (foot d m t)" if "k < ?L" for k using tabs_foot [OF less.prems(1) L [OF that]] by (rule words_mono)
    moreover have "i \<in> {..<?L}" "j \<in> {..<?L}" using that by simp_all
    ultimately show ?thesis
      unfolding E(2) [OF that(1)] E(2) [OF that(2)]
      using tabs_disjoint(2) [OF less.prems(1) L [OF that(1)] L [OF that(2)] that(3)] leafs_disjoint(1) [OF less.prems(2)] leafs_disjoint(2) [OF less.prems(2) _ _ that(3)] that
      by blast
  qed
  let ?C = "concat (map ?E [0..<?L])"
  have ap: "apart (map frame_set ?C)" using E(1) dj by (intro apart_concat) (auto simp: framed_def)
  have "area ?C = (\<Union>i<?L. area (?E i))" by (auto simp: atLeast0LessThan)
  then have ar: "area ?C = (\<Union>i<?L. words (tabs d m t i) \<union> leafs d m t i)" using E(2) by simp
  have "{t..<t + 4096} \<inter> (words (tabs d m t i) \<union> leafs d m t i) = {}" if "i < ?L" for i
  proof -
    have "{t..<t + 4096} \<subseteq> words (foot d m t)" using foot_self [of t d m] unfolding words_def by blast
    then show ?thesis using tabs_disjoint(1) [OF less.prems(1) L [OF that]] leafs_disjoint(1) [OF less.prems(2), of i] that by auto
  qed
  then have dt: "{t..<t + 4096} \<inter> area ?C = {}" unfolding ar by blast
  have ft: "frame_set (Size4K, t) = {t..<t + 4096}" by (simp add: frame_set_def BYTES_def)
  have "\<forall>x \<in> set (map frame_set ?C). x \<inter> frame_set (Size4K, t) = {}" unfolding ft using dt by fastforce
  then have "apart (map frame_set (regions (Suc d) m t))" using ap by (simp add: apart_append)
  moreover have "\<forall>(S, f) \<in> set (regions (Suc d) m t). 0 < f \<and> BYTES S dvd f \<and> f + BYTES S \<le> 2 ^ 48"
    using E(1) tree_table_ok [OF less.prems(1)] by (auto simp: framed_def table_ok_def BYTES_def)
  moreover have "area (regions (Suc d) m t) = {t..<t + 4096} \<union> area ?C" unfolding ft [symmetric] by auto
  ultimately show ?case unfolding framed_def ar by blast
qed

end
