(* ===== verification/User_Mapping.thy ===== *)
theory User_Mapping
  imports User_Teardown
begin

text \<open>
  The invariant of user address spaces, and that mapping pages in one keeps it: each page takes fresh frames and leaves
  every other translation and the kernel's tables alone.
\<close>

section \<open>The invariant\<close>

definition user_leafs :: "kernel \<Rightarrow> address \<Rightarrow> address set" where
  "user_leafs k u = (\<Union>i<510. leafs 3 (k_mem k) u i)"

definition user_tables :: "kernel \<Rightarrow> address \<Rightarrow> address set" where
  "user_tables k u = {u..<u + 4096} \<union> (\<Union>i<510. words (tabs 3 (k_mem k) u i))"

definition kernel_tables :: "kernel \<Rightarrow> address \<Rightarrow> address set" where
  "kernel_tables k u = words (tabs 3 (k_mem k) u 510) \<union> words (tabs 3 (k_mem k) u 511)"

definition user_space :: "cpu \<Rightarrow> address \<Rightarrow> bitmap \<Rightarrow> kernel \<Rightarrow> address \<Rightarrow> bool" where
  "user_space c t v k u \<longleftrightarrow> table_inv (k_ok c t v) k_free k_mem 3 k u \<and> good 3 (k_mem k) u {..<510} \<and> user_leafs k u \<inter> k_free k = {}"

definition user_mem :: "kernel \<Rightarrow> address \<Rightarrow> address set" where
  "user_mem k u = user_tables k u \<union> user_leafs k u"

lemma foot_parts: "words (foot 3 (k_mem k) u) = user_tables k u \<union> kernel_tables k u"
proof -
  have "{..<512::nat} = {..<510} \<union> {510, 511}" by auto
  then show ?thesis by (auto simp: numeral_3_eq_3 foot_Suc tabs_def words_UN user_tables_def kernel_tables_def)
qed

lemma entry_in_foot: "i < 512 \<Longrightarrow> t + 8 * i \<in> words (foot d m t)"
  by (cases d) (simp_all add: foot_Suc)

lemma parts_disjoint:
  assumes "tree_ok 3 (k_mem k) u"
  shows "user_tables k u \<inter> kernel_tables k u = {}"
proof -
  note d = tabs_disjoint(2) [OF assms]
  have "words (tabs 3 (k_mem k) u i) \<inter> kernel_tables k u = {}" if "i < 510" for i
    using d [of i 510] d [of i 511] that by (auto simp: kernel_tables_def)
  moreover have "{u..<u + 4096} \<inter> kernel_tables k u = {}"
    using tabs_disjoint(1) [OF assms, of 510] tabs_disjoint(1) [OF assms, of 511] by (auto simp: kernel_tables_def)
  ultimately show ?thesis by (auto simp: user_tables_def)
qed

lemma user_space_cpu:
  assumes "user_space c t v k u" and "4096 dvd cpu_ttbr0 c'"
  shows "user_space c' t v (k\<lparr>k_cpu := c'\<rparr>) u" and "user_mem (k\<lparr>k_cpu := c'\<rparr>) u = user_mem k u"
    and "kernel_tables (k\<lparr>k_cpu := c'\<rparr>) u = kernel_tables k u"
proof -
  have "k_mem (k\<lparr>k_cpu := c'\<rparr>) = k_mem k" "k_free (k\<lparr>k_cpu := c'\<rparr>) = k_free k" by (simp_all add: k_mem_def k_free_def)
  then show "user_space c' t v (k\<lparr>k_cpu := c'\<rparr>) u" "user_mem (k\<lparr>k_cpu := c'\<rparr>) u = user_mem k u" "kernel_tables (k\<lparr>k_cpu := c'\<rparr>) u = kernel_tables k u"
    using assms by (auto simp: user_space_def table_inv_def k_ok_def user_mem_def user_tables_def user_leafs_def kernel_tables_def)
qed

lemma k_cpu_id: "k_ok c t v k \<Longrightarrow> k\<lparr>k_cpu := c\<rparr> = k"
  by (cases k) (simp add: k_ok_def)

section \<open>Mapping one page\<close>

text \<open>\<open>grown c t v u flags k start fs k'\<close>: the pages from \<open>start\<close> on were added to the table \<open>u\<close>, backed by the frames \<open>fs\<close>.
  Each page takes at most its frame and three tables from the free frames.\<close>

definition grown :: "cpu \<Rightarrow> address \<Rightarrow> bitmap \<Rightarrow> address \<Rightarrow> page_flags \<Rightarrow> kernel \<Rightarrow> page \<Rightarrow> frame list \<Rightarrow> kernel \<Rightarrow> bool" where
  "grown c t v u flags k start fs k' \<longleftrightarrow> user_space c t v k' u \<and> apart (map (\<lambda>f. {f..<f + 4096}) fs) \<and> (\<forall>f \<in> set fs. frame_fresh Size4K k f)
     \<and> k_free k' \<subseteq> k_free k \<and> card (k_free k) \<le> card (k_free k') + length fs * 16384
     \<and> k_free k' \<union> user_tables k' u = k_free k \<union> user_tables k u - frames_of Size4K fs
     \<and> user_leafs k' u = user_leafs k u \<union> frames_of Size4K fs
     \<and> kernel_tables k' u = kernel_tables k u \<and> (\<forall>x. x \<notin> k_free k \<union> user_tables k u \<longrightarrow> k_mem k' x = k_mem k x)
     \<and> (\<forall>a < 2 ^ 48. leaf (k_mem k') u (indices a) =
          (if start \<le> a \<and> a < start + length fs * 4096 then Some (of_nat (fs ! ((a - start) div 4096)) OR map_flags Size4K flags, 0)
           else leaf (k_mem k) u (indices a)))"

lemma good_grown:
  assumes g: "good 3 m u {..<510}" and fr: "(\<Union>i<510. leafs 3 m u i) \<inter> F = {}" and p: "hd p < 510" "p \<in> paths 4"
    and l: "\<And>ks. ks \<in> paths 4 \<Longrightarrow> leaf m' u ks = (if ks = p then Some (w, 0) else leaf m u ks)"
    and w: "pte_present w" "pte_address w = f" "0 < f" "4096 dvd f" "f + 4096 \<le> 2 ^ 48"
    and f: "{f..<f + 4096} \<subseteq> F" "{f..<f + 4096} \<inter> words (foot 3 m' u) = {}" and ft: "words (foot 3 m' u) \<subseteq> words (foot 3 m u) \<union> F"
  shows "good 3 m' u {..<510}"
proof -
  have lw: "lregion (w, 0) = {f..<f + 4096}" using w(2) by (simp add: lregion_def)
  have cons: "i # ks \<in> paths 4" if "i < 510" "ks \<in> paths 3" for i ks using that by (auto simp: paths_def)
  have old: "leaf_fine 3 m u w' e \<and> lregion (w', e) \<inter> F = {}" if "i < 510" "ks \<in> paths 3" "leaf m u (i # ks) = Some (w', e)" for i ks w' e
    using g fr that unfolding good_def leafs_def by blast
  have "leaf_fine 3 m' u w' e" if "i < 510" "ks \<in> paths 3" "leaf m' u (i # ks) = Some (w', e)" for i ks w' e
  proof (cases "i # ks = p")
    case True
    then have "w' = w" "e = 0" using l [OF cons [OF that(1,2)]] that(3) by auto
    then show ?thesis using w f lw by (simp add: leaf_fine_def)
  next
    case False
    then have "leaf_fine 3 m u w' e" "lregion (w', e) \<inter> F = {}" using old [OF that(1,2)] l [OF cons [OF that(1,2)]] that(3) by auto
    then show ?thesis using ft by (auto simp: leaf_fine_def)
  qed
  moreover have "e = e' \<and> take (Suc 3 - e) (i # ks) = take (Suc 3 - e) (j # ls)"
    if h: "i < 510" "ks \<in> paths 3" "j < 510" "ls \<in> paths 3" "leaf m' u (i # ks) = Some (w1, e)" "leaf m' u (j # ls) = Some (w2, e')"
      "lregion (w1, e) \<inter> lregion (w2, e') \<noteq> {}" for i ks j ls w1 w2 e e'
  proof -
    have a: "if i # ks = p then w1 = w \<and> e = 0 else leaf m u (i # ks) = Some (w1, e)" using l [OF cons [OF h(1,2)]] h(5) by auto
    have b: "if j # ls = p then w2 = w \<and> e' = 0 else leaf m u (j # ls) = Some (w2, e')" using l [OF cons [OF h(3,4)]] h(6) by auto
    have c: "lregion (w1, e) \<inter> F = {}" if "i # ks \<noteq> p" using old [OF h(1,2)] a that by auto
    have d: "lregion (w2, e') \<inter> F = {}" if "j # ls \<noteq> p" using old [OF h(3,4)] b that by auto
    show ?thesis
    proof (cases "i # ks = p \<or> j # ls = p")
      case True
      then have "i # ks = p \<and> j # ls = p" using a b c d h(7) f(1) lw by (auto split: if_splits)
      then show ?thesis using a b by simp
    next
      case False
      then show ?thesis using a b g h unfolding good_def by (metis lessThan_iff)
    qed
  qed
  ultimately show ?thesis unfolding good_def lessThan_iff by blast
qed

lemma good_cong:
  assumes g: "good d m t I" and l: "\<And>i ks. i \<in> I \<Longrightarrow> ks \<in> paths d \<Longrightarrow> leaf m' t (i # ks) = leaf m t (i # ks)" and f: "foot d m' t = foot d m t"
  shows "good d m' t I"
  unfolding good_def
proof (intro conjI ballI allI impI)
  fix i ks w e
  assume a: "i \<in> I" "ks \<in> paths d" "leaf m' t (i # ks) = Some (w, e)"
  have "leaf_fine d m t w e" using g [unfolded good_def, THEN conjunct1, rule_format, OF a(1,2), of w e] a l [OF a(1,2)] by simp
  then show "leaf_fine d m' t w e" by (simp add: leaf_fine_def f)
next
  fix i ks j ls w e w' e'
  assume a: "i \<in> I" "ks \<in> paths d" "j \<in> I" "ls \<in> paths d" "leaf m' t (i # ks) = Some (w, e)" "leaf m' t (j # ls) = Some (w', e')"
    "lregion (w, e) \<inter> lregion (w', e') \<noteq> {}"
  have b: "leaf m t (i # ks) = Some (w, e)" "leaf m t (j # ls) = Some (w', e')" using a l [OF a(1,2)] l [OF a(3,4)] by simp_all
  note h = g [unfolded good_def, THEN conjunct2, rule_format, OF a(1-4) b a(7)]
  show "e = e'" "take (Suc d - e) (i # ks) = take (Suc d - e) (j # ls)" by (fact conjunct1 [OF h], fact conjunct2 [OF h])
qed

lemma parts_cong:
  assumes T: "tree_ok 3 (k_mem k) u" and same: "\<forall>x \<in> words (foot 3 (k_mem k) u). k_mem k' x = k_mem k x"
  shows "user_tables k' u = user_tables k u" and "user_leafs k' u = user_leafs k u" and "kernel_tables k' u = kernel_tables k u"
    and "good 3 (k_mem k) u {..<510} \<Longrightarrow> good 3 (k_mem k') u {..<510}"
proof -
  have lf: "leaf (k_mem k') u ks = leaf (k_mem k) u ks" if "ks \<in> paths 4" for ks
    using that by (intro leaf_cong [OF same]) (auto simp: paths_def)
  have c: "i # ks \<in> paths 4" if "i < 510" "ks \<in> paths 3" for i ks using that by (auto simp: paths_def)
  have tb: "tabs 3 (k_mem k') u i = tabs 3 (k_mem k) u i" if "i < 512" for i
  proof -
    have "words (tabs 3 (k_mem k) u i) \<subseteq> words (foot 3 (k_mem k) u)" by (rule words_mono [OF tabs_foot [OF T that]])
    moreover have "u + 8 * i \<in> words (foot 3 (k_mem k) u)" by (rule entry_in_foot [OF that])
    ultimately have "below 2 (k_mem k') u i = below 2 (k_mem k) u i" using same by (intro below_cong) (auto simp: tabs_def numeral_3_eq_3 numeral_2_eq_2)
    then show ?thesis by (simp add: tabs_def numeral_3_eq_3 numeral_2_eq_2)
  qed
  show "user_tables k' u = user_tables k u" "kernel_tables k' u = kernel_tables k u" using tb by (simp_all add: user_tables_def kernel_tables_def)
  show "user_leafs k' u = user_leafs k u" using lf [OF c] by (auto simp: user_leafs_def leafs_def simp del: leaf.simps)
  show "good 3 (k_mem k') u {..<510}" if "good 3 (k_mem k) u {..<510}"
    by (rule good_cong [OF that _ foot_cong [OF same]]) (use lf [OF c] in simp)
qed

text \<open>A free frame is taken first.\<close>

lemma user_take_frame:
  assumes us: "user_space c t v k u"
  shows "phys_acquire Size4K k = Ok (k, None) \<and> k_free k = {} \<or>
    (\<exists>k1 f. phys_acquire Size4K k = Ok (k1, Some f) \<and> user_space c t v k1 u \<and> frame_fresh Size4K k f \<and> k_free k1 = k_free k - {f..<f + 4096}
      \<and> (\<forall>x. x \<notin> k_free k \<longrightarrow> k_mem k1 x = k_mem k x))"
proof -
  have inv: "table_inv (k_ok c t v) k_free k_mem 3 k u" and k: "k_ok c t v k" and T: "tree_ok 3 (k_mem k) u"
    using us by (auto simp: user_space_def table_inv_def)
  have B: "BYTES Size4K = 4096" by (simp add: BYTES_def)
  from kphys.alloc_cases [OF k, of Size4K] show ?thesis
  proof (elim disjE exE conjE)
    fix k1 f
    assume a: "phys_acquire Size4K k = Ok (k1, Some f)" "k_ok c t v k1" "0 < f" "BYTES Size4K dvd f"
      "{f..<f + BYTES Size4K} \<subseteq> k_free k" "k_free k1 = k_free k - {f..<f + BYTES Size4K}" "\<forall>a. a \<notin> k_free k \<longrightarrow> k_mem k1 a = k_mem k a"
    have "k_free k1 \<subseteq> k_free k" by (simp add: a(6))
    note cong = kphys.tinv_cong [OF inv a(2) this a(7)]
    have same: "\<forall>x \<in> words (foot 3 (k_mem k) u). k_mem k1 x = k_mem k x" using a(7) inv unfolding table_inv_def by blast
    note eqs = parts_cong [OF T same]
    have "user_space c t v k1 u" using us cong(1) eqs a(6) by (auto simp: user_space_def)
    then show ?thesis using a unfolding B by (auto simp: frame_fresh_def B)
  qed (use kphys.alloc_4k [OF k] in simp)
qed

lemma leafs_grown:
  assumes p: "hd p < 510" "p \<in> paths 4" and l: "\<And>ks. ks \<in> paths 4 \<Longrightarrow> leaf m' u ks = (if ks = p then Some (w, 0) else leaf m u ks)"
    and n: "leaf m u p = None"
  shows "(\<Union>i<510. leafs 3 m' u i) = (\<Union>i<510. leafs 3 m u i) \<union> lregion (w, 0)"
proof -
  define U where "U = (\<Union>i<510. (#) i ` paths 3)"
  define A where "A = (\<lambda>m ks. case leaf m u ks of None \<Rightarrow> {} | Some l \<Rightarrow> lregion l)"
  have "x \<in> A m ks \<longleftrightarrow> (\<exists>w e. leaf m u ks = Some (w, e) \<and> x \<in> lregion (w, e))" for x m ks
    by (simp add: A_def split: option.split)
  then have "leafs 3 m u i = (\<Union>ks \<in> paths 3. A m (i # ks))" for m i by (simp add: leafs_def set_eq_iff del: leaf.simps)
  then have eq: "(\<Union>i<510. leafs 3 m u i) = (\<Union>ks \<in> U. A m ks)" for m by (simp add: U_def)
  have "p \<in> U" using p by (cases p) (auto simp: U_def paths_def)
  moreover have "A m p = {}" using n by (simp add: A_def)
  moreover have "A m' ks = (if ks = p then lregion (w, 0) else A m ks)" if "ks \<in> U" for ks
  proof -
    have "ks \<in> paths 4" using that by (auto simp: U_def paths_def)
    then show ?thesis using l [of ks] by (simp add: A_def)
  qed
  ultimately show ?thesis unfolding eq by (auto split: if_splits)
qed

lemma user_map_page:
  assumes us: "user_space c t v k u" and page: "4096 dvd page" "page < 510 * 2 ^ 39" and nb: "leaf (k_mem k) u (indices page) = None"
    and fl: "flags_fit Size4K (map_flags Size4K flags)" and f: "0 < f" "4096 dvd f" "f + 4096 \<le> 2 ^ 48"
    and dj: "{f..<f + 4096} \<inter> (k_free k \<union> words (foot 3 (k_mem k) u) \<union> user_leafs k u) = {}"
  shows "pt_map phys_acquire k_mem k_put Size4K k u page f flags = Panic UnwrapNone \<and> card (k_free k) < 12288 \<or>
    (\<exists>k'. pt_map phys_acquire k_mem k_put Size4K k u page f flags = Ok (k', page) \<and> user_space c t v k' u \<and> k_free k' \<subseteq> k_free k
      \<and> card (k_free k) \<le> card (k_free k') + 12288
      \<and> k_free k' \<union> user_tables k' u = k_free k \<union> user_tables k u \<and> user_leafs k' u = user_leafs k u \<union> {f..<f + 4096} \<and> kernel_tables k' u = kernel_tables k u
      \<and> (\<forall>x. x \<notin> k_free k \<union> user_tables k u \<longrightarrow> k_mem k' x = k_mem k x)
      \<and> (\<forall>a < 2 ^ 48. leaf (k_mem k') u (indices a) = (if page \<le> a \<and> a < page + 4096 then Some (of_nat f OR map_flags Size4K flags, 0) else leaf (k_mem k) u (indices a))))"
proof -
  have inv: "table_inv (k_ok c t v) k_free k_mem 3 k u" and g: "good 3 (k_mem k) u {..<510}" and lf: "user_leafs k u \<inter> k_free k = {}"
    using us by (auto simp: user_space_def)
  have T: "tree_ok 3 (k_mem k) u" and fd: "k_free k \<inter> words (foot 3 (k_mem k) u) = {}" using inv by (auto simp: table_inv_def)
  let ?w = "of_nat f OR map_flags Size4K flags" and ?i = "get_index L4 page"
  have lev: "map_levels Size4K = 4" "length (indices page) = 4" by (simp_all add: indices_def)
  have p: "hd (indices page) < 510" "indices page \<in> paths 4" using page(2) indices_less lev by (auto simp: paths_def indices_def get_index_eq)
  have i: "?i < 510" using p(1) by (simp add: indices_def)
  have nc: "\<not> covers (k_mem k) u page (4 - map_levels Size4K)" using nb by (simp add: covers_def)
  have f48: "f < 2 ^ 48" using f(3) by simp
  have p48: "page < 2 ^ 48" using page(2) by simp
  have w: "pte_address ?w = f" "pte_present ?w" using pte_set_Ok [OF f(2) f48 fl] by auto
  show ?thesis
  proof (cases "pt_map phys_acquire k_mem k_put Size4K k u page f flags = Panic UnwrapNone")
    case False
    then obtain k' where r: "pt_map phys_acquire k_mem k_put Size4K k u page f flags = Ok (k', page)" and P: "kphys.map_post c t v 3 k k' u (indices page) ?w"
      using kphys.pt_map_cases [OF inv f(2) f48 fl p48 nc] lev by auto
    have inv': "table_inv (k_ok c t v) k_free k_mem 3 k' u" and fr: "k_free k' \<subseteq> k_free k"
      and cover: "words (foot 3 (k_mem k') u) \<union> k_free k' = words (foot 3 (k_mem k) u) \<union> k_free k"
      and out: "\<And>x. x \<notin> k_free k \<union> words (foot 3 (k_mem k) u) \<Longrightarrow> k_mem k' x = k_mem k x"
      and lv: "\<And>ks. ks \<in> paths 4 \<Longrightarrow> leaf (k_mem k') u ks = (if ks = indices page then Some (?w, 0) else leaf (k_mem k) u ks)"
      using P lev unfolding kphys.map_post_def paths_def by auto
    have T': "tree_ok 3 (k_mem k') u" and fd': "k_free k' \<inter> words (foot 3 (k_mem k') u) = {}" using inv' by (auto simp: table_inv_def)
    note kept = frame_source.pt_map_kept [OF kphys.frame_source_axioms inv f(2) f48 fl nb r]
    have b: "tabs 3 (k_mem k') u j = tabs 3 (k_mem k) u j" if "j < 512" "j \<noteq> ?i" for j
      using siblings_kept(1) [OF T [unfolded numeral_3_eq_3] _ kept [unfolded numeral_2_eq_2] that] i by (simp add: tabs_def numeral_3_eq_3)
    have kt: "kernel_tables k' u = kernel_tables k u" using b [of 510] b [of 511] i by (simp add: kernel_tables_def)
    have dis: "user_tables k u \<inter> kernel_tables k u = {}" "user_tables k' u \<inter> kernel_tables k u = {}"
      using parts_disjoint [OF T] parts_disjoint [OF T'] kt by auto
    have tab: "k_free k' \<union> user_tables k' u = k_free k \<union> user_tables k u"
      using cover fd fd' dis unfolding foot_parts kt by blast
    have ul: "user_leafs k' u = user_leafs k u \<union> {f..<f + 4096}"
      using leafs_grown [OF p lv nb] w(1) by (simp add: user_leafs_def lregion_def)
    have mem: "k_mem k' x = k_mem k x" if x: "x \<notin> k_free k \<union> user_tables k u" for x
    proof (cases "x \<in> kernel_tables k u")
      case True
      then have "x \<in> words (siblings 2 (k_mem k) u ?i)"
        using i by (auto simp: kernel_tables_def tabs_def numeral_3_eq_3 numeral_2_eq_2 siblings_def words_UN)
      moreover have "x \<noteq> u + 8 * ?i" using x entry_in_table [of ?i u] i by (auto simp: user_tables_def)
      ultimately show ?thesis using kept by blast
    qed (use x out in \<open>simp add: foot_parts\<close>)
    have "good 3 (k_mem k') u {..<510}"
      by (rule good_grown [OF g _ p lv, where F = "k_free k \<union> {f..<f + 4096}" and f = f])
        (use w f dj lf cover in \<open>auto simp: user_leafs_def\<close>)
    then have "user_space c t v k' u" using inv' ul lf fr dj by (auto simp: user_space_def)
    moreover have "leaf (k_mem k') u (indices a) = (if page \<le> a \<and> a < page + 4096 then Some (?w, 0) else leaf (k_mem k) u (indices a))" if "a < 2 ^ 48" for a
    proof -
      have "indices a \<in> paths 4" using indices_less by (auto simp: paths_def indices_def)
      moreover have "indices a = indices page \<longleftrightarrow> page \<le> a \<and> a < page + 4096"
        using page_prefix [of Size4K page a] page(1) p48 that lev by (simp add: BYTES_def indices_def)
      ultimately show ?thesis using lv by simp
    qed
    moreover have "card (k_free k) \<le> card (k_free k') + 12288"
      using frame_source.pt_map_card [OF kphys.frame_source_axioms inv f(2) f48 fl r] by simp
    ultimately show ?thesis using r fr kt mem tab ul by blast
  qed (use kphys.pt_map_cases [OF inv f(2) f48 fl p48 nc] in simp)
qed

text \<open>Taking a frame and mapping it.\<close>

lemma user_page_cases:
  assumes us: "user_space c t v k u" and page: "4096 dvd page" "page < 510 * 2 ^ 39" and nb: "leaf (k_mem k) u (indices page) = None"
    and fl: "flags_fit Size4K (map_flags Size4K flags)" and c': "4096 dvd cpu_ttbr0 c'"
  shows "phys_acquire Size4K k = Ok (k, None) \<and> k_free k = {} \<or>
    (\<exists>k1 f. phys_acquire Size4K k = Ok (k1, Some f) \<and> k_ok c t v k1 \<and>
       (pt_map phys_acquire k_mem k_put Size4K (k1\<lparr>k_cpu := c'\<rparr>) u page f flags = Panic UnwrapNone \<and> card (k_free k) < 16384 \<or>
        (\<exists>k'. pt_map phys_acquire k_mem k_put Size4K (k1\<lparr>k_cpu := c'\<rparr>) u page f flags = Ok (k', page) \<and> grown c' t v u flags k page [f] k')))"
  using user_take_frame [OF us]
proof (elim disjE exE conjE)
  fix k0 f
  assume a0: "phys_acquire Size4K k = Ok (k0, Some f)" "user_space c t v k0 u" "frame_fresh Size4K k f" "k_free k0 = k_free k - {f..<f + 4096}"
    "\<forall>x. x \<notin> k_free k \<longrightarrow> k_mem k0 x = k_mem k x"
  define k1 where "k1 = k0\<lparr>k_cpu := c'\<rparr>"
  have "k_free k1 = k_free k0" "k_mem k1 = k_mem k0" by (simp_all add: k1_def k_free_def k_mem_def)
  then have a: "user_space c' t v k1 u" "frame_fresh Size4K k f" "k_free k1 = k_free k - {f..<f + 4096}"
    "\<forall>x. x \<notin> k_free k \<longrightarrow> k_mem k1 x = k_mem k x"
    using a0 user_space_cpu(1) [OF a0(2) c'] by (simp_all add: k1_def)
  have inv: "table_inv (k_ok c t v) k_free k_mem 3 k u" and T: "tree_ok 3 (k_mem k) u" and lf: "user_leafs k u \<inter> k_free k = {}"
    and fd: "k_free k \<inter> words (foot 3 (k_mem k) u) = {}" and bnd: "k_free k \<subseteq> {..<2 ^ 48}"
    using us by (auto simp: user_space_def table_inv_def)
  have f: "0 < f" "4096 dvd f" "{f..<f + 4096} \<subseteq> k_free k" using a(2) by (auto simp: frame_fresh_def BYTES_def)
  have "f + 4095 \<in> k_free k" using f(3) by (rule subsetD) simp
  then have f48: "f + 4096 \<le> 2 ^ 48" using bnd by auto
  have same: "\<forall>x \<in> words (foot 3 (k_mem k) u). k_mem k1 x = k_mem k x" using a(4) fd by blast
  note eqs = parts_cong [OF T same] foot_cong [OF same]
  have lv: "leaf (k_mem k1) u (indices a) = leaf (k_mem k) u (indices a)" for a
    using indices_less by (intro leaf_cong [OF same]) (auto simp: indices_def)
  have dj: "{f..<f + 4096} \<inter> (k_free k1 \<union> words (foot 3 (k_mem k1) u) \<union> user_leafs k1 u) = {}"
    using f(3) lf fd a(3) unfolding eqs by blast
  have nb1: "leaf (k_mem k1) u (indices page) = None" using nb lv by simp
  have fin: "finite (k_free k)" using bnd by (rule finite_subset) simp
  have cd: "card (k_free k) = card (k_free k1) + 4096" using card_Diff_subset [OF finite_subset [OF f(3) fin] f(3)] card_mono [OF fin f(3)] a(3) by simp
  have ok0: "k_ok c t v k0" using a0(2) by (simp add: user_space_def table_inv_def)
  from user_map_page [OF a(1) page nb1 fl f(1,2) f48 dj] show ?thesis
  proof (elim disjE exE conjE)
    fix k'
    assume b: "pt_map phys_acquire k_mem k_put Size4K k1 u page f flags = Ok (k', page)" "user_space c' t v k' u" "k_free k' \<subseteq> k_free k1" and cd': "card (k_free k1) \<le> card (k_free k') + 12288" and b':
      "k_free k' \<union> user_tables k' u = k_free k1 \<union> user_tables k1 u" "user_leafs k' u = user_leafs k1 u \<union> {f..<f + 4096}" "kernel_tables k' u = kernel_tables k1 u"
      "\<forall>x. x \<notin> k_free k1 \<union> user_tables k1 u \<longrightarrow> k_mem k' x = k_mem k1 x"
      "\<forall>a < 2 ^ 48. leaf (k_mem k') u (indices a) = (if page \<le> a \<and> a < page + 4096 then Some (of_nat f OR map_flags Size4K flags, 0) else leaf (k_mem k1) u (indices a))"
    have fs: "frames_of Size4K [f] = {f..<f + 4096}" by (simp add: frames_of_def BYTES_def)
    have "{f..<f + 4096} \<inter> user_tables k u = {}" using f(3) fd unfolding foot_parts by blast
    then have "k_free k' \<union> user_tables k' u = k_free k \<union> user_tables k u - frames_of Size4K [f]" using b'(1) a(3) fs eqs(1) by auto
    moreover have "\<forall>x. x \<notin> k_free k \<union> user_tables k u \<longrightarrow> k_mem k' x = k_mem k x" using b'(4) a(3,4) eqs(1) by auto
    moreover have "\<forall>a < 2 ^ 48. leaf (k_mem k') u (indices a) = (if page \<le> a \<and> a < page + length [f] * 4096
        then Some (of_nat ([f] ! ((a - page) div 4096)) OR map_flags Size4K flags, 0) else leaf (k_mem k) u (indices a))"
      using b'(5) lv by (auto simp: div_eq_0_iff)
    ultimately have "grown c' t v u flags k page [f] k'" using a(2,3) b(2,3) b'(2,3) cd cd' eqs fs unfolding grown_def by auto
    then show ?thesis using a0(1) ok0 b(1) by (auto simp: k1_def)
  qed (use a0(1) ok0 cd in \<open>auto simp: k1_def\<close>)
qed simp

section \<open>Mapping many pages\<close>

lemma grown_Nil: "user_space c t v k u \<Longrightarrow> grown c t v u flags k start [] k"
  using parts_disjoint by (auto simp: grown_def frames_of_def)

lemma grownD:
  assumes "grown c t v u flags k start fs k'"
  shows "user_space c t v k' u" and "apart (map (\<lambda>f. {f..<f + 4096}) fs)" and "\<forall>f \<in> set fs. frame_fresh Size4K k f"
    and "k_free k' \<subseteq> k_free k" and "k_free k' \<union> user_tables k' u = k_free k \<union> user_tables k u - frames_of Size4K fs"
    and "user_leafs k' u = user_leafs k u \<union> frames_of Size4K fs"
    and "kernel_tables k' u = kernel_tables k u" and "\<And>x. x \<notin> k_free k \<union> user_tables k u \<Longrightarrow> k_mem k' x = k_mem k x"
    and "\<And>a. a < 2 ^ 48 \<Longrightarrow> leaf (k_mem k') u (indices a) =
          (if start \<le> a \<and> a < start + length fs * 4096 then Some (of_nat (fs ! ((a - start) div 4096)) OR map_flags Size4K flags, 0)
           else leaf (k_mem k) u (indices a))"
    and "card (k_free k) \<le> card (k_free k') + length fs * 16384"
  by (insert assms [unfolded grown_def], (elim conjE, assumption)+, elim conjE, blast, elim conjE, blast, elim conjE, assumption)

lemma grown_append:
  assumes "grown c t v u flags k start fs k1" and "grown c t v u flags k1 (start + length fs * 4096) gs k2"
  shows "grown c t v u flags k start (fs @ gs) k2"
  unfolding grown_def
proof (intro conjI allI impI)
  note a = grownD [OF assms(1)] and b = grownD [OF assms(2)]
  have fo: "frames_of Size4K (fs @ gs) = frames_of Size4K fs \<union> frames_of Size4K gs" by (auto simp: frames_of_def)
  have sub: "{g..<g + 4096} \<subseteq> k_free k1" if "g \<in> set gs" for g using b(3) that by (auto simp: frame_fresh_def BYTES_def)
  have fr: "k_free k1 \<inter> frames_of Size4K fs = {}" using a(5) by auto
  have "{f..<f + 4096} \<inter> {g..<g + 4096} = {}" if "f \<in> set fs" "g \<in> set gs" for f g
  proof -
    have "{f..<f + 4096} \<subseteq> frames_of Size4K fs" using that(1) unfolding frames_of_def by (auto simp: BYTES_def)
    then show ?thesis using sub [OF that(2)] fr by blast
  qed
  then show "apart (map (\<lambda>f. {f..<f + 4096}) (fs @ gs))" using a(2) b(2) unfolding map_append apart_append set_map by blast
  show "\<forall>f \<in> set (fs @ gs). frame_fresh Size4K k f" using a(3,4) b(3) by (auto simp: frame_fresh_def)
  show "k_free k2 \<union> user_tables k2 u = k_free k \<union> user_tables k u - frames_of Size4K (fs @ gs)" using a(5) b(5) unfolding fo by blast
  show "k_mem k2 x = k_mem k x" if "x \<notin> k_free k \<union> user_tables k u" for x
    using a(5) a(8) [OF that] b(8) [of x] that by auto
  show "user_space c t v k2 u" "k_free k2 \<subseteq> k_free k" "user_leafs k2 u = user_leafs k u \<union> frames_of Size4K (fs @ gs)" "kernel_tables k2 u = kernel_tables k u"
    using b(1) a(4) b(4) a(6) b(6) a(7) b(7) by (simp_all add: fo Un_assoc)
  show "card (k_free k) \<le> card (k_free k2) + length (fs @ gs) * 16384" using a(10) b(10) by (simp add: algebra_simps)
  fix x :: nat
  assume x: "x < 2 ^ 48"
  show "leaf (k_mem k2) u (indices x) = (if start \<le> x \<and> x < start + length (fs @ gs) * 4096
      then Some (of_nat ((fs @ gs) ! ((x - start) div 4096)) OR map_flags Size4K flags, 0) else leaf (k_mem k) u (indices x))"
  proof (cases "start + length fs * 4096 \<le> x")
    case True
    then have "(x - start) div 4096 = length fs + (x - (start + length fs * 4096)) div 4096"
      using div_mult_self3 [of 4096 "length fs" "x - (start + length fs * 4096)"] by (simp add: add.commute)
    then show ?thesis unfolding b(9) [OF x] a(9) [OF x] using True by (simp add: nth_append)
  next
    case False
    then have "start \<le> x \<Longrightarrow> (x - start) div 4096 < length fs" by (simp add: div_less_iff_less_mult)
    then show ?thesis unfolding b(9) [OF x] a(9) [OF x] using False by (simp add: nth_append)
  qed
qed

lemma grown_cpu:
  assumes "grown c t v u flags k start fs k'" and "4096 dvd cpu_ttbr0 c'"
  shows "grown c' t v u flags k start fs (k'\<lparr>k_cpu := c'\<rparr>)" and "grown c t v u flags (k\<lparr>k_cpu := d\<rparr>) start fs k'"
proof -
  have eq: "k_mem (k\<lparr>k_cpu := d\<rparr>) = k_mem k" "k_free (k\<lparr>k_cpu := d\<rparr>) = k_free k" for k d by (simp_all add: k_mem_def k_free_def)
  show "grown c' t v u flags k start fs (k'\<lparr>k_cpu := c'\<rparr>)" "grown c t v u flags (k\<lparr>k_cpu := d\<rparr>) start fs k'"
    using assms user_space_cpu(1) by (auto simp: grown_def frame_fresh_def user_tables_def user_leafs_def kernel_tables_def eq)
qed

lemma after_page:
  assumes g: "grown c t v u flags k start fs k'" and bnd: "start + (length fs + n) * 4096 \<le> 510 * 2 ^ 39"
    and nb: "\<forall>a. start \<le> a \<longrightarrow> a < start + (length fs + n) * 4096 \<longrightarrow> leaf (k_mem k) u (indices a) = None"
  shows "\<forall>a. start + length fs * 4096 \<le> a \<longrightarrow> a < start + length fs * 4096 + n * 4096 \<longrightarrow> leaf (k_mem k') u (indices a) = None"
  using grownD(9) [OF g] bnd nb by (auto simp: algebra_simps)

lemma sbrk_map_cases:
  "user_space c t v k u \<Longrightarrow> 4096 dvd page \<Longrightarrow> page + n * 4096 \<le> 510 * 2 ^ 39
   \<Longrightarrow> \<forall>a. page \<le> a \<longrightarrow> a < page + n * 4096 \<longrightarrow> leaf (k_mem k) u (indices a) = None \<Longrightarrow>
   sbrk_map u k page (page + n * 4096) = Panic UnwrapNone \<and> card (k_free k) < n * 16384 \<or>
   (\<exists>k' fs. sbrk_map u k page (page + n * 4096) = Ok k' \<and> length fs = n \<and> grown c t v u user_data_flags_4k k page fs k')"
proof (induction n arbitrary: k page)
  case 0
  then show ?case using grown_Nil by (auto simp: sbrk_map.simps)
next
  case (Suc n)
  let ?e = "page + Suc n * 4096"
  have k: "k_ok c t v k" using Suc.prems(1) by (simp add: user_space_def table_inv_def)
  have c: "4096 dvd cpu_ttbr0 c" using k by (simp add: k_ok_def)
  have p: "page < 510 * 2 ^ 39" "leaf (k_mem k) u (indices page) = None" using Suc.prems(3,4) by auto
  note step = sbrk_map.simps [of u k page ?e]
  from user_page_cases [OF Suc.prems(1,2) p flags_fit_all(3) c] show ?case
  proof (elim disjE exE conjE)
    fix k1 f k2
    assume a: "phys_acquire Size4K k = Ok (k1, Some f)" "k_ok c t v k1"
      "pt_map phys_acquire k_mem k_put Size4K (k1\<lparr>k_cpu := c\<rparr>) u page f user_data_flags_4k = Ok (k2, page)" "grown c t v u user_data_flags_4k k page [f] k2"
    have "page_forward Size4K page 1 = Ok (page + 4096)" using page_forward_Ok [of Size4K page 1] Suc.prems(2,3) by (simp add: BYTES_def USIZE_LIMIT_def)
    then have eq: "sbrk_map u k page ?e = sbrk_map u k2 (page + 4096) (page + 4096 + n * 4096)" using step a k_cpu_id [OF a(2)] by (simp add: add.assoc)
    have "\<forall>a. page + 4096 \<le> a \<longrightarrow> a < page + 4096 + n * 4096 \<longrightarrow> leaf (k_mem k2) u (indices a) = None"
      using after_page [OF a(4), of n] Suc.prems(3,4) by simp
    then have "sbrk_map u k2 (page + 4096) (page + 4096 + n * 4096) = Panic UnwrapNone \<and> card (k_free k2) < n * 16384 \<or>
        (\<exists>k' fs. sbrk_map u k2 (page + 4096) (page + 4096 + n * 4096) = Ok k' \<and> length fs = n \<and> grown c t v u user_data_flags_4k k2 (page + 4096) fs k')"
      using Suc.prems by (intro Suc.IH grownD(1) [OF a(4)]) (simp_all add: dvd_add)
    then show ?thesis unfolding eq
    proof (elim disjE exE conjE)
      fix k' fs
      assume b: "sbrk_map u k2 (page + 4096) (page + 4096 + n * 4096) = Ok k'" "length fs = n" "grown c t v u user_data_flags_4k k2 (page + 4096) fs k'"
      have "grown c t v u user_data_flags_4k k page ([f] @ fs) k'" using grown_append [OF a(4)] b(3) by simp
      then show "sbrk_map u k2 (page + 4096) (page + 4096 + n * 4096) = Panic UnwrapNone \<and> card (k_free k) < Suc n * 16384 \<or>
          (\<exists>k' fs. sbrk_map u k2 (page + 4096) (page + 4096 + n * 4096) = Ok k' \<and> length fs = Suc n \<and> grown c t v u user_data_flags_4k k page fs k')"
        using b by (intro disjI2 exI [of _ k'] exI [of _ "f # fs"]) simp
    qed (use grownD(10) [OF a(4)] in simp)
  qed (use step k_cpu_id in simp_all)
qed

lemma guarded_page_cases:
  assumes us: "user_space c t v k u" and page: "4096 dvd page" "page < 510 * 2 ^ 39" and nb: "leaf (k_mem k) u (indices page) = None"
    and fl: "flags_fit Size4K (map_flags Size4K flags)"
  shows "phys_acquire Size4K k = Ok (k, None) \<and> k_free k = {} \<or> (\<exists>k1 f. phys_acquire Size4K k = Ok (k1, Some f) \<and>
    (guarded_map k1 u page f flags = Panic UnwrapNone \<and> card (k_free k) < 16384 \<or> (\<exists>k'. guarded_map k1 u page f flags = Ok k' \<and> grown c t v u flags k page [f] k')))"
proof -
  have k: "k_ok c t v k" using us by (simp add: user_space_def table_inv_def)
  obtain g c' where g: "with_kernel_address_space k = Ok (g, k\<lparr>k_cpu := c'\<rparr>)" "page_tables_drop g c' = c" "cpu_ttbr0 c' = t"
    by (rule guard_Ok [OF k])
  have d: "4096 dvd cpu_ttbr0 c'" "4096 dvd cpu_ttbr0 c" "k_cpu k = c" using k g(3) by (auto simp: k_ok_def)
  have kt: "k_table k = t" "t \<noteq> 0" using k by (auto simp: k_ok_def)
  have e: "enable_temporarily t c = Ok (g, c')"
    using g(1) kt d(3) by (auto simp: with_kernel_address_space_def rbind_Ok_iff dest: arg_cong [where f = k_cpu])
  have w: "with_kernel_address_space k1 = Ok (g, k1\<lparr>k_cpu := c'\<rparr>)" if "k_ok c t v k1" for k1
    using that e by (auto simp: with_kernel_address_space_def k_ok_def)
  from user_page_cases [OF us page nb fl d(1)] show ?thesis
  proof (elim disjE exE conjE)
    fix k1 f k2
    assume a: "phys_acquire Size4K k = Ok (k1, Some f)" "k_ok c t v k1"
      "pt_map phys_acquire k_mem k_put Size4K (k1\<lparr>k_cpu := c'\<rparr>) u page f flags = Ok (k2, page)" "grown c' t v u flags k page [f] k2"
    have "k_cpu k2 = c'" using grownD(1) [OF a(4)] by (simp add: user_space_def table_inv_def k_ok_def)
    then have "guarded_map k1 u page f flags = Ok (k2\<lparr>k_cpu := c\<rparr>)" using w [OF a(2)] a(3) g(2) by (simp add: guarded_map_def drop_guard_def)
    then show ?thesis using a(1) grown_cpu(1) [OF a(4) d(2)] by auto
  next
    fix k1 f
    assume a: "phys_acquire Size4K k = Ok (k1, Some f)" "k_ok c t v k1"
      "pt_map phys_acquire k_mem k_put Size4K (k1\<lparr>k_cpu := c'\<rparr>) u page f flags = Panic UnwrapNone" "card (k_free k) < 16384"
    then show ?thesis using w by (simp add: guarded_map_def)
  qed simp
qed

lemma user_pages_cases:
  "user_space c t v k u \<Longrightarrow> 4096 dvd start \<Longrightarrow> start + (i + n) * 4096 \<le> 510 * 2 ^ 39 \<Longrightarrow> flags_fit Size4K (map_flags Size4K flags)
   \<Longrightarrow> \<forall>a. start + i * 4096 \<le> a \<longrightarrow> a < start + (i + n) * 4096 \<longrightarrow> leaf (k_mem k) u (indices a) = None \<Longrightarrow>
   user_pages flags u k start i n = Panic UnwrapNone \<and> card (k_free k) < n * 16384 \<or>
   (\<exists>k' fs. user_pages flags u k start i n = Ok k' \<and> length fs = n \<and> grown c t v u flags k (start + i * 4096) fs k')"
proof (induction n arbitrary: k i)
  case 0
  then show ?case using grown_Nil by auto
next
  case (Suc n)
  let ?p = "start + i * 4096"
  have p: "4096 dvd ?p" "?p < 510 * 2 ^ 39" "leaf (k_mem k) u (indices ?p) = None" using Suc.prems(2,3,5) by auto
  have fw: "page_forward Size4K start i = Ok ?p" using page_forward_Ok [of Size4K start i] Suc.prems(2,3) by (simp add: BYTES_def USIZE_LIMIT_def)
  from guarded_page_cases [OF Suc.prems(1) p Suc.prems(4)] show ?case
  proof (elim disjE exE conjE)
    fix k1 f k2
    assume a: "phys_acquire Size4K k = Ok (k1, Some f)" "guarded_map k1 u ?p f flags = Ok k2" "grown c t v u flags k ?p [f] k2"
    have eq: "user_pages flags u k start i (Suc n) = user_pages flags u k2 start (i + 1) n" using fw a by simp
    have "\<forall>a. start + (i + 1) * 4096 \<le> a \<longrightarrow> a < start + (i + 1 + n) * 4096 \<longrightarrow> leaf (k_mem k2) u (indices a) = None"
      using after_page [OF a(3), of n] Suc.prems(3,5) by (simp add: algebra_simps)
    then have "user_pages flags u k2 start (i + 1) n = Panic UnwrapNone \<and> card (k_free k2) < n * 16384 \<or>
        (\<exists>k' fs. user_pages flags u k2 start (i + 1) n = Ok k' \<and> length fs = n \<and> grown c t v u flags k2 (start + (i + 1) * 4096) fs k')"
      using Suc.prems by (intro Suc.IH grownD(1) [OF a(3)]) simp_all
    then show ?thesis unfolding eq
    proof (elim disjE exE conjE)
      fix k' fs
      assume b: "user_pages flags u k2 start (i + 1) n = Ok k'" "length fs = n" "grown c t v u flags k2 (start + (i + 1) * 4096) fs k'"
      have "grown c t v u flags k ?p ([f] @ fs) k'" using grown_append [OF a(3)] b(3) by (simp add: algebra_simps)
      then show "user_pages flags u k2 start (i + 1) n = Panic UnwrapNone \<and> card (k_free k) < Suc n * 16384 \<or>
          (\<exists>k' fs. user_pages flags u k2 start (i + 1) n = Ok k' \<and> length fs = Suc n \<and> grown c t v u flags k ?p fs k')"
        using b by (intro disjI2 exI [of _ k'] exI [of _ "f # fs"]) simp
    qed (use grownD(10) [OF a(3)] in simp)
  qed (use fw in simp_all)
qed

end
