(* ===== verification/User_Spec.thy ===== *)
theory User_Spec
  imports User_Mapping
begin

text \<open>
  Correctness of user address spaces: \<^verbatim>\<open>sbrk\<close> takes fresh frames, a new page table shares kernel memory, and dropping
  the memory state of a process gives back exactly what it took.
\<close>

section \<open>The calls of the kernel\<close>

lemma sbrk_cases:
  assumes us: "user_space c t v k (mm_page_table mm)" and hw: "4096 dvd mm_highwater mm" "mm_highwater mm + n * 4096 \<le> 510 * 2 ^ 39"
    and nb: "\<forall>a. mm_highwater mm \<le> a \<longrightarrow> a < mm_highwater mm + n * 4096 \<longrightarrow> leaf (k_mem k) (mm_page_table mm) (indices a) = None"
  shows "sbrk k mm n = Panic UnwrapNone \<and> card (k_free k) < n * 16384 \<or>
    (\<exists>k' fs. sbrk k mm n = Ok (k', mm\<lparr>mm_highwater := mm_highwater mm + n * 4096\<rparr>, Some (mm_highwater mm, mm_highwater mm + n * 4096))
      \<and> length fs = n \<and> grown c t v (mm_page_table mm) user_data_flags_4k k (mm_highwater mm) fs k')"
proof -
  let ?u = "mm_page_table mm" and ?h = "mm_highwater mm"
  have k: "k_ok c t v k" using us by (simp add: user_space_def table_inv_def)
  obtain g c' where g: "with_kernel_address_space k = Ok (g, k\<lparr>k_cpu := c'\<rparr>)" "page_tables_drop g c' = c" "cpu_ttbr0 c' = t"
    by (rule guard_Ok [OF k])
  have d: "4096 dvd cpu_ttbr0 c'" "4096 dvd cpu_ttbr0 c" using k g(3) by (auto simp: k_ok_def)
  have r: "sbrk_range ?h n = Ok (?h + n * 4096, ?h, ?h + n * 4096)" using sbrk_range_eq [OF hw(1), of n] hw(2) by (simp add: USIZE_LIMIT_def)
  have m: "k_mem (k\<lparr>k_cpu := c'\<rparr>) = k_mem k" by (simp add: k_mem_def)
  have "\<forall>a. ?h \<le> a \<longrightarrow> a < ?h + n * 4096 \<longrightarrow> leaf (k_mem (k\<lparr>k_cpu := c'\<rparr>)) ?u (indices a) = None" using nb m by simp
  from sbrk_map_cases [OF user_space_cpu(1) [OF us d(1)] hw this] show ?thesis
  proof (elim disjE exE conjE)
    fix k2 fs
    assume a: "sbrk_map ?u (k\<lparr>k_cpu := c'\<rparr>) ?h (?h + n * 4096) = Ok k2" "length fs = n" "grown c' t v ?u user_data_flags_4k (k\<lparr>k_cpu := c'\<rparr>) ?h fs k2"
    have "k_cpu k2 = c'" using grownD(1) [OF a(3)] by (simp add: user_space_def table_inv_def k_ok_def)
    moreover have "grown c t v ?u user_data_flags_4k k ?h fs (k2\<lparr>k_cpu := c\<rparr>)"
      using grown_cpu(2) [OF grown_cpu(1) [OF a(3) d(2)] d(2), of c] k_cpu_id [OF k] by simp
    ultimately show ?thesis using r g(1,2) a(1,2) by (auto simp: sbrk_def drop_guard_def)
  qed (use r g(1) in \<open>simp add: sbrk_def k_free_def\<close>)
qed

lemma mm_drop_Ok:
  assumes us: "user_space c t v k (mm_page_table mm)" and ne: "mm_page_table mm \<noteq> t"
  shows "\<exists>k'. mm_drop k mm = Ok k' \<and> k_ok c t v k' \<and> k_free k' = k_free k \<union> user_mem k (mm_page_table mm)
    \<and> (\<forall>x. x \<notin> user_mem k (mm_page_table mm) \<longrightarrow> k_mem k' x = k_mem k x)"
proof -
  let ?u = "mm_page_table mm"
  have k: "k_ok c t v k" using us by (simp add: user_space_def table_inv_def)
  obtain g c' where g: "with_kernel_address_space k = Ok (g, k\<lparr>k_cpu := c'\<rparr>)" "page_tables_drop g c' = c" "pg_new g = t" "cpu_ttbr0 c' = t"
    by (rule guard_Ok [OF k])
  define k1 where "k1 = k\<lparr>k_cpu := c'\<rparr>"
  have d: "4096 dvd cpu_ttbr0 c'" "4096 dvd cpu_ttbr0 c" using k g(4) by (auto simp: k_ok_def)
  have us1: "user_space c' t v k1 ?u" and um: "user_mem k1 ?u = user_mem k ?u" using user_space_cpu [OF us d(1)] by (simp_all add: k1_def)
  have eq: "k_mem k1 = k_mem k" "k_free k1 = k_free k" by (simp_all add: k1_def k_mem_def k_free_def)
  have T: "tree_ok 3 (k_mem k1) ?u" and gd: "good 3 (k_mem k1) ?u {..<510}" and k1: "k_ok c' t v k1" and lf: "user_leafs k1 ?u \<inter> k_free k1 = {}"
    and fd: "k_free k1 \<inter> words (foot 3 (k_mem k1) ?u) = {}" using us1 by (auto simp: user_space_def table_inv_def)
  have L: "limit (Suc 3) = 510" by (simp add: limit_def)
  have cov: "framed (regions 4 (k_mem k1) ?u)" "area (regions 4 (k_mem k1) ?u) = user_mem k1 ?u"
    using table_cover [OF T] gd unfolding L by (auto simp: user_mem_def user_tables_def user_leafs_def simp del: regions.simps)
  have "area (regions 4 (k_mem k1) ?u) \<inter> k_free k1 = {}" using lf fd unfolding cov(2) user_mem_def foot_parts by blast
  then have rel: "releasable k1 (regions 4 (k_mem k1) ?u)" using cov(1) by (auto simp: releasable_def framed_def USIZE_LIMIT_def simp del: regions.simps)
  have "pte_is_block (entry_at (k_mem k1) ?u i) \<Longrightarrow> entry_at (k_mem k1) ?u i = 0" if "i < 510" for i
    using tree_entry_ok [OF T [unfolded numeral_3_eq_3], of i] that by (auto simp: entry_ok_def)
  then have "no_block 4 (k_mem k1) ?u [0..<limit 4]" by (auto simp: no_block_def limit_def)
  then obtain k2 where k2: "release_user_page_table 4 k1 ?u = Ok k2" "released c' t v k1 (regions 4 (k_mem k1) ?u) k2"
    using release_Ok [OF _ k1 rel] by auto
  have "k_cpu k2 = c'" using k2(2) by (simp add: released_def k_ok_def)
  then have "mm_drop k mm = Ok (k2\<lparr>k_cpu := c\<rparr>)" using g k2(1) ne by (simp add: mm_drop_def drop_guard_def page_start_def k1_def)
  moreover have "k_ok c t v (k2\<lparr>k_cpu := c\<rparr>)" using k2(2) d(2) by (auto simp: released_def k_ok_def)
  ultimately show ?thesis using k2(2) [unfolded released_def cov(2) um, unfolded eq] by (intro exI [of _ "k2\<lparr>k_cpu := c\<rparr>"]) (simp add: k_mem_def k_free_def)
qed

text \<open>A new table owns the frame it is in and shares the subtree of kernel memory with the table in use.\<close>

lemma shared_table:
  assumes T: "tree_ok (Suc d) m ct" and same: "\<forall>x \<in> words (foot (Suc d) m ct). m' x = m x" and u: "table_ok u" "{u..<u + 4096} \<inter> words (foot (Suc d) m ct) = {}"
    and e': "\<forall>i < 512. entry_at m' u i = (if i = j then entry_at m ct j else 0)" and j: "j < 512"
  shows "tree_ok (Suc d) m' u" and "i < 512 \<Longrightarrow> below d m' u i = (if i = j then below d m ct j else {})"
    and "i < 512 \<Longrightarrow> ks \<in> paths (Suc d) \<Longrightarrow> leaf m' u (i # ks) = (if i = j then leaf m ct (i # ks) else None)"
proof -
  note e = e' [rule_format]
  have n: "get_next_table m' u i = (if i = j then get_next_table m ct j else None)" if "i < 512" for i
    using e [OF that] by (simp add: get_next_table_def pte_present_def pte_is_block_def Let_def flags_contains_def pte_flags_def PRESENT_def)
  have bj: "below d m ct j \<subseteq> foot (Suc d) m ct" using j by (auto simp: foot_Suc)
  then have sj: "\<forall>x \<in> words (below d m ct j). m' x = m x" using words_mono [OF bj] same by blast
  have ft: "foot d m' t' = foot d m t'" "tree_ok d m' t'" "\<And>ks. ks \<in> paths (Suc d) \<Longrightarrow> leaf m' t' ks = leaf m t' ks" if t': "get_next_table m ct j = Some t'" for t'
  proof -
    have s: "\<forall>x \<in> words (foot d m t'). m' x = m x" using sj t' by (simp add: below_def)
    show "foot d m' t' = foot d m t'" by (rule foot_cong [OF s])
    show "tree_ok d m' t'" using T t' j by (intro tree_cong [OF s]) (simp add: tree_ok.simps)
    show "leaf m' t' ks = leaf m t' ks" if "ks \<in> paths (Suc d)" for ks using that by (intro leaf_cong [OF s]) (auto simp: paths_def)
  qed
  show b: "below d m' u i = (if i = j then below d m ct j else {})" if "i < 512" for i
    using n [OF that] ft(1) by (auto simp: below_def split: option.split)
  have "u \<notin> below d m ct j" using u bj unfolding words_def by fastforce
  then show "tree_ok (Suc d) m' u" using u(1) T j e n b ft(2) by (auto simp: tree_ok.simps entry_ok_def split: if_splits)
  show "leaf m' u (i # ks) = (if i = j then leaf m ct (i # ks) else None)" if "i < 512" "ks \<in> paths (Suc d)"
    using e [OF that(1)] n [OF that(1)] ft(3) [OF _ that(2)] by (auto simp: Let_def split: option.split)
qed

lemma user_table_new_cases:
  assumes inv: "table_inv (k_ok c t v) k_free k_mem 3 k (cpu_ttbr0 c)"
  shows "user_table_new k = Panic UnwrapNone \<and> k_free k = {} \<or>
    (\<exists>k' u. user_table_new k = Ok (k', u) \<and> user_space (table_set u c) t v k' u \<and> user_mem k' u = {u..<u + 4096} \<and> {u..<u + 4096} \<subseteq> k_free k
      \<and> k_free k' = k_free k - {u..<u + 4096} \<and> kernel_tables k' u = words (tabs 3 (k_mem k) (cpu_ttbr0 c) 510)
      \<and> (\<forall>x. x \<notin> k_free k \<longrightarrow> k_mem k' x = k_mem k x)
      \<and> (\<forall>a < 2 ^ 48. leaf (k_mem k') u (indices a) = (if get_index L4 a = 510 then leaf (k_mem k) (cpu_ttbr0 c) (indices a) else None)))"
proof -
  let ?ct = "cpu_ttbr0 c"
  have k: "k_ok c t v k" and T: "tree_ok 3 (k_mem k) ?ct" and fd: "k_free k \<inter> words (foot 3 (k_mem k) ?ct) = {}" and bnd: "k_free k \<subseteq> {..<2 ^ 48}"
    using inv by (auto simp: table_inv_def)
  have ix: "get_index L4 (KERNEL_MEMORY_END - 1) = 510" by (simp add: get_index_eq KERNEL_MEMORY_END_def KERNEL_MEMORY_START_def)
  from kphys.alloc_frame4k_cases [OF k bnd] show ?thesis
  proof (elim disjE exE conjE)
    fix k0 u
    assume a: "alloc_frame4k phys_acquire k_mem k_put k = Ok (k0, u)" "k_ok c t v k0" "table_ok u" "{u..<u + 4096} \<subseteq> k_free k"
      "k_free k0 = k_free k - {u..<u + 4096}" "\<forall>x. x \<notin> k_free k \<longrightarrow> k_mem k0 x = k_mem k x" "\<forall>i < 512. entry_at (k_mem k0) u i = 0"
    have utd: "{u..<u + 4096} \<inter> words (foot 3 (k_mem k) ?ct) = {}" using a(4) fd by blast
    have z: "\<forall>x \<in> k_free k0. frame_zero (k_mem k0) u x = k_mem k0 x" unfolding a(5) by (auto simp: frame_zero_def BYTES_def)
    define k1 where "k1 = k_put k0 (frame_zero (k_mem k0) u)"
    have k1: "k_ok c t v k1" "k_free k1 = k_free k0" "k_mem k1 = frame_zero (k_mem k0) u" using kphys.put_mem_Ok [OF a(2) z] by (simp_all add: k1_def)
    have off: "u + 8 * 510 \<notin> k_free k1" using k1(2) a(5) by simp
    define w where "w = entry_at (k_mem k1) ?ct 510"
    define k2 where "k2 = k_put k1 (set_entry (k_mem k1) u 510 w)"
    have k2: "k_ok c t v k2" "k_free k2 = k_free k0" "k_mem k2 = set_entry (k_mem k1) u 510 w"
      using kphys.put_entry [OF k1(1) off, of w] k1(2) by (simp_all add: k2_def)
    have out: "k_mem k1 x = k_mem k x \<and> k_mem k2 x = k_mem k x" if "x \<notin> k_free k" for x
    proof -
      have "x \<notin> {u..<u + 4096}" using that a(4) by blast
      then have "\<not> (u \<le> x \<and> x < u + BYTES Size4K)" "x \<noteq> u + 8 * 510" by (simp_all add: BYTES_def) linarith+
      moreover have "k_mem k0 x = k_mem k x" using a(6) that by simp
      ultimately show ?thesis by (auto simp: k2(3) k1(3) set_entry_apply frame_zero_def)
    qed
    have w: "w = entry_at (k_mem k) ?ct 510"
    proof -
      have "?ct + 8 * 510 \<in> words (foot 3 (k_mem k) ?ct)" by (rule entry_in_foot) simp
      then have "?ct + 8 * 510 \<notin> k_free k" using fd by blast
      then show ?thesis using out [of "?ct + 8 * 510"] by (simp add: w_def entry_at_def)
    qed
    have e: "\<forall>i < 512. entry_at (k_mem k2) u i = (if i = 510 then entry_at (k_mem k) ?ct 510 else 0)"
      using a(7) unfolding k2(3) k1(3) w by (auto simp: set_entry_apply entry_at_def frame_zero_def)
    have same: "\<forall>x \<in> words (foot 3 (k_mem k) ?ct). k_mem k2 x = k_mem k x" using out fd by blast
    have 510: "(510::nat) < 512" by simp
    note sh = shared_table [OF T [unfolded numeral_3_eq_3] same [unfolded numeral_3_eq_3] a(3) utd [unfolded numeral_3_eq_3] e 510]
    have tb: "tabs 3 (k_mem k2) u i = (if i = 510 then tabs 3 (k_mem k) ?ct 510 else {})" if "i < 512" for i using sh(2) [OF that] by (simp add: tabs_def numeral_3_eq_3)
    have lv: "leaf (k_mem k2) u (i # ks) = (if i = 510 then leaf (k_mem k) ?ct (i # ks) else None)" if "i < 512" "ks \<in> paths 3" for i ks
      using sh(3) [OF that(1)] that(2) by (simp add: numeral_3_eq_3 del: leaf.simps)
    have parts: "user_tables k2 u = {u..<u + 4096}" "kernel_tables k2 u = words (tabs 3 (k_mem k) ?ct 510)" "user_leafs k2 u = {}"
      using tb lv by (simp_all add: user_tables_def kernel_tables_def user_leafs_def leafs_def del: leaf.simps)
    have "words (tabs 3 (k_mem k) ?ct 510) \<subseteq> words (foot 3 (k_mem k) ?ct)" by (rule words_mono [OF tabs_foot [OF T 510]])
    then have "k_free k2 \<inter> words (foot 3 (k_mem k2) u) = {}" using fd unfolding foot_parts parts k2(2) a(5) by blast
    moreover have "tree_ok 3 (k_mem k2) u" using sh(1) by (simp add: numeral_3_eq_3)
    ultimately have "table_inv (k_ok c t v) k_free k_mem 3 k2 u" using k2(1,2) a(5) bnd by (auto simp: table_inv_def)
    moreover have "good 3 (k_mem k2) u {..<510}" using lv by (simp add: good_def del: leaf.simps)
    ultimately have us: "user_space c t v k2 u" using parts(3) by (simp add: user_space_def)
    define k' where "k' = k2\<lparr>k_cpu := table_set u c\<rparr>"
    have "4096 dvd cpu_ttbr0 (table_set u c)" using a(3) by (simp add: table_set_def table_ok_def)
    note us' = user_space_cpu [OF us this, folded k'_def]
    have eq: "k_mem k' = k_mem k2" "k_free k' = k_free k2" by (simp_all add: k'_def k_mem_def k_free_def)
    have cpu: "k_cpu k1 = c" "k_cpu k2 = c" using k1(1) k2(1) by (simp_all add: k_ok_def)
    have new: "user_table_new k = Ok (k', u)"
      using cpu by (simp add: user_table_new_def pt_alloc_def a(1) page_start_def kernel_index ix [unfolded One_nat_def] Let_def table_get_def flip: k1_def w_def k2_def k'_def)
    have "leaf (k_mem k') u (indices x) = (if get_index L4 x = 510 then leaf (k_mem k) ?ct (indices x) else None)" for x
      using lv [of "get_index L4 x" "[get_index L3 x, get_index L2 x, get_index L1 x]"] unfolding eq(1)
      by (simp add: indices_def paths_def del: leaf.simps)
    then show ?thesis using new us' parts eq a(4,5) k2(2) out by (intro disjI2 exI [of _ k'] exI [of _ u]) (simp add: user_mem_def)
  qed (simp add: user_table_new_def pt_alloc_def)
qed

section \<open>Properties\<close>

lemma user_space_tree: "user_space c t v k u \<Longrightarrow> tree_ok 3 (k_mem k) u"
  by (simp add: user_space_def table_inv_def)

lemma grown_translate:
  assumes us: "user_space c t v k u" and g: "grown c t v u flags k start fs k'" and fl: "flags_fit Size4K (map_flags Size4K flags)"
    and start: "4096 dvd start" and a: "a < 2 ^ 48"
  shows "pt_translate (k_mem k') u a =
    (if start \<le> a \<and> a < start + length fs * 4096 then Ok (Some (fs ! ((a - start) div 4096) + (a - start) mod 4096)) else pt_translate (k_mem k) u a)"
proof -
  note T = user_space_tree [OF us] user_space_tree [OF grownD(1) [OF g]]
  obtain q where "start = q * 4096" using start by (metis dvd_def mult.commute)
  then have m: "a mod 4096 = (a - start) mod 4096" if "start \<le> a" using that mod_mult_self1 [of "a - start" q 4096] by simp
  have "pte_address (of_nat (fs ! ((a - start) div 4096)) OR map_flags Size4K flags) = fs ! ((a - start) div 4096)"
    if h: "start \<le> a" "a < start + length fs * 4096"
  proof -
    let ?f = "fs ! ((a - start) div 4096)"
    have "(a - start) div 4096 < length fs" using h by (simp add: div_less_iff_less_mult)
    then have f: "frame_fresh Size4K k ?f" using grownD(3) [OF g] by simp
    then have "?f \<in> k_free k" by (auto simp: frame_fresh_def BYTES_def)
    then have "?f < 2 ^ 48" using us by (auto simp: user_space_def table_inv_def)
    then show ?thesis using pte_set_Ok(2) [of ?f Size4K] fl f by (simp add: frame_fresh_def BYTES_def)
  qed
  then show ?thesis using grownD(9) [OF g a] m by (simp add: pt_translate_walk [OF T(1)] pt_translate_walk [OF T(2)] walk_def)
qed

section \<open>The memory of a process\<close>

text \<open>The calls that map memory between the creation of the page table and its drop: code pages and stacks (\<open>Pages\<close>) and
  \<^verbatim>\<open>sbrk\<close>. \<open>mm_areas\<close> lists the pages each call maps.\<close>

datatype mm_call = Pages page_flags page usize | Sbrk usize

fun mm_run :: "mm_call list \<Rightarrow> kernel \<Rightarrow> mm_state \<Rightarrow> (kernel \<times> mm_state) res" where
  "mm_run [] k mm = Ok (k, mm)"
| "mm_run (Pages flags start n # cs) k mm = rbind (user_pages flags (mm_page_table mm) k start 0 n) (\<lambda>k1. mm_run cs k1 mm)"
| "mm_run (Sbrk n # cs) k mm = rbind (sbrk k mm n) (\<lambda>(k1, mm1, _). mm_run cs k1 mm1)"

fun mm_areas :: "address \<Rightarrow> mm_call list \<Rightarrow> (page \<times> usize \<times> page_flags) list" where
  "mm_areas highwater [] = []"
| "mm_areas highwater (Pages flags start n # cs) = (start, n, flags) # mm_areas highwater cs"
| "mm_areas highwater (Sbrk n # cs) = (highwater, n, user_data_flags_4k) # mm_areas (highwater + n * 4096) cs"

definition mm_pages :: "(page \<times> usize \<times> page_flags) list \<Rightarrow> usize" where
  "mm_pages as = sum_list (map (\<lambda>(s, n, _). n) as)"

definition area_ok :: "page \<times> usize \<times> page_flags \<Rightarrow> bool" where
  "area_ok a = (case a of (s, n, flags) \<Rightarrow> 4096 dvd s \<and> s + n * 4096 \<le> KERNEL_MEMORY_START \<and> flags_fit Size4K (map_flags Size4K flags))"

definition area_set :: "page \<times> usize \<times> page_flags \<Rightarrow> address set" where
  "area_set a = (case a of (s, n, _) \<Rightarrow> {s..<s + n * 4096})"

lemma user_kernel_start: "KERNEL_MEMORY_START = 510 * 2 ^ 39"
  by (simp add: KERNEL_MEMORY_START_def)

text \<open>One call: the area it maps was free of mappings.\<close>

lemma mm_call_step:
  assumes us: "user_space c t v k (mm_page_table mm)" and as: "mm_areas (mm_highwater mm) (call # cs) = (s, n, flags) # as" "area_ok (s, n, flags)"
    and nb: "\<forall>a \<in> area_set (s, n, flags). leaf (k_mem k) (mm_page_table mm) (indices a) = None" and room: "n * 16384 \<le> card (k_free k)"
  shows "\<exists>k' mm' fs. mm_run (call # cs) k mm = mm_run cs k' mm' \<and> mm_page_table mm' = mm_page_table mm \<and> mm_areas (mm_highwater mm') cs = as
    \<and> length fs = n \<and> grown c t v (mm_page_table mm) flags k s fs k'"
proof (cases call)
  case (Pages flags' s' n')
  then have eq: "flags' = flags" "s' = s" "n' = n" "mm_areas (mm_highwater mm) cs = as" using as(1) by auto
  have "user_pages flags (mm_page_table mm) k s 0 n = Panic UnwrapNone \<and> card (k_free k) < n * 16384 \<or>
      (\<exists>k' fs. user_pages flags (mm_page_table mm) k s 0 n = Ok k' \<and> length fs = n \<and> grown c t v (mm_page_table mm) flags k (s + 0 * 4096) fs k')"
    by (rule user_pages_cases [OF us]) (use as(2) nb in \<open>auto simp: area_ok_def area_set_def user_kernel_start\<close>)
  then obtain k' fs where "user_pages flags (mm_page_table mm) k s 0 n = Ok k'" "length fs = n" "grown c t v (mm_page_table mm) flags k s fs k'"
    using room by auto
  then show ?thesis using Pages eq by (intro exI [of _ k'] exI [of _ mm] exI [of _ fs]) simp
next
  case (Sbrk n')
  then have eq: "n' = n" "s = mm_highwater mm" "flags = user_data_flags_4k" "mm_areas (mm_highwater mm + n * 4096) cs = as" using as(1) by auto
  have "\<forall>a. mm_highwater mm \<le> a \<longrightarrow> a < mm_highwater mm + n * 4096 \<longrightarrow> leaf (k_mem k) (mm_page_table mm) (indices a) = None"
    using nb by (auto simp: area_set_def eq)
  moreover have "4096 dvd mm_highwater mm" "mm_highwater mm + n * 4096 \<le> 510 * 2 ^ 39" using as(2) by (auto simp: area_ok_def eq user_kernel_start)
  ultimately obtain k' fs where "sbrk k mm n = Ok (k', mm\<lparr>mm_highwater := mm_highwater mm + n * 4096\<rparr>, Some (mm_highwater mm, mm_highwater mm + n * 4096))"
      "length fs = n" "grown c t v (mm_page_table mm) user_data_flags_4k k (mm_highwater mm) fs k'"
    using sbrk_cases [OF us] room by (meson linorder_not_less)
  then show ?thesis using Sbrk eq by (intro exI [of _ k'] exI [of _ "mm\<lparr>mm_highwater := mm_highwater mm + n * 4096\<rparr>"] exI [of _ fs]) simp
qed

lemma grown_mem:
  assumes "grown c t v u flags k s fs k'"
  shows "k_free k' \<union> user_mem k' u = k_free k \<union> user_mem k u"
proof -
  have "frames_of Size4K fs \<subseteq> k_free k" using grownD(3) [OF assms] by (auto simp: frames_of_def frame_fresh_def)
  then show ?thesis using grownD(5,6) [OF assms] unfolding user_mem_def by blast
qed

lemma mm_run_Ok:
  "user_space c t v k (mm_page_table mm) \<Longrightarrow> mm_areas (mm_highwater mm) cs = as \<Longrightarrow> \<forall>a \<in> set as. area_ok a \<Longrightarrow> apart (map area_set as)
   \<Longrightarrow> \<forall>a \<in> \<Union> (area_set ` set as). leaf (k_mem k) (mm_page_table mm) (indices a) = None \<Longrightarrow> mm_pages as * 16384 \<le> card (k_free k) \<Longrightarrow>
   \<exists>k' mm'. mm_run cs k mm = Ok (k', mm') \<and> mm_page_table mm' = mm_page_table mm \<and> user_space c t v k' (mm_page_table mm)
     \<and> k_free k' \<union> user_mem k' (mm_page_table mm) = k_free k \<union> user_mem k (mm_page_table mm)
     \<and> (\<forall>x. x \<notin> k_free k \<union> user_tables k (mm_page_table mm) \<longrightarrow> k_mem k' x = k_mem k x)"
proof (induction cs arbitrary: k mm as)
  case (Cons call cs)
  let ?u = "mm_page_table mm"
  obtain s n flags bs where as: "as = (s, n, flags) # bs" using Cons.prems(2) by (cases call) auto
  have ok: "area_ok (s, n, flags)" "\<forall>a \<in> set bs. area_ok a" "apart (map area_set bs)" "\<And>b. b \<in> set bs \<Longrightarrow> area_set (s, n, flags) \<inter> area_set b = {}"
    using Cons.prems(3,4) by (auto simp: as)
  have pg: "mm_pages as = n + mm_pages bs" by (simp add: mm_pages_def as)
  obtain k1 mm1 fs where st: "mm_run (call # cs) k mm = mm_run cs k1 mm1" "mm_page_table mm1 = ?u" "mm_areas (mm_highwater mm1) cs = bs" "length fs = n"
      and g: "grown c t v ?u flags k s fs k1"
    using mm_call_step [OF Cons.prems(1) Cons.prems(2) [unfolded as] ok(1)] Cons.prems(5,6) pg by (auto simp: as)
  have nb: "\<forall>a \<in> \<Union> (area_set ` set bs). leaf (k_mem k1) ?u (indices a) = None"
  proof
    fix a
    assume a: "a \<in> \<Union> (area_set ` set bs)"
    then obtain b where b: "b \<in> set bs" "a \<in> area_set b" by blast
    have "a \<notin> area_set (s, n, flags)" using ok(4) [OF b(1)] b(2) by blast
    moreover have "a < 2 ^ 48" using ok(2) b by (auto simp: area_ok_def area_set_def user_kernel_start)
    moreover have "leaf (k_mem k) ?u (indices a) = None" using Cons.prems(5) a by (simp add: as)
    ultimately show "leaf (k_mem k1) ?u (indices a) = None" using grownD(9) [OF g] st(4) by (simp add: area_set_def)
  qed
  have "mm_pages bs * 16384 \<le> card (k_free k1)" using grownD(10) [OF g] Cons.prems(6) pg st(4) by simp
  then obtain k' mm' where r: "mm_run cs k1 mm1 = Ok (k', mm')" "mm_page_table mm' = ?u" "user_space c t v k' ?u"
      "k_free k' \<union> user_mem k' ?u = k_free k1 \<union> user_mem k1 ?u" "\<forall>x. x \<notin> k_free k1 \<union> user_tables k1 ?u \<longrightarrow> k_mem k' x = k_mem k1 x"
    using Cons.IH [of k1 mm1 bs] grownD(1) [OF g] st(2,3) ok(2,3) nb by auto
  have "k_mem k' x = k_mem k x" if "x \<notin> k_free k \<union> user_tables k ?u" for x
  proof -
    have "x \<notin> k_free k1 \<union> user_tables k1 ?u" using grownD(5) [OF g] that by blast
    then show ?thesis using r(5) grownD(8) [OF g that] by simp
  qed
  then show ?case using st(1) r(1-4) grown_mem [OF g] by auto
qed simp

text \<open>A machine with 944 MiB of memory after start-up.\<close>

lemma boot_state:
  "\<exists>k. table_inv (k_ok (k_cpu k) (k_table k) (k_virt k)) k_free k_mem 3 k (cpu_ttbr0 (k_cpu k)) \<and> k_table k \<notin> k_free k \<and> 0x300000 \<le> card (k_free k)"
proof -
  obtain s where s: "kheap_inv (k_cpu s) (k_table s) s" "card (k_free s) + 4096 = card (\<Union>(a, b) \<in> set [(0x200000, 0x3b400000)]. {a..<b :: nat})"
    using kernel_boot [of "[(0x200000, 0x3b400000)]"] by (auto simp: frames_sane_def USIZE_LIMIT_def dvd_eq_mod_eq_0)
  define c where "c = (k_cpu s)\<lparr>cpu_ttbr0 := k_table s\<rparr>"
  define k where "k = s\<lparr>k_cpu := c\<rparr>"
  have i: "kt_inv (k_cpu s) (k_table s) (k_virt s) s" using s(1) by (simp add: kheap_inv_def)
  then have "4096 dvd cpu_ttbr0 c" by (simp add: c_def table_inv_def k_ok_def)
  then have "kt_inv c (k_table s) (k_virt s) k" unfolding k_def by (rule kt_inv_cpu [OF i])
  moreover have "k_cpu k = c" "k_table k = k_table s" "k_virt k = k_virt s" "cpu_ttbr0 c = k_table s" "k_free k = k_free s" by (simp_all add: k_def c_def k_free_def)
  moreover have "k_table s \<notin> k_free s"
    using i foot_self [of "k_table s" 3 "k_mem s"] unfolding table_inv_def words_def by force
  ultimately show ?thesis using s(2) by (intro exI [of _ k]) simp
qed

lemma user_state:
  "\<exists>c t v k u. user_space c t v k u \<and> (\<forall>a < KERNEL_MEMORY_START. pt_translate (k_mem k) u a = Ok None) \<and> 0x200000 \<le> card (k_free k)"
proof -
  obtain k where k: "table_inv (k_ok (k_cpu k) (k_table k) (k_virt k)) k_free k_mem 3 k (cpu_ttbr0 (k_cpu k))" "0x300000 \<le> card (k_free k)"
    using boot_state by blast
  have fin: "finite (k_free k)" using k(1) finite_subset [of "k_free k" "{..<2 ^ 48}"] by (simp add: table_inv_def)
  obtain k1 u where n: "user_space (table_set u (k_cpu k)) (k_table k) (k_virt k) k1 u" "{u..<u + 4096} \<subseteq> k_free k" "k_free k1 = k_free k - {u..<u + 4096}"
      "\<forall>a < 2 ^ 48. leaf (k_mem k1) u (indices a) = (if get_index L4 a = 510 then leaf (k_mem k) (cpu_ttbr0 (k_cpu k)) (indices a) else None)"
    using user_table_new_cases [OF k(1)] k(2) by auto
  have "pt_translate (k_mem k1) u a = Ok None" if "a < KERNEL_MEMORY_START" for a
  proof -
    have "a < 2 ^ 48" "get_index L4 a \<noteq> 510" using that by (simp_all add: user_kernel_start get_index_eq less_mult_imp_div_less)
    then show ?thesis using n(4) by (simp add: pt_translate_walk [OF user_space_tree [OF n(1)]] walk_def)
  qed
  moreover have "0x200000 \<le> card (k_free k1)"
    using card_Diff_subset [OF finite_subset [OF n(2) fin] n(2)] k(2) n(3) by simp
  ultimately show ?thesis using n(1) by blast
qed

text \<open>C35: a process gives back exactly the memory it took. Start from a kernel whose current table is a tree of tables apart from the
  free frames, build a page table for a process, map any code pages, stacks and heap pages that do not overlap and lie below
  kernel memory, and drop the memory state. If the free frames suffice, every step returns; at the end the set of free frames is
  the one before, and memory outside it, the kernel's tables and the pages of other processes included, is not changed.\<close>

theorem process_memory_returned:
  assumes "table_inv (k_ok c t v) k_free k_mem 3 k (cpu_ttbr0 c)" and "t \<notin> k_free k"
    and "\<forall>a \<in> set (mm_areas USER_SPACE_START calls). area_ok a" and "apart (map area_set (mm_areas USER_SPACE_START calls))"
    and "4096 + mm_pages (mm_areas USER_SPACE_START calls) * (4 * 4096) \<le> card (k_free k)"
  shows "\<exists>k1 u k2 mm k3. user_table_new k = Ok (k1, u) \<and> mm_run calls k1 \<lparr>mm_page_table = u, mm_highwater = USER_SPACE_START\<rparr> = Ok (k2, mm)
    \<and> mm_drop k2 mm = Ok k3 \<and> k_free k3 = k_free k \<and> (\<forall>x. x \<notin> k_free k \<longrightarrow> k_mem k3 x = k_mem k x)"
proof -
  let ?as = "mm_areas USER_SPACE_START calls" and ?mm = "\<lambda>u. \<lparr>mm_page_table = u, mm_highwater = USER_SPACE_START\<rparr>"
  have bnd: "k_free k \<subseteq> {..<2 ^ 48}" using assms(1) by (simp add: table_inv_def)
  then have fin: "finite (k_free k)" by (rule finite_subset) simp
  obtain k1 u where n: "user_table_new k = Ok (k1, u)" "user_space (table_set u c) t v k1 u" "user_mem k1 u = {u..<u + 4096}" "{u..<u + 4096} \<subseteq> k_free k"
      "k_free k1 = k_free k - {u..<u + 4096}" "\<forall>x. x \<notin> k_free k \<longrightarrow> k_mem k1 x = k_mem k x"
      "\<forall>a < 2 ^ 48. leaf (k_mem k1) u (indices a) = (if get_index L4 a = 510 then leaf (k_mem k) (cpu_ttbr0 c) (indices a) else None)"
    using user_table_new_cases [OF assms(1)] assms(5) by auto
  have cd: "card (k_free k1) + 4096 = card (k_free k)"
    using card_Diff_subset [OF finite_subset [OF n(4) fin] n(4)] card_mono [OF fin n(4)] n(5) by simp
  have nb: "\<forall>a \<in> \<Union> (area_set ` set ?as). leaf (k_mem k1) (mm_page_table (?mm u)) (indices a) = None"
  proof
    fix a
    assume "a \<in> \<Union> (area_set ` set ?as)"
    then have "a < 510 * 2 ^ 39" using assms(3) by (auto simp: area_ok_def area_set_def user_kernel_start)
    then have "a < 2 ^ 48" "get_index L4 a \<noteq> 510" by (simp_all add: get_index_eq less_mult_imp_div_less)
    then show "leaf (k_mem k1) (mm_page_table (?mm u)) (indices a) = None" using n(7) by simp
  qed
  have us: "user_space (table_set u c) t v k1 (mm_page_table (?mm u))" and hw: "mm_areas (mm_highwater (?mm u)) calls = ?as" using n(2) by simp_all
  have room: "mm_pages ?as * 16384 \<le> card (k_free k1)" using assms(5) cd by simp
  obtain k2 mm where r: "mm_run calls k1 (?mm u) = Ok (k2, mm)" "mm_page_table mm = u" "user_space (table_set u c) t v k2 u"
      "k_free k2 \<union> user_mem k2 u = k_free k1 \<union> user_mem k1 u" "\<forall>x. x \<notin> k_free k1 \<union> user_tables k1 u \<longrightarrow> k_mem k2 x = k_mem k1 x"
    using mm_run_Ok [OF us hw assms(3,4) nb room] by auto
  have all: "k_free k2 \<union> user_mem k2 u = k_free k" using r(4) n(3-5) by auto
  have "u \<in> k_free k" using n(4) by (rule subsetD) simp
  then have "u \<noteq> t" using assms(2) by auto
  then obtain k3 where d: "mm_drop k2 mm = Ok k3" "k_free k3 = k_free k2 \<union> user_mem k2 u" "\<forall>x. x \<notin> user_mem k2 u \<longrightarrow> k_mem k3 x = k_mem k2 x"
    using mm_drop_Ok [of "table_set u c" t v k2 mm] r(2,3) by auto
  have "k_mem k3 x = k_mem k x" if "x \<notin> k_free k" for x
  proof -
    have "x \<notin> user_mem k2 u" "x \<notin> k_free k1 \<union> user_tables k1 u" using that all n(3-5) by (auto simp: user_mem_def)
    then show ?thesis using d(3) r(5) n(6) that by simp
  qed
  then show ?thesis using n(1) r(1) d(1,2) all by blast
qed

theorem process_memory_returned_witness:
  "\<exists>k k1 u k2 mm k3. user_table_new k = Ok (k1, u)
    \<and> mm_run [Pages user_code_flags_4k 0x200000 4, Pages user_stack_flags USER_STACK_START USER_STACK_PAGES, Sbrk 2, Sbrk 1] k1 \<lparr>mm_page_table = u, mm_highwater = USER_SPACE_START\<rparr> = Ok (k2, mm)
    \<and> mm_drop k2 mm = Ok k3 \<and> k_free k3 = k_free k"
proof -
  let ?cs = "[Pages user_code_flags_4k 0x200000 4, Pages user_stack_flags USER_STACK_START USER_STACK_PAGES, Sbrk 2, Sbrk 1]"
  obtain k where k: "table_inv (k_ok (k_cpu k) (k_table k) (k_virt k)) k_free k_mem 3 k (cpu_ttbr0 (k_cpu k))" "k_table k \<notin> k_free k" "0x300000 \<le> card (k_free k)"
    using boot_state by blast
  have "\<forall>a \<in> set (mm_areas USER_SPACE_START ?cs). area_ok a"
    using flags_fit_all(1-3) by (simp add: area_ok_def USER_SPACE_START_def USER_STACK_START_def USER_STACK_PAGES_def KERNEL_MEMORY_START_def dvd_eq_mod_eq_0)
  moreover have "apart (map area_set (mm_areas USER_SPACE_START ?cs))"
    by (auto simp: area_set_def USER_SPACE_START_def USER_STACK_START_def USER_STACK_PAGES_def)
  moreover have "4096 + mm_pages (mm_areas USER_SPACE_START ?cs) * (4 * 4096) \<le> card (k_free k)"
    using k(3) by (simp add: mm_pages_def USER_STACK_PAGES_def)
  ultimately show ?thesis using process_memory_returned [OF k(1,2), of ?cs] by blast
qed

text \<open>C36: growing the heap of a process. With four free frames per page, the highwater mark aligned and the pages above it
  unmapped, \<^verbatim>\<open>sbrk\<close> returns the next \<open>n\<close> pages and advances the mark. The pages are backed by disjoint frames that were free,
  every other address of the process translates as before, memory outside the free frames and the tables of the process is not
  written, the subtree of kernel memory that all address spaces share is the same, and the invariant of address spaces holds.\<close>

theorem sbrk_maps_fresh_pages:
  assumes "user_space c t v k (mm_page_table mm)" and "4096 dvd mm_highwater mm" and "mm_highwater mm + n * 4096 \<le> KERNEL_MEMORY_START"
    and "\<forall>a. mm_highwater mm \<le> a \<longrightarrow> a < mm_highwater mm + n * 4096 \<longrightarrow> pt_translate (k_mem k) (mm_page_table mm) a = Ok None"
    and "n * (4 * 4096) \<le> card (k_free k)"
  shows "\<exists>k' fs. sbrk k mm n = Ok (k', mm\<lparr>mm_highwater := mm_highwater mm + n * 4096\<rparr>, Some (mm_highwater mm, mm_highwater mm + n * 4096))
    \<and> user_space c t v k' (mm_page_table mm) \<and> length fs = n \<and> apart (map (\<lambda>f. {f..<f + 4096}) fs)
    \<and> (\<forall>f \<in> set fs. 4096 dvd f \<and> {f..<f + 4096} \<subseteq> k_free k - k_free k')
    \<and> (\<forall>a < 2 ^ 48. pt_translate (k_mem k') (mm_page_table mm) a =
         (if mm_highwater mm \<le> a \<and> a < mm_highwater mm + n * 4096
          then Ok (Some (fs ! ((a - mm_highwater mm) div 4096) + (a - mm_highwater mm) mod 4096)) else pt_translate (k_mem k) (mm_page_table mm) a))
    \<and> (\<forall>x. x \<notin> k_free k \<union> user_tables k (mm_page_table mm) \<longrightarrow> k_mem k' x = k_mem k x)
    \<and> kernel_tables k' (mm_page_table mm) = kernel_tables k (mm_page_table mm)"
proof -
  let ?u = "mm_page_table mm" and ?h = "mm_highwater mm"
  have lim: "KERNEL_MEMORY_START = 510 * 2 ^ 39" by (simp add: KERNEL_MEMORY_START_def)
  have none: "\<forall>a. ?h \<le> a \<longrightarrow> a < ?h + n * 4096 \<longrightarrow> leaf (k_mem k) ?u (indices a) = None"
    using assms(4) by (simp add: pt_translate_walk [OF user_space_tree [OF assms(1)]] walk_def)
  obtain k' fs where r: "sbrk k mm n = Ok (k', mm\<lparr>mm_highwater := ?h + n * 4096\<rparr>, Some (?h, ?h + n * 4096))" "length fs = n"
      and g: "grown c t v ?u user_data_flags_4k k ?h fs k'"
    using sbrk_cases [OF assms(1,2) assms(3) [unfolded lim] none] assms(5) by auto
  have "4096 dvd f \<and> {f..<f + 4096} \<subseteq> k_free k - k_free k'" if "f \<in> set fs" for f
  proof -
    have "{f..<f + 4096} \<subseteq> frames_of Size4K fs" using that by (auto simp: frames_of_def BYTES_def)
    moreover have "k_free k' \<inter> frames_of Size4K fs = {}" using grownD(5) [OF g] by blast
    ultimately show ?thesis using grownD(3) [OF g] that by (auto simp: frame_fresh_def BYTES_def)
  qed
  then show ?thesis
    using r grownD(1,2,7,8) [OF g] grown_translate [OF assms(1) g flags_fit_all(3) assms(2)]
    by (intro exI [of _ k'] exI [of _ fs]) (simp add: r(2))
qed

theorem sbrk_maps_fresh_pages_witness:
  "\<exists>k u k' fs. sbrk k \<lparr>mm_page_table = u, mm_highwater = USER_SPACE_START\<rparr> 3
      = Ok (k', \<lparr>mm_page_table = u, mm_highwater = 0x100000003000\<rparr>, Some (0x100000000000, 0x100000003000))
    \<and> length fs = 3 \<and> pt_translate (k_mem k') u 0x100000001234 = Ok (Some (fs ! 1 + 0x234))
    \<and> pt_translate (k_mem k') u 0x100000003000 = pt_translate (k_mem k) u 0x100000003000"
proof -
  obtain c t v k u where k: "user_space c t v k u" "\<forall>a < KERNEL_MEMORY_START. pt_translate (k_mem k) u a = Ok None" "0x200000 \<le> card (k_free k)"
    using user_state by blast
  let ?mm = "\<lparr>mm_page_table = u, mm_highwater = USER_SPACE_START\<rparr>"
  have h: "user_space c t v k (mm_page_table ?mm)" "4096 dvd mm_highwater ?mm" "mm_highwater ?mm + 3 * 4096 \<le> KERNEL_MEMORY_START"
      "\<forall>a. mm_highwater ?mm \<le> a \<longrightarrow> a < mm_highwater ?mm + 3 * 4096 \<longrightarrow> pt_translate (k_mem k) (mm_page_table ?mm) a = Ok None"
      "3 * (4 * 4096) \<le> card (k_free k)"
    using k by (simp_all add: USER_SPACE_START_def KERNEL_MEMORY_START_def dvd_eq_mod_eq_0)
  from sbrk_maps_fresh_pages [OF h] obtain k' fs where r: "sbrk k ?mm 3 = Ok (k', ?mm\<lparr>mm_highwater := mm_highwater ?mm + 3 * 4096\<rparr>, Some (mm_highwater ?mm, mm_highwater ?mm + 3 * 4096))" "length fs = 3"
    and tr: "\<forall>a < 2 ^ 48. pt_translate (k_mem k') (mm_page_table ?mm) a =
         (if mm_highwater ?mm \<le> a \<and> a < mm_highwater ?mm + 3 * 4096
          then Ok (Some (fs ! ((a - mm_highwater ?mm) div 4096) + (a - mm_highwater ?mm) mod 4096)) else pt_translate (k_mem k) (mm_page_table ?mm) a)"
    by blast
  show ?thesis using r spec [OF tr, of "0x100000001234"] spec [OF tr, of "0x100000003000"]
    by (intro exI [of _ k] exI [of _ u] exI [of _ k'] exI [of _ fs]) (simp add: USER_SPACE_START_def)
qed

end
