(* ===== verification/Elf_Loader.thy ===== *)
theory Elf_Loader
  imports Page
begin

unbundle bit_operations_syntax

text \<open>
  \<^verbatim>\<open>libs/elf-loader/src/lib.rs\<close> and \<^verbatim>\<open>libs/memory/src/cache.rs\<close>: loading an ELF image. The crate \<^verbatim>\<open>xmas_elf\<close> that
  decodes the file is not part of the sources; what its accessors return is the data of \<open>elf_file\<close>, and parsing is a
  parameter. Memory is byte addressed; \<open>'s\<close> is the world the callbacks of the caller work on.
\<close>

section \<open>Decoded files\<close>

datatype ph_type = Load | Dynamic | OtherType

datatype dyn_tag = Rela | RelaSize | RelaEnt | OtherTag

record dynamic_entry =
  dyn_tag :: "dyn_tag option"
  dyn_ptr :: "usize option"
  dyn_val :: "usize option"

datatype segment_data = Dynamic64 "dynamic_entry list" | OtherData

record program_header =
  ph_type :: "ph_type option"
  ph_offset :: usize
  ph_virtual_addr :: usize
  ph_file_size :: usize
  ph_mem_size :: usize
  ph_data :: "string + segment_data"

record section_header =
  sh_is_init_array :: bool
  sh_address :: usize
  sh_size :: usize

record rela =
  rela_type :: nat
  rela_offset :: usize
  rela_addend :: usize

text \<open>\<open>elf_relas\<close> gives the relocation entries read from the file at an offset, for a number of entries.\<close>

record elf_file =
  elf_program :: "program_header list"
  elf_sections :: "section_header list"
  elf_entry_point :: usize
  elf_relas :: "usize \<Rightarrow> usize \<Rightarrow> rela list"

section \<open>Memory and cache\<close>

type_synonym byte_mem = "address \<Rightarrow> 8 word"

definition write_bytes :: "byte_mem \<Rightarrow> address \<Rightarrow> 8 word list \<Rightarrow> byte_mem" where
  "write_bytes m a bs = (\<lambda>x. if a \<le> x \<and> x < a + length bs then bs ! (x - a) else m x)"

definition subslice :: "'a list \<Rightarrow> usize \<Rightarrow> usize \<Rightarrow> 'a list res" where
  "subslice xs a b = (if a \<le> b \<and> b \<le> length xs then Ok (take (b - a) (drop a xs)) else Panic IndexOutOfBounds)"

definition to_le_bytes :: "usize \<Rightarrow> 8 word list" where
  "to_le_bytes v = map (\<lambda>i. of_nat (v div 256 ^ i)) [0..<8]"

definition CACHE_LINE_SIZE :: usize where "CACHE_LINE_SIZE = 64"

function cache_lines :: "address \<Rightarrow> address \<Rightarrow> address list" where
  "cache_lines a e = (if a < e then a # cache_lines (a + CACHE_LINE_SIZE) e else [])"
  by pat_completeness auto
termination
  by (relation "measure (\<lambda>(a, e). e - a)") (auto simp: CACHE_LINE_SIZE_def)

declare cache_lines.simps [simp del]

definition flush_cache :: "address \<Rightarrow> address \<Rightarrow> address list \<Rightarrow> address list res" where
  "flush_cache a e flushed =
     rbind (align_down a CACHE_LINE_SIZE) (\<lambda>start.
     rbind (is_aligned_to e CACHE_LINE_SIZE) (\<lambda>aligned.
     rbind (if aligned then Ok e else align_up e CACHE_LINE_SIZE) (\<lambda>end.
     Ok (flushed @ cache_lines start end))))"

section \<open>Loader\<close>

record 's load_state =
  ma_world :: 's
  ma_mem :: byte_mem
  ma_flushed :: "address list"

record 's loader =
  ld_data :: "8 word list"
  ld_elf :: elf_file
  ld_vaddr_offset :: int
  ld_map_pages :: "'s \<Rightarrow> page \<Rightarrow> page \<Rightarrow> ('s \<times> page \<times> page) res"
  ld_translate :: "('s \<Rightarrow> address \<Rightarrow> address res) option"

record elf_entry =
  ee_entry :: address
  ee_init_array :: "(address \<times> usize) option"

text \<open>\<open>qbind\<close> is the operator \<^verbatim>\<open>?\<close> on \<^verbatim>\<open>Result<_, &'static str>\<close>.\<close>

type_synonym 'a io = "(string + 'a) res"

definition qbind :: "'a io \<Rightarrow> ('a \<Rightarrow> 'b io) \<Rightarrow> 'b io" where
  "qbind r f = rbind r (\<lambda>x. case x of Inl e \<Rightarrow> Ok (Inl e) | Inr y \<Rightarrow> f y)"

definition loader_new :: "(8 word list \<Rightarrow> elf_file option) \<Rightarrow> 8 word list \<Rightarrow> ('s \<Rightarrow> page \<Rightarrow> page \<Rightarrow> ('s \<times> page \<times> page) res)
    \<Rightarrow> ('s \<Rightarrow> address \<Rightarrow> address res) option \<Rightarrow> 's loader res" where
  "loader_new parse data map_pages translate =
     rbind (unwrap (parse data)) (\<lambda>elf.
     Ok \<lparr>ld_data = data, ld_elf = elf, ld_vaddr_offset = 0, ld_map_pages = map_pages, ld_translate = translate\<rparr>)"

definition ld_addr :: "'s loader \<Rightarrow> 's \<Rightarrow> address \<Rightarrow> address res" where
  "ld_addr l w a = (case ld_translate l of Some f \<Rightarrow> f w a | None \<Rightarrow> Ok a)"

lemma page_piece:
  assumes "addr_add (page_align Size4K c) (BYTES Size4K) = Ok e" and "addr_diff (addr_min e l) c = Ok b" and "c < l"
  shows "e = c - c mod 4096 + 4096" and "b = min e l - c" and "0 < b" and "c + b \<le> l"
proof -
  have e: "e = page_align Size4K c + 4096" "e < USIZE_LIMIT" using assms(1) by (auto simp: addr_add_def uadd_Ok_iff BYTES_def)
  have b: "c \<le> min e l" "b = min e l - c" using assms(2) by (auto simp: addr_diff_def rbind_Ok_iff usub_Ok_iff)
  then have "c < USIZE_LIMIT" using e(2) by simp
  then show "e = c - c mod 4096 + 4096" using e(1) page_align_eq [of c Size4K] by (simp add: BYTES_def)
  moreover have "c mod 4096 < 4096" "c mod 4096 \<le> c" by simp_all
  ultimately have "c < e" by linarith
  then show "0 < b" "c + b \<le> l" "b = min e l - c" using b assms(3) by auto
qed

lemma page_progress:
  assumes "addr_add (page_align Size4K c) (BYTES Size4K) = Ok e" and "addr_diff (addr_min e l) c = Ok b" and "c < l" and "addr_add c b = Ok c1"
  shows "l - c1 < l - c"
  using page_piece(3) [OF assms(1-3)] assms(3,4) by (auto simp: addr_add_def uadd_Ok_iff)

text \<open>The loop of \<^verbatim>\<open>copy\<close>, \<^verbatim>\<open>zero\<close> and \<^verbatim>\<open>flush\<close> over the pieces of a range that lie in one page; \<open>f\<close> is the loop's action.\<close>

function page_loop :: "(address \<Rightarrow> address res) \<Rightarrow> (address \<Rightarrow> address \<Rightarrow> usize \<Rightarrow> 'm \<Rightarrow> 'm res) \<Rightarrow> address \<Rightarrow> address \<Rightarrow> 'm \<Rightarrow> 'm res" where
  "page_loop translate f limit cursor m =
     (if cursor < limit then
        rbind (translate cursor) (\<lambda>start.
        rbind (addr_add (page_align Size4K cursor) (BYTES Size4K)) (\<lambda>e.
        rbind (addr_diff (addr_min e limit) cursor) (\<lambda>bytes.
        rbind (f start cursor bytes m) (\<lambda>m1.
        rbind (addr_add cursor bytes) (\<lambda>cursor1.
        page_loop translate f limit cursor1 m1)))))
      else Ok m)"
  by pat_completeness auto
termination
  by (relation "measure (\<lambda>(_, _, limit, cursor, _). limit - cursor)") (auto simp del: addr_min_max intro: page_progress)

declare page_loop.simps [simp del]

definition ld_copy :: "'s loader \<Rightarrow> 's \<Rightarrow> 8 word list \<Rightarrow> address \<Rightarrow> byte_mem \<Rightarrow> byte_mem res" where
  "ld_copy l w src dst m =
     (if src = [] then Ok m
      else case ld_translate l of
        Some translate \<Rightarrow>
          rbind (addr_add dst (length src)) (\<lambda>limit.
          page_loop (translate w) (\<lambda>start cursor bytes m.
            rbind (addr_diff cursor dst) (\<lambda>i.
            rbind (idx src i) (\<lambda>_.
            Ok (write_bytes m start (take bytes (drop i src)))))) limit dst m)
      | None \<Rightarrow> rbind (idx src 0) (\<lambda>_. Ok (write_bytes m dst src)))"

definition ld_zero :: "'s loader \<Rightarrow> 's \<Rightarrow> address \<Rightarrow> usize \<Rightarrow> byte_mem \<Rightarrow> byte_mem res" where
  "ld_zero l w dst bytes m =
     (if bytes = 0 then Ok m
      else case ld_translate l of
        Some translate \<Rightarrow>
          rbind (addr_add dst bytes) (\<lambda>limit.
          page_loop (translate w) (\<lambda>start cursor n m. Ok (write_bytes m start (replicate n 0))) limit dst m)
      | None \<Rightarrow> Ok (write_bytes m dst (replicate bytes 0)))"

definition ld_flush :: "'s loader \<Rightarrow> 's \<Rightarrow> address \<Rightarrow> usize \<Rightarrow> address list \<Rightarrow> address list res" where
  "ld_flush l w dst bytes flushed =
     (if bytes = 0 then Ok flushed
      else case ld_translate l of
        Some translate \<Rightarrow>
          rbind (addr_add dst bytes) (\<lambda>limit.
          page_loop (translate w) (\<lambda>start cursor n fl. rbind (addr_add start n) (\<lambda>e. flush_cache start e fl)) limit dst flushed)
      | None \<Rightarrow> rbind (addr_add dst bytes) (\<lambda>e. flush_cache dst e flushed))"

fun update_load_range :: "address option \<times> address option \<Rightarrow> address \<Rightarrow> address \<Rightarrow> (address option \<times> address option) res" where
  "update_load_range (None, None) start end = Ok (Some start, Some end)"
| "update_load_range (Some s, Some e) start end =
     Ok (if start < s then Some start else Some s, if e < end then Some end else Some e)"
| "update_load_range _ start end = Panic Unreachable"

fun load_range :: "address option \<times> address option \<Rightarrow> program_header list \<Rightarrow> (address option \<times> address option) res" where
  "load_range r [] = Ok r"
| "load_range r (p # ps) =
     rbind (addr_add (ph_virtual_addr p) (ph_mem_size p)) (\<lambda>end.
     rbind (update_load_range r (ph_virtual_addr p) end) (\<lambda>r1. load_range r1 ps))"

definition headers :: "ph_type \<Rightarrow> elf_file \<Rightarrow> program_header list" where
  "headers ty elf = filter (\<lambda>ph. ph_type ph = Some ty) (elf_program elf)"

definition isub :: "int \<Rightarrow> int \<Rightarrow> int res" where
  "isub a b = (if - (2 ^ 63) \<le> a - b \<and> a - b < 2 ^ 63 then Ok (a - b) else Panic Overflow)"

definition map_memory :: "'s loader \<Rightarrow> 's load_state \<Rightarrow> ('s loader \<times> 's load_state) res" where
  "map_memory l s =
     rbind (load_range (None, None) (headers Load (ld_elf l))) (\<lambda>(load_start, load_end).
     rbind (unwrap load_start) (\<lambda>a.
     let vaddr_start = page_align Size4K a in
     rbind (unwrap load_end) (\<lambda>e.
     rbind (align_up e (BYTES Size4K)) (\<lambda>vaddr_end.
     rbind (page_new Size4K vaddr_start) (\<lambda>p.
     rbind (page_new Size4K vaddr_end) (\<lambda>q.
     rbind (ld_map_pages l (ma_world s) p q) (\<lambda>(w, start, _).
     rbind (isub (to_isize (page_start start)) (to_isize vaddr_start)) (\<lambda>off.
     Ok (l\<lparr>ld_vaddr_offset := off\<rparr>, s\<lparr>ma_world := w\<rparr>)))))))))"

definition load_segment :: "'s loader \<Rightarrow> 's load_state \<Rightarrow> program_header \<Rightarrow> 's load_state io" where
  "load_segment l s ph =
     rbind (addr_add_isize (ph_virtual_addr ph) (ld_vaddr_offset l)) (\<lambda>start.
     let bytes = ph_file_size ph; offset = ph_offset ph in
     rbind (uadd offset bytes) (\<lambda>e.
     rbind (subslice (ld_data l) offset e) (\<lambda>src.
     rbind (ld_copy l (ma_world s) src start (ma_mem s)) (\<lambda>m.
     rbind (if ph_file_size ph < ph_mem_size ph then
              rbind (addr_add start (ph_file_size ph)) (\<lambda>zero_start.
              rbind (addr_add start (ph_mem_size ph)) (\<lambda>zero_end.
              rbind (addr_diff zero_end zero_start) (\<lambda>n.
              ld_zero l (ma_world s) zero_start n m)))
            else Ok m) (\<lambda>m1.
     rbind (ld_flush l (ma_world s) start bytes (ma_flushed s)) (\<lambda>fl.
     Ok (Inr (s\<lparr>ma_mem := m1, ma_flushed := fl\<rparr>))))))))"

definition flush_segment :: "'s loader \<Rightarrow> 's load_state \<Rightarrow> program_header \<Rightarrow> 's load_state io" where
  "flush_segment l s ph =
     rbind (addr_add_isize (ph_virtual_addr ph) (ld_vaddr_offset l)) (\<lambda>start.
     rbind (ld_flush l (ma_world s) start (ph_file_size ph) (ma_flushed s)) (\<lambda>fl.
     Ok (Inr (s\<lparr>ma_flushed := fl\<rparr>))))"

fun find_map :: "('a \<Rightarrow> 'b option) \<Rightarrow> 'a list \<Rightarrow> 'b option" where
  "find_map f [] = None"
| "find_map f (x # xs) = (case f x of None \<Rightarrow> find_map f xs | Some y \<Rightarrow> Some y)"

definition find_dyn :: "dyn_tag \<Rightarrow> (dynamic_entry \<Rightarrow> usize option) \<Rightarrow> dynamic_entry list \<Rightarrow> usize option" where
  "find_dyn tag val = find_map (\<lambda>x. case dyn_tag x of None \<Rightarrow> None | Some t \<Rightarrow> if t = tag then val x else None)"

definition udiv :: "usize \<Rightarrow> usize \<Rightarrow> usize res" where
  "udiv a b = (if b = 0 then Panic Explicit else Ok (a div b))"

fun relocate_loop :: "'s loader \<Rightarrow> 's \<Rightarrow> byte_mem \<Rightarrow> rela list \<Rightarrow> byte_mem res" where
  "relocate_loop l w m [] = Ok m"
| "relocate_loop l w m (r # rs) =
     (if rela_type r = 8 \<or> rela_type r = 1027 then
        rbind (addr_add_isize (rela_offset r) (ld_vaddr_offset l)) (\<lambda>a.
        rbind (ld_addr l w a) (\<lambda>slot.
        rbind (addr_add_isize (rela_addend r) (ld_vaddr_offset l)) (\<lambda>v.
        relocate_loop l w (write_bytes m slot (to_le_bytes v)) rs)))
      else relocate_loop l w m rs)"

definition apply_relocation :: "'s loader \<Rightarrow> 's load_state \<Rightarrow> program_header \<Rightarrow> 's load_state io" where
  "apply_relocation l s ph =
     qbind (Ok (ph_data ph)) (\<lambda>d. case d of OtherData \<Rightarrow> Panic Unreachable | Dynamic64 data \<Rightarrow>
       (case find_dyn Rela dyn_ptr data of
          None \<Rightarrow> Ok (Inr s)
        | Some offset \<Rightarrow>
            (case find_dyn RelaSize dyn_val data of
               None \<Rightarrow> Ok (Inl ''relasize not found'')
             | Some sz \<Rightarrow>
                 (case find_dyn RelaEnt dyn_val data of
                    None \<Rightarrow> Ok (Inl ''relaent not found'')
                  | Some ent \<Rightarrow>
                      rbind (idx (ld_data l) offset) (\<lambda>_.
                      rbind (udiv sz ent) (\<lambda>n.
                      rbind (relocate_loop l (ma_world s) (ma_mem s) (elf_relas (ld_elf l) offset n)) (\<lambda>m.
                      Ok (Inr (s\<lparr>ma_mem := m\<rparr>)))))))))"

fun each_header :: "('s load_state \<Rightarrow> program_header \<Rightarrow> 's load_state io) \<Rightarrow> 's load_state \<Rightarrow> program_header list \<Rightarrow> 's load_state io" where
  "each_header f s [] = Ok (Inr s)"
| "each_header f s (ph # phs) = qbind (f s ph) (\<lambda>s1. each_header f s1 phs)"

fun find_init_array :: "int \<Rightarrow> section_header list \<Rightarrow> (address \<times> usize) option res" where
  "find_init_array off [] = Ok None"
| "find_init_array off (x # xs) =
     (if sh_is_init_array x then
        rbind (addr_add_isize (sh_address x) off) (\<lambda>p. Ok (Some (p, drop_bit ADDRESS_LOG_BYTES (sh_size x))))
      else find_init_array off xs)"

definition do_load :: "'s loader \<Rightarrow> 's load_state \<Rightarrow> ('s load_state \<times> elf_entry) io" where
  "do_load l s =
     rbind (map_memory l s) (\<lambda>(l1, s1).
     qbind (each_header (load_segment l1) s1 (headers Load (ld_elf l1))) (\<lambda>s2.
     qbind (each_header (apply_relocation l1) s2 (headers Dynamic (ld_elf l1))) (\<lambda>s3.
     qbind (each_header (flush_segment l1) s3 (headers Load (ld_elf l1))) (\<lambda>s4.
     rbind (addr_add_isize (elf_entry_point (ld_elf l1)) (ld_vaddr_offset l1)) (\<lambda>entry.
     rbind (find_init_array (ld_vaddr_offset l1) (elf_sections (ld_elf l1))) (\<lambda>ia.
     Ok (Inr (s4, \<lparr>ee_entry = entry, ee_init_array = ia\<rparr>))))))))"

definition elf_load :: "(8 word list \<Rightarrow> elf_file option) \<Rightarrow> 8 word list \<Rightarrow> ('s \<Rightarrow> page \<Rightarrow> page \<Rightarrow> ('s \<times> page \<times> page) res)
    \<Rightarrow> 's load_state \<Rightarrow> ('s load_state \<times> elf_entry) io" where
  "elf_load parse data map_pages s = rbind (loader_new parse data map_pages None) (\<lambda>l. do_load l s)"

definition load_with_address_translation :: "(8 word list \<Rightarrow> elf_file option) \<Rightarrow> 8 word list \<Rightarrow> ('s \<Rightarrow> page \<Rightarrow> page \<Rightarrow> ('s \<times> page \<times> page) res)
    \<Rightarrow> ('s \<Rightarrow> address \<Rightarrow> address res) \<Rightarrow> 's load_state \<Rightarrow> ('s load_state \<times> elf_entry) io" where
  "load_with_address_translation parse data map_pages translate s = rbind (loader_new parse data map_pages (Some translate)) (\<lambda>l. do_load l s)"

end
