(* ===== verification/Elf_Image.thy ===== *)
theory Elf_Image
  imports Elf_Loader
begin

text \<open>
  What the loader leaves in memory: each byte of a loadable segment comes from the file or is zero, except in the slots of
  relative relocations, which hold the relocated addresses; nothing else changes. The loader writes either directly or page
  by page through an address translation; both satisfy the same contract, the locale \<open>loader_memory\<close>.
\<close>

section \<open>Reference image\<close>

definition rebase :: "int \<Rightarrow> usize \<Rightarrow> address" where
  "rebase off a = nat (int a + off)"

definition seg_set :: "int \<Rightarrow> program_header \<Rightarrow> address set" where
  "seg_set off ph = {rebase off (ph_virtual_addr ph)..<rebase off (ph_virtual_addr ph) + ph_mem_size ph}"

definition seg_byte :: "8 word list \<Rightarrow> program_header \<Rightarrow> nat \<Rightarrow> 8 word" where
  "seg_byte data ph i = (if i < ph_file_size ph then data ! (ph_offset ph + i) else 0)"

definition image_byte :: "8 word list \<Rightarrow> int \<Rightarrow> program_header list \<Rightarrow> byte_mem \<Rightarrow> byte_mem" where
  "image_byte data off phs m a =
     (case find (\<lambda>ph. a \<in> seg_set off ph) phs of None \<Rightarrow> m a | Some ph \<Rightarrow> seg_byte data ph (a - rebase off (ph_virtual_addr ph)))"

definition relative :: "rela \<Rightarrow> bool" where
  "relative r \<longleftrightarrow> rela_type r = 8 \<or> rela_type r = 1027"

definition slot_set :: "int \<Rightarrow> rela \<Rightarrow> address set" where
  "slot_set off r = {rebase off (rela_offset r)..<rebase off (rela_offset r) + 8}"

definition reloc_byte :: "int \<Rightarrow> rela list \<Rightarrow> byte_mem \<Rightarrow> byte_mem" where
  "reloc_byte off rs m a =
     (case find (\<lambda>r. relative r \<and> a \<in> slot_set off r) (rev rs) of None \<Rightarrow> m a
      | Some r \<Rightarrow> to_le_bytes (rebase off (rela_addend r)) ! (a - rebase off (rela_offset r)))"

lemma length_le_bytes [simp]: "length (to_le_bytes v) = 8"
  by (simp add: to_le_bytes_def)

lemma write_bytes_set: "write_bytes m a bs x = (if x \<in> {a..<a + length bs} then bs ! (x - a) else m x)"
  by (simp add: write_bytes_def)

lemma find_map_append: "find P (xs @ ys) = (case find P xs of None \<Rightarrow> find P ys | Some x \<Rightarrow> Some x)"
  by (induction xs) auto

lemma find_None: "find P xs = None \<longleftrightarrow> (\<forall>x \<in> set xs. \<not> P x)"
  by (induction xs) auto

text \<open>Segments that lie inside the file and inside the target addresses \<open>D\<close>.\<close>

definition seg_ok :: "8 word list \<Rightarrow> int \<Rightarrow> address set \<Rightarrow> program_header \<Rightarrow> bool" where
  "seg_ok data off D ph \<longleftrightarrow> ph_file_size ph \<le> ph_mem_size ph \<and> ph_offset ph + ph_file_size ph \<le> length data \<and> seg_set off ph \<subseteq> D
     \<and> ph_virtual_addr ph < 2 ^ 63 \<and> 0 \<le> int (ph_virtual_addr ph) + off \<and> int (ph_virtual_addr ph) + off + int (ph_mem_size ph) < 2 ^ 63"

definition rela_ok :: "int \<Rightarrow> address set \<Rightarrow> rela \<Rightarrow> bool" where
  "rela_ok off D r \<longleftrightarrow> (relative r \<longrightarrow> slot_set off r \<subseteq> D \<and> 8 dvd rebase off (rela_offset r)
     \<and> rela_offset r < 2 ^ 63 \<and> 0 \<le> int (rela_offset r) + off \<and> int (rela_offset r) + off < 2 ^ 63
     \<and> rela_addend r < 2 ^ 63 \<and> 0 \<le> int (rela_addend r) + off \<and> int (rela_addend r) + off < 2 ^ 63)"

definition header_relas :: "elf_file \<Rightarrow> program_header \<Rightarrow> rela list" where
  "header_relas elf ph = (case ph_data ph of Inr (Dynamic64 d) \<Rightarrow>
       (case (find_dyn Rela dyn_ptr d, find_dyn RelaSize dyn_val d, find_dyn RelaEnt dyn_val d) of
          (Some offset, Some sz, Some ent) \<Rightarrow> elf_relas elf offset (sz div ent) | _ \<Rightarrow> [])
     | _ \<Rightarrow> [])"

definition dyn_ok :: "8 word list \<Rightarrow> program_header \<Rightarrow> bool" where
  "dyn_ok data ph \<longleftrightarrow> (case ph_data ph of Inr (Dynamic64 d) \<Rightarrow>
       (case (find_dyn Rela dyn_ptr d, find_dyn RelaSize dyn_val d, find_dyn RelaEnt dyn_val d) of
          (None, _, _) \<Rightarrow> True | (Some offset, Some sz, Some ent) \<Rightarrow> offset < length data \<and> ent \<noteq> 0 | _ \<Rightarrow> False)
     | _ \<Rightarrow> False)"

lemma reloc_append: "reloc_byte off (rs @ qs) m = reloc_byte off qs (reloc_byte off rs m)"
  by (auto simp: reloc_byte_def find_map_append fun_eq_iff split: option.split)

lemma rebase_Ok:
  assumes "a < 2 ^ 63" and "0 \<le> int a + off" and "int a + off < 2 ^ 63"
  shows "addr_add_isize a off = Ok (rebase off a)"
  using assms by (simp add: addr_add_isize_def to_isize_def iadd_def of_isize_def rebase_def)

definition elf_relocs :: "elf_file \<Rightarrow> rela list" where
  "elf_relocs elf = concat (map (header_relas elf) (headers Dynamic elf))"

definition elf_image :: "8 word list \<Rightarrow> elf_file \<Rightarrow> int \<Rightarrow> byte_mem \<Rightarrow> byte_mem" where
  "elf_image data elf off m = reloc_byte off (elf_relocs elf) (image_byte data off (headers Load elf) m)"

definition init_array :: "elf_file \<Rightarrow> int \<Rightarrow> (address \<times> usize) option" where
  "init_array elf off = map_option (\<lambda>x. (rebase off (sh_address x), sh_size x div 8)) (find sh_is_init_array (elf_sections elf))"

definition in_space :: "int \<Rightarrow> usize \<Rightarrow> bool" where
  "in_space off a \<longleftrightarrow> a < 2 ^ 63 \<and> 0 \<le> int a + off \<and> int a + off < 2 ^ 63"

definition elf_ok :: "8 word list \<Rightarrow> elf_file \<Rightarrow> int \<Rightarrow> address set \<Rightarrow> bool" where
  "elf_ok data elf off D \<longleftrightarrow> length data < USIZE_LIMIT \<and> (\<forall>ph \<in> set (headers Load elf). seg_ok data off D ph) \<and> apart (map (seg_set off) (headers Load elf))
     \<and> (\<forall>ph \<in> set (headers Dynamic elf). dyn_ok data ph) \<and> (\<forall>r \<in> set (elf_relocs elf). rela_ok off D r)
     \<and> in_space off (elf_entry_point elf) \<and> (\<forall>x \<in> set (elf_sections elf). sh_is_init_array x \<longrightarrow> in_space off (sh_address x))"

text \<open>Every loaded byte of the file has its cache line flushed.\<close>

definition flushed :: "elf_file \<Rightarrow> int \<Rightarrow> (address \<Rightarrow> address) \<Rightarrow> address list \<Rightarrow> bool" where
  "flushed elf off t fl \<longleftrightarrow> (\<forall>ph \<in> set (headers Load elf). \<forall>i < ph_file_size ph.
     let a = t (rebase off (ph_virtual_addr ph) + i) in a - a mod 64 \<in> set fl)"

lemma find_init_array_Ok:
  "\<forall>x \<in> set xs. sh_is_init_array x \<longrightarrow> in_space off (sh_address x) \<Longrightarrow>
   find_init_array off xs = Ok (map_option (\<lambda>x. (rebase off (sh_address x), sh_size x div 8)) (find sh_is_init_array xs))"
  by (induction xs) (auto simp: in_space_def rebase_Ok ADDRESS_LOG_BYTES_def drop_bit_eq_div)

section \<open>The contract of the writers\<close>

definition views :: "(address \<Rightarrow> address) \<Rightarrow> address set \<Rightarrow> byte_mem \<Rightarrow> byte_mem \<Rightarrow> byte_mem \<Rightarrow> bool" where
  "views t D m f m' \<longleftrightarrow> (\<forall>a \<in> D. m' (t a) = f a) \<and> (\<forall>x. x \<notin> t ` D \<longrightarrow> m' x = m x)"

text \<open>\<open>t\<close> is where the loader's writes to an address end up; \<open>good\<close> holds of the address sets it may write to.\<close>

locale loader_memory =
  fixes l :: "'s loader" and w :: 's and t :: "address \<Rightarrow> address" and good :: "address set \<Rightarrow> bool"
  assumes good_bound: "good D \<Longrightarrow> a \<in> D \<Longrightarrow> a < 2 ^ 63"
    and copy_Ok: "good D \<Longrightarrow> {dst..<dst + length src} \<subseteq> D \<Longrightarrow> \<exists>m'. ld_copy l w src dst m = Ok m' \<and> views t D m (write_bytes (\<lambda>a. m (t a)) dst src) m'"
    and zero_Ok: "good D \<Longrightarrow> {dst..<dst + n} \<subseteq> D \<Longrightarrow> \<exists>m'. ld_zero l w dst n m = Ok m' \<and> views t D m (write_bytes (\<lambda>a. m (t a)) dst (replicate n 0)) m'"
    and flush_Ok: "good D \<Longrightarrow> {dst..<dst + n} \<subseteq> D \<Longrightarrow> \<exists>fl'. ld_flush l w dst n fl = Ok (fl @ fl') \<and> (\<forall>a \<in> {dst..<dst + n}. t a - t a mod 64 \<in> set fl')"
    and slot_Ok: "good D \<Longrightarrow> {a..<a + 8} \<subseteq> D \<Longrightarrow> 8 dvd a \<Longrightarrow> \<exists>slot. ld_addr l w a = Ok slot
      \<and> (\<forall>bs. length bs = 8 \<longrightarrow> views t D m (write_bytes (\<lambda>a. m (t a)) a bs) (write_bytes m slot bs))"
begin

lemma views_trans:
  assumes "views t D m f m1" and "views t D m1 g m2" and "\<And>a. a \<in> D \<Longrightarrow> g a = h a"
  shows "views t D m h m2"
  using assms by (auto simp: views_def)

lemma load_segment_Ok:
  assumes g: "good D" and ok: "seg_ok (ld_data l) (ld_vaddr_offset l) D ph" and len: "length (ld_data l) < USIZE_LIMIT" and s: "ma_world s = w"
  shows "\<exists>s' fl. load_segment l s ph = Ok (Inr s') \<and> ma_world s' = w \<and> ma_flushed s' = ma_flushed s @ fl
    \<and> views t D (ma_mem s) (\<lambda>a. if a \<in> seg_set (ld_vaddr_offset l) ph
         then seg_byte (ld_data l) ph (a - rebase (ld_vaddr_offset l) (ph_virtual_addr ph)) else ma_mem s (t a)) (ma_mem s')"
proof -
  let ?off = "ld_vaddr_offset l" and ?n = "ph_file_size ph" and ?k = "ph_mem_size ph" and ?o = "ph_offset ph"
  define a where "a = rebase ?off (ph_virtual_addr ph)"
  have st: "addr_add_isize (ph_virtual_addr ph) ?off = Ok a" using ok by (auto simp: seg_ok_def a_def intro: rebase_Ok)
  have b: "a + ?k < 2 ^ 63" using ok by (auto simp: seg_ok_def a_def rebase_def)
  have nk: "?n \<le> ?k" "?o + ?n \<le> length (ld_data l)" and D: "{a..<a + ?k} \<subseteq> D" using ok by (auto simp: seg_ok_def seg_set_def a_def)
  define src where "src = take ?n (drop ?o (ld_data l))"
  have ls: "length src = ?n" using nk by (simp add: src_def)
  have sl: "uadd ?o ?n = Ok (?o + ?n)" "subslice (ld_data l) ?o (?o + ?n) = Ok src" using nk len by (simp_all add: subslice_def src_def)
  have D1: "{a..<a + length src} \<subseteq> D" using D nk ls by auto
  obtain m1 where m1: "ld_copy l w src a (ma_mem s) = Ok m1" "views t D (ma_mem s) (write_bytes (\<lambda>x. ma_mem s (t x)) a src) m1"
    using copy_Ok [OF g D1] by blast
  have ad: "addr_add a ?n = Ok (a + ?n)" "addr_add a ?k = Ok (a + ?k)" "addr_diff (a + ?k) (a + ?n) = Ok (?k - ?n)"
    using b nk by (simp_all add: addr_add_def addr_diff_def USIZE_LIMIT_def)
  have "\<exists>m2. (if ?n < ?k then rbind (addr_add a ?n) (\<lambda>zs. rbind (addr_add a ?k) (\<lambda>ze. rbind (addr_diff ze zs) (\<lambda>n. ld_zero l w zs n m1))) else Ok m1) = Ok m2
      \<and> views t D m1 (write_bytes (\<lambda>x. m1 (t x)) (a + ?n) (replicate (?k - ?n) 0)) m2"
  proof (cases "?n < ?k")
    case True
    have "{a + ?n..<a + ?n + (?k - ?n)} \<subseteq> D" using D nk by auto
    then show ?thesis using zero_Ok [OF g, of "a + ?n" "?k - ?n" m1] True ad by simp
  next
    case False
    then show ?thesis by (auto simp: views_def write_bytes_def)
  qed
  then obtain m2 where m2: "(if ?n < ?k then rbind (addr_add a ?n) (\<lambda>zs. rbind (addr_add a ?k) (\<lambda>ze. rbind (addr_diff ze zs) (\<lambda>n. ld_zero l w zs n m1))) else Ok m1) = Ok m2"
      "views t D m1 (write_bytes (\<lambda>x. m1 (t x)) (a + ?n) (replicate (?k - ?n) 0)) m2" by blast
  have Df: "{a..<a + ?n} \<subseteq> D" using D nk by auto
  obtain fl where fl: "ld_flush l w a ?n (ma_flushed s) = Ok (ma_flushed s @ fl)" using flush_Ok [OF g Df] by blast
  have "views t D (ma_mem s) (\<lambda>x. if x \<in> seg_set ?off ph then seg_byte (ld_data l) ph (x - a) else ma_mem s (t x)) m2"
  proof (rule views_trans [OF m1(2) m2(2)])
    fix x
    assume x: "x \<in> D"
    then have v: "m1 (t x) = write_bytes (\<lambda>x. ma_mem s (t x)) a src x" using m1(2) by (simp add: views_def)
    have "write_bytes (\<lambda>x. m1 (t x)) (a + ?n) (replicate (?k - ?n) 0) x = (if x \<in> {a + ?n..<a + ?k} then 0 else m1 (t x))"
      using nk by (auto simp: write_bytes_def)
    also have "\<dots> = (if x \<in> seg_set ?off ph then seg_byte (ld_data l) ph (x - a) else ma_mem s (t x))"
      using nk ls unfolding v write_bytes_def seg_set_def seg_byte_def by (auto simp: src_def simp flip: a_def)
    finally show "write_bytes (\<lambda>x. m1 (t x)) (a + ?n) (replicate (?k - ?n) 0) x = (if x \<in> seg_set ?off ph then seg_byte (ld_data l) ph (x - a) else ma_mem s (t x))" .
  qed
  moreover have "load_segment l s ph = Ok (Inr (s\<lparr>ma_mem := m2, ma_flushed := ma_flushed s @ fl\<rparr>))"
    using st sl m1(1) m2(1) fl s ad by (cases "?n < ?k") (simp_all add: load_segment_def Let_def)
  ultimately show ?thesis using s unfolding a_def
    by (intro exI [of _ "s\<lparr>ma_mem := m2, ma_flushed := ma_flushed s @ fl\<rparr>"] exI [of _ fl]) simp
qed

text \<open>All segments; they do not overlap.\<close>

lemma load_segments_Ok:
  assumes g: "good D" and len: "length (ld_data l) < USIZE_LIMIT"
  shows "\<forall>ph \<in> set phs. seg_ok (ld_data l) (ld_vaddr_offset l) D ph \<Longrightarrow> apart (map (seg_set (ld_vaddr_offset l)) phs) \<Longrightarrow> ma_world s = w \<Longrightarrow>
    \<exists>s' fl. each_header (load_segment l) s phs = Ok (Inr s') \<and> ma_world s' = w \<and> ma_flushed s' = ma_flushed s @ fl
      \<and> views t D (ma_mem s) (image_byte (ld_data l) (ld_vaddr_offset l) phs (\<lambda>a. ma_mem s (t a))) (ma_mem s')"
proof (induction phs arbitrary: s)
  case Nil
  then show ?case by (auto simp: views_def image_byte_def)
next
  case (Cons ph phs)
  let ?off = "ld_vaddr_offset l"
  have "seg_ok (ld_data l) ?off D ph" using Cons.prems(1) by simp
  from load_segment_Ok [OF g this len Cons.prems(3)] obtain s1 fl where s1: "load_segment l s ph = Ok (Inr s1)" "ma_world s1 = w" "ma_flushed s1 = ma_flushed s @ fl"
      "views t D (ma_mem s) (\<lambda>a. if a \<in> seg_set ?off ph then seg_byte (ld_data l) ph (a - rebase ?off (ph_virtual_addr ph)) else ma_mem s (t a)) (ma_mem s1)"
    by blast
  obtain s2 fl2 where s2: "each_header (load_segment l) s1 phs = Ok (Inr s2)" "ma_world s2 = w" "ma_flushed s2 = ma_flushed s1 @ fl2"
      "views t D (ma_mem s1) (image_byte (ld_data l) ?off phs (\<lambda>a. ma_mem s1 (t a))) (ma_mem s2)"
    using Cons.IH [OF _ _ s1(2)] Cons.prems(1,2) by auto
  have "views t D (ma_mem s) (image_byte (ld_data l) ?off (ph # phs) (\<lambda>a. ma_mem s (t a))) (ma_mem s2)"
  proof (rule views_trans [OF s1(4) s2(4)])
    fix a
    assume "a \<in> D"
    then have m: "ma_mem s1 (t a) = (if a \<in> seg_set ?off ph then seg_byte (ld_data l) ph (a - rebase ?off (ph_virtual_addr ph)) else ma_mem s (t a))"
      using s1(4) by (simp add: views_def)
    have "find (\<lambda>ph. a \<in> seg_set ?off ph) phs = None" if "a \<in> seg_set ?off ph"
      using Cons.prems(2) that by (auto simp: find_None)
    then show "image_byte (ld_data l) ?off phs (\<lambda>a. ma_mem s1 (t a)) a = image_byte (ld_data l) ?off (ph # phs) (\<lambda>a. ma_mem s (t a)) a"
      by (auto simp: image_byte_def m split: option.split)
  qed
  then show ?case using s1(1) s2(1-3) s1(3) by (auto simp: qbind_def)
qed

lemma relocate_Ok:
  assumes g: "good D"
  shows "\<forall>r \<in> set rs. rela_ok (ld_vaddr_offset l) D r \<Longrightarrow>
    \<exists>m'. relocate_loop l w m rs = Ok m' \<and> views t D m (reloc_byte (ld_vaddr_offset l) rs (\<lambda>a. m (t a))) m'"
proof (induction rs arbitrary: m)
  case Nil
  then show ?case by (auto simp: views_def reloc_byte_def)
next
  case (Cons r rs)
  let ?off = "ld_vaddr_offset l"
  show ?case
  proof (cases "relative r")
    case True
    define a v where "a = rebase ?off (rela_offset r)" and "v = rebase ?off (rela_addend r)"
    have r: "addr_add_isize (rela_offset r) ?off = Ok a" "addr_add_isize (rela_addend r) ?off = Ok v" "{a..<a + 8} \<subseteq> D" "8 dvd a"
      using Cons.prems True by (auto simp: rela_ok_def a_def v_def slot_set_def intro!: rebase_Ok)
    obtain slot where sl: "ld_addr l w a = Ok slot" "views t D m (write_bytes (\<lambda>a. m (t a)) a (to_le_bytes v)) (write_bytes m slot (to_le_bytes v))"
      using slot_Ok [OF g r(3,4), of m] length_le_bytes by blast
    obtain m2 where m2: "relocate_loop l w (write_bytes m slot (to_le_bytes v)) rs = Ok m2"
        "views t D (write_bytes m slot (to_le_bytes v)) (reloc_byte ?off rs (\<lambda>a. write_bytes m slot (to_le_bytes v) (t a))) m2"
      using Cons.IH Cons.prems by auto
    have "views t D m (reloc_byte ?off (r # rs) (\<lambda>a. m (t a))) m2"
    proof (rule views_trans [OF sl(2) m2(2)])
      fix x
      assume "x \<in> D"
      then have "write_bytes m slot (to_le_bytes v) (t x) = write_bytes (\<lambda>a. m (t a)) a (to_le_bytes v) x" using sl(2) by (simp add: views_def)
      also have "\<dots> = (if x \<in> slot_set ?off r then to_le_bytes v ! (x - a) else m (t x))"
        by (simp add: write_bytes_set slot_set_def a_def)
      finally show "reloc_byte ?off rs (\<lambda>a. write_bytes m slot (to_le_bytes v) (t a)) x = reloc_byte ?off (r # rs) (\<lambda>a. m (t a)) x"
        using True by (auto simp: reloc_byte_def find_map_append a_def v_def split: option.split)
    qed
    then show ?thesis using True r(1,2) sl(1) m2(1) by (auto simp: relative_def)
  next
    case False
    then have "reloc_byte ?off (r # rs) f = reloc_byte ?off rs f" for f by (auto simp: reloc_byte_def find_map_append fun_eq_iff split: option.split)
    then show ?thesis using Cons.IH [of m] Cons.prems False by (auto simp: relative_def)
  qed
qed

lemma apply_relocation_Ok:
  assumes g: "good D" and ok: "dyn_ok (ld_data l) ph" "\<forall>r \<in> set (header_relas (ld_elf l) ph). rela_ok (ld_vaddr_offset l) D r" and s: "ma_world s = w"
  shows "\<exists>m'. apply_relocation l s ph = Ok (Inr (s\<lparr>ma_mem := m'\<rparr>))
    \<and> views t D (ma_mem s) (reloc_byte (ld_vaddr_offset l) (header_relas (ld_elf l) ph) (\<lambda>a. ma_mem s (t a))) m'"
proof -
  obtain d where d: "ph_data ph = Inr (Dynamic64 d)" using ok(1) by (auto simp: dyn_ok_def split: sum.splits segment_data.splits)
  show ?thesis
  proof (cases "find_dyn Rela dyn_ptr d")
    case None
    then have "header_relas (ld_elf l) ph = []" using d by (simp add: header_relas_def)
    then show ?thesis using None d by (intro exI [of _ "ma_mem s"]) (simp add: apply_relocation_def qbind_def views_def reloc_byte_def)
  next
    case (Some offset)
    then obtain sz ent where f: "find_dyn RelaSize dyn_val d = Some sz" "find_dyn RelaEnt dyn_val d = Some ent" "offset < length (ld_data l)" "ent \<noteq> 0"
      using ok(1) d by (auto simp: dyn_ok_def split: option.splits)
    then have h: "header_relas (ld_elf l) ph = elf_relas (ld_elf l) offset (sz div ent)" using d Some by (simp add: header_relas_def)
    from relocate_Ok [OF g ok(2) [unfolded h], of "ma_mem s"] show ?thesis
      using d Some f s unfolding h by (auto simp: apply_relocation_def qbind_def udiv_def)
  qed
qed

lemma relocations_Ok:
  assumes g: "good D"
  shows "\<forall>ph \<in> set phs. dyn_ok (ld_data l) ph \<and> (\<forall>r \<in> set (header_relas (ld_elf l) ph). rela_ok (ld_vaddr_offset l) D r) \<Longrightarrow> ma_world s = w \<Longrightarrow>
    \<exists>m'. each_header (apply_relocation l) s phs = Ok (Inr (s\<lparr>ma_mem := m'\<rparr>))
      \<and> views t D (ma_mem s) (reloc_byte (ld_vaddr_offset l) (concat (map (header_relas (ld_elf l)) phs)) (\<lambda>a. ma_mem s (t a))) m'"
proof (induction phs arbitrary: s)
  case Nil
  then show ?case by (intro exI [of _ "ma_mem s"]) (simp add: views_def reloc_byte_def)
next
  case (Cons ph phs)
  obtain m1 where m1: "apply_relocation l s ph = Ok (Inr (s\<lparr>ma_mem := m1\<rparr>))"
      "views t D (ma_mem s) (reloc_byte (ld_vaddr_offset l) (header_relas (ld_elf l) ph) (\<lambda>a. ma_mem s (t a))) m1"
    using apply_relocation_Ok [OF g, of ph s] Cons.prems by auto
  obtain m2 where m2: "each_header (apply_relocation l) (s\<lparr>ma_mem := m1\<rparr>) phs = Ok (Inr (s\<lparr>ma_mem := m2\<rparr>))"
      "views t D m1 (reloc_byte (ld_vaddr_offset l) (concat (map (header_relas (ld_elf l)) phs)) (\<lambda>a. m1 (t a))) m2"
    using Cons.IH [of "s\<lparr>ma_mem := m1\<rparr>"] Cons.prems by auto
  have "views t D (ma_mem s) (reloc_byte (ld_vaddr_offset l) (concat (map (header_relas (ld_elf l)) (ph # phs))) (\<lambda>a. ma_mem s (t a))) m2"
  proof (rule views_trans [OF m1(2) m2(2)])
    fix a
    assume "a \<in> D"
    then have "m1 (t a) = reloc_byte (ld_vaddr_offset l) (header_relas (ld_elf l) ph) (\<lambda>a. ma_mem s (t a)) a" using m1(2) by (simp add: views_def)
    then show "reloc_byte (ld_vaddr_offset l) (concat (map (header_relas (ld_elf l)) phs)) (\<lambda>a. m1 (t a)) a
        = reloc_byte (ld_vaddr_offset l) (concat (map (header_relas (ld_elf l)) (ph # phs))) (\<lambda>a. ma_mem s (t a)) a"
      unfolding list.map concat.simps reloc_append by (simp only: reloc_byte_def)
  qed
  then show ?case using m1(1) m2(1) by (intro exI [of _ m2]) (simp add: qbind_def)
qed

lemma flush_segments_Ok:
  assumes g: "good D"
  shows "\<forall>ph \<in> set phs. seg_ok data (ld_vaddr_offset l) D ph \<Longrightarrow> ma_world s = w \<Longrightarrow>
    \<exists>fl. each_header (flush_segment l) s phs = Ok (Inr (s\<lparr>ma_flushed := ma_flushed s @ fl\<rparr>))
      \<and> (\<forall>ph \<in> set phs. \<forall>i < ph_file_size ph. t (rebase (ld_vaddr_offset l) (ph_virtual_addr ph) + i) - t (rebase (ld_vaddr_offset l) (ph_virtual_addr ph) + i) mod 64 \<in> set fl)"
proof (induction phs arbitrary: s)
  case (Cons ph phs)
  let ?a = "rebase (ld_vaddr_offset l) (ph_virtual_addr ph)"
  have st: "addr_add_isize (ph_virtual_addr ph) (ld_vaddr_offset l) = Ok ?a" and D: "{?a..<?a + ph_file_size ph} \<subseteq> D"
    using Cons.prems(1) by (auto simp: seg_ok_def seg_set_def intro!: rebase_Ok)
  obtain fl where fl: "ld_flush l w ?a (ph_file_size ph) (ma_flushed s) = Ok (ma_flushed s @ fl)" "\<forall>a \<in> {?a..<?a + ph_file_size ph}. t a - t a mod 64 \<in> set fl"
    using flush_Ok [OF g D] by blast
  obtain fl2 where fl2: "each_header (flush_segment l) (s\<lparr>ma_flushed := ma_flushed s @ fl\<rparr>) phs = Ok (Inr (s\<lparr>ma_flushed := (ma_flushed s @ fl) @ fl2\<rparr>))"
      "\<forall>ph \<in> set phs. \<forall>i < ph_file_size ph. t (rebase (ld_vaddr_offset l) (ph_virtual_addr ph) + i) - t (rebase (ld_vaddr_offset l) (ph_virtual_addr ph) + i) mod 64 \<in> set fl2"
    using Cons.IH [of "s\<lparr>ma_flushed := ma_flushed s @ fl\<rparr>"] Cons.prems by auto
  have "each_header (flush_segment l) s (ph # phs) = Ok (Inr (s\<lparr>ma_flushed := ma_flushed s @ fl @ fl2\<rparr>))"
    using st fl(1) fl2(1) Cons.prems(2) by (simp add: flush_segment_def qbind_def)
  then show ?case using fl(2) fl2(2) by (intro exI [of _ "fl @ fl2"]) auto
qed (auto intro: exI [of _ "[]"])

lemma do_load_Ok:
  assumes g: "good D" and ok: "elf_ok (ld_data l) (ld_elf l) (ld_vaddr_offset l) D" and m: "map_memory l0 s0 = Ok (l, s)" and s: "ma_world s = w"
  shows "\<exists>s' fl. do_load l0 s0 = Ok (Inr (s', \<lparr>ee_entry = rebase (ld_vaddr_offset l) (elf_entry_point (ld_elf l)), ee_init_array = init_array (ld_elf l) (ld_vaddr_offset l)\<rparr>))
    \<and> ma_world s' = w \<and> ma_flushed s' = ma_flushed s @ fl \<and> flushed (ld_elf l) (ld_vaddr_offset l) t fl
    \<and> views t D (ma_mem s) (elf_image (ld_data l) (ld_elf l) (ld_vaddr_offset l) (\<lambda>a. ma_mem s (t a))) (ma_mem s')"
proof -
  let ?off = "ld_vaddr_offset l" and ?elf = "ld_elf l"
  have o: "length (ld_data l) < USIZE_LIMIT" "\<forall>ph \<in> set (headers Load ?elf). seg_ok (ld_data l) ?off D ph" "apart (map (seg_set ?off) (headers Load ?elf))"
      "\<forall>ph \<in> set (headers Dynamic ?elf). dyn_ok (ld_data l) ph \<and> (\<forall>r \<in> set (header_relas ?elf ph). rela_ok ?off D r)"
      "in_space ?off (elf_entry_point ?elf)" "\<forall>x \<in> set (elf_sections ?elf). sh_is_init_array x \<longrightarrow> in_space ?off (sh_address x)"
    using ok by (auto simp: elf_ok_def elf_relocs_def)
  obtain s2 fl2 where s2: "each_header (load_segment l) s (headers Load ?elf) = Ok (Inr s2)" "ma_world s2 = w" "ma_flushed s2 = ma_flushed s @ fl2"
      "views t D (ma_mem s) (image_byte (ld_data l) ?off (headers Load ?elf) (\<lambda>a. ma_mem s (t a))) (ma_mem s2)"
    using load_segments_Ok [OF g o(1-3) s] by blast
  obtain m3 where m3: "each_header (apply_relocation l) s2 (headers Dynamic ?elf) = Ok (Inr (s2\<lparr>ma_mem := m3\<rparr>))"
      "views t D (ma_mem s2) (reloc_byte ?off (elf_relocs ?elf) (\<lambda>a. ma_mem s2 (t a))) m3"
    using relocations_Ok [OF g o(4) s2(2)] unfolding elf_relocs_def by blast
  obtain fl4 where fl4: "each_header (flush_segment l) (s2\<lparr>ma_mem := m3\<rparr>) (headers Load ?elf) = Ok (Inr (s2\<lparr>ma_mem := m3, ma_flushed := ma_flushed s2 @ fl4\<rparr>))"
      "flushed ?elf ?off t fl4"
    using flush_segments_Ok [OF g o(2), of "s2\<lparr>ma_mem := m3\<rparr>"] s2(2) by (auto simp: flushed_def Let_def)
  have "views t D (ma_mem s) (elf_image (ld_data l) ?elf ?off (\<lambda>a. ma_mem s (t a))) m3"
  proof (rule views_trans [OF s2(4) m3(2)])
    fix a
    assume "a \<in> D"
    then have "ma_mem s2 (t a) = image_byte (ld_data l) ?off (headers Load ?elf) (\<lambda>a. ma_mem s (t a)) a" using s2(4) by (simp add: views_def)
    then show "reloc_byte ?off (elf_relocs ?elf) (\<lambda>a. ma_mem s2 (t a)) a = elf_image (ld_data l) ?elf ?off (\<lambda>a. ma_mem s (t a)) a"
      unfolding elf_image_def by (simp only: reloc_byte_def)
  qed
  moreover have "flushed ?elf ?off t (fl2 @ fl4)" using fl4(2) by (auto simp: flushed_def Let_def)
  moreover have "do_load l0 s0 = Ok (Inr (s2\<lparr>ma_mem := m3, ma_flushed := ma_flushed s2 @ fl4\<rparr>, \<lparr>ee_entry = rebase ?off (elf_entry_point ?elf), ee_init_array = init_array ?elf ?off\<rparr>))"
    using m s2(1) m3(1) fl4(1) o(5) find_init_array_Ok [OF o(6)] by (simp add: do_load_def qbind_def in_space_def rebase_Ok init_array_def)
  ultimately show ?thesis using s2(2,3)
    by (intro exI [of _ "s2\<lparr>ma_mem := m3, ma_flushed := ma_flushed s2 @ fl4\<rparr>"] exI [of _ "fl2 @ fl4"]) simp
qed

end

end
