(* ===== verification/Elf_Spec.thy ===== *)
theory Elf_Spec
  imports Elf_Image
begin

text \<open>
  Both ways of writing satisfy the contract \<open>loader_memory\<close>; with it, loading a well-formed file places exactly its
  image, directly or through an address translation.
\<close>

section \<open>Cache lines\<close>

lemma cache_lines_cover: "64 dvd a \<Longrightarrow> a \<le> x \<Longrightarrow> x < e \<Longrightarrow> x - x mod 64 \<in> set (cache_lines a e)"
proof (induction a e rule: cache_lines.induct)
  case (1 a e)
  show ?case
  proof (cases "x < a + 64")
    case True
    obtain q where q: "a = 64 * q" using "1.prems"(1) by blast
    have "x div 64 = q" using True "1.prems"(2) q by (intro div_nat_eqI) simp_all
    then have "x - x mod 64 = a" using q by (simp add: minus_mod_eq_mult_div)
    then show ?thesis using "1.prems" by (simp add: cache_lines.simps [of a e])
  next
    case False
    have "a < e" using "1.prems" by simp
    then show ?thesis using "1.IH" "1.prems" False by (simp add: cache_lines.simps [of a e] CACHE_LINE_SIZE_def)
  qed
qed

lemma flush_cache_Ok:
  assumes "a < USIZE_LIMIT" and "e \<le> 2 ^ 63"
  shows "\<exists>fl'. flush_cache a e fl = Ok (fl @ fl') \<and> (\<forall>x \<in> {a..<e}. x - x mod 64 \<in> set fl')"
proof -
  have c: "CACHE_LINE_SIZE = 2 ^ 6" by (simp add: CACHE_LINE_SIZE_def)
  have d: "align_down a (2 ^ 6) = Ok (a - a mod 2 ^ 6)" using align_down_pow [of a 6] assms(1) by simp
  have cov: "\<forall>x \<in> {a..<e}. x - x mod 64 \<in> set (cache_lines (a - a mod 64) e')" if "e \<le> e'" for e'
    using that by (auto intro!: cache_lines_cover simp: dvd_sub_mod)
  show ?thesis
  proof (cases "2 ^ 6 dvd e")
    case True
    then show ?thesis using d cov [of e] unfolding flush_cache_def c is_aligned_to_pow by simp
  next
    case False
    have "align_up e (2 ^ 6) = Ok ((e + (2 ^ 6 - 1)) div 2 ^ 6 * 2 ^ 6)" using assms(2) by (intro align_up_pow) (simp_all add: USIZE_LIMIT_def)
    moreover have "e \<le> (e + (2 ^ 6 - 1)) div 2 ^ 6 * 2 ^ 6" by (rule round_up_bounds(1)) simp
    ultimately obtain e' where "align_up e (2 ^ 6) = Ok e'" "e \<le> e'" by blast
    then show ?thesis using d False cov unfolding flush_cache_def c is_aligned_to_pow by simp
  qed
qed

section \<open>Direct writes\<close>

definition low :: "address set \<Rightarrow> bool" where
  "low D \<longleftrightarrow> D \<subseteq> {..<2 ^ 63}"

lemma low_end: "low D \<Longrightarrow> {a..<a + n} \<subseteq> D \<Longrightarrow> 0 < n \<Longrightarrow> a + n \<le> 2 ^ 63"
proof -
  assume h: "low D" "{a..<a + n} \<subseteq> D" "0 < n"
  then have "a + n - 1 \<in> D" by auto
  then show ?thesis using h(1) by (auto simp: low_def)
qed

interpretation direct: loader_memory "l\<lparr>ld_translate := None\<rparr>" w "\<lambda>a. a" low for l :: "'s loader" and w
proof unfold_locales
  fix D :: "address set" and dst n fl
  assume D: "low D" "{dst..<dst + n} \<subseteq> D"
  show "\<exists>fl'. ld_flush (l\<lparr>ld_translate := None\<rparr>) w dst n fl = Ok (fl @ fl') \<and> (\<forall>a \<in> {dst..<dst + n}. a - a mod 64 \<in> set fl')"
  proof (cases "n = 0")
    case False
    then have "dst + n \<le> 2 ^ 63" using low_end [OF D] by simp
    then show ?thesis using flush_cache_Ok [of dst "dst + n" fl] False by (simp add: ld_flush_def addr_add_def USIZE_LIMIT_def)
  qed (simp add: ld_flush_def)
qed (auto simp: low_def ld_copy_def ld_zero_def ld_addr_def views_def write_bytes_def)

section \<open>Writes through a translation\<close>

text \<open>The translation maps pages to disjoint frames.\<close>

definition paged :: "(address \<Rightarrow> address) \<Rightarrow> address set \<Rightarrow> bool" where
  "paged t D \<longleftrightarrow> inj_on t D \<and> (\<forall>a \<in> D. t a < 2 ^ 63) \<and> (\<forall>a \<in> D. \<forall>b \<in> D. a \<le> b \<longrightarrow> a div 4096 = b div 4096 \<longrightarrow> t b = t a + (b - a))"

definition translates :: "('s \<Rightarrow> address \<Rightarrow> address res) \<Rightarrow> 's \<Rightarrow> (address \<Rightarrow> address) \<Rightarrow> address set \<Rightarrow> bool" where
  "translates tr w t D \<longleftrightarrow> low D \<and> paged t D \<and> (\<forall>a \<in> D. tr w a = Ok (t a))"

lemma write_piece:
  assumes p: "paged t D" and c: "{c..<c + length bs} \<subseteq> D" "bs \<noteq> [] \<Longrightarrow> c div 4096 = (c + length bs - 1) div 4096"
  shows "views t D m (write_bytes (\<lambda>a. m (t a)) c bs) (write_bytes m (t c) bs)"
proof -
  have lin1: "\<And>a b. a \<in> D \<Longrightarrow> b \<in> D \<Longrightarrow> a \<le> b \<Longrightarrow> a div 4096 = b div 4096 \<Longrightarrow> t b = t a + (b - a)" using p unfolding paged_def by blast
  have inj: "\<And>a b. a \<in> D \<Longrightarrow> b \<in> D \<Longrightarrow> t a = t b \<Longrightarrow> a = b" using p unfolding paged_def inj_on_def by blast
  have inD: "c + i \<in> D" if "i < length bs" for i by (rule subsetD [OF c(1)]) (use that in simp)
  have lin: "t (c + i) = t c + i" if i: "i < length bs" for i
  proof -
    have ne: "bs \<noteq> []" using i by auto
    have d: "c \<in> D" "c + i \<in> D" using inD [of 0] inD [OF i] ne by auto
    have "(c + i) div 4096 \<le> (c + length bs - 1) div 4096" by (rule div_le_mono) (use i in simp)
    then have "c div 4096 = (c + i) div 4096" unfolding c(2) [OF ne, symmetric] by (rule order.antisym [OF div_le_mono [OF le_add1]])
    then show ?thesis using lin1 [OF d le_add1] by simp
  qed
  have iff: "t a \<in> {t c..<t c + length bs} \<longleftrightarrow> a \<in> {c..<c + length bs}" "a \<in> {c..<c + length bs} \<Longrightarrow> t a - t c = a - c" if a: "a \<in> D" for a
  proof -
    show "t a - t c = a - c" if "a \<in> {c..<c + length bs}" using lin [of "a - c"] that by auto
    show "t a \<in> {t c..<t c + length bs} \<longleftrightarrow> a \<in> {c..<c + length bs}"
    proof
      assume h: "t a \<in> {t c..<t c + length bs}"
      then obtain i where i: "t a = t c + i" "i < length bs" by (auto simp: le_iff_add)
      then have "c + i = a" using inj [OF inD a] lin by simp
      then show "a \<in> {c..<c + length bs}" using i(2) by auto
    next
      assume "a \<in> {c..<c + length bs}"
      then show "t a \<in> {t c..<t c + length bs}" using lin [of "a - c"] by auto
    qed
  qed
  have "write_bytes m (t c) bs x = m x" if "x \<notin> t ` D" for x
  proof -
    have "x \<notin> {t c..<t c + length bs}"
    proof
      assume "x \<in> {t c..<t c + length bs}"
      then obtain i where "x = t c + i" "i < length bs" by (auto simp: le_iff_add)
      then show False using that lin inD by (metis image_eqI)
    qed
    then show ?thesis by (simp only: write_bytes_set if_False)
  qed
  moreover have "write_bytes m (t c) bs (t a) = write_bytes (\<lambda>a. m (t a)) c bs a" if "a \<in> D" for a
    using iff [OF that] by (auto simp only: write_bytes_set split: if_split)
  ultimately show ?thesis unfolding views_def by blast
qed

text \<open>Invariants of the page loop.\<close>

lemma page_loop_invariant:
  assumes lim: "limit \<le> 2 ^ 63" and tr: "\<And>a. c0 \<le> a \<Longrightarrow> a < limit \<Longrightarrow> tr a = Ok (t a)"
    and step: "\<And>c n m. c0 \<le> c \<Longrightarrow> 0 < n \<Longrightarrow> c + n \<le> limit \<Longrightarrow> c div 4096 = (c + n - 1) div 4096 \<Longrightarrow> P c m \<Longrightarrow> \<exists>m'. f (t c) c n m = Ok m' \<and> P (c + n) m'"
  shows "c0 \<le> c \<Longrightarrow> c \<le> limit \<Longrightarrow> P c m \<Longrightarrow> \<exists>m'. page_loop tr f limit c m = Ok m' \<and> P limit m'"
proof (induction "limit - c" arbitrary: c m rule: less_induct)
  case less
  show ?case
  proof (cases "c < limit")
    case True
    define e where "e = c - c mod 4096 + 4096"
    have cm: "c mod 4096 < 4096" "c mod 4096 \<le> c" by simp_all
    have e: "c < e" "e \<le> c + 4096" using cm unfolding e_def by linarith+
    define n where "n = min e limit - c"
    have n: "0 < n" "c + n \<le> limit" "c + n \<le> e" using e True by (auto simp: n_def)
    have pg: "page_align Size4K c = c - c mod 4096" using page_align_eq [of c Size4K] True lim by (simp add: BYTES_def USIZE_LIMIT_def)
    have a: "addr_add (page_align Size4K c) (BYTES Size4K) = Ok e" using e True lim by (simp add: pg addr_add_def BYTES_def e_def USIZE_LIMIT_def)
    have b: "addr_diff (addr_min e limit) c = Ok n" using e True by (simp add: addr_diff_def n_def)
    have d: "addr_add c n = Ok (c + n)" using n lim by (simp add: addr_add_def USIZE_LIMIT_def)
    have "(c + n - 1) div 4096 = c div 4096"
    proof (rule div_nat_eqI)
      have "c div 4096 * 4096 = c - c mod 4096" by (simp add: minus_mod_eq_div_mult)
      then show "4096 * (c div 4096) \<le> c + n - 1" "c + n - 1 < 4096 * Suc (c div 4096)" using n cm unfolding e_def by (simp_all add: algebra_simps)
    qed
    then obtain m1 where m1: "f (t c) c n m = Ok m1" "P (c + n) m1" using step [OF less.prems(1) n(1,2) _ less.prems(3)] by auto
    have "limit - (c + n) < limit - c" using n(1) True by linarith
    then obtain m' where "page_loop tr f limit (c + n) m1 = Ok m'" "P limit m'"
      using less.hyps [of "c + n" m1] n less.prems m1(2) by auto
    then show ?thesis using True tr [OF less.prems(1) True] a b d m1(1) page_loop.simps [of tr f limit c m] by (simp del: addr_min_max)
  next
    case False
    then have "c = limit" using less.prems(2) by simp
    then show ?thesis using less.prems(3) page_loop.simps [of tr f limit c m] by simp
  qed
qed

lemma write_extend:
  "i + n \<le> length src \<Longrightarrow> write_bytes (write_bytes v a (take i src)) (a + i) (take n (drop i src)) = write_bytes v a (take (i + n) src)"
  by (auto simp: write_bytes_def fun_eq_iff)

lemma views_step:
  assumes "views t D m f m1" and "views t D m1 (write_bytes (\<lambda>a. m1 (t a)) c bs) m2"
  shows "views t D m (write_bytes f c bs) m2"
  using assms by (auto simp: views_def write_bytes_def)

lemma paged_loop:
  assumes g: "translates tr w t D" and D: "{dst..<dst + length src} \<subseteq> D" and ne: "src \<noteq> []"
    and f: "\<And>i n m. i + n \<le> length src \<Longrightarrow> 0 < n \<Longrightarrow> f (t (dst + i)) (dst + i) n m = Ok (write_bytes m (t (dst + i)) (take n (drop i src)))"
  shows "\<exists>m'. page_loop (tr w) f (dst + length src) dst m = Ok m' \<and> views t D m (write_bytes (\<lambda>a. m (t a)) dst src) m'"
proof -
  define P where "P = (\<lambda>c m'. views t D m (write_bytes (\<lambda>a. m (t a)) dst (take (c - dst) src)) m')"
  have h: "low D" "paged t D" "\<And>a. a \<in> D \<Longrightarrow> tr w a = Ok (t a)" using g by (auto simp: translates_def)
  have lim: "dst + length src \<le> 2 ^ 63" using low_end [OF h(1) D] ne by simp
  have tr: "\<And>a. dst \<le> a \<Longrightarrow> a < dst + length src \<Longrightarrow> tr w a = Ok (t a)" using h(3) D by auto
  have "\<exists>m'. page_loop (tr w) f (dst + length src) dst m = Ok m' \<and> P (dst + length src) m'"
  proof (rule page_loop_invariant [OF lim tr])
    fix c n m1
    assume c: "dst \<le> c" "0 < n" "c + n \<le> dst + length src" "c div 4096 = (c + n - 1) div 4096" and P: "P c m1"
    obtain i where i: "c = dst + i" using c(1) by (auto simp: le_iff_add)
    have il: "i + n \<le> length src" using c(3) i by simp
    let ?bs = "take n (drop i src)"
    have lb: "length ?bs = n" using il by simp
    have "{c..<c + length ?bs} \<subseteq> {dst..<dst + length src}" using c(1,3) unfolding lb by auto
    then have "{c..<c + length ?bs} \<subseteq> D" using D by blast
    then have "views t D m1 (write_bytes (\<lambda>a. m1 (t a)) c ?bs) (write_bytes m1 (t c) ?bs)" using c(4) by (intro write_piece [OF h(2)]) (simp_all only: lb)
    then have "P (c + n) (write_bytes m1 (t c) ?bs)"
      using views_step P write_extend [OF il, of "\<lambda>a. m (t a)" dst] unfolding P_def i by fastforce
    then show "\<exists>m'. f (t c) c n m1 = Ok m' \<and> P (c + n) m'" using f [OF il c(2)] i by auto
  qed (auto simp: P_def views_def write_bytes_def)
  then show ?thesis by (simp add: P_def)
qed

lemma translates_D: "translates tr w t D \<Longrightarrow> low D" "translates tr w t D \<Longrightarrow> paged t D" "translates tr w t D \<Longrightarrow> a \<in> D \<Longrightarrow> tr w a = Ok (t a)"
  by (auto simp: translates_def)

lemma translated_flush:
  assumes g: "translates tr w t D" and D: "{dst..<dst + n} \<subseteq> D" and n: "0 < n"
  shows "\<exists>fl'. page_loop (tr w) (\<lambda>start cursor n fl. rbind (addr_add start n) (\<lambda>e. flush_cache start e fl)) (dst + n) dst fl = Ok (fl @ fl')
    \<and> (\<forall>a \<in> {dst..<dst + n}. t a - t a mod 64 \<in> set fl')"
proof -
  define P where "P = (\<lambda>c fl1. \<exists>fl'. fl1 = fl @ fl' \<and> (\<forall>a \<in> {dst..<c}. t a - t a mod 64 \<in> set fl'))"
  have lin: "\<And>a b. a \<in> D \<Longrightarrow> b \<in> D \<Longrightarrow> a \<le> b \<Longrightarrow> a div 4096 = b div 4096 \<Longrightarrow> t b = t a + (b - a)" and bnd: "\<And>a. a \<in> D \<Longrightarrow> t a < 2 ^ 63"
    using translates_D(2) [OF g] unfolding paged_def by blast+
  have lim: "dst + n \<le> 2 ^ 63" by (rule low_end [OF translates_D(1) [OF g] D n])
  have tr: "\<And>a. dst \<le> a \<Longrightarrow> a < dst + n \<Longrightarrow> tr w a = Ok (t a)" using translates_D(3) [OF g] D by auto
  have "\<exists>fl1. page_loop (tr w) (\<lambda>start cursor n fl. rbind (addr_add start n) (\<lambda>e. flush_cache start e fl)) (dst + n) dst fl = Ok fl1 \<and> P (dst + n) fl1"
  proof (rule page_loop_invariant [OF lim tr])
    fix c k fl1
    assume c: "dst \<le> c" "0 < k" "c + k \<le> dst + n" "c div 4096 = (c + k - 1) div 4096" and P: "P c fl1"
    have mem: "c + i \<in> D" if "i < k" for i by (rule subsetD [OF D]) (use c that in simp)
    have cD: "c \<in> D" "c + k - 1 \<in> D" using mem [of 0] mem [of "k - 1"] c(2) by auto
    have "t (c + k - 1) = t c + (k - 1)" using lin [OF cD _ c(4)] c(2) by simp
    then have top: "t c + k \<le> 2 ^ 63" using bnd [OF cD(2)] c(2) by simp
    have li: "t a = t c + (a - c)" if a: "c \<le> a" "a < c + k" for a
    proof -
      have "a \<in> D" using mem [of "a - c"] a by simp
      moreover have "a div 4096 \<le> (c + k - 1) div 4096" by (rule div_le_mono) (use a in simp)
      then have "c div 4096 = a div 4096" unfolding c(4) [symmetric] by (rule order.antisym [OF div_le_mono [OF a(1)]])
      ultimately show ?thesis using lin [OF cD(1) _ a(1)] by simp
    qed
    obtain fl2 where f2: "flush_cache (t c) (t c + k) fl1 = Ok (fl1 @ fl2)" "\<forall>x \<in> {t c..<t c + k}. x - x mod 64 \<in> set fl2"
      using flush_cache_Ok [of "t c" "t c + k" fl1] top c(2) by (auto simp: USIZE_LIMIT_def)
    obtain fl3 where f3: "fl1 = fl @ fl3" "\<forall>a \<in> {dst..<c}. t a - t a mod 64 \<in> set fl3" using P by (auto simp: P_def)
    have "\<forall>a \<in> {dst..<c + k}. t a - t a mod 64 \<in> set (fl3 @ fl2)"
    proof
      fix a
      assume a: "a \<in> {dst..<c + k}"
      show "t a - t a mod 64 \<in> set (fl3 @ fl2)"
      proof (cases "a < c")
        case True
        then show ?thesis using f3(2) a by auto
      next
        case False
        then have "t a \<in> {t c..<t c + k}" using li [of a] a by auto
        then show ?thesis using f2(2) by auto
      qed
    qed
    then have "P (c + k) (fl1 @ fl2)" using f3(1) unfolding P_def by auto
    moreover have "addr_add (t c) k = Ok (t c + k)" using top by (simp add: addr_add_def USIZE_LIMIT_def)
    ultimately show "\<exists>m'. rbind (addr_add (t c) k) (\<lambda>e. flush_cache (t c) e fl1) = Ok m' \<and> P (c + k) m'" using f2(1) by simp
  qed (auto simp: P_def)
  then show ?thesis by (auto simp: P_def)
qed

interpretation translated: loader_memory "l\<lparr>ld_translate := Some tr\<rparr>" w t "translates tr w t" for l :: "'s loader" and tr w t
proof unfold_locales
  fix D and dst :: address and src :: "8 word list" and m :: byte_mem
  assume g: "translates tr w t D" and D: "{dst..<dst + length src} \<subseteq> D"
  show "\<exists>m'. ld_copy (l\<lparr>ld_translate := Some tr\<rparr>) w src dst m = Ok m' \<and> views t D m (write_bytes (\<lambda>a. m (t a)) dst src) m'"
  proof (cases "src = []")
    case False
    then have "addr_add dst (length src) = Ok (dst + length src)" using low_end [OF translates_D(1) [OF g] D] by (simp add: addr_add_def USIZE_LIMIT_def)
    then show ?thesis using paged_loop [OF g D False, of _ m] False by (simp add: ld_copy_def addr_diff_def)
  qed (auto simp: ld_copy_def views_def write_bytes_def)
next
  fix D and dst :: address and n and m :: byte_mem
  assume g: "translates tr w t D" and D: "{dst..<dst + n} \<subseteq> D"
  show "\<exists>m'. ld_zero (l\<lparr>ld_translate := Some tr\<rparr>) w dst n m = Ok m' \<and> views t D m (write_bytes (\<lambda>a. m (t a)) dst (replicate n 0)) m'"
  proof (cases "n = 0")
    case False
    then have "addr_add dst n = Ok (dst + n)" using low_end [OF translates_D(1) [OF g] D] by (simp add: addr_add_def USIZE_LIMIT_def)
    then show ?thesis using paged_loop [OF g, of dst "replicate n 0" _ m] D False by (simp add: ld_zero_def)
  qed (auto simp: ld_zero_def views_def write_bytes_def)
next
  fix D and dst :: address and n fl
  assume g: "translates tr w t D" and D: "{dst..<dst + n} \<subseteq> D"
  show "\<exists>fl'. ld_flush (l\<lparr>ld_translate := Some tr\<rparr>) w dst n fl = Ok (fl @ fl') \<and> (\<forall>a \<in> {dst..<dst + n}. t a - t a mod 64 \<in> set fl')"
  proof (cases "n = 0")
    case False
    then have "addr_add dst n = Ok (dst + n)" using low_end [OF translates_D(1) [OF g] D] by (simp add: addr_add_def USIZE_LIMIT_def)
    then show ?thesis using translated_flush [OF g D] False by (simp add: ld_flush_def)
  qed (simp add: ld_flush_def)
next
  fix D and a :: address and m :: byte_mem
  assume g: "translates tr w t D" and D: "{a..<a + 8} \<subseteq> D" and al: "8 dvd a"
  obtain q where "a = 8 * q" using al by blast
  then have pg: "a div 4096 = (a + 8 - 1) div 4096" using div_mult2_eq [of a 8 512] div_mult2_eq [of "a + 8 - 1" 8 512] by simp
  have "views t D m (write_bytes (\<lambda>a. m (t a)) a bs) (write_bytes m (t a) bs)" if "length bs = 8" for bs
    using pg D by (intro write_piece [OF translates_D(2) [OF g]]) (simp_all only: that)
  moreover have "a \<in> D" using D by auto
  ultimately show "\<exists>slot. ld_addr (l\<lparr>ld_translate := Some tr\<rparr>) w a = Ok slot
      \<and> (\<forall>bs. length bs = 8 \<longrightarrow> views t D m (write_bytes (\<lambda>a. m (t a)) a bs) (write_bytes m slot bs))"
    using translates_D(3) [OF g] by (intro exI [of _ "t a"]) (simp add: ld_addr_def)
qed (auto simp: translates_def low_def)

section \<open>Whole files\<close>

text \<open>The smallest range of pages around the loadable segments.\<close>

definition elf_start :: "elf_file \<Rightarrow> address" where
  "elf_start elf = (let a = Min (ph_virtual_addr ` set (headers Load elf)) in a - a mod 4096)"

definition elf_end :: "elf_file \<Rightarrow> address" where
  "elf_end elf = (Max ((\<lambda>ph. ph_virtual_addr ph + ph_mem_size ph) ` set (headers Load elf)) + 4095) div 4096 * 4096"

definition within :: "elf_file \<Rightarrow> usize \<Rightarrow> bool" where
  "within elf a \<longleftrightarrow> elf_start elf \<le> a \<and> a \<le> elf_end elf"

definition wf_elf :: "8 word list \<Rightarrow> elf_file \<Rightarrow> bool" where
  "wf_elf data elf \<longleftrightarrow> length data < USIZE_LIMIT \<and> headers Load elf \<noteq> [] \<and> elf_end elf < 2 ^ 63
     \<and> (\<forall>ph \<in> set (headers Load elf). ph_file_size ph \<le> ph_mem_size ph \<and> ph_offset ph + ph_file_size ph \<le> length data)
     \<and> apart (map (seg_set 0) (headers Load elf)) \<and> (\<forall>ph \<in> set (headers Dynamic elf). dyn_ok data ph)
     \<and> (\<forall>r \<in> set (elf_relocs elf). relative r \<longrightarrow> 8 dvd rela_offset r \<and> within elf (rela_offset r) \<and> within elf (rela_offset r + 8) \<and> within elf (rela_addend r))
     \<and> within elf (elf_entry_point elf) \<and> (\<forall>x \<in> set (elf_sections elf). sh_is_init_array x \<longrightarrow> within elf (sh_address x))"

lemma load_range_some:
  "\<forall>ph \<in> set phs. ph_virtual_addr ph + ph_mem_size ph < USIZE_LIMIT \<Longrightarrow>
   load_range (Some a, Some e) phs = Ok (Some (Min (insert a (ph_virtual_addr ` set phs))), Some (Max (insert e ((\<lambda>ph. ph_virtual_addr ph + ph_mem_size ph) ` set phs))))"
proof (induction phs arbitrary: a e)
  case (Cons ph phs)
  have "Min (insert a (insert (ph_virtual_addr ph) A)) = Min (insert (if ph_virtual_addr ph < a then ph_virtual_addr ph else a) A)" if "finite A" for A
    using that by (cases "A = {}") (auto simp: min_def)
  moreover have "Max (insert e (insert x A)) = Max (insert (if e < x then x else e) A)" if "finite A" for x A
    using that by (cases "A = {}") (auto simp: max_def)
  ultimately show ?case using Cons by (simp add: addr_add_def)
qed simp

lemma load_range_Ok:
  assumes "phs \<noteq> []" and "\<forall>ph \<in> set phs. ph_virtual_addr ph + ph_mem_size ph < USIZE_LIMIT"
  shows "load_range (None, None) phs = Ok (Some (Min (ph_virtual_addr ` set phs)), Some (Max ((\<lambda>ph. ph_virtual_addr ph + ph_mem_size ph) ` set phs)))"
  using assms load_range_some by (cases phs) (simp_all add: addr_add_def)

lemma elf_bounds:
  assumes "ph \<in> set (headers Load elf)"
  shows "elf_start elf \<le> ph_virtual_addr ph" and "ph_virtual_addr ph + ph_mem_size ph \<le> elf_end elf"
proof -
  have "Min (ph_virtual_addr ` set (headers Load elf)) \<le> ph_virtual_addr ph" using assms by simp
  then show "elf_start elf \<le> ph_virtual_addr ph" unfolding elf_start_def Let_def by linarith
  have "ph_virtual_addr ph + ph_mem_size ph \<le> Max ((\<lambda>ph. ph_virtual_addr ph + ph_mem_size ph) ` set (headers Load elf))" using assms by simp
  also have "\<dots> \<le> elf_end elf" unfolding elf_end_def using round_up_bounds(1) [of 4096] by simp
  finally show "ph_virtual_addr ph + ph_mem_size ph \<le> elf_end elf" .
qed

lemma elf_aligned: "4096 dvd elf_start elf" "4096 dvd elf_end elf"
  by (simp_all add: elf_start_def elf_end_def Let_def dvd_sub_mod)

lemma elf_start_le_end: "headers Load elf \<noteq> [] \<Longrightarrow> elf_start elf \<le> elf_end elf"
proof -
  assume "headers Load elf \<noteq> []"
  then have "hd (headers Load elf) \<in> set (headers Load elf)" by (rule hd_in_set)
  from elf_bounds [OF this] show ?thesis by linarith
qed

lemma map_memory_Ok:
  assumes wf: "wf_elf data (ld_elf l)" and mp: "ld_map_pages l (ma_world s) (elf_start (ld_elf l)) (elf_end (ld_elf l)) = Ok (w, base, e)" and b: "base < 2 ^ 63"
  shows "map_memory l s = Ok (l\<lparr>ld_vaddr_offset := int base - int (elf_start (ld_elf l))\<rparr>, s\<lparr>ma_world := w\<rparr>)"
proof -
  let ?elf = "ld_elf l" and ?phs = "headers Load (ld_elf l)"
  define lo hi where "lo = Min (ph_virtual_addr ` set ?phs)" and "hi = Max ((\<lambda>ph. ph_virtual_addr ph + ph_mem_size ph) ` set ?phs)"
  have ne: "?phs \<noteq> []" and top: "elf_end ?elf < 2 ^ 63" using wf by (auto simp: wf_elf_def)
  have "\<forall>ph \<in> set ?phs. ph_virtual_addr ph + ph_mem_size ph < USIZE_LIMIT" using elf_bounds(2) top by (fastforce simp: USIZE_LIMIT_def)
  then have r: "load_range (None, None) ?phs = Ok (Some lo, Some hi)" using load_range_Ok [OF ne] by (simp add: lo_def hi_def)
  have st: "elf_start ?elf = lo - lo mod 4096" by (simp add: elf_start_def lo_def Let_def)
  have en: "elf_end ?elf = (hi + (4096 - 1)) div 4096 * 4096" by (simp add: elf_end_def hi_def)
  have hi: "hi \<le> elf_end ?elf" unfolding en by (rule round_up_bounds(1)) simp
  have "lo \<in> ph_virtual_addr ` set ?phs" using ne unfolding lo_def by (intro Min_in) auto
  then have "lo \<le> elf_end ?elf" using elf_bounds(2) by fastforce
  then have a: "page_align Size4K lo = elf_start ?elf" using page_align_eq [of lo Size4K] top by (simp add: st BYTES_def USIZE_LIMIT_def)
  have u: "align_up hi (BYTES Size4K) = Ok (elf_end ?elf)"
    using align_up_pow [of hi 12] hi top by (simp add: en BYTES_def USIZE_LIMIT_def)
  have n: "page_new Size4K (elf_start ?elf) = Ok (elf_start ?elf)" "page_new Size4K (elf_end ?elf) = Ok (elf_end ?elf)"
    using elf_aligned [of ?elf] by (simp_all add: page_new_Ok_iff BYTES_def)
  have "elf_start ?elf < 2 ^ 63" using elf_start_le_end [OF ne] top by simp
  then have "isub (to_isize base) (to_isize (elf_start ?elf)) = Ok (int base - int (elf_start ?elf))" using b by (simp add: isub_def to_isize_def)
  then show ?thesis using r a u n mp by (simp add: map_memory_def Let_def page_start_def)
qed

lemma rebase_within: "within elf a \<Longrightarrow> rebase (int base - int (elf_start elf)) a = a - elf_start elf + base"
  by (auto simp: rebase_def within_def)

lemma in_space_within:
  assumes "within elf a" and "elf_end elf < 2 ^ 63" and "base + (elf_end elf - elf_start elf) < 2 ^ 63"
  shows "in_space (int base - int (elf_start elf)) a"
  using assms by (auto simp: in_space_def within_def)

lemma apart_shift: "apart (map f xs) \<Longrightarrow> \<forall>x \<in> set xs. f x \<subseteq> A \<Longrightarrow> inj_on h A \<Longrightarrow> apart (map (\<lambda>x. h ` f x) xs)"
proof (induction xs)
  case (Cons x xs)
  have "h ` f x \<inter> h ` f y = {}" if "y \<in> set xs" for y
  proof -
    have "f x \<inter> f y = {}" "f x \<subseteq> A" "f y \<subseteq> A" using Cons.prems that by auto
    then show ?thesis using inj_on_image_Int [OF Cons.prems(3), of "f x" "f y"] by simp
  qed
  then show ?case using Cons by auto
qed simp

lemma seg_shift:
  assumes "ph \<in> set (headers Load elf)"
  shows "seg_set (int base - int (elf_start elf)) ph = (\<lambda>a. a - elf_start elf + base) ` seg_set 0 ph"
    and "seg_set 0 ph \<subseteq> {elf_start elf..<elf_end elf}"
proof -
  note b = elf_bounds [OF assms]
  have "within elf (ph_virtual_addr ph)" using b by (simp add: within_def)
  note r = rebase_within [OF this, of base]
  show "seg_set 0 ph \<subseteq> {elf_start elf..<elf_end elf}" using b by (auto simp: seg_set_def rebase_def)
  show "seg_set (int base - int (elf_start elf)) ph = (\<lambda>a. a - elf_start elf + base) ` seg_set 0 ph"
  proof (intro set_eqI iffI)
    fix x
    assume x: "x \<in> seg_set (int base - int (elf_start elf)) ph"
    then have "x - base + elf_start elf \<in> seg_set 0 ph" "x = (x - base + elf_start elf) - elf_start elf + base"
      using b(1) r by (auto simp: seg_set_def rebase_def)
    then show "x \<in> (\<lambda>a. a - elf_start elf + base) ` seg_set 0 ph" by blast
  qed (use b(1) r in \<open>auto simp: seg_set_def rebase_def\<close>)
qed

definition mapped :: "elf_file \<Rightarrow> address \<Rightarrow> address set" where
  "mapped elf base = {base..<base + (elf_end elf - elf_start elf)}"

lemma wf_elf_ok:
  assumes wf: "wf_elf data elf" and b: "4096 dvd base" "base + (elf_end elf - elf_start elf) < 2 ^ 63"
  shows "elf_ok data elf (int base - int (elf_start elf)) (mapped elf base)"
proof -
  let ?off = "int base - int (elf_start elf)"
  have top: "elf_end elf < 2 ^ 63" using wf by (simp add: wf_elf_def)
  have sp: "in_space ?off a" if "within elf a" for a by (rule in_space_within [OF that top b(2)])
  have "seg_ok data ?off (mapped elf base) ph" if ph: "ph \<in> set (headers Load elf)" for ph
  proof -
    note bd = elf_bounds [OF ph]
    have "within elf (ph_virtual_addr ph)" using bd by (simp add: within_def)
    note s = sp [OF this] rebase_within [OF this, of base]
    have "rebase ?off (ph_virtual_addr ph) + ph_mem_size ph \<le> base + (elf_end elf - elf_start elf)" using bd s(2) by simp
    then show ?thesis using wf ph s b(2) bd by (auto simp: seg_ok_def wf_elf_def seg_set_def mapped_def in_space_def)
  qed
  moreover have "apart (map (seg_set ?off) (headers Load elf))"
  proof -
    have "apart (map (\<lambda>ph. (\<lambda>a. a - elf_start elf + base) ` seg_set 0 ph) (headers Load elf))"
      using wf seg_shift(2) by (intro apart_shift [where A = "{elf_start elf..<elf_end elf}"]) (auto simp: wf_elf_def inj_on_def)
    moreover have "map (\<lambda>ph. (\<lambda>a. a - elf_start elf + base) ` seg_set 0 ph) (headers Load elf) = map (seg_set ?off) (headers Load elf)"
      using seg_shift(1) [of _ elf base] by simp
    ultimately show ?thesis by simp
  qed
  moreover have "rela_ok ?off (mapped elf base) r" if r: "r \<in> set (elf_relocs elf)" for r
  proof (cases "relative r")
    case True
    then have w: "8 dvd rela_offset r" "within elf (rela_offset r)" "within elf (rela_offset r + 8)" "within elf (rela_addend r)" using wf r by (auto simp: wf_elf_def)
    have "8 dvd base" "8 dvd elf_start elf" using b(1) elf_aligned(1) [of elf] by (auto intro: dvd_trans [of 8 4096])
    then have "8 dvd rela_offset r - elf_start elf + base" using w(1) by simp
    then show ?thesis using sp [OF w(2)] sp [OF w(4)] w(2,3) rebase_within [OF w(2), of base]
      by (auto simp: rela_ok_def slot_set_def mapped_def in_space_def within_def)
  qed (simp add: rela_ok_def)
  ultimately show ?thesis using wf sp by (auto simp: elf_ok_def wf_elf_def)
qed

lemma entry_shift: "within elf (elf_entry_point elf) \<Longrightarrow> rebase (int base - int (elf_start elf)) (elf_entry_point elf) = elf_entry_point elf - elf_start elf + base"
  by (rule rebase_within)

lemma elf_load_Ok:
  assumes "parse data = Some elf" and "wf_elf data elf" and "map_pages (ma_world s) (elf_start elf) (elf_end elf) = Ok (w, base, e)"
    and "4096 dvd base" and "base + (elf_end elf - elf_start elf) < 2 ^ 63"
  shows "\<exists>s' fl. elf_load parse data map_pages s = Ok (Inr (s', \<lparr>ee_entry = elf_entry_point elf - elf_start elf + base, ee_init_array = init_array elf (int base - int (elf_start elf))\<rparr>))
    \<and> ma_world s' = w \<and> ma_flushed s' = ma_flushed s @ fl \<and> flushed elf (int base - int (elf_start elf)) (\<lambda>a. a) fl
    \<and> (\<forall>a. ma_mem s' a = (if a \<in> mapped elf base then elf_image data elf (int base - int (elf_start elf)) (ma_mem s) a else ma_mem s a))"
proof -
  let ?off = "int base - int (elf_start elf)"
  define l where "l = \<lparr>ld_data = data, ld_elf = elf, ld_vaddr_offset = 0, ld_map_pages = map_pages, ld_translate = None\<rparr>"
  have m: "map_memory l s = Ok (l\<lparr>ld_vaddr_offset := ?off\<rparr>, s\<lparr>ma_world := w\<rparr>)"
    using map_memory_Ok [of data l s w base e] assms by (simp add: l_def)
  have d: "(l\<lparr>ld_vaddr_offset := ?off\<rparr>)\<lparr>ld_translate := None\<rparr> = l\<lparr>ld_vaddr_offset := ?off\<rparr>" by (simp add: l_def)
  have lw: "low (mapped elf base)" using assms(5) by (auto simp: low_def mapped_def)
  have en: "rebase ?off (elf_entry_point elf) = elf_entry_point elf - elf_start elf + base" using assms(2) by (intro entry_shift) (simp add: wf_elf_def)
  have "elf_ok (ld_data (l\<lparr>ld_vaddr_offset := ?off\<rparr>)) (ld_elf (l\<lparr>ld_vaddr_offset := ?off\<rparr>)) (ld_vaddr_offset (l\<lparr>ld_vaddr_offset := ?off\<rparr>)) (mapped elf base)"
    using wf_elf_ok [OF assms(2,4,5)] by (simp add: l_def)
  from direct.do_load_Ok [of _ "l\<lparr>ld_vaddr_offset := ?off\<rparr>", unfolded d, OF lw this m, of w]
  obtain s' fl where "do_load l s = Ok (Inr (s', \<lparr>ee_entry = elf_entry_point elf - elf_start elf + base, ee_init_array = init_array elf ?off\<rparr>))"
    "ma_world s' = w" "ma_flushed s' = ma_flushed s @ fl" "flushed elf ?off (\<lambda>a. a) fl"
    "views (\<lambda>a. a) (mapped elf base) (ma_mem s) (elf_image data elf ?off (ma_mem s)) (ma_mem s')"
    by (auto simp: l_def en)
  then show ?thesis using assms(1)
    by (intro exI [of _ s'] exI [of _ fl]) (auto simp: elf_load_def loader_new_def l_def views_def)
qed

text \<open>A file with one loadable segment across a page border and one relocation.\<close>

definition demo_elf :: elf_file where
  "demo_elf = \<lparr>elf_program =
      [\<lparr>ph_type = Some Load, ph_offset = 1, ph_virtual_addr = 0x1ff8, ph_file_size = 3, ph_mem_size = 24, ph_data = Inr OtherData\<rparr>,
       \<lparr>ph_type = Some Dynamic, ph_offset = 0, ph_virtual_addr = 0, ph_file_size = 0, ph_mem_size = 0,
        ph_data = Inr (Dynamic64 [\<lparr>dyn_tag = Some Rela, dyn_ptr = Some 0, dyn_val = None\<rparr>, \<lparr>dyn_tag = Some RelaSize, dyn_ptr = None, dyn_val = Some 24\<rparr>,
          \<lparr>dyn_tag = Some RelaEnt, dyn_ptr = None, dyn_val = Some 24\<rparr>])\<rparr>],
     elf_sections = [], elf_entry_point = 0x1ff9,
     elf_relas = (\<lambda>_ _. [\<lparr>rela_type = 1027, rela_offset = 0x2000, rela_addend = 0x1ff8\<rparr>])\<rparr>"

lemma demo_headers:
  "headers Load demo_elf = [\<lparr>ph_type = Some Load, ph_offset = 1, ph_virtual_addr = 0x1ff8, ph_file_size = 3, ph_mem_size = 24, ph_data = Inr OtherData\<rparr>]"
  "elf_relocs demo_elf = [\<lparr>rela_type = 1027, rela_offset = 0x2000, rela_addend = 0x1ff8\<rparr>]"
  "elf_start demo_elf = 0x1000" "elf_end demo_elf = 0x3000"
  by (simp_all add: headers_def demo_elf_def elf_relocs_def header_relas_def find_dyn_def elf_start_def elf_end_def)

lemma demo_wf: "wf_elf [1, 2, 3, 4] demo_elf"
  by (simp add: wf_elf_def demo_headers within_def dyn_ok_def)
    (simp add: demo_elf_def headers_def find_dyn_def USIZE_LIMIT_def dvd_eq_mod_eq_0)

lemma demo_image:
  "elf_image [1, 2, 3, 4] demo_elf 0x1ff000 m 0x200ff9 = 3" "elf_image [1, 2, 3, 4] demo_elf 0x1ff000 m 0x201000 = 0xf8"
  "elf_image [1, 2, 3, 4] demo_elf 0x1ff000 m 0x201008 = 0"
  by (simp_all add: elf_image_def reloc_byte_def image_byte_def demo_headers relative_def slot_set_def seg_set_def rebase_def seg_byte_def to_le_bytes_def)

text \<open>C37: loading an ELF file places its image. For a well-formed file the loader asks for the smallest range of pages around the loadable
  segments; wherever the pages are, it returns the entry point moved with them, every byte of a segment is the byte of the file or zero,
  every relative relocation slot holds the moved address, no byte outside the pages is written, and the cache line of every loaded
  byte is flushed.\<close>

theorem load_places_image:
  assumes "parse data = Some elf" and "wf_elf data elf" and "map_pages (ma_world s) (elf_start elf) (elf_end elf) = Ok (w, base, e)"
    and "4096 dvd base" and "base + (elf_end elf - elf_start elf) < 2 ^ 63"
  shows "\<exists>s' fl. elf_load parse data map_pages s = Ok (Inr (s', \<lparr>ee_entry = elf_entry_point elf - elf_start elf + base, ee_init_array = init_array elf (int base - int (elf_start elf))\<rparr>))
    \<and> ma_world s' = w \<and> ma_flushed s' = ma_flushed s @ fl \<and> flushed elf (int base - int (elf_start elf)) (\<lambda>a. a) fl
    \<and> (\<forall>a. ma_mem s' a = (if a \<in> mapped elf base then elf_image data elf (int base - int (elf_start elf)) (ma_mem s) a else ma_mem s a))"
  using assms by (rule elf_load_Ok [where parse = parse and data = data and elf = elf and map_pages = map_pages and s = s and w = w and base = base])

theorem load_places_image_witness:
  "\<exists>s'. elf_load (\<lambda>_. Some demo_elf) [1, 2, 3, 4] (\<lambda>w p q. Ok (w, 0x200000, 0x202000)) \<lparr>ma_world = (), ma_mem = (\<lambda>_. 9), ma_flushed = []\<rparr>
      = Ok (Inr (s', \<lparr>ee_entry = 0x200ff9, ee_init_array = None\<rparr>))
    \<and> ma_mem s' 0x200ff9 = 3 \<and> ma_mem s' 0x201000 = 0xf8 \<and> ma_mem s' 0x201008 = 0 \<and> ma_mem s' 0x202000 = 9"
proof -
  have "init_array demo_elf x = None" "elf_entry_point demo_elf = 0x1ff9" for x by (simp_all add: init_array_def demo_elf_def)
  then show ?thesis
    using load_places_image [of "\<lambda>_. Some demo_elf" "[1, 2, 3, 4]" demo_elf "\<lambda>w p q. Ok (w, 0x200000, 0x202000)"
        "\<lparr>ma_world = (), ma_mem = (\<lambda>_. 9), ma_flushed = []\<rparr>" "()" "0x200000" "0x202000"] demo_wf demo_image
    by (fastforce simp: demo_headers mapped_def dvd_eq_mod_eq_0)
qed

definition demo_frames :: "address \<Rightarrow> address" where
  "demo_frames a = (if a < 0x201000 then a + 0x100000 else a + 0x50000)"

lemma demo_translates: "translates (\<lambda>_ a. Ok (demo_frames a)) () demo_frames {0x200000..<0x202000}"
proof -
  have "demo_frames b = demo_frames a + (b - a)" if "a \<le> b" "a div 4096 = b div 4096" for a b
  proof -
    have "a < 0x201000 \<longleftrightarrow> a div 4096 < 0x201" "b < 0x201000 \<longleftrightarrow> b div 4096 < 0x201" by (simp_all add: div_less_iff_less_mult)
    then show ?thesis using that by (auto simp: demo_frames_def)
  qed
  moreover have "inj_on demo_frames {0x200000..<0x202000}" by (auto simp: inj_on_def demo_frames_def split: if_splits)
  ultimately show ?thesis by (auto simp: translates_def paged_def low_def demo_frames_def)
qed

text \<open>C38: loading through an address translation gives the same image. If the translation maps the pages of the image to disjoint frames,
  the loader copies, clears and relocates piece by piece in physical memory, and what it leaves there, seen through the translation, is
  the image that a direct load would leave; no other physical byte is written.\<close>

theorem translated_load_equivalent:
  assumes "parse data = Some elf" and "wf_elf data elf" and "map_pages (ma_world s) (elf_start elf) (elf_end elf) = Ok (w, base, e)"
    and "4096 dvd base" and "base + (elf_end elf - elf_start elf) < 2 ^ 63" and "translates translate w t (mapped elf base)"
  shows "\<exists>s' fl. load_with_address_translation parse data map_pages translate s
      = Ok (Inr (s', \<lparr>ee_entry = elf_entry_point elf - elf_start elf + base, ee_init_array = init_array elf (int base - int (elf_start elf))\<rparr>))
    \<and> ma_world s' = w \<and> ma_flushed s' = ma_flushed s @ fl \<and> flushed elf (int base - int (elf_start elf)) t fl
    \<and> (\<forall>a \<in> mapped elf base. ma_mem s' (t a) = elf_image data elf (int base - int (elf_start elf)) (\<lambda>a. ma_mem s (t a)) a)
    \<and> (\<forall>x. x \<notin> t ` mapped elf base \<longrightarrow> ma_mem s' x = ma_mem s x)"
proof -
  let ?off = "int base - int (elf_start elf)"
  define l where "l = \<lparr>ld_data = data, ld_elf = elf, ld_vaddr_offset = 0, ld_map_pages = map_pages, ld_translate = Some translate\<rparr>"
  have m: "map_memory l s = Ok (l\<lparr>ld_vaddr_offset := ?off\<rparr>, s\<lparr>ma_world := w\<rparr>)"
    using map_memory_Ok [of data l s w base e] assms by (simp add: l_def)
  have d: "(l\<lparr>ld_vaddr_offset := ?off\<rparr>)\<lparr>ld_translate := Some translate\<rparr> = l\<lparr>ld_vaddr_offset := ?off\<rparr>" by (simp add: l_def)
  have en: "rebase ?off (elf_entry_point elf) = elf_entry_point elf - elf_start elf + base" using assms(2) by (intro entry_shift) (simp add: wf_elf_def)
  have "elf_ok (ld_data (l\<lparr>ld_vaddr_offset := ?off\<rparr>)) (ld_elf (l\<lparr>ld_vaddr_offset := ?off\<rparr>)) (ld_vaddr_offset (l\<lparr>ld_vaddr_offset := ?off\<rparr>)) (mapped elf base)"
    using wf_elf_ok [OF assms(2,4,5)] by (simp add: l_def)
  from translated.do_load_Ok [of translate w t _ "l\<lparr>ld_vaddr_offset := ?off\<rparr>", unfolded d, OF assms(6) this m]
  obtain s' fl where "do_load l s = Ok (Inr (s', \<lparr>ee_entry = elf_entry_point elf - elf_start elf + base, ee_init_array = init_array elf ?off\<rparr>))"
    "ma_world s' = w" "ma_flushed s' = ma_flushed s @ fl" "flushed elf ?off t fl"
    "views t (mapped elf base) (ma_mem s) (elf_image data elf ?off (\<lambda>a. ma_mem s (t a))) (ma_mem s')"
    by (auto simp: l_def en)
  then show ?thesis using assms(1)
    by (intro exI [of _ s'] exI [of _ fl]) (auto simp: load_with_address_translation_def loader_new_def l_def views_def)
qed

theorem translated_load_equivalent_witness:
  "\<exists>s'. load_with_address_translation (\<lambda>_. Some demo_elf) [1, 2, 3, 4] (\<lambda>w p q. Ok (w, 0x200000, 0x202000)) (\<lambda>_ a. Ok (demo_frames a))
        \<lparr>ma_world = (), ma_mem = (\<lambda>_. 9), ma_flushed = []\<rparr>
      = Ok (Inr (s', \<lparr>ee_entry = 0x200ff9, ee_init_array = None\<rparr>))
    \<and> ma_mem s' 0x300ff9 = 3 \<and> ma_mem s' 0x251000 = 0xf8 \<and> ma_mem s' 0x251008 = 0 \<and> ma_mem s' 0x200ff9 = 9"
proof -
  have e: "init_array demo_elf x = None" "elf_entry_point demo_elf = 0x1ff9" for x by (simp_all add: init_array_def demo_elf_def)
  have n: "0x200ff9 \<notin> demo_frames ` {0x200000..<0x202000}" by (auto simp: demo_frames_def split: if_splits)
  have f: "demo_frames 0x200ff9 = 0x300ff9" "demo_frames 0x201000 = 0x251000" "demo_frames 0x201008 = 0x251008" by (simp_all add: demo_frames_def)
  have mp: "mapped demo_elf 0x200000 = {0x200000..<0x202000}" by (simp add: mapped_def demo_headers)
  obtain s' where s': "load_with_address_translation (\<lambda>_. Some demo_elf) [1, 2, 3, 4] (\<lambda>w p q. Ok (w, 0x200000, 0x202000)) (\<lambda>_ a. Ok (demo_frames a))
        \<lparr>ma_world = (), ma_mem = (\<lambda>_. 9), ma_flushed = []\<rparr> = Ok (Inr (s', \<lparr>ee_entry = 0x200ff9, ee_init_array = None\<rparr>))"
      "\<forall>a \<in> {0x200000..<0x202000}. ma_mem s' (demo_frames a) = elf_image [1, 2, 3, 4] demo_elf 0x1ff000 (\<lambda>a. 9) a"
      "\<forall>x. x \<notin> demo_frames ` {0x200000..<0x202000} \<longrightarrow> ma_mem s' x = 9"
    using translated_load_equivalent [of "\<lambda>_. Some demo_elf" "[1, 2, 3, 4]" demo_elf "\<lambda>w p q. Ok (w, 0x200000, 0x202000)"
        "\<lparr>ma_world = (), ma_mem = (\<lambda>_. 9), ma_flushed = []\<rparr>" "()" "0x200000" "0x202000" "\<lambda>_ a. Ok (demo_frames a)" demo_frames] demo_wf demo_translates
    by (auto simp: demo_headers mp e dvd_eq_mod_eq_0)
  have "ma_mem s' (demo_frames 0x200ff9) = 3" "ma_mem s' (demo_frames 0x201000) = 0xf8" "ma_mem s' (demo_frames 0x201008) = 0"
    using s'(2) demo_image [of "\<lambda>a. 9"] by simp_all
  then show ?thesis using s'(1,3) n unfolding f by blast
qed

end
