(* ===== verification/User_Task.thy ===== *)
theory User_Task
  imports User_Spec Elf_Spec
begin

text \<open>
  The rest of \<^verbatim>\<open>task/runnables.rs\<close>: a user thread builds the address space of its process, loads the program, prepares
  its stack and arguments and enters user mode. The theorem follows the first thread of a process to its first instruction.
\<close>

section \<open>User tasks\<close>

record user_task =
  ut_entry :: "address option"
  ut_args :: "8 word list list option"
  ut_elf :: "8 word list option"

definition new_main :: "8 word list option \<Rightarrow> 8 word list list option \<Rightarrow> user_task" where
  "new_main elf args = \<lparr>ut_entry = None, ut_args = args, ut_elf = elf\<rparr>"

definition new_companion :: "address \<Rightarrow> 8 word list list option \<Rightarrow> user_task" where
  "new_companion entry args = \<lparr>ut_entry = Some entry, ut_args = args, ut_elf = None\<rparr>"

text \<open>\<^verbatim>\<open>CString::new\<close> refuses a string with a NUL byte; the stored bytes have none and the terminator is added on use. \<open>spawn\<close> is the
  process manager's \<^verbatim>\<open>spawn\<close>.\<close>

definition cstring_new :: "8 word list \<Rightarrow> 8 word list option" where
  "cstring_new s = (if 0 \<in> set s then None else Some s)"

fun cstrings :: "8 word list list \<Rightarrow> 8 word list list res" where
  "cstrings [] = Ok []"
| "cstrings (s # ss) = rbind (unwrap (cstring_new s)) (\<lambda>c. rbind (cstrings ss) (\<lambda>cs. Ok (c # cs)))"

definition spawn_user_process :: "(user_task \<Rightarrow> 'a res) \<Rightarrow> 8 word list \<Rightarrow> 8 word list list \<Rightarrow> 'a res" where
  "spawn_user_process spawn elf args = rbind (cstrings args) (\<lambda>cs. spawn (new_main (Some elf) (Some cs)))"

section \<open>Loading the program\<close>

definition user_map_pages :: "address \<Rightarrow> kernel \<Rightarrow> page \<Rightarrow> page \<Rightarrow> (kernel \<times> page \<times> page) res" where
  "user_map_pages page_table k p q =
     rbind (page_new Size4K 0x200000) (\<lambda>start_page.
     rbind (page_steps_between Size4K p q) (\<lambda>n.
     rbind (unwrap n) (\<lambda>num_pages.
     rbind (user_pages user_code_flags_4k page_table k start_page 0 num_pages) (\<lambda>k1.
     let k2 = k1\<lparr>k_cpu := table_set page_table (k_cpu k1)\<rparr> in
     rbind (page_forward Size4K start_page num_pages) (\<lambda>e. Ok (k2, start_page, e))))))"

definition user_load_elf :: "(8 word list \<Rightarrow> elf_file option) \<Rightarrow> address \<Rightarrow> 8 word list \<Rightarrow> kernel load_state \<Rightarrow> (kernel load_state \<times> address) res" where
  "user_load_elf parse page_table elf_data s =
     rbind (elf_load parse elf_data (user_map_pages page_table) s) (\<lambda>r.
     case r of Inl _ \<Rightarrow> Panic UnwrapNone | Inr (s1, e) \<Rightarrow> Ok (s1, ee_entry e))"

definition set_page_table :: "('f, mm_state) process \<Rightarrow> address \<Rightarrow> ('f, mm_state) process" where
  "set_page_table p page_table = p\<lparr>pr_mm := (pr_mm p)\<lparr>mm_page_table := page_table\<rparr>\<rparr>"

definition initialize_user_space :: "(8 word list \<Rightarrow> elf_file option) \<Rightarrow> ('f, mm_state) process \<Rightarrow> 8 word list \<Rightarrow> ('f, mm_state) sys \<Rightarrow> kernel load_state
    \<Rightarrow> (('f, mm_state) sys \<times> kernel load_state \<times> address) res" where
  "initialize_user_space parse self elf sys s =
     rbind (process_current sys) (\<lambda>p.
     rbind (unwrap p) (\<lambda>proc.
     rbind (rassert (pr_id self = pr_id proc)) (\<lambda>_.
     rbind (user_table_new (ma_world s)) (\<lambda>(k1, page_table).
     let sys1 = put_process sys (set_page_table proc page_table) in
     rbind (user_load_elf parse page_table elf (s\<lparr>ma_world := k1\<rparr>)) (\<lambda>(s1, entry). Ok (sys1, s1, entry))))))"

section \<open>Arguments\<close>

fun push_strings :: "address \<Rightarrow> byte_mem \<Rightarrow> address list \<Rightarrow> 8 word list list \<Rightarrow> (address \<times> byte_mem \<times> address list) res" where
  "push_strings stack_top m ptrs [] = Ok (stack_top, m, ptrs)"
| "push_strings stack_top m ptrs (arg # args) =
     (let buf = arg @ [0] in
      rbind (addr_sub stack_top (length buf)) (\<lambda>ptr.
      push_strings ptr (write_bytes m ptr buf) (ptrs @ [ptr]) args))"

fun push_ptrs :: "address \<Rightarrow> byte_mem \<Rightarrow> address list \<Rightarrow> (address \<times> byte_mem) res" where
  "push_ptrs stack_top m [] = Ok (stack_top, m)"
| "push_ptrs stack_top m (p # ps) =
     rbind (addr_sub stack_top 8) (\<lambda>t. push_ptrs t (write_bytes m t (to_le_bytes p)) ps)"

definition push_args :: "address \<Rightarrow> byte_mem \<Rightarrow> 8 word list list \<Rightarrow> (address \<times> byte_mem \<times> int \<times> address) res" where
  "push_args stack_top m args =
     rbind (push_strings stack_top m [] args) (\<lambda>(t1, m1, ptrs).
     rbind (push_ptrs t1 m1 ptrs) (\<lambda>(t2, m2). Ok (t2, m2, int (length args), t2)))"

section \<open>Running a user task\<close>

text \<open>The processor is part of both halves of the state; \<open>sy_cpu\<close> follows what the memory calls did to it.\<close>

definition user_task_run :: "(8 word list \<Rightarrow> elf_file option) \<Rightarrow> user_task \<Rightarrow> ('f, 'x) core \<Rightarrow> kernel load_state \<Rightarrow> (('f, 'x) core \<times> kernel load_state) res" where
  "user_task_run parse self k s =
     rbind (process_current (co_sys k)) (\<lambda>p.
     rbind (unwrap p) (\<lambda>proc.
     let first_thread = (length (pr_threads proc) = 1) in
     rbind (if first_thread then rbind (unwrap (ut_elf self)) (\<lambda>elf. initialize_user_space parse proc elf (co_sys k) s)
            else rbind (unwrap (ut_entry self)) (\<lambda>entry. Ok (co_sys k, s, entry))) (\<lambda>(sys1, s1, entry).
     rbind (unwrap (process_by_id sys1 (pr_id proc))) (\<lambda>proc1.
     let page_table = mm_page_table (pr_mm proc1) in
     rbind (setup_user_stack sys1 (ma_world s1) page_table) (\<lambda>(k2, stack_top).
     rbind (if first_thread then rbind (unwrap (ut_args self)) (\<lambda>args. push_args stack_top (ma_mem s1) args)
            else Ok (stack_top, ma_mem s1, 0, 0)) (\<lambda>(sp, m, arg0, arg1).
     let k3 = enter_usermode (of_nat entry) sp page_table arg0 arg1 (k\<lparr>co_sys := sys1\<lparr>sy_cpu := k_cpu k2\<rparr>\<rparr>) in
     Ok (k3, s1\<lparr>ma_world := k2\<lparr>k_cpu := sy_cpu (co_sys k3)\<rparr>, ma_mem := m\<rparr>)))))))"

section \<open>Arguments on the stack\<close>

definition arg_bytes :: "8 word list list \<Rightarrow> usize" where
  "arg_bytes args = sum_list (map (\<lambda>arg. length arg + 1) args)"

definition holds :: "byte_mem \<Rightarrow> address \<Rightarrow> 8 word list \<Rightarrow> bool" where
  "holds m a bs \<longleftrightarrow> map m [a..<a + length bs] = bs"

lemma holds_write: "holds (write_bytes m a bs) a bs"
  by (auto simp: holds_def write_bytes_def intro!: nth_equalityI)

lemma holds_cong: "holds m a bs \<Longrightarrow> (\<And>x. a \<le> x \<Longrightarrow> x < a + length bs \<Longrightarrow> m' x = m x) \<Longrightarrow> holds m' a bs"
  by (metis (no_types, lifting) holds_def atLeastLessThan_iff atLeastLessThan_upt map_cong)

lemma push_strings_Ok:
  "arg_bytes args \<le> top \<Longrightarrow> \<exists>m' ps. push_strings top m ptrs args = Ok (top - arg_bytes args, m', ptrs @ ps) \<and> length ps = length args
    \<and> (\<forall>i < length args. top - arg_bytes args \<le> ps ! i \<and> ps ! i + length (args ! i) < top \<and> holds m' (ps ! i) (args ! i @ [0]))
    \<and> (\<forall>x. x < top - arg_bytes args \<or> top \<le> x \<longrightarrow> m' x = m x)" for top :: address
proof (induction args arbitrary: top m ptrs)
  case (Cons arg args)
  let ?n = "length arg + 1" and ?p = "top - (length arg + 1)"
  have b: "arg_bytes (arg # args) = ?n + arg_bytes args" by (simp add: arg_bytes_def)
  have le: "arg_bytes args \<le> ?p" "?n \<le> top" "?p - arg_bytes args = top - arg_bytes (arg # args)" using Cons.prems unfolding b by simp_all
  obtain m' ps where r: "push_strings ?p (write_bytes m ?p (arg @ [0])) (ptrs @ [?p]) args = Ok (?p - arg_bytes args, m', (ptrs @ [?p]) @ ps)" "length ps = length args"
      "\<forall>i < length args. ?p - arg_bytes args \<le> ps ! i \<and> ps ! i + length (args ! i) < ?p \<and> holds m' (ps ! i) (args ! i @ [0])"
      "\<forall>x. x < ?p - arg_bytes args \<or> ?p \<le> x \<longrightarrow> m' x = write_bytes m ?p (arg @ [0]) x"
    using Cons.IH [OF le(1), of "write_bytes m ?p (arg @ [0])" "ptrs @ [?p]"] by blast
  have "holds m' ?p (arg @ [0])" by (rule holds_cong [OF holds_write]) (use r(4) in blast)
  moreover have "m' x = m x" if "x < top - arg_bytes (arg # args) \<or> top \<le> x" for x
    using r(4) that le by (auto simp: write_bytes_def)
  moreover have "push_strings top m ptrs (arg # args) = Ok (top - arg_bytes (arg # args), m', ptrs @ (?p # ps))"
    using r(1) le by (simp add: Let_def addr_sub_def)
  ultimately show ?case using r(2,3) le
    by (intro exI [of _ m'] exI [of _ "?p # ps"]) (auto simp: less_Suc_eq_0_disj)
qed (simp add: arg_bytes_def)

lemma push_ptrs_Ok:
  "8 * length ps \<le> top \<Longrightarrow> \<exists>m'. push_ptrs top m ps = Ok (top - 8 * length ps, m')
    \<and> (\<forall>i < length ps. holds m' (top - 8 * Suc i) (to_le_bytes (ps ! i))) \<and> (\<forall>x. x < top - 8 * length ps \<or> top \<le> x \<longrightarrow> m' x = m x)" for top :: address
proof (induction ps arbitrary: top m)
  case (Cons p ps)
  let ?t = "top - 8"
  have le: "8 * length ps \<le> ?t" "8 \<le> top" "?t - 8 * length ps = top - 8 * length (p # ps)" using Cons.prems by simp_all
  obtain m' where r: "push_ptrs ?t (write_bytes m ?t (to_le_bytes p)) ps = Ok (?t - 8 * length ps, m')"
      "\<forall>i < length ps. holds m' (?t - 8 * Suc i) (to_le_bytes (ps ! i))"
      "\<forall>x. x < ?t - 8 * length ps \<or> ?t \<le> x \<longrightarrow> m' x = write_bytes m ?t (to_le_bytes p) x"
    using Cons.IH [OF le(1), of "write_bytes m ?t (to_le_bytes p)"] by blast
  have "holds m' ?t (to_le_bytes p)" by (rule holds_cong [OF holds_write]) (use r(3) in blast)
  moreover have "m' x = m x" if "x < top - 8 * length (p # ps) \<or> top \<le> x" for x
    using r(3) that le by (auto simp: write_bytes_def)
  ultimately show ?case using r(1,2) le
    by (intro exI [of _ m']) (auto simp: less_Suc_eq_0_disj addr_sub_def)
qed simp

text \<open>The slots of \<^verbatim>\<open>argv\<close> point to the arguments, the last argument first.\<close>

definition argv_holds :: "byte_mem \<Rightarrow> address \<Rightarrow> address \<Rightarrow> 8 word list list \<Rightarrow> bool" where
  "argv_holds m argv hi args \<longleftrightarrow> (\<forall>i < length args. \<exists>p. holds m (argv + 8 * i) (to_le_bytes p) \<and> holds m p (rev args ! i @ [0])
     \<and> argv + 8 * length args \<le> p \<and> p + length (rev args ! i) < hi)"

lemma push_args_Ok:
  assumes "arg_bytes args + 8 * length args \<le> hi"
  shows "\<exists>m'. push_args hi m args = Ok (hi - (arg_bytes args + 8 * length args), m', int (length args), hi - (arg_bytes args + 8 * length args))
    \<and> argv_holds m' (hi - (arg_bytes args + 8 * length args)) hi args
    \<and> (\<forall>x. x < hi - (arg_bytes args + 8 * length args) \<or> hi \<le> x \<longrightarrow> m' x = m x)"
proof -
  let ?a = "hi - arg_bytes args" and ?n = "length args" and ?b = "arg_bytes args + 8 * length args"
  obtain m1 ps where s: "push_strings hi m [] args = Ok (?a, m1, [] @ ps)" "length ps = ?n"
      "\<forall>i < ?n. ?a \<le> ps ! i \<and> ps ! i + length (args ! i) < hi \<and> holds m1 (ps ! i) (args ! i @ [0])" "\<forall>x. x < ?a \<or> hi \<le> x \<longrightarrow> m1 x = m x"
    using push_strings_Ok [of args hi m "[]"] assms by auto
  have le: "8 * length ps \<le> ?a" using assms s(2) by simp
  obtain m2 where p: "push_ptrs ?a m1 ps = Ok (?a - 8 * ?n, m2)" "\<forall>i < ?n. holds m2 (?a - 8 * Suc i) (to_le_bytes (ps ! i))"
      "\<forall>x. x < ?a - 8 * ?n \<or> ?a \<le> x \<longrightarrow> m2 x = m1 x"
    using push_ptrs_Ok [OF le, of m1] unfolding s(2) by blast
  have "argv_holds m2 (hi - ?b) hi args" unfolding argv_holds_def
  proof (intro allI impI)
    fix i
    assume i: "i < ?n"
    let ?j = "?n - Suc i"
    have j: "?j < ?n" "rev args ! i = args ! ?j" "?a - 8 * Suc ?j = hi - ?b + 8 * i" using i assms by (simp_all add: rev_nth Suc_diff_Suc)
    have q: "?a \<le> ps ! ?j" "ps ! ?j + length (args ! ?j) < hi" "holds m1 (ps ! ?j) (args ! ?j @ [0])" using s(3) j(1) by blast+
    have "holds m2 (ps ! ?j) (args ! ?j @ [0])" by (rule holds_cong [OF q(3)]) (use p(3) q(1) in auto)
    moreover have "holds m2 (hi - ?b + 8 * i) (to_le_bytes (ps ! ?j))" using p(2) j(1) unfolding j(3) [symmetric] by blast
    ultimately show "\<exists>p. holds m2 (hi - ?b + 8 * i) (to_le_bytes p) \<and> holds m2 p (rev args ! i @ [0])
        \<and> hi - ?b + 8 * ?n \<le> p \<and> p + length (rev args ! i) < hi"
      using q(1,2) j(2) assms by (intro exI [of _ "ps ! ?j"]) simp
  qed
  moreover have "\<forall>x. x < hi - ?b \<or> hi \<le> x \<longrightarrow> m2 x = m x" using p(3) s(4) by (auto simp: diff_diff_left)
  ultimately show ?thesis using s(1) p(1) by (intro exI [of _ m2]) (simp add: push_args_def)
qed

section \<open>Building the address space\<close>

lemma user_map_pages_Ok:
  assumes us: "user_space c t v k u" and c: "cpu_ttbr0 c = u" and pq: "q = p + n * 4096" "q < USIZE_LIMIT" and top: "0x200000 + n * 4096 \<le> 510 * 2 ^ 39"
    and nb: "\<forall>a. 0x200000 \<le> a \<longrightarrow> a < 0x200000 + n * 4096 \<longrightarrow> leaf (k_mem k) u (indices a) = None" and room: "n * 16384 \<le> card (k_free k)"
  shows "\<exists>k' fs. user_map_pages u k p q = Ok (k', 0x200000, 0x200000 + n * 4096) \<and> length fs = n \<and> grown c t v u user_code_flags_4k k 0x200000 fs k'"
proof -
  have al: "4096 dvd (0x200000 :: nat)" by (simp add: dvd_eq_mod_eq_0)
  have nw: "page_new Size4K 0x200000 = Ok 0x200000" by (simp add: page_new_Ok_iff BYTES_def dvd_eq_mod_eq_0)
  have st: "page_steps_between Size4K p q = Ok (Some n)"
    using pq by (simp add: page_steps_between_def page_start_def addr_diff_def drop_bit_eq_div)
  have fw: "page_forward Size4K 0x200000 n = Ok (0x200000 + n * 4096)"
    using page_forward_Ok [of Size4K "0x200000" n] top by (simp add: BYTES_def USIZE_LIMIT_def dvd_eq_mod_eq_0)
  have "user_pages user_code_flags_4k u k 0x200000 0 n = Panic UnwrapNone \<and> card (k_free k) < n * 16384 \<or>
      (\<exists>k' fs. user_pages user_code_flags_4k u k 0x200000 0 n = Ok k' \<and> length fs = n \<and> grown c t v u user_code_flags_4k k (0x200000 + 0 * 4096) fs k')"
    using nb top by (intro user_pages_cases [OF us al _ flags_fit_all(1)]) simp_all
  then obtain k' fs where r: "user_pages user_code_flags_4k u k 0x200000 0 n = Ok k'" "length fs = n" "grown c t v u user_code_flags_4k k 0x200000 fs k'"
    using room by auto
  have "k_ok c t v k'" using grownD(1) [OF r(3)] by (simp add: user_space_def table_inv_def)
  then have "k'\<lparr>k_cpu := table_set u (k_cpu k')\<rparr> = k'" using c by (simp add: k_ok_def table_set_def)
  then show ?thesis using r nw st fw by (intro exI [of _ k'] exI [of _ fs]) (simp add: user_map_pages_def)
qed

lemma setup_user_stack_Ok:
  assumes us: "user_space c t v k u" and cur: "task_current s = Ok (Some x)" "process_by_id s (tk_proc x) = Some p" "pr_threads p = [tk_id x]"
    and nb: "\<forall>a. USER_STACK_START \<le> a \<longrightarrow> a < USER_STACK_START + USER_STACK_SIZE \<longrightarrow> leaf (k_mem k) u (indices a) = None" and room: "4 * 16384 \<le> card (k_free k)"
  shows "\<exists>k' fs. setup_user_stack s k u = Ok (k', USER_STACK_START + USER_STACK_SIZE) \<and> length fs = 4 \<and> grown c t v u user_stack_flags k USER_STACK_START fs k'"
proof -
  have al: "4096 dvd USER_STACK_START" by (simp add: USER_STACK_START_def dvd_eq_mod_eq_0)
  have sz: "USER_STACK_SIZE = 4 * 4096" by (simp add: USER_STACK_SIZE_def USER_STACK_PAGES_def BYTES_def)
  have "user_pages user_stack_flags u k USER_STACK_START 0 4 = Panic UnwrapNone \<and> card (k_free k) < 4 * 16384 \<or>
      (\<exists>k' fs. user_pages user_stack_flags u k USER_STACK_START 0 4 = Ok k' \<and> length fs = 4 \<and> grown c t v u user_stack_flags k (USER_STACK_START + 0 * 4096) fs k')"
    using nb by (intro user_pages_cases [OF us al _ flags_fit_all(2)]) (simp_all add: sz USER_STACK_START_def)
  then obtain k' fs where r: "user_pages user_stack_flags u k USER_STACK_START 0 USER_STACK_PAGES = Ok k'" "length fs = 4" "grown c t v u user_stack_flags k USER_STACK_START fs k'"
    using room by (auto simp: USER_STACK_PAGES_def)
  have "page_new Size4K USER_STACK_START = Ok USER_STACK_START" using al by (simp add: page_new_Ok_iff BYTES_def)
  moreover have "addr_add USER_STACK_START 0 = Ok USER_STACK_START" "addr_add USER_STACK_START USER_STACK_SIZE = Ok (USER_STACK_START + USER_STACK_SIZE)" "umul 0 USER_STACK_SIZE = Ok 0"
    by (simp_all add: addr_add_def uadd_def umul_def sz USER_STACK_START_def USIZE_LIMIT_def)
  ultimately show ?thesis using r cur by (intro exI [of _ k'] exI [of _ fs]) (simp add: setup_user_stack_def process_current_def)
qed

lemma task_current_put: "task_current (put_process s p) = task_current s"
proof -
  have t: "get_task_by_id (put_process s p) = get_task_by_id s" by (simp add: fun_eq_iff get_task_by_id_def put_process_def)
  have c: "get_current_task_id (put_process s p) = get_current_task_id s" by (simp add: get_current_task_id_def put_process_def)
  show ?thesis unfolding task_current_def t c by (rule refl)
qed

lemma new_table_leaf:
  assumes "\<forall>a < 2 ^ 48. leaf (k_mem k1) u (indices a) = (if get_index L4 a = 510 then leaf (k_mem k) w (indices a) else None)" and "a < 510 * 2 ^ 39"
  shows "leaf (k_mem k1) u (indices a) = None"
proof -
  have "a < 2 ^ 48" "get_index L4 a \<noteq> 510" using assms(2) by (simp_all add: get_index_eq less_mult_imp_div_less)
  then show ?thesis using assms(1) by simp
qed

text \<open>The table, the program and the stack of the first thread; the processor uses the new table.\<close>

lemma space_built:
  assumes inv: "table_inv (k_ok c t v) k_free k_mem 3 k (cpu_ttbr0 c)" and n: "n * 4096 = e - b" "b \<le> e" "e < USIZE_LIMIT" "0x200000 + n * 4096 \<le> USER_STACK_START"
    and cur: "task_current s = Ok (Some x)" "process_by_id s (tk_proc x) = Some p" "pr_threads p = [tk_id x]" "pr_id p = tk_proc x"
    and room: "4096 + (n + 4) * 16384 \<le> card (k_free k)"
  shows "\<exists>k1 u k2 fs k3 gs. user_table_new k = Ok (k1, u) \<and> user_map_pages u k1 b e = Ok (k2, 0x200000, 0x200000 + n * 4096)
    \<and> setup_user_stack (put_process s (set_page_table p u)) k2 u = Ok (k3, USER_STACK_START + USER_STACK_SIZE)
    \<and> user_space (table_set u c) t v k1 u \<and> (\<forall>a < 510 * 2 ^ 39. leaf (k_mem k1) u (indices a) = None) \<and> k_free k1 \<subseteq> k_free k
    \<and> length fs = n \<and> grown (table_set u c) t v u user_code_flags_4k k1 0x200000 fs k2
    \<and> length gs = 4 \<and> grown (table_set u c) t v u user_stack_flags k2 USER_STACK_START gs k3"
proof -
  have bnd: "k_free k \<subseteq> {..<2 ^ 48}" using inv by (simp add: table_inv_def)
  then have fin: "finite (k_free k)" by (rule finite_subset) simp
  obtain k1 u where r: "user_table_new k = Ok (k1, u)" "user_space (table_set u c) t v k1 u" "{u..<u + 4096} \<subseteq> k_free k" "k_free k1 = k_free k - {u..<u + 4096}"
      "\<forall>a < 2 ^ 48. leaf (k_mem k1) u (indices a) = (if get_index L4 a = 510 then leaf (k_mem k) (cpu_ttbr0 c) (indices a) else None)"
    using user_table_new_cases [OF inv] room by auto
  have cd: "card (k_free k1) + 4096 = card (k_free k)"
    using card_Diff_subset [OF finite_subset [OF r(3) fin] r(3)] card_mono [OF fin r(3)] r(4) by simp
  have lf: "\<forall>a < 510 * 2 ^ 39. leaf (k_mem k1) u (indices a) = None" using new_table_leaf [OF r(5)] by simp
  have st: "USER_STACK_START + USER_STACK_SIZE \<le> 510 * 2 ^ 39" by (simp add: USER_STACK_START_def USER_STACK_SIZE_def USER_STACK_PAGES_def BYTES_def)
  obtain k2 fs where k2: "user_map_pages u k1 b e = Ok (k2, 0x200000, 0x200000 + n * 4096)" "length fs = n" "grown (table_set u c) t v u user_code_flags_4k k1 0x200000 fs k2"
    using user_map_pages_Ok [OF r(2), of e b n] n lf st room cd by (auto simp: table_set_def)
  have nb: "\<forall>a. USER_STACK_START \<le> a \<longrightarrow> a < USER_STACK_START + USER_STACK_SIZE \<longrightarrow> leaf (k_mem k2) u (indices a) = None"
    using grownD(9) [OF k2(3)] lf k2(2) n(4) st by auto
  have "n * 16384 + 4 * 16384 \<le> card (k_free k1)" using room cd by simp
  then have "4 * 16384 \<le> card (k_free k2)" using grownD(10) [OF k2(3)] k2(2) by simp
  moreover have "task_current (put_process s (set_page_table p u)) = Ok (Some x)" using cur(1) by (simp add: task_current_put)
  moreover have "process_by_id (put_process s (set_page_table p u)) (tk_proc x) = Some (set_page_table p u)" using cur(4) by (simp add: process_by_id_def put_process_def set_page_table_def)
  moreover have "pr_threads (set_page_table p u) = [tk_id x]" using cur(3) by (simp add: set_page_table_def)
  ultimately obtain k3 gs where "setup_user_stack (put_process s (set_page_table p u)) k2 u = Ok (k3, USER_STACK_START + USER_STACK_SIZE)" "length gs = 4"
      "grown (table_set u c) t v u user_stack_flags k2 USER_STACK_START gs k3"
    using setup_user_stack_Ok [OF grownD(1) [OF k2(3)] _ _ _ nb] by blast
  then show ?thesis using r(1,2,4) lf k2 by blast
qed

section \<open>The first thread of a process\<close>

lemma grown_twice:
  assumes us: "user_space c t v k u" and none: "\<forall>a < KERNEL_MEMORY_START. leaf (k_mem k) u (indices a) = None"
    and f: "grown c t v u flags k p fs k1" "flags_fit Size4K (map_flags Size4K flags)" "4096 dvd p"
    and g: "grown c t v u flags' k1 q gs k2" "flags_fit Size4K (map_flags Size4K flags')" "4096 dvd q" and pq: "p + length fs * 4096 \<le> q"
  shows "apart (map (\<lambda>f. {f..<f + 4096}) (fs @ gs))" and "\<forall>f \<in> set (fs @ gs). {f..<f + 4096} \<subseteq> k_free k - k_free k2"
    and "\<forall>a < KERNEL_MEMORY_START. pt_translate (k_mem k2) u a =
      Ok (if p \<le> a \<and> a < p + length fs * 4096 then Some (fs ! ((a - p) div 4096) + a mod 4096)
          else if q \<le> a \<and> a < q + length gs * 4096 then Some (gs ! ((a - q) div 4096) + a mod 4096) else None)"
proof -
  have inF: "{x..<x + 4096} \<subseteq> k_free k \<and> {x..<x + 4096} \<subseteq> frames_of Size4K fs" if "x \<in> set fs" for x
    using grownD(3) [OF f(1)] that by (auto simp: frame_fresh_def frames_of_def BYTES_def)
  have inG: "{x..<x + 4096} \<subseteq> k_free k1 \<and> {x..<x + 4096} \<subseteq> frames_of Size4K gs" if "x \<in> set gs" for x
    using grownD(3) [OF g(1)] that by (auto simp: frame_fresh_def frames_of_def BYTES_def)
  have F: "k_free k1 \<inter> frames_of Size4K fs = {}" "k_free k1 \<subseteq> k_free k" using grownD(4,5) [OF f(1)] by blast+
  have G: "k_free k2 \<inter> frames_of Size4K gs = {}" "k_free k2 \<subseteq> k_free k1" using grownD(4,5) [OF g(1)] by blast+
  have "{x..<x + 4096} \<inter> {y..<y + 4096} = {}" if "x \<in> set fs" "y \<in> set gs" for x y using inF [OF that(1)] inG [OF that(2)] F(1) by blast
  then show "apart (map (\<lambda>f. {f..<f + 4096}) (fs @ gs))" using grownD(2) [OF f(1)] grownD(2) [OF g(1)] by (simp add: apart_append)
  have "{x..<x + 4096} \<subseteq> k_free k - k_free k2" if "x \<in> set fs" for x using inF [OF that] F(1) G(2) by blast
  moreover have "{x..<x + 4096} \<subseteq> k_free k - k_free k2" if "x \<in> set gs" for x using inG [OF that] F(2) G(1) by blast
  ultimately show "\<forall>f \<in> set (fs @ gs). {f..<f + 4096} \<subseteq> k_free k - k_free k2" by auto
  show "\<forall>a < KERNEL_MEMORY_START. pt_translate (k_mem k2) u a =
      Ok (if p \<le> a \<and> a < p + length fs * 4096 then Some (fs ! ((a - p) div 4096) + a mod 4096)
          else if q \<le> a \<and> a < q + length gs * 4096 then Some (gs ! ((a - q) div 4096) + a mod 4096) else None)"
  proof (intro allI impI)
    fix a
    assume a: "a < KERNEL_MEMORY_START"
    then have 48: "a < 2 ^ 48" by (simp add: KERNEL_MEMORY_START_def)
    have m: "(a - x) mod 4096 = a mod 4096" if "4096 dvd x" "x \<le> a" for x using that by (auto simp: le_iff_add elim!: dvdE)
    have "pt_translate (k_mem k) u a = Ok None" using none a by (simp add: pt_translate_walk [OF user_space_tree [OF us]] walk_def)
    then show "pt_translate (k_mem k2) u a = Ok (if p \<le> a \<and> a < p + length fs * 4096 then Some (fs ! ((a - p) div 4096) + a mod 4096)
          else if q \<le> a \<and> a < q + length gs * 4096 then Some (gs ! ((a - q) div 4096) + a mod 4096) else None)"
      using grown_translate [OF us f 48] grown_translate [OF grownD(1) [OF f(1)] g 48] m [OF f(3)] m [OF g(3)] pq by auto
  qed
qed

text \<open>C4: starting a process. The first thread of a process, created for a well-formed program and arguments that fit the stack, reaches
  the first instruction of the program in user mode when memory is sufficient: four free frames per page and one for the table. The process then
  has a page table of its own, which is in use and maps exactly the pages of the program and of the stack, to disjoint frames that
  were free; the image of the program is at its pages, \<^verbatim>\<open>x0\<close> is the number of arguments, and \<^verbatim>\<open>x1\<close>, the stack pointer, points to
  \<^verbatim>\<open>argv\<close>, whose slots point to the arguments as NUL-terminated strings below the top of the stack, the last argument first. No other
  byte changes.\<close>

theorem process_starts:
  assumes "table_inv (k_ok c t v) k_free k_mem 3 (ma_world s) (cpu_ttbr0 c)" and "tables_ok (co_sys k)"
    and "task_current (co_sys k) = Ok (Some x)" and "process_by_id (co_sys k) (tk_proc x) = Some p" and "pr_threads p = [tk_id x]"
    and "parse data = Some elf" and "wf_elf data elf" and "n * 4096 = elf_end elf - elf_start elf" and "0x200000 + n * 4096 \<le> USER_STACK_START"
    and "arg_bytes args + 8 * length args \<le> USER_STACK_SIZE" and "4096 + (n + 4) * (4 * 4096) \<le> card (k_free (ma_world s))"
    and "sp = USER_STACK_START + USER_STACK_SIZE - (arg_bytes args + 8 * length args)"
  shows "\<exists>k' s' u fs gs. user_task_run parse (new_main (Some data) (Some args)) k s = Ok (k', s')
    \<and> user_space (sy_cpu (co_sys k')) t v (ma_world s') u \<and> cpu_ttbr0 (sy_cpu (co_sys k')) = u
    \<and> process_by_id (co_sys k') (pr_id p) = Some (set_page_table p u)
    \<and> mc_mode (co_mc k') = 0 \<and> mc_pc (co_mc k') = of_nat (elf_entry_point elf - elf_start elf + 0x200000)
    \<and> mc_x (co_mc k') 0 = of_nat (length args) \<and> mc_x (co_mc k') 1 = of_nat sp \<and> mc_sp_el0 (co_mc k') = of_nat sp
    \<and> length fs = n \<and> length gs = 4 \<and> apart (map (\<lambda>f. {f..<f + 4096}) (fs @ gs))
    \<and> (\<forall>f \<in> set (fs @ gs). {f..<f + 4096} \<subseteq> k_free (ma_world s) - k_free (ma_world s'))
    \<and> (\<forall>a < KERNEL_MEMORY_START. pt_translate (k_mem (ma_world s')) u a =
         Ok (if 0x200000 \<le> a \<and> a < 0x200000 + n * 4096 then Some (fs ! ((a - 0x200000) div 4096) + a mod 4096)
             else if USER_STACK_START \<le> a \<and> a < USER_STACK_START + USER_STACK_SIZE then Some (gs ! ((a - USER_STACK_START) div 4096) + a mod 4096) else None))
    \<and> (\<forall>a. a \<in> mapped elf 0x200000 \<longrightarrow> ma_mem s' a = elf_image data elf (0x200000 - int (elf_start elf)) (ma_mem s) a)
    \<and> argv_holds (ma_mem s') sp (USER_STACK_START + USER_STACK_SIZE) args
    \<and> (\<forall>a. a \<notin> mapped elf 0x200000 \<longrightarrow> a \<notin> {sp..<USER_STACK_START + USER_STACK_SIZE} \<longrightarrow> ma_mem s' a = ma_mem s a)"
proof -
  let ?top = "USER_STACK_START + USER_STACK_SIZE" and ?entry = "elf_entry_point elf - elf_start elf + 0x200000"
  have pid: "pr_id p = tk_proc x" using assms(2,4) by (auto simp: tables_ok_def process_ok_def)
  have ne: "headers Load elf \<noteq> []" "elf_end elf < 2 ^ 63" using assms(7) by (simp_all add: wf_elf_def)
  have room: "4096 + (n + 4) * 16384 \<le> card (k_free (ma_world s))" using assms(11) by simp
  have lim: "elf_end elf < USIZE_LIMIT" using ne(2) by (simp add: USIZE_LIMIT_def)
  obtain k1 u k2 fs k3 gs where b: "user_table_new (ma_world s) = Ok (k1, u)" "user_map_pages u k1 (elf_start elf) (elf_end elf) = Ok (k2, 0x200000, 0x200000 + n * 4096)"
      "setup_user_stack (put_process (co_sys k) (set_page_table p u)) k2 u = Ok (k3, ?top)"
      "user_space (table_set u c) t v k1 u" "\<forall>a < 510 * 2 ^ 39. leaf (k_mem k1) u (indices a) = None" "k_free k1 \<subseteq> k_free (ma_world s)"
      "length fs = n" "grown (table_set u c) t v u user_code_flags_4k k1 0x200000 fs k2"
      "length gs = 4" "grown (table_set u c) t v u user_stack_flags k2 USER_STACK_START gs k3"
    using space_built [OF assms(1) assms(8) elf_start_le_end [OF ne(1)] lim assms(9,3,4,5) pid room] by blast
  have st: "4096 dvd USER_STACK_START" "USER_STACK_SIZE = 4 * 4096" by (simp_all add: USER_STACK_START_def USER_STACK_SIZE_def USER_STACK_PAGES_def BYTES_def dvd_eq_mod_eq_0)
  have none: "\<forall>a < KERNEL_MEMORY_START. leaf (k_mem k1) u (indices a) = None" using b(5) by (simp add: user_kernel_start)
  have base: "4096 dvd (0x200000 :: nat)" by (simp add: dvd_eq_mod_eq_0)
  note tw = grown_twice [OF b(4) none b(8) flags_fit_all(1) base b(10) flags_fit_all(2) st(1) assms(9) [folded b(7)], unfolded b(7,9), folded st(2)]
  have mp: "mapped elf 0x200000 = {0x200000..<0x200000 + n * 4096}" using assms(8) by (simp add: mapped_def)
  obtain s1 where s1: "user_load_elf parse u data (s\<lparr>ma_world := k1\<rparr>) = Ok (s1, ?entry)" "ma_world s1 = k2"
      "\<forall>a. ma_mem s1 a = (if a \<in> mapped elf 0x200000 then elf_image data elf (0x200000 - int (elf_start elf)) (ma_mem s) a else ma_mem s a)"
    using elf_load_Ok [where parse = parse and map_pages = "user_map_pages u" and s = "s\<lparr>ma_world := k1\<rparr>", OF assms(6,7) _ base, of k2 "0x200000 + n * 4096"] b(2) assms(8,9)
    by (auto simp: user_load_elf_def USER_STACK_START_def)
  obtain m' where m': "push_args ?top (ma_mem s1) args = Ok (sp, m', int (length args), sp)" "argv_holds m' sp ?top args" "\<forall>a. a < sp \<or> ?top \<le> a \<longrightarrow> m' a = ma_mem s1 a"
    using push_args_Ok [of args ?top "ma_mem s1"] assms(10,12) by auto
  have low: "USER_STACK_START \<le> sp" using assms(10,12) by simp
  have cpu: "k_cpu k3 = table_set u c" using grownD(1) [OF b(10)] by (simp add: user_space_def table_inv_def k_ok_def)
  have ini: "initialize_user_space parse p data (co_sys k) s = Ok (put_process (co_sys k) (set_page_table p u), s1, ?entry)"
    using assms(3,4) b(1) s1(1) by (simp add: initialize_user_space_def process_current_def)
  have pb: "process_by_id (put_process (co_sys k) (set_page_table p u)) (pr_id p) = Some (set_page_table p u)" by (simp add: process_by_id_def put_process_def set_page_table_def)
  define k' where "k' = enter_usermode (of_nat ?entry) sp u (int (length args)) sp (k\<lparr>co_sys := (put_process (co_sys k) (set_page_table p u))\<lparr>sy_cpu := k_cpu k3\<rparr>\<rparr>)"
  have mode: "mc_mode (co_mc k') = 0" "mc_pc (co_mc k') = of_nat ?entry" "mc_x (co_mc k') 0 = of_nat (length args)" "mc_x (co_mc k') 1 = of_nat sp" "mc_sp_el0 (co_mc k') = of_nat sp"
      "cpu_ttbr0 (sy_cpu (co_sys k')) = u" "process_by_id (co_sys k') (pr_id p) = Some (set_page_table p u)"
    using pb by (simp_all add: k'_def enter_usermode_def Let_def eret_def table_set_def process_by_id_def)
  have run: "user_task_run parse (new_main (Some data) (Some args)) k s = Ok (k', s1\<lparr>ma_world := k3\<lparr>k_cpu := sy_cpu (co_sys k')\<rparr>, ma_mem := m'\<rparr>)"
    using assms(3,4,5) ini pb b(3) m'(1) s1(2) by (simp add: user_task_run_def process_current_def new_main_def set_page_table_def Let_def k'_def)
  have al: "4096 dvd cpu_ttbr0 (sy_cpu (co_sys k'))" using grownD(1) [OF b(10)] mode(6) cpu by (simp add: user_space_def table_inv_def k_ok_def table_set_def)
  have us: "user_space (sy_cpu (co_sys k')) t v (k3\<lparr>k_cpu := sy_cpu (co_sys k')\<rparr>) u" by (rule user_space_cpu(1) [OF grownD(1) [OF b(10)] al])
  have eq: "k_mem (k3\<lparr>k_cpu := d\<rparr>) = k_mem k3" "k_free (k3\<lparr>k_cpu := d\<rparr>) = k_free k3" for d by (simp_all add: k_mem_def k_free_def)
  have img: "\<forall>a. a \<in> mapped elf 0x200000 \<longrightarrow> m' a = elf_image data elf (0x200000 - int (elf_start elf)) (ma_mem s) a"
    using m'(3) s1(3) low assms(9) unfolding mp by auto
  have oth: "\<forall>a. a \<notin> mapped elf 0x200000 \<longrightarrow> a \<notin> {sp..<?top} \<longrightarrow> m' a = ma_mem s a" using m'(3) s1(3) by auto
  have fr: "\<forall>f \<in> set (fs @ gs). {f..<f + 4096} \<subseteq> k_free (ma_world s) - k_free k3" using tw(2) b(6) by blast
  define s' where "s' = s1\<lparr>ma_world := k3\<lparr>k_cpu := sy_cpu (co_sys k')\<rparr>, ma_mem := m'\<rparr>"
  have ms: "ma_world s' = k3\<lparr>k_cpu := sy_cpu (co_sys k')\<rparr>" "ma_mem s' = m'" by (simp_all add: s'_def)
  show ?thesis
    by (rule exI [of _ k'], rule exI [of _ s'], rule exI [of _ u], rule exI [of _ fs], rule exI [of _ gs], intro conjI)
      (simp_all only: run [folded s'_def] ms eq mode us b(7,9) tw(1) m'(2), (rule fr tw(3) img oth)+)
qed

text \<open>The machine after start-up, with a process of one thread.\<close>

theorem process_starts_witness:
  "\<exists>k s k' s' u. user_task_run (\<lambda>_. Some demo_elf) (new_main (Some [1, 2, 3, 4]) (Some [[104, 105], [33]])) (k :: (unit, unit) core) s = Ok (k', s')
    \<and> mc_mode (co_mc k') = 0 \<and> mc_pc (co_mc k') = 0x200ff9 \<and> mc_x (co_mc k') 0 = 2 \<and> mc_x (co_mc k') 1 = 0x111903feb
    \<and> process_by_id (co_sys k') 1 = Some (set_page_table (snd (demo_process 1 [0] 0x1000)) u)
    \<and> ma_mem s' 0x200ff9 = 3 \<and> argv_holds (ma_mem s') 0x111903feb 0x111904000 [[104, 105], [33]]"
proof -
  obtain w where w: "table_inv (k_ok (k_cpu w) (k_table w) (k_virt w)) k_free k_mem 3 w (cpu_ttbr0 (k_cpu w))" "0x300000 \<le> card (k_free w)"
    using boot_state by blast
  let ?s = "\<lparr>ma_world = w, ma_mem = (\<lambda>_. 9), ma_flushed = []\<rparr>" and ?x = "\<lparr>tk_id = 0, tk_proc = 1, tk_sched = running\<rparr>" and ?p = "snd (demo_process 1 [0] 0x1000)"
  have tb: "tables_ok (co_sys demo_kernel)"
    by (auto simp: demo_kernel_def tables_ok_def task_ok_def process_ok_def demo_procs_def demo_process_def get_task_by_id_def process_by_id_def bt_get_def split: if_splits)
  have cur: "task_current (co_sys demo_kernel) = Ok (Some ?x)" "process_by_id (co_sys demo_kernel) (tk_proc ?x) = Some ?p" "pr_threads ?p = [tk_id ?x]"
    by (simp_all add: demo_kernel_def demo_procs_def demo_process_def task_current_def process_by_id_def bt_get_def get_current_task_id_def get_task_by_id_def current_core_def)
  have e: "2 * 4096 = elf_end demo_elf - elf_start demo_elf" "0x200000 + 2 * 4096 \<le> USER_STACK_START" "arg_bytes [[104, 105], [33]] + 8 * length [[104, 105], [33 :: 8 word]] \<le> USER_STACK_SIZE"
      "0x111903feb = USER_STACK_START + USER_STACK_SIZE - (arg_bytes [[104, 105], [33]] + 8 * length [[104, 105], [33 :: 8 word]])"
    by (simp_all add: demo_headers USER_STACK_START_def USER_STACK_SIZE_def USER_STACK_PAGES_def arg_bytes_def BYTES_def)
  have room: "4096 + (2 + 4) * (4 * 4096) \<le> card (k_free (ma_world ?s))" using w(2) by simp
  have inv: "table_inv (k_ok (k_cpu w) (k_table w) (k_virt w)) k_free k_mem 3 (ma_world ?s) (cpu_ttbr0 (k_cpu w))" using w(1) by simp
  have pd: "elf_entry_point demo_elf = 0x1ff9" "pr_id ?p = 1" "USER_STACK_START + USER_STACK_SIZE = 0x111904000"
    by (simp_all add: demo_elf_def demo_process_def USER_STACK_START_def USER_STACK_SIZE_def USER_STACK_PAGES_def BYTES_def)
  have im: "elf_image [1, 2, 3, 4] demo_elf (0x200000 - int (elf_start demo_elf)) (ma_mem ?s) 0x200ff9 = 3" "0x200ff9 \<in> mapped demo_elf 0x200000"
    using demo_image(1) by (simp_all add: demo_headers mapped_def)
  from process_starts [OF inv tb cur refl [of "Some demo_elf"] demo_wf e(1,2,3) room e(4)]
  show ?thesis
  proof (elim exE conjE)
    fix k' s' u
    assume r: "user_task_run (\<lambda>_. Some demo_elf) (new_main (Some [1, 2, 3, 4]) (Some [[104, 105], [33]])) demo_kernel ?s = Ok (k', s')" "mc_mode (co_mc k') = 0"
      "mc_pc (co_mc k') = of_nat (elf_entry_point demo_elf - elf_start demo_elf + 0x200000)" "mc_x (co_mc k') 0 = of_nat (length [[104, 105], [33 :: 8 word]])" "mc_x (co_mc k') 1 = of_nat 0x111903feb"
      "process_by_id (co_sys k') (pr_id ?p) = Some (set_page_table ?p u)"
      "\<forall>a. a \<in> mapped demo_elf 0x200000 \<longrightarrow> ma_mem s' a = elf_image [1, 2, 3, 4] demo_elf (0x200000 - int (elf_start demo_elf)) (ma_mem ?s) a"
      "argv_holds (ma_mem s') 0x111903feb (USER_STACK_START + USER_STACK_SIZE) [[104, 105], [33]]"
    have "ma_mem s' 0x200ff9 = 3" using r(7) im by simp
    moreover have "mc_pc (co_mc k') = 0x200ff9" "mc_x (co_mc k') 0 = 2" "mc_x (co_mc k') 1 = 0x111903feb" using r(3-5) by (simp_all add: pd demo_headers)
    ultimately show ?thesis using r(1,2,6,8) unfolding pd by blast
  qed
qed

end
