(* ===== verification/Requests.thy ===== *)
theory Requests
  imports Vfs_Spec User_Task
begin

text \<open>
  The wire format of module calls: \<^verbatim>\<open>libs/syscall\<close> (\<^verbatim>\<open>Payload\<close>, \<^verbatim>\<open>RawModuleRequest\<close>, \<^verbatim>\<open>ProcRequest\<close>) and the
  requests of \<^verbatim>\<open>libs/vfs\<close>. A request crosses as a number and three words; strings and buffers cross as the address of the
  field of the request that holds their fat pointer.
\<close>

section \<open>References in memory\<close>

definition load_u64 :: "byte_mem \<Rightarrow> address \<Rightarrow> usize" where
  "load_u64 m a = foldr (\<lambda>b n. unat b + 256 * n) (map m [a..<a + 8]) 0"

text \<open>A reference to a slice or a string is an address and a length.\<close>

definition fat_ref :: "byte_mem \<Rightarrow> address \<Rightarrow> address \<times> usize" where
  "fat_ref m a = (load_u64 m a, load_u64 m (a + 8))"

definition slice_ref :: "byte_mem \<Rightarrow> address \<Rightarrow> byte list" where
  "slice_ref m a = (let (p, n) = fat_ref m a in map m [p..<p + n])"

definition str_ref :: "byte_mem \<Rightarrow> address \<Rightarrow> string" where
  "str_ref m a = map (\<lambda>b. char_of (unat b)) (slice_ref m a)"

definition decode_u32 :: "usize \<Rightarrow> usize" where
  "decode_u32 data = data mod 2 ^ 32"

section \<open>Raw requests\<close>

record raw_request =
  rr_id :: usize
  rr_buf :: "usize list"

definition raw_new :: "usize \<Rightarrow> usize \<Rightarrow> usize \<Rightarrow> usize \<Rightarrow> raw_request" where
  "raw_new i a b c = \<lparr>rr_id = i, rr_buf = [a, b, c]\<rparr>"

definition from_buf :: "usize list \<Rightarrow> raw_request res" where
  "from_buf x =
     rbind (idx x 0) (\<lambda>id. rbind (idx x 1) (\<lambda>a. rbind (idx x 2) (\<lambda>b. rbind (idx x 3) (\<lambda>c.
     Ok \<lparr>rr_id = id, rr_buf = [a, b, c]\<rparr>))))"

definition as_buf :: "raw_request \<Rightarrow> usize list res" where
  "as_buf r =
     rbind (idx (rr_buf r) 0) (\<lambda>a. rbind (idx (rr_buf r) 1) (\<lambda>b. rbind (idx (rr_buf r) 2) (\<lambda>c.
     Ok [rr_id r, a, b, c])))"

definition raw_arg :: "(usize \<Rightarrow> 'a) \<Rightarrow> raw_request \<Rightarrow> usize \<Rightarrow> 'a res" where
  "raw_arg decode r i = rbind (idx (rr_buf r) i) (\<lambda>d. Ok (decode d))"

section \<open>Requests of the modules\<close>

fun proc_as_raw :: "proc_request \<Rightarrow> raw_request" where
  "proc_as_raw MutexCreate = raw_new 1 0 0 0"
| "proc_as_raw (MutexLock x) = raw_new 2 x 0 0"
| "proc_as_raw (MutexUnlock x) = raw_new 3 x 0 0"
| "proc_as_raw (MutexDestroy x) = raw_new 4 x 0 0"
| "proc_as_raw CondvarCreate = raw_new 5 0 0 0"
| "proc_as_raw (CondvarWait x y) = raw_new 6 x y 0"
| "proc_as_raw (CondvarNotifyAll x) = raw_new 7 x 0 0"
| "proc_as_raw (CondvarDestroy x) = raw_new 8 x 0 0"

definition proc_from_raw :: "raw_request \<Rightarrow> proc_request res" where
  "proc_from_raw raw =
     (let id = rr_id raw; arg = raw_arg (\<lambda>d. d) raw in
      if id = 1 then Ok MutexCreate
      else if id = 2 then rbind (arg 0) (\<lambda>x. Ok (MutexLock x))
      else if id = 3 then rbind (arg 0) (\<lambda>x. Ok (MutexUnlock x))
      else if id = 4 then rbind (arg 0) (\<lambda>x. Ok (MutexDestroy x))
      else if id = 5 then Ok CondvarCreate
      else if id = 6 then rbind (arg 0) (\<lambda>x. rbind (arg 1) (\<lambda>y. Ok (CondvarWait x y)))
      else if id = 7 then rbind (arg 0) (\<lambda>x. Ok (CondvarNotifyAll x))
      else if id = 8 then rbind (arg 0) (\<lambda>x. Ok (CondvarDestroy x))
      else Panic Explicit)"

text \<open>\<open>loc i\<close> is the address of field \<open>i\<close> of the request, which is what a string or a buffer is encoded as.\<close>

fun vfs_as_raw :: "(nat \<Rightarrow> address) \<Rightarrow> vfs_request \<Rightarrow> raw_request" where
  "vfs_as_raw loc (VOpen s) = raw_new 1 (loc 0) 0 0"
| "vfs_as_raw loc (VClose fd) = raw_new 2 fd 0 0"
| "vfs_as_raw loc (VRead fd buf) = raw_new 3 fd (loc 1) 0"
| "vfs_as_raw loc (VWrite fd buf) = raw_new 4 fd (loc 1) 0"
| "vfs_as_raw loc (VReadDir fd i buf) = raw_new 5 fd i (loc 2)"
| "vfs_as_raw loc (VMount path dev fs) = raw_new 6 (loc 0) dev (loc 2)"
| "vfs_as_raw loc (VGetCwd buf) = raw_new 7 (loc 0) 0 0"
| "vfs_as_raw loc (VSetCwd s) = raw_new 8 (loc 0) 0 0"

definition vfs_from_raw :: "byte_mem \<Rightarrow> raw_request \<Rightarrow> vfs_request res" where
  "vfs_from_raw m raw =
     (let id = rr_id raw; fd = raw_arg decode_u32 raw; num = raw_arg (\<lambda>d. d) raw; str = raw_arg (str_ref m) raw; buf = raw_arg (slice_ref m) raw in
      if id = 1 then rbind (str 0) (\<lambda>s. Ok (VOpen s))
      else if id = 2 then rbind (fd 0) (\<lambda>f. Ok (VClose f))
      else if id = 3 then rbind (fd 0) (\<lambda>f. rbind (buf 1) (\<lambda>b. Ok (VRead f b)))
      else if id = 4 then rbind (fd 0) (\<lambda>f. rbind (buf 1) (\<lambda>b. Ok (VWrite f b)))
      else if id = 5 then rbind (fd 0) (\<lambda>f. rbind (num 1) (\<lambda>i. rbind (buf 2) (\<lambda>b. Ok (VReadDir f i b))))
      else if id = 6 then rbind (str 0) (\<lambda>p. rbind (num 1) (\<lambda>d. rbind (str 2) (\<lambda>f. Ok (VMount p d f))))
      else if id = 7 then rbind (buf 0) (\<lambda>b. Ok (VGetCwd b))
      else if id = 8 then rbind (str 0) (\<lambda>s. Ok (VSetCwd s))
      else Panic Explicit)"

section \<open>Round trips\<close>

lemma load_le_bytes:
  assumes "holds m a (to_le_bytes v)" and "v < USIZE_LIMIT"
  shows "load_u64 m a = v"
proof -
  have *: "foldr (\<lambda>b n. unat b + 256 * n) (map (\<lambda>i. of_nat (v div 256 ^ i) :: 8 word) [j..<j + k]) 0 = v div 256 ^ j mod 256 ^ k" for j k
  proof (induction k arbitrary: j)
    case (Suc k)
    have "v div 256 ^ Suc j = v div 256 ^ j div 256" by (simp only: power_Suc2 div_mult2_eq)
    moreover have "v div 256 ^ j mod 256 ^ Suc k = v div 256 ^ j mod 256 + 256 * (v div 256 ^ j div 256 mod 256 ^ k)" by (simp add: mod_mult2_eq)
    moreover have "[j..<j + Suc k] = j # [Suc j..<Suc j + k]" by (simp add: upt_conv_Cons del: upt_Suc)
    ultimately show ?case using Suc.IH [of "Suc j"] by (simp add: unat_of_nat del: power_Suc upt_Suc)
  qed simp
  have "map m [a..<a + 8] = to_le_bytes v" using assms(1) by (simp add: holds_def)
  then have "load_u64 m a = v mod 256 ^ 8" using * [of 0 8] by (simp add: load_u64_def to_le_bytes_def)
  then show ?thesis using assms(2) by (simp add: USIZE_LIMIT_def)
qed

definition slice_at :: "byte_mem \<Rightarrow> address \<Rightarrow> byte list \<Rightarrow> bool" where
  "slice_at m a bs \<longleftrightarrow> (\<exists>p. holds m a (to_le_bytes p) \<and> holds m (a + 8) (to_le_bytes (length bs)) \<and> holds m p bs \<and> p + length bs < USIZE_LIMIT)"

lemma slice_ref_at: "slice_at m a bs \<Longrightarrow> slice_ref m a = bs"
proof -
  assume "slice_at m a bs"
  then obtain p where p: "holds m a (to_le_bytes p)" "holds m (a + 8) (to_le_bytes (length bs))" "holds m p bs" "p + length bs < USIZE_LIMIT"
    by (auto simp: slice_at_def)
  have "load_u64 m a = p" "load_u64 m (a + 8) = length bs" using load_le_bytes [OF p(1)] load_le_bytes [OF p(2)] p(4) by simp_all
  then show ?thesis using p(3) by (simp add: slice_ref_def fat_ref_def holds_def)
qed

lemma char_of_unat: "char_of (unat (of_char c :: 8 word)) = c"
proof -
  have "(of_char c :: 8 word) = of_nat (of_char c)" by (simp only: of_nat_of_char)
  then have "unat (of_char c :: 8 word) = of_char c mod 256" by (simp only: unat_of_nat) simp
  then show ?thesis by simp
qed

lemma str_ref_at: "slice_at m a (as_bytes s) \<Longrightarrow> str_ref m a = s"
  by (simp add: str_ref_def slice_ref_at as_bytes_def o_def char_of_unat)

text \<open>A request in the memory of its sender: the fields that are references are at \<open>loc\<close>, the others fit their types.\<close>

fun request_at :: "byte_mem \<Rightarrow> (nat \<Rightarrow> address) \<Rightarrow> vfs_request \<Rightarrow> bool" where
  "request_at m loc (VOpen s) = slice_at m (loc 0) (as_bytes s)"
| "request_at m loc (VClose fd) = (fd < 2 ^ 32)"
| "request_at m loc (VRead fd buf) = (fd < 2 ^ 32 \<and> slice_at m (loc 1) buf)"
| "request_at m loc (VWrite fd buf) = (fd < 2 ^ 32 \<and> slice_at m (loc 1) buf)"
| "request_at m loc (VReadDir fd i buf) = (fd < 2 ^ 32 \<and> slice_at m (loc 2) buf)"
| "request_at m loc (VMount path dev fs) = (slice_at m (loc 0) (as_bytes path) \<and> slice_at m (loc 2) (as_bytes fs))"
| "request_at m loc (VGetCwd buf) = slice_at m (loc 0) buf"
| "request_at m loc (VSetCwd s) = slice_at m (loc 0) (as_bytes s)"

lemma raw_new_buf: "as_buf (raw_new i a b c) = Ok [i, a, b, c]" "from_buf [i, a, b, c] = Ok (raw_new i a b c)"
  by (simp_all add: as_buf_def from_buf_def raw_new_def numeral_2_eq_2 numeral_3_eq_3)

lemma vfs_request_crosses:
  assumes "request_at m loc req"
  shows "\<exists>id a b c. as_buf (vfs_as_raw loc req) = Ok [id, a, b, c] \<and> rbind (from_buf [id, a, b, c]) (vfs_from_raw m) = Ok req"
  using assms by (cases req) (simp_all add: raw_new_buf,
    simp_all add: raw_new_def vfs_from_raw_def raw_arg_def decode_u32_def slice_ref_at str_ref_at)

lemma proc_request_crosses: "\<exists>id a b c. as_buf (proc_as_raw req) = Ok [id, a, b, c] \<and> rbind (from_buf [id, a, b, c]) proc_from_raw = Ok req"
  by (cases req) (simp_all add: raw_new_buf, simp_all add: raw_new_def proc_from_raw_def raw_arg_def)

section \<open>Decoding arbitrary words\<close>

text \<open>The ranges of the Rust types: descriptors are \<^verbatim>\<open>u32\<close>, indices and lengths \<^verbatim>\<open>usize\<close>.\<close>

fun request_typed :: "vfs_request \<Rightarrow> bool" where
  "request_typed (VOpen s) = (length s < USIZE_LIMIT)"
| "request_typed (VClose fd) = (fd < 2 ^ 32)"
| "request_typed (VRead fd buf) = (fd < 2 ^ 32 \<and> length buf < USIZE_LIMIT)"
| "request_typed (VWrite fd buf) = (fd < 2 ^ 32 \<and> length buf < USIZE_LIMIT)"
| "request_typed (VReadDir fd i buf) = (fd < 2 ^ 32 \<and> i < USIZE_LIMIT \<and> length buf < USIZE_LIMIT)"
| "request_typed (VMount path dev fs) = (length path < USIZE_LIMIT \<and> dev < USIZE_LIMIT \<and> length fs < USIZE_LIMIT)"
| "request_typed (VGetCwd buf) = (length buf < USIZE_LIMIT)"
| "request_typed (VSetCwd s) = (length s < USIZE_LIMIT)"

fun proc_typed :: "proc_request \<Rightarrow> bool" where
  "proc_typed MutexCreate = True"
| "proc_typed (MutexLock x) = (x < USIZE_LIMIT)"
| "proc_typed (MutexUnlock x) = (x < USIZE_LIMIT)"
| "proc_typed (MutexDestroy x) = (x < USIZE_LIMIT)"
| "proc_typed CondvarCreate = True"
| "proc_typed (CondvarWait x y) = (x < USIZE_LIMIT \<and> y < USIZE_LIMIT)"
| "proc_typed (CondvarNotifyAll x) = (x < USIZE_LIMIT)"
| "proc_typed (CondvarDestroy x) = (x < USIZE_LIMIT)"

lemma load_u64_less: "load_u64 m a < USIZE_LIMIT"
proof -
  have *: "foldr (\<lambda>b n. unat b + 256 * n) bs 0 < 256 ^ length bs" for bs :: "8 word list"
  proof (induction bs)
    case (Cons b bs)
    have "unat b < 256" using unsigned_less [of b] by simp
    then show ?case using Cons.IH by simp
  qed simp
  show ?thesis using * [of "map m [a..<a + 8]"] by (simp add: load_u64_def USIZE_LIMIT_def)
qed

lemma ref_length: "length (slice_ref m a) < USIZE_LIMIT" "length (str_ref m a) < USIZE_LIMIT"
  by (simp_all add: str_ref_def slice_ref_def fat_ref_def load_u64_less)

text \<open>C39: requests are well typed. Whatever words a caller puts into the registers and whatever its memory holds, decoding a raw request gives a
  request whose descriptor, indices and lengths are in the ranges of their types exactly when its number is that of a request, and stops with
  a panic otherwise; and a request that was encoded decodes to itself.\<close>

theorem requests_typed:
  assumes "a < USIZE_LIMIT" and "b < USIZE_LIMIT" and "c < USIZE_LIMIT"
  shows "(if 1 \<le> i \<and> i \<le> 8 then \<exists>req. rbind (from_buf [i, a, b, c]) (vfs_from_raw m) = Ok req \<and> request_typed req
      else rbind (from_buf [i, a, b, c]) (vfs_from_raw m) = Panic Explicit)
    \<and> (if 1 \<le> i \<and> i \<le> 8 then \<exists>req. rbind (from_buf [i, a, b, c]) proc_from_raw = Ok req \<and> proc_typed req
      else rbind (from_buf [i, a, b, c]) proc_from_raw = Panic Explicit)
    \<and> (request_at m loc vreq \<longrightarrow> rbind (as_buf (vfs_as_raw loc vreq)) (\<lambda>x. rbind (from_buf x) (vfs_from_raw m)) = Ok vreq)
    \<and> rbind (as_buf (proc_as_raw preq)) (\<lambda>x. rbind (from_buf x) proc_from_raw) = Ok preq"
proof -
  have cases: "i \<in> {1, 2, 3, 4, 5, 6, 7, 8} \<or> \<not> (1 \<le> i \<and> i \<le> 8)" by auto
  have v: "if 1 \<le> i \<and> i \<le> 8 then \<exists>req. rbind (from_buf [i, a, b, c]) (vfs_from_raw m) = Ok req \<and> request_typed req
      else rbind (from_buf [i, a, b, c]) (vfs_from_raw m) = Panic Explicit"
    using cases assms by (auto simp: raw_new_buf) (auto simp: raw_new_def vfs_from_raw_def raw_arg_def decode_u32_def ref_length Let_def)
  have p: "if 1 \<le> i \<and> i \<le> 8 then \<exists>req. rbind (from_buf [i, a, b, c]) proc_from_raw = Ok req \<and> proc_typed req
      else rbind (from_buf [i, a, b, c]) proc_from_raw = Panic Explicit"
    using cases assms by (auto simp: raw_new_buf) (auto simp: raw_new_def proc_from_raw_def raw_arg_def Let_def)
  show ?thesis using v p vfs_request_crosses [of m loc vreq] proc_request_crosses [of preq] by auto
qed

theorem requests_typed_witness:
  "\<exists>req. rbind (from_buf [3, 0x100000002, 0x20, 0]) (vfs_from_raw (\<lambda>_. 0)) = Ok req \<and> request_typed req"
  using requests_typed [of "0x100000002" "0x20" 0 3 "\<lambda>_. 0"] by (simp add: USIZE_LIMIT_def)

end
