(* ===== verification/Syscalls.thy ===== *)
theory Syscalls
  imports Requests
begin

text \<open>
  System calls: the user's side (\<^verbatim>\<open>libs/syscall/src/syscall.rs\<close>), the kernel's dispatch (\<^verbatim>\<open>sophon/src/task/syscall.rs\<close>)
  and the registry of kernel modules (\<^verbatim>\<open>sophon/src/modules/mod.rs\<close>). The state behind the calls is the record \<open>services\<close>: the
  file system, the memory globals of the kernel, the memory of the calling process, the registered modules and the console.
\<close>

section \<open>State\<close>

text \<open>\<open>HandlerImpl<T>\<close> of the modules that register a handler.\<close>

datatype module_handler = PmModule | VfsModule | DevModule

record kernel_module =
  km_name :: string
  km_call :: "module_handler option"
  km_elf :: "byte list"

datatype runnable = Idle | User user_task

text \<open>\<open>sv_devices\<close> gives the device behind a reference \<^verbatim>\<open>&&dyn Device\<close>; \<open>sv_tasks\<close> holds the runnables of the tasks.\<close>

record 'w services =
  sv_vfs :: "'w vfs"
  sv_kernel :: kernel
  sv_memory :: byte_mem
  sv_modules :: "kernel_module option list"
  sv_names :: "(string, usize) btree"
  sv_devices :: "address \<Rightarrow> 'w device"
  sv_tasks :: "(task_id, runnable) btree"
  sv_console :: string

type_synonym 'w sophon = "(proc_data, 'w services) core"

text \<open>A call into the memory subsystem, which shares the processor with the rest of the kernel.\<close>

definition on_kernel :: "(kernel \<Rightarrow> (kernel \<times> 'a) res) \<Rightarrow> 'w sophon \<Rightarrow> ('w sophon \<times> 'a) res" where
  "on_kernel f k =
     rbind (f ((sv_kernel (co_ext k))\<lparr>k_cpu := sy_cpu (co_sys k)\<rparr>)) (\<lambda>(kn, x).
     Ok (k\<lparr>co_sys := (co_sys k)\<lparr>sy_cpu := k_cpu kn\<rparr>, co_ext := (co_ext k)\<lparr>sv_kernel := kn\<rparr>\<rparr>, x))"

section \<open>Module calls\<close>

definition MAX_MODULES :: usize where "MAX_MODULES = 256"

definition modules_new :: "kernel_module option list" where
  "modules_new = replicate MAX_MODULES None"

text \<open>A request to the file system works on the state of the current process.\<close>

definition vfs_call :: "bool \<Rightarrow> vfs_request \<Rightarrow> 'w sophon \<Rightarrow> ('w sophon \<times> byte list \<times> int) res" where
  "vfs_call privileged req k =
     rbind (process_current (co_sys k)) (\<lambda>p.
     rbind (vfs_handle (sy_cpu (co_sys k)) privileged req ((sv_vfs (co_ext k))\<lparr>vf_proc := map_option pr_fs p\<rparr>)) (\<lambda>(v, buf, r).
     let s = (case p of None \<Rightarrow> co_sys k | Some pr \<Rightarrow> (case vf_proc v of None \<Rightarrow> co_sys k | Some d \<Rightarrow> put_process (co_sys k) (pr\<lparr>pr_fs := d\<rparr>))) in
     Ok (k\<lparr>co_sys := s, co_ext := (co_ext k)\<lparr>sv_vfs := v\<rparr>\<rparr>, buf, r)))"

text \<open>The buffer of a reading request is written in place.\<close>

definition write_reply :: "raw_request \<Rightarrow> vfs_request \<Rightarrow> byte list \<Rightarrow> byte_mem \<Rightarrow> byte_mem" where
  "write_reply raw req buf m =
     (case req of
        VRead _ _ \<Rightarrow> write_bytes m (fst (fat_ref m (rr_buf raw ! 1))) buf
      | VReadDir _ _ _ \<Rightarrow> write_bytes m (fst (fat_ref m (rr_buf raw ! 2))) buf
      | VGetCwd _ \<Rightarrow> write_bytes m (fst (fat_ref m (rr_buf raw ! 0))) buf
      | _ \<Rightarrow> m)"

definition dev_from_raw :: "raw_request \<Rightarrow> address res" where
  "dev_from_raw raw = (if rr_id raw = 0 then raw_arg (\<lambda>d. d) raw 0 else Panic Explicit)"

text \<open>\<open>box\<close> is the address at which the allocator places a new mutex or condition variable.\<close>

definition module_handle :: "address \<Rightarrow> module_handler \<Rightarrow> bool \<Rightarrow> raw_request \<Rightarrow> 'w sophon \<Rightarrow> ('w sophon \<times> int outcome) res" where
  "module_handle box h privileged raw k =
     (case h of
        PmModule \<Rightarrow>
          rbind (proc_from_raw raw) (\<lambda>req.
          rbind (pm_handle privileged box req (co_sys k)) (\<lambda>(s, r). Ok (k\<lparr>co_sys := s\<rparr>, r)))
      | VfsModule \<Rightarrow>
          rbind (vfs_from_raw (sv_memory (co_ext k)) raw) (\<lambda>req.
          rbind (vfs_call privileged req k) (\<lambda>(k1, buf, r).
          Ok (k1\<lparr>co_ext := (co_ext k1)\<lparr>sv_memory := write_reply raw req buf (sv_memory (co_ext k1))\<rparr>\<rparr>, Done r)))
      | DevModule \<Rightarrow>
          rbind (dev_from_raw raw) (\<lambda>d.
          rbind (dev_register privileged (sv_vfs (co_ext k)) (sv_devices (co_ext k) d)) (\<lambda>(v, r).
          Ok (k\<lparr>co_ext := (co_ext k)\<lparr>sv_vfs := v\<rparr>\<rparr>, Done r))))"

text \<open>\<open>with_module\<close> is \<^verbatim>\<open>raw_module_call\<close> for any way \<open>f\<close> to use the handler; \<open>none\<close> is the answer of a module without one.\<close>

definition with_module :: "string \<Rightarrow> 'a \<Rightarrow> (module_handler \<Rightarrow> 'w sophon \<Rightarrow> ('w sophon \<times> 'a outcome) res) \<Rightarrow> 'w sophon \<Rightarrow> ('w sophon \<times> 'a outcome) res" where
  "with_module name none f k0 =
     (let (g, c) = uninterruptible (sy_cpu (co_sys k0)); k = k0\<lparr>co_sys := (co_sys k0)\<lparr>sy_cpu := c\<rparr>\<rparr>;
          finish = (\<lambda>k. k\<lparr>co_sys := (co_sys k)\<lparr>sy_cpu := uninterruptible_drop g (sy_cpu (co_sys k))\<rparr>\<rparr>) in
      rbind (unwrap (bt_get (sv_names (co_ext k)) name)) (\<lambda>i.
      rbind (idx (sv_modules (co_ext k)) i) (\<lambda>m.
      case m of
        None \<Rightarrow> Ok (finish k, Done none)
      | Some md \<Rightarrow>
          (case km_call md of
             None \<Rightarrow> Ok (finish k, Done none)
           | Some h \<Rightarrow> rbind (f h k) (\<lambda>(k1, r). case r of Blocked t \<Rightarrow> Ok (k1, Blocked t) | Done v \<Rightarrow> Ok (finish k1, Done v))))))"

definition raw_module_call :: "address \<Rightarrow> string \<Rightarrow> bool \<Rightarrow> usize list \<Rightarrow> 'w sophon \<Rightarrow> ('w sophon \<times> int outcome) res" where
  "raw_module_call box name privileged args =
     with_module name (- 1) (\<lambda>h k. rbind (from_buf args) (\<lambda>raw. module_handle box h privileged raw k))"

text \<open>\<^verbatim>\<open>module_call\<close> of the kernel to the file system. The request is in the kernel's own memory; it arrives as it was sent.\<close>

definition vfs_module_call :: "bool \<Rightarrow> vfs_request \<Rightarrow> 'w sophon \<Rightarrow> ('w sophon \<times> byte list \<times> int) res" where
  "vfs_module_call privileged req k =
     rbind (with_module ''vfs'' ([], - 1) (\<lambda>h k. rbind (vfs_call privileged req k) (\<lambda>(k1, buf, r). Ok (k1, Done (buf, r)))) k) (\<lambda>(k1, x).
     case x of Done (buf, r) \<Rightarrow> Ok (k1, buf, r) | Blocked t \<Rightarrow> Panic Unreachable)"

section \<open>Registering modules\<close>

definition module_map_pages :: "kernel \<Rightarrow> page \<Rightarrow> page \<Rightarrow> (kernel \<times> page \<times> page) res" where
  "module_map_pages kn p q =
     rbind (page_steps_between Size4K p q) (\<lambda>n.
     rbind (unwrap n) (\<lambda>n.
     rbind (kh_acquire_pages Size4K kn n) (\<lambda>(kn1, r).
     rbind (unwrap r) (\<lambda>(start, e). Ok (kn1, start, e)))))"

text \<open>The entry point and the initialisers, which \<^verbatim>\<open>transmute\<close> takes to be present.\<close>

definition module_load_elf :: "(byte list \<Rightarrow> elf_file option) \<Rightarrow> byte list \<Rightarrow> 'w sophon \<Rightarrow> ('w sophon \<times> address \<times> address \<times> usize) res" where
  "module_load_elf parse elf k =
     rbind (elf_load parse elf module_map_pages \<lparr>ma_world = (sv_kernel (co_ext k))\<lparr>k_cpu := sy_cpu (co_sys k)\<rparr>, ma_mem = sv_memory (co_ext k), ma_flushed = []\<rparr>) (\<lambda>r.
     case r of
       Inl _ \<Rightarrow> Panic UnwrapNone
     | Inr (s, e) \<Rightarrow>
         rbind (case ee_init_array e of None \<Rightarrow> Panic Unreachable | Some ia \<Rightarrow> Ok ia) (\<lambda>ia.
         Ok (k\<lparr>co_sys := (co_sys k)\<lparr>sy_cpu := k_cpu (ma_world s)\<rparr>, co_ext := (co_ext k)\<lparr>sv_kernel := ma_world s, sv_memory := ma_mem s\<rparr>\<rparr>, ee_entry e, ia)))"

definition register_module_call_handler :: "usize \<Rightarrow> module_handler \<Rightarrow> 'w sophon \<Rightarrow> 'w sophon res" where
  "register_module_call_handler i h k =
     rbind (idx (sv_modules (co_ext k)) i) (\<lambda>m.
     case m of
       None \<Rightarrow> Ok k
     | Some md \<Rightarrow>
         rbind (upd (sv_modules (co_ext k)) i (Some (md\<lparr>km_call := Some h\<rparr>))) (\<lambda>ms.
         Ok (k\<lparr>co_ext := (co_ext k)\<lparr>sv_modules := ms\<rparr>\<rparr>)))"

text \<open>The initialisers and the entry point of the module are code in the loaded image: \<open>init\<close> and \<open>start\<close> are what they do.\<close>

definition register :: "(byte list \<Rightarrow> elf_file option) \<Rightarrow> (address \<times> usize \<Rightarrow> 'w sophon \<Rightarrow> 'w sophon res) \<Rightarrow> (address \<Rightarrow> usize \<Rightarrow> 'w sophon \<Rightarrow> 'w sophon res)
    \<Rightarrow> string \<Rightarrow> byte list \<Rightarrow> 'w sophon \<Rightarrow> 'w sophon res" where
  "register parse init start name elf k =
     (if bt_contains_key (sv_names (co_ext k)) name then Ok k
      else
        let i = length (sv_names (co_ext k)) in
        rbind (module_load_elf parse elf k) (\<lambda>(k1, entry, init_array).
        rbind (init init_array k1) (\<lambda>k2.
        rbind (upd (sv_modules (co_ext k2)) i (Some \<lparr>km_name = name, km_call = None, km_elf = elf\<rparr>)) (\<lambda>ms.
        start entry i (k2\<lparr>co_ext := (co_ext k2)\<lparr>sv_modules := ms, sv_names := bt_insert name i (sv_names (co_ext k2))\<rparr>\<rparr>)))))"

section \<open>System calls\<close>

datatype syscall = Log | ModuleCall | Wait | Sbrk | Exec | Exit | ThreadExit | Halt

text \<open>The number of a call is its position. Converting a larger number is undefined in the source; the model stops there.\<close>

definition syscalls :: "syscall list" where
  "syscalls = [Log, ModuleCall, Wait, Sbrk, Exec, Exit, ThreadExit, Halt]"

definition syscall_of :: "usize \<Rightarrow> syscall res" where
  "syscall_of i = (if i < length syscalls then Ok (syscalls ! i) else Panic Unreachable)"

fun syscall_number :: "syscall \<Rightarrow> usize" where
  "syscall_number Log = 0"
| "syscall_number ModuleCall = 1"
| "syscall_number Wait = 2"
| "syscall_number Sbrk = 3"
| "syscall_number Exec = 4"
| "syscall_number Exit = 5"
| "syscall_number ThreadExit = 6"
| "syscall_number Halt = 7"

text \<open>\<^verbatim>\<open>PROCESS_MANAGER.spawn\<close>: the memory state, the file system state, the context and the tables. \<open>entry\<close> is the address of
  \<^verbatim>\<open>task::entry\<close>.\<close>

definition pm_spawn :: "64 word \<Rightarrow> runnable \<Rightarrow> 'w sophon \<Rightarrow> ('w sophon \<times> proc_id) res" where
  "pm_spawn entry task k =
     rbind (on_kernel mm_new k) (\<lambda>(k1, mm).
     rbind (process_current (co_sys k1)) (\<lambda>p.
     rbind (proc_data_new ((sv_vfs (co_ext k1))\<lparr>vf_proc := map_option pr_fs p\<rparr>) []) (\<lambda>fs.
     rbind (on_kernel (\<lambda>kn. rbind (context_new kn (mc_mem (co_mc k1)) entry 0) (\<lambda>(kn1, M, c). Ok (kn1, M, c))) k1) (\<lambda>(k2, M, c).
     let t = sy_task_count (co_sys k2) in
     rbind (process_create (co_sys k2) fs mm) (\<lambda>(s, i).
     let k3 = k2\<lparr>co_sys := s, co_mc := (co_mc k2)\<lparr>mc_mem := M\<rparr>, co_ext := (co_ext k2)\<lparr>sv_tasks := bt_insert t task (sv_tasks (co_ext k2))\<rparr>\<rparr> in
     Ok (put_ctx t c k3, i))))))"

text \<open>The loop of \<open>exec\<close> reads until the file ends, which a device may never do.\<close>

fun exec_read :: "nat \<Rightarrow> usize \<Rightarrow> byte list \<Rightarrow> byte list \<Rightarrow> 'w sophon \<Rightarrow> ('w sophon \<times> byte list option) res" where
  "exec_read 0 fd elf buf k = Panic Hang"
| "exec_read (Suc n) fd elf buf k =
     rbind (vfs_module_call False (VRead fd buf) k) (\<lambda>(k1, buf1, size).
     if size > 0 then rbind (subslice buf1 0 (nat size)) (\<lambda>s. exec_read n fd (elf @ s) buf1 k1)
     else if size < 0 then Ok (k1, None)
     else Ok (k1, Some elf))"

definition exec_sys :: "64 word \<Rightarrow> nat \<Rightarrow> usize \<Rightarrow> usize \<Rightarrow> 'w sophon \<Rightarrow> ('w sophon \<times> int outcome) res" where
  "exec_sys entry fuel a b k =
     (let m = sv_memory (co_ext k); path = str_ref m a; (p, n) = fat_ref m b; args = map (\<lambda>i. slice_ref m (p + 16 * i)) [0..<n] in
      rbind (vfs_module_call False (VOpen path) k) (\<lambda>(k1, _, fd).
      if fd < 0 then Ok (k1, Done (- 1))
      else
        rbind (exec_read fuel (decode_u32 (nat fd)) [] (replicate 256 0) k1) (\<lambda>(k2, r).
        case r of
          None \<Rightarrow> Ok (k2, Done (- 1))
        | Some elf \<Rightarrow>
            rbind (vfs_module_call False (VClose (decode_u32 (nat fd))) k2) (\<lambda>(k3, _, _).
            rbind (spawn_user_process (\<lambda>task. pm_spawn entry (User task) k3) elf args) (\<lambda>(k4, i).
            rbind (process_wait_for_completion (co_sys k4) i) (\<lambda>(s, r).
            Ok (k4\<lparr>co_sys := s\<rparr>, case r of Done _ \<Rightarrow> Done (int i) | Blocked t \<Rightarrow> Blocked t)))))))"

text \<open>A call that ends in the scheduler.\<close>

definition then_schedule :: "(proc_data, mm_state) sys \<times> unit outcome \<Rightarrow> 'w sophon \<Rightarrow> ('w sophon \<times> int outcome) res" where
  "then_schedule x k =
     (case x of
        (s, Blocked t) \<Rightarrow> Ok (k\<lparr>co_sys := s\<rparr>, Blocked t)
      | (s, Done _) \<Rightarrow> rbind (schedule s) (\<lambda>(s1, t). Ok (k\<lparr>co_sys := s1\<rparr>, Blocked t)))"

definition exit_sys :: "'w sophon \<Rightarrow> ('w sophon \<times> int outcome) res" where
  "exit_sys k =
     rbind (process_current (co_sys k)) (\<lambda>p.
     rbind (unwrap p) (\<lambda>pr.
     rbind (process_exit (co_sys k) (pr_id pr)) (\<lambda>x. then_schedule x k)))"

definition thread_exit_sys :: "'w sophon \<Rightarrow> ('w sophon \<times> int outcome) res" where
  "thread_exit_sys k =
     rbind (task_current (co_sys k)) (\<lambda>x.
     rbind (unwrap x) (\<lambda>task.
     rbind (task_exit (co_sys k) (tk_id task)) (\<lambda>x. then_schedule x k)))"

definition sbrk_sys :: "usize \<Rightarrow> 'w sophon \<Rightarrow> ('w sophon \<times> int outcome) res" where
  "sbrk_sys a k =
     rbind (process_current (co_sys k)) (\<lambda>p.
     rbind (unwrap p) (\<lambda>pr.
     rbind (on_kernel (\<lambda>kn. sbrk kn (pr_mm pr) (drop_bit (LOG_BYTES Size4K) a)) k) (\<lambda>(k1, mm, r).
     Ok (k1\<lparr>co_sys := put_process (co_sys k1) (pr\<lparr>pr_mm := mm\<rparr>)\<rparr>,
         Done (case r of None \<Rightarrow> - 1 | Some (start, _) \<Rightarrow> to_isize (page_start start))))))"

definition handle_syscall :: "64 word \<Rightarrow> address \<Rightarrow> nat \<Rightarrow> (proc_data, 'w services) syscall_handler" where
  "handle_syscall entry box fuel privileged i a b c d e k =
     rbind (syscall_of i) (\<lambda>sc.
     case sc of
       Log \<Rightarrow> Ok (k\<lparr>co_ext := (co_ext k)\<lparr>sv_console := sv_console (co_ext k) @ str_ref (sv_memory (co_ext k)) a\<rparr>\<rparr>, Done 0)
     | ModuleCall \<Rightarrow> raw_module_call box (str_ref (sv_memory (co_ext k)) a) privileged [b, c, d, e] k
     | Wait \<Rightarrow> rbind (sleep (co_sys k)) (\<lambda>(s, t). Ok (k\<lparr>co_sys := s\<rparr>, Blocked t))
     | Sbrk \<Rightarrow> sbrk_sys a k
     | Exec \<Rightarrow> exec_sys entry fuel a b k
     | Exit \<Rightarrow> exit_sys k
     | ThreadExit \<Rightarrow> thread_exit_sys k
     | Halt \<Rightarrow> Panic Hang)"

text \<open>\<^verbatim>\<open>task::entry\<close>, where every task starts; the idle task waits for interrupts.\<close>

definition task_entry :: "(byte list \<Rightarrow> elf_file option) \<Rightarrow> 'w sophon \<Rightarrow> 'w sophon res" where
  "task_entry parse k =
     rbind (task_current (co_sys k)) (\<lambda>x.
     rbind (unwrap x) (\<lambda>task.
     rbind (unwrap (bt_get (sv_tasks (co_ext k)) (tk_id task))) (\<lambda>r.
     case r of
       Idle \<Rightarrow> Ok k
     | User ut \<Rightarrow>
         rbind (user_task_run parse ut k \<lparr>ma_world = (sv_kernel (co_ext k))\<lparr>k_cpu := sy_cpu (co_sys k)\<rparr>, ma_mem = sv_memory (co_ext k), ma_flushed = []\<rparr>) (\<lambda>(k1, s).
         Ok (k1\<lparr>co_ext := (co_ext k1)\<lparr>sv_kernel := ma_world s, sv_memory := ma_mem s\<rparr>\<rparr>)))))"

section \<open>The user's side\<close>

text \<open>\<^verbatim>\<open>syscall\<close> up to the \<^verbatim>\<open>svc\<close> instruction: missing arguments are zero.\<close>

definition arg_or_zero :: "usize list \<Rightarrow> nat \<Rightarrow> 64 word" where
  "arg_or_zero args i = (if i < length args then of_nat (args ! i) else 0)"

definition syscall_args :: "syscall \<Rightarrow> usize list \<Rightarrow> machine \<Rightarrow> machine res" where
  "syscall_args sc args m =
     rbind (rassert (length args \<le> 6)) (\<lambda>_.
     Ok (m\<lparr>mc_x := (mc_x m)(1 := arg_or_zero args 0, 2 := arg_or_zero args 1, 3 := arg_or_zero args 2, 4 := arg_or_zero args 3,
       5 := arg_or_zero args 4, 0 := of_nat (syscall_number sc))\<rparr>))"

definition user_module_call :: "address \<Rightarrow> raw_request \<Rightarrow> machine \<Rightarrow> machine res" where
  "user_module_call name raw m =
     rbind (as_buf raw) (\<lambda>args.
     rbind (idx args 0) (\<lambda>a. rbind (idx args 1) (\<lambda>b. rbind (idx args 2) (\<lambda>c. rbind (idx args 3) (\<lambda>d.
     syscall_args ModuleCall [name, a, b, c, d] m)))))"

section \<open>Returning from a system call\<close>

text \<open>The state in which the handler runs: registers saved at \<open>f\<close>, which is noted in the context of the calling task.\<close>

definition entered :: "('f, 'x) core \<Rightarrow> task_id \<Rightarrow> task_context \<Rightarrow> address \<Rightarrow> ('f, 'x) core" where
  "entered k a ca f = put_ctx a (push_exception_frame f ca) (snd (enter_kernel k))"

lemma enter_kernel_ext: "co_ext (snd (enter_kernel k)) = co_ext k"
  by (simp add: enter_kernel_def split_def Let_def)

lemma return_to_task_ext: "return_to_task t c k = Ok k' \<Longrightarrow> co_ext k' = co_ext k"
  by (auto simp: return_to_task_def rbind_Ok_iff put_ctx_def Let_def split_def)

lemma svc_returns:
  assumes inv: "pm_inv (masked (co_sys k))" and a: "current (co_sys k) = Some a" and sp: "mc_sp (co_mc k) = f + FRAME_SIZE" "mc_sp (co_mc k) < USIZE_LIMIT"
    and ca: "bt_get (co_ctx k) a = Some ca" "cx_response_status ca = None" and esr: "get_exception_class esr = SVCAArch64"
    and hs: "hs (mc_spsr (interrupted k) AND MODE_MASK \<noteq> 0) (unat (mc_x (co_mc k) 0)) (unat (mc_x (co_mc k) 1)) (unat (mc_x (co_mc k) 2)) (unat (mc_x (co_mc k) 3))
        (unat (mc_x (co_mc k) 4)) (unat (mc_x (co_mc k) 5)) (entered k a ca f) = Ok (k2, Done v)"
    and k2: "co_mc k2 = co_mc (entered k a ca f)" "co_ctx k2 = co_ctx (entered k a ca f)" "pm_inv (co_sys k2)" "current (co_sys k2) = Some a"
  obtains k' where "except hs esr k = Ok k'" and "same_registers ((interrupted k)\<lparr>mc_x := (mc_x (co_mc k))(0 := of_int v)\<rparr>) (co_mc k')"
    and "mc_pc (co_mc k') = mc_pc (co_mc k)" and "mc_mode (co_mc k') = mc_spsr (interrupted k) AND MODE_MASK" and "mc_sp (co_mc k') = mc_sp (co_mc k)"
    and "\<exists>cpu. co_sys k' = (co_sys k2)\<lparr>sy_cpu := cpu\<rparr> \<and> cpu_daif cpu = mc_spsr (interrupted k) AND DAIF_MASK" and "co_ext k' = co_ext k2"
    and "bt_get (co_ctx k') a = Some ca"
proof -
  obtain k1 where k1: "enter_kernel k = (f, k1)" "co_sys k1 = masked (co_sys k)" "co_ctx k1 = co_ctx k" "seg (mc_mem (co_mc k1)) f (frame_words (interrupted k))"
    using enter_kernel_saves [OF sp] by metis
  have e: "entered k a ca f = put_ctx a (push_exception_frame f ca) k1" using k1(1) by (simp add: entered_def)
  have x: "mc_x (interrupted k) = mc_x (co_mc k)" "mc_elr (interrupted k) = mc_pc (co_mc k)" by (simp_all add: interrupted_def take_exception_def)
  have cc: "current_context k1 = Ok (a, ca)" by (rule current_context_Ok) (use inv a k1 ca in \<open>simp_all add: masked_def current_def\<close>)
  note fl = frame_layout [OF k1(4), unfolded x]
  have pr: "(\<not> is_el0 (mc_mem (co_mc k1)) f) = (mc_spsr (interrupted k) AND MODE_MASK \<noteq> 0)" by (simp add: is_el0_def fl)
  let ?m = "(interrupted k)\<lparr>mc_x := (mc_x (co_mc k))(0 := of_int v)\<rparr>"
  define k3 where "k3 = k2\<lparr>co_mc := (co_mc k2)\<lparr>mc_mem := frame_store (mc_mem (co_mc k2)) f ''x0'' (of_int v)\<rparr>\<rparr>"
  have mm: "mc_mem (co_mc k2) = mc_mem (co_mc k1)" using k2(1) e by (simp add: put_ctx_def)
  have c2: "bt_get (co_ctx k3) a = Some (push_exception_frame f ca)" using k2(2) e by (simp add: put_ctx_def k3_def)
  have seg: "seg (mc_mem (co_mc k3)) f (frame_words ?m)" using frame_store_x0 [OF k1(4), of "of_int v"] mm x(1) by (simp add: k3_def)
  have pk: "parked k3 a ?m f" using seg c2 ca(2) sp by (simp add: parked_def push_exception_frame_def)
  have s3: "co_sys k3 = co_sys k2" by (simp add: k3_def)
  have off: "\<not> interrupt_is_enabled (sy_cpu (co_sys k3))" using k2(3) s3 by (simp add: pm_inv_def)
  obtain pc where pc: "process_current (co_sys k3) = Ok (Some pc)" using current_process_Ok [OF k2(3,4)] s3 by metis
  have cc3: "current_context k3 = Ok (a, push_exception_frame f ca)" by (rule current_context_Ok) (use k2(3,4) s3 c2 in simp_all)
  obtain k' where r: "return_to_task a (push_exception_frame f ca) k3 = Ok k'" "same_registers ?m (co_mc k')" "mc_pc (co_mc k') = mc_elr ?m"
      "mc_mode (co_mc k') = mc_spsr ?m AND MODE_MASK" "mc_sp (co_mc k') = f + FRAME_SIZE"
      "co_ctx k' = bt_insert a ((push_exception_frame f ca)\<lparr>cx_frames := butlast (cx_frames (push_exception_frame f ca))\<rparr>) (co_ctx k3)"
      "\<exists>cpu. co_sys k' = (co_sys k3)\<lparr>sy_cpu := cpu\<rparr> \<and> cpu_ttbr0 cpu = mm_page_table (pr_mm pc) \<and> cpu_daif cpu = mc_spsr ?m AND DAIF_MASK"
    using return_to_parked [OF pk off pc c2] by metis
  have ext: "co_ext k' = co_ext k3" by (rule return_to_task_ext [OF r(1)])
  have "except hs esr k = Ok k'"
    using k1(1) cc esr hs pr r(1) cc3 by (simp add: except_def handle_exception_def fl e k3_def [symmetric] return_to_current_def)
  then show ?thesis using that r x(2) sp(1) ext s3 ca by (auto simp: k3_def push_exception_frame_def)
qed

end
