(* ===== verification/Syscall_Spec.thy ===== *)
theory Syscall_Spec
  imports Syscalls
begin

text \<open>
  A request of a user program to the file system, followed from its registers through the exception, the dispatch and the
  module to the result in \<^verbatim>\<open>x0\<close>.
\<close>

section \<open>Calls of modules\<close>

lemma with_module_Ok:
  assumes "\<not> interrupt_is_enabled (sy_cpu (co_sys k))" and "bt_get (sv_names (co_ext k)) name = Some i" and "i < length (sv_modules (co_ext k))"
    and "sv_modules (co_ext k) ! i = Some md" and "km_call md = Some h"
  shows "with_module name none f k = f h k"
proof -
  have k: "k\<lparr>co_sys := (co_sys k)\<lparr>sy_cpu := sy_cpu (co_sys k)\<rparr>\<rparr> = k" for k :: "'w sophon" by simp
  have "rbind (f h k) (\<lambda>(k1, r). case r of Done v \<Rightarrow> Ok (k1, Done v) | Blocked t \<Rightarrow> Ok (k1, Blocked t)) = f h k"
    by (cases "f h k") (auto split: outcome.split)
  then show ?thesis using assms by (simp add: with_module_def uninterruptible_def uninterruptible_drop_def)
qed

lemma pm_inv_put_fs:
  assumes inv: "pm_inv s" and p: "process_by_id s (pr_id p) = Some p"
  shows "pm_inv (put_process s (p\<lparr>pr_fs := d\<rparr>))" and "current (put_process s (p\<lparr>pr_fs := d\<rparr>)) = current s"
    and "process_by_id (put_process s (p\<lparr>pr_fs := d\<rparr>)) (pr_id p) = Some (p\<lparr>pr_fs := d\<rparr>)"
proof -
  let ?s = "put_process s (p\<lparr>pr_fs := d\<rparr>)"
  have t: "get_task_by_id ?s = get_task_by_id s" by (simp add: fun_eq_iff get_task_by_id_def put_process_def)
  have q: "process_by_id ?s i = (if i = pr_id p then Some (p\<lparr>pr_fs := d\<rparr>) else process_by_id s i)" for i by (simp add: process_by_id_def put_process_def)
  have ct: "sy_task_count ?s = sy_task_count s" "sy_proc_count ?s = sy_proc_count s" by (simp_all add: put_process_def)
  have tb: "tables_ok s" using inv by (simp add: pm_inv_def)
  have tk: "task_ok ?s t x" if "task_ok s t x" for t x
    using that p by (cases "tk_proc x = pr_id p") (simp_all add: task_ok_def q ct)
  have pk: "process_ok ?s i r" if "process_by_id ?s i = Some r" for i r
  proof (cases "i = pr_id p")
    case True
    have "process_ok s (pr_id p) p" using tb p by (simp add: tables_ok_def)
    moreover have r: "r = p\<lparr>pr_fs := d\<rparr>" using True that by (simp add: q)
    ultimately show ?thesis unfolding r True process_ok_def t ct by simp
  next
    case False
    then have "process_ok s i r" using tb that by (simp add: tables_ok_def q)
    then show ?thesis by (simp add: process_ok_def ct t)
  qed
  have "tables_ok ?s" unfolding tables_ok_def t using tk pk tb by (simp add: tables_ok_def)
  moreover have "view ?s = view s" by (simp add: view_def fun_eq_iff state_of_def t) (simp add: ready_queue_def current_def put_process_def)
  then have "sched_inv ?s" using inv by (simp add: pm_inv_def sched_inv_def) (simp add: put_process_def shaped_def)
  ultimately show "pm_inv ?s" using inv by (simp add: pm_inv_def)
  show "current ?s = current s" by (simp add: current_def put_process_def)
  show "process_by_id ?s (pr_id p) = Some (p\<lparr>pr_fs := d\<rparr>)" by (simp add: q)
qed

section \<open>A request of a user program\<close>

lemma entered_state:
  "co_sys (entered k a c f) = masked (co_sys k)" "co_ext (entered k a c f) = co_ext k"
  by (simp_all add: entered_def put_ctx_def enter_kernel_def split_def Let_def masked_def take_exception_def)

lemma current_process_task:
  assumes "tables_ok s" and "process_current s = Ok (Some p)"
  shows "process_by_id s (pr_id p) = Some p"
proof -
  obtain x where "task_current s = Ok (Some x)" "process_by_id s (tk_proc x) = Some p"
    using assms(2) by (auto simp: process_current_def rbind_Ok_iff unwrap_Ok_iff split: option.splits)
  moreover have "pr_id p = tk_proc x" using assms(1) calculation(2) by (auto simp: tables_ok_def process_ok_def)
  ultimately show ?thesis by simp
qed

lemma masked_process: "process_current (masked s) = process_current s" "current (masked s) = current s" "process_by_id (masked s) = process_by_id s"
proof -
  have t: "get_task_by_id (masked s) = get_task_by_id s" by (simp add: fun_eq_iff get_task_by_id_def masked_def)
  show p: "process_by_id (masked s) = process_by_id s" by (simp add: fun_eq_iff process_by_id_def masked_def)
  have c: "get_current_task_id (masked s) = get_current_task_id s" by (simp add: get_current_task_id_def masked_def)
  show "process_current (masked s) = process_current s" unfolding process_current_def task_current_def t p c by (rule refl)
  show "current (masked s) = current s" by (simp add: current_def masked_def)
qed

text \<open>The kernel's part of the call, in the state in which the handler runs.\<close>

lemma vfs_call_Ok:
  assumes inv: "pm_inv (co_sys k)" and p: "process_current (co_sys k) = Ok (Some p)"
    and m: "bt_get (sv_names (co_ext k)) ''vfs'' = Some i" "i < length (sv_modules (co_ext k))" "sv_modules (co_ext k) ! i = Some md" "km_call md = Some VfsModule"
    and raw: "from_buf args = Ok raw" "vfs_from_raw (sv_memory (co_ext k)) raw = Ok req"
    and h: "vfs_handle (sy_cpu (co_sys k)) privileged req ((sv_vfs (co_ext k))\<lparr>vf_proc := Some (pr_fs p)\<rparr>) = Ok (v, buf, r)" "vf_proc v = Some d"
  shows "raw_module_call box ''vfs'' privileged args k =
    Ok (k\<lparr>co_sys := put_process (co_sys k) (p\<lparr>pr_fs := d\<rparr>), co_ext := (co_ext k)\<lparr>sv_vfs := v, sv_memory := write_reply raw req buf (sv_memory (co_ext k))\<rparr>\<rparr>, Done r)"
proof -
  have off: "\<not> interrupt_is_enabled (sy_cpu (co_sys k))" using inv by (simp add: pm_inv_def)
  have w: "with_module ''vfs'' (- 1 :: int) g k = g VfsModule k" for g by (rule with_module_Ok [OF off m])
  show ?thesis unfolding raw_module_call_def w using raw p h by (simp add: module_handle_def vfs_call_def)
qed

lemma module_call_regs:
  assumes "user_module_call name raw m0 = Ok m" and "as_buf raw = Ok [i, a, b, c]" and "name < USIZE_LIMIT" and "\<forall>w \<in> {i, a, b, c}. w < USIZE_LIMIT"
  shows "unat (mc_x m 0) = 1" and "unat (mc_x m 1) = name" and "unat (mc_x m 2) = i" and "unat (mc_x m 3) = a" and "unat (mc_x m 4) = b" and "unat (mc_x m 5) = c"
proof -
  have "mc_x m = (mc_x m0)(1 := of_nat name, 2 := of_nat i, 3 := of_nat a, 4 := of_nat b, 5 := of_nat c, 0 := 1)"
    using assms(1,2) by (auto simp: user_module_call_def syscall_args_def arg_or_zero_def rbind_Ok_iff numeral_2_eq_2 numeral_3_eq_3 eval_nat_numeral)
  then show "unat (mc_x m 0) = 1" "unat (mc_x m 1) = name" "unat (mc_x m 2) = i" "unat (mc_x m 3) = a" "unat (mc_x m 4) = b" "unat (mc_x m 5) = c"
    using assms(3,4) by (simp_all add: unat_of_nat USIZE_LIMIT_def)
qed

text \<open>C5: a file system request of a user program is served. A program in user mode that issues a request with \<^verbatim>\<open>module_call\<close>, the name of the
  module, the request and its buffers lying in its memory, continues after the call with the result of the file system
  module on exactly this request in \<^verbatim>\<open>x0\<close>: unprivileged, on the state of its own process. Every other general register, the vector
  registers, stack pointers, program counter and mode are as before the call; the reply is in the buffer and no other byte of its memory
  has changed; the invariants of scheduler and process tables hold and the same task runs.\<close>

theorem vfs_request_served:
  assumes "pm_inv (masked (co_sys k))" and "current (co_sys k) = Some t" and "bt_get (co_ctx k) t = Some ct" and "cx_response_status ct = None"
    and "mc_sp (co_mc k) = f + FRAME_SIZE" and "mc_sp (co_mc k) < USIZE_LIMIT" and "mc_mode (co_mc k) = 0" and "cpu_daif (sy_cpu (co_sys k)) AND MODE_MASK = 0"
    and "get_exception_class esr = SVCAArch64" and "row < 4"
    and "bt_get (sv_names (co_ext k)) ''vfs'' = Some i" and "i < length (sv_modules (co_ext k))" and "sv_modules (co_ext k) ! i = Some md" and "km_call md = Some VfsModule"
    and "slice_at (sv_memory (co_ext k)) name (as_bytes ''vfs'')" and "request_at (sv_memory (co_ext k)) loc req"
    and "name < USIZE_LIMIT" and "\<forall>w \<in> set (rr_buf (vfs_as_raw loc req)). w < USIZE_LIMIT" and "user_module_call name (vfs_as_raw loc req) m0 = Ok (co_mc k)"
    and "process_current (co_sys k) = Ok (Some p)"
    and "vfs_handle ((sy_cpu (co_sys k))\<lparr>cpu_daif := DAIF_MASK\<rparr>) False req ((sv_vfs (co_ext k))\<lparr>vf_proc := Some (pr_fs p)\<rparr>) = Ok (v, buf, r)" and "vf_proc v = Some d"
  shows "\<exists>k'. exception (handle_syscall entry box fuel) esr iar row Synchronous k = Ok k'
    \<and> (\<forall>j < 31. mc_x (co_mc k') j = (if j = 0 then of_int r else mc_x (co_mc k) j)) \<and> (\<forall>j < 32. mc_q (co_mc k') j = mc_q (co_mc k) j)
    \<and> mc_pc (co_mc k') = mc_pc (co_mc k) \<and> mc_mode (co_mc k') = 0 \<and> mc_sp (co_mc k') = mc_sp (co_mc k) \<and> mc_sp_el0 (co_mc k') = mc_sp_el0 (co_mc k)
    \<and> sv_vfs (co_ext k') = v \<and> process_by_id (co_sys k') (pr_id p) = Some (p\<lparr>pr_fs := d\<rparr>)
    \<and> sv_memory (co_ext k') = write_reply (vfs_as_raw loc req) req buf (sv_memory (co_ext k))
    \<and> pm_inv (masked (co_sys k')) \<and> current (co_sys k') = Some t"
proof -
  let ?k = "entered k t ct f" and ?raw = "vfs_as_raw loc req" and ?mem = "sv_memory (co_ext k)"
  obtain n a b c where raw: "as_buf ?raw = Ok [n, a, b, c]" "rbind (from_buf [n, a, b, c]) (vfs_from_raw ?mem) = Ok req" "?raw = raw_new n a b c" "n \<le> 8"
    using vfs_request_crosses [OF assms(16)] by (cases req) (auto simp: raw_new_buf)
  have fr: "from_buf [n, a, b, c] = Ok ?raw" "vfs_from_raw ?mem ?raw = Ok req" using raw(2,3) by (simp_all add: raw_new_buf)
  have "\<forall>w \<in> {n, a, b, c}. w < USIZE_LIMIT" using assms(18) raw(3,4) by (simp add: raw_new_def USIZE_LIMIT_def)
  note x = module_call_regs [OF assms(19) raw(1) assms(17) this]
  have el0: "mc_spsr (interrupted k) AND MODE_MASK = 0" using assms(7,8) by (simp add: interrupted_def take_exception_def)
  have sys: "co_sys ?k = masked (co_sys k)" "co_ext ?k = co_ext k" by (rule entered_state)+
  have p: "process_current (co_sys ?k) = Ok (Some p)" using assms(20) by (simp add: sys masked_process)
  have inv: "pm_inv (co_sys ?k)" using assms(1) by (simp add: sys)
  have pid: "process_by_id (co_sys ?k) (pr_id p) = Some p" by (rule current_process_task [OF _ p]) (use inv in \<open>simp add: pm_inv_def\<close>)
  have h: "vfs_handle (sy_cpu (co_sys ?k)) False req ((sv_vfs (co_ext ?k))\<lparr>vf_proc := Some (pr_fs p)\<rparr>) = Ok (v, buf, r)" using assms(21) by (simp add: sys masked_def)
  define k2 where "k2 = ?k\<lparr>co_sys := put_process (co_sys ?k) (p\<lparr>pr_fs := d\<rparr>), co_ext := (co_ext ?k)\<lparr>sv_vfs := v, sv_memory := write_reply ?raw req buf ?mem\<rparr>\<rparr>"
  have "raw_module_call box ''vfs'' False [n, a, b, c] ?k = Ok (k2, Done r)"
    using vfs_call_Ok [OF inv p assms(11-14) [folded sys(2)] fr(1) fr(2) [folded sys(2)] h assms(22), where box = box] by (simp add: k2_def sys(2))
  then have hs: "handle_syscall entry box fuel (mc_spsr (interrupted k) AND MODE_MASK \<noteq> 0) (unat (mc_x (co_mc k) 0)) (unat (mc_x (co_mc k) 1)) (unat (mc_x (co_mc k) 2))
      (unat (mc_x (co_mc k) 3)) (unat (mc_x (co_mc k) 4)) (unat (mc_x (co_mc k) 5)) ?k = Ok (k2, Done r)"
    unfolding x el0 using str_ref_at [OF assms(15)] by (simp add: handle_syscall_def syscall_of_def syscalls_def sys(2))
  have k2: "co_mc k2 = co_mc ?k" "co_ctx k2 = co_ctx ?k" "co_sys k2 = put_process (co_sys ?k) (p\<lparr>pr_fs := d\<rparr>)" by (simp_all add: k2_def)
  have k2i: "pm_inv (co_sys k2)" "current (co_sys k2) = Some t" "process_by_id (co_sys k2) (pr_id p) = Some (p\<lparr>pr_fs := d\<rparr>)"
    unfolding k2(3) using pm_inv_put_fs [OF inv pid] assms(2) by (simp_all add: sys masked_process)
  obtain k' where k': "except (handle_syscall entry box fuel) esr k = Ok k'" "same_registers ((interrupted k)\<lparr>mc_x := (mc_x (co_mc k))(0 := of_int r)\<rparr>) (co_mc k')"
      "mc_pc (co_mc k') = mc_pc (co_mc k)" "mc_mode (co_mc k') = mc_spsr (interrupted k) AND MODE_MASK" "mc_sp (co_mc k') = mc_sp (co_mc k)"
      "\<exists>cpu. co_sys k' = (co_sys k2)\<lparr>sy_cpu := cpu\<rparr> \<and> cpu_daif cpu = mc_spsr (interrupted k) AND DAIF_MASK" "co_ext k' = co_ext k2"
    by (rule svc_returns [where hs = "handle_syscall entry box fuel", OF assms(1,2,5,6,3,4,9) hs k2(1,2) k2i(1,2)])
  obtain cpu where s': "co_sys k' = (co_sys k2)\<lparr>sy_cpu := cpu\<rparr>" using k'(6) by blast
  have "process_by_id (co_sys k') (pr_id p) = Some (p\<lparr>pr_fs := d\<rparr>)" "current (co_sys k') = Some t" using k2i(2,3) by (simp_all add: s' process_by_id_def current_def)
  moreover have "pm_inv (masked (co_sys k'))" using pm_inv_cpu [OF k2i(1) masked_off] by (simp add: s' masked_def)
  moreover have "(\<forall>j < 31. mc_x (co_mc k') j = (if j = 0 then of_int r else mc_x (co_mc k) j))" "\<forall>j < 32. mc_q (co_mc k') j = mc_q (co_mc k) j" "mc_sp_el0 (co_mc k') = mc_sp_el0 (co_mc k)"
    using k'(2) by (simp_all add: same_registers_def interrupted_def take_exception_def)
  ultimately show ?thesis using k'(1,3,4,5,7) el0 unfolding exception_branch(2) [OF assms(10)] by (intro exI [of _ k']) (simp add: k2_def)
qed

text \<open>A program whose working directory is \<^verbatim>\<open>/etc\<close> asks for it.\<close>

definition single_proc :: "proc_data \<Rightarrow> (proc_data, mm_state) process" where
  "single_proc fs = \<lparr>pr_id = 1, pr_threads = [0], pr_fs = fs, pr_mm = \<lparr>mm_page_table = 0x1000, mm_highwater = 0\<rparr>, pr_locks = [], pr_cvars = []\<rparr>"

definition single_sys :: "proc_data \<Rightarrow> (proc_data, mm_state) sys" where
  "single_sys fs = \<lparr>sy_cpu = \<lparr>cpu_daif = 0, cpu_ttbr0 = 0x1000\<rparr>, sy_current = [Some 0], sy_queue = [[]],
     sy_tasks = [(0, \<lparr>tk_id = 0, tk_proc = 1, tk_sched = running\<rparr>)], sy_procs = [(1, single_proc fs)],
     sy_task_count = 1, sy_proc_count = 2, sy_mutexes = [], sy_cvars = [], sy_task_live = [], sy_proc_live = []\<rparr>"

definition cwd_files :: proc_data where
  "cwd_files = \<lparr>pd_nodes = [], pd_cwd = ''/etc'', pd_files = 0\<rparr>"

definition cwd_memory :: byte_mem where
  "cwd_memory = write_bytes (write_bytes (\<lambda>_. 0) 0x100 (to_le_bytes 0x140 @ to_le_bytes 3 @ to_le_bytes 0x160 @ to_le_bytes 8)) 0x140 (as_bytes ''vfs'')"

definition cwd_kernel :: "kernel \<Rightarrow> unit sophon" where
  "cwd_kernel kn = \<lparr>co_sys = single_sys cwd_files, co_mc = demo_machine\<lparr>mc_mode := 0, mc_x := (mc_x demo_machine)(1 := 0x100, 2 := 7, 3 := 0x110, 4 := 0, 5 := 0, 0 := 1)\<rparr>,
     co_ctx = [(0, context_empty)], co_gic = co_gic demo_kernel, co_timer = co_timer demo_kernel, co_uart = co_uart demo_kernel,
     co_ext = \<lparr>sv_vfs = demo_vfs [] None, sv_kernel = kn, sv_memory = cwd_memory, sv_modules = [Some \<lparr>km_name = ''vfs'', km_call = Some VfsModule, km_elf = []\<rparr>],
       sv_names = [(''vfs'', 0)], sv_devices = (\<lambda>_. demo_device), sv_tasks = [], sv_console = []\<rparr>\<rparr>"

lemma single_sys_inv: "pm_inv (masked (single_sys fs))" "process_current (single_sys fs) = Ok (Some (single_proc fs))" "current (single_sys fs) = Some 0"
proof -
  have s: "state_of (masked (single_sys fs)) t = (if t = 0 then Some running else None)" for t
    by (simp add: state_of_def get_task_by_id_def masked_def single_sys_def bt_get_def)
  have c: "current (masked (single_sys fs)) = Some 0" and q: "ready_queue (masked (single_sys fs)) = []"
    by (simp_all add: current_def ready_queue_def masked_def single_sys_def)
  have "inv_view (view (masked (single_sys fs)))" unfolding view_def c q by (auto simp: s running_def split: if_splits)
  then have "sched_inv (masked (single_sys fs))"
    by (simp add: sched_inv_def shaped_def) (simp add: masked_def masked_off, simp add: single_sys_def)
  moreover have "tables_ok (masked (single_sys fs))"
    by (auto simp: tables_ok_def task_ok_def process_ok_def masked_def single_sys_def single_proc_def get_task_by_id_def process_by_id_def bt_get_def split: if_splits)
  ultimately show "pm_inv (masked (single_sys fs))" by (simp add: pm_inv_def)
  show "process_current (single_sys fs) = Ok (Some (single_proc fs))" "current (single_sys fs) = Some 0"
    by (simp_all add: process_current_def task_current_def get_current_task_id_def single_sys_def current_core_def get_task_by_id_def bt_get_def process_by_id_def current_def)
qed

lemma cwd_memory_holds: "slice_at cwd_memory 0x100 (as_bytes ''vfs'')" "slice_at cwd_memory 0x110 [0, 0, 0, 0, 0, 0, 0, 0]"
proof -
  have "holds cwd_memory 0x100 (to_le_bytes 0x140)" "holds cwd_memory (0x100 + 8) (to_le_bytes (length (as_bytes ''vfs'')))" "holds cwd_memory 0x110 (to_le_bytes 0x160)" "holds cwd_memory (0x110 + 8) (to_le_bytes (length [0, 0, 0, 0, 0, 0, 0, 0 :: byte]))"
      "holds cwd_memory 0x140 (as_bytes ''vfs'')" "holds cwd_memory 0x160 [0, 0, 0, 0, 0, 0, 0, 0]"
    by (simp_all add: holds_def cwd_memory_def write_bytes_def to_le_bytes_def as_bytes_def upt_rec)
  note h = this
  show "slice_at cwd_memory 0x100 (as_bytes ''vfs'')" unfolding slice_at_def by (intro exI [of _ "0x140"] conjI h) (simp add: as_bytes_def USIZE_LIMIT_def)
  show "slice_at cwd_memory 0x110 [0, 0, 0, 0, 0, 0, 0, 0]" unfolding slice_at_def by (intro exI [of _ "0x160"] conjI h) (simp add: USIZE_LIMIT_def)
qed

theorem vfs_request_served_witness:
  "\<forall>kn. \<exists>k'. exception (handle_syscall 0 0 0) 0x54000000 0 2 Synchronous (cwd_kernel kn) = Ok k' \<and> mc_x (co_mc k') 0 = 4 \<and> mc_x (co_mc k') 9 = 9
    \<and> map (sv_memory (co_ext k')) [0x160..<0x168] = as_bytes ''/etc'' @ [0, 0, 0, 0]"
proof
  fix kn
  let ?k = "cwd_kernel kn" and ?raw = "vfs_as_raw (\<lambda>_. 0x110) (VGetCwd [0, 0, 0, 0, 0, 0, 0, 0])" and ?buf = "as_bytes ''/etc'' @ [0, 0, 0, 0]"
  have s: "co_sys ?k = single_sys cwd_files" "sv_memory (co_ext ?k) = cwd_memory" by (simp_all add: cwd_kernel_def)
  have a: "pm_inv (masked (co_sys ?k))" "current (co_sys ?k) = Some 0" "process_current (co_sys ?k) = Ok (Some (single_proc cwd_files))" using single_sys_inv by (simp_all add: s)
  have b: "bt_get (co_ctx ?k) 0 = Some context_empty" "cx_response_status context_empty = None" "mc_sp (co_mc ?k) = 0x1CF0 + FRAME_SIZE" "mc_sp (co_mc ?k) < USIZE_LIMIT"
      "mc_mode (co_mc ?k) = 0" "cpu_daif (sy_cpu (co_sys ?k)) AND MODE_MASK = 0" "get_exception_class 0x54000000 = SVCAArch64"
    by (simp_all add: cwd_kernel_def single_sys_def bt_get_def context_empty_def demo_machine_def USIZE_LIMIT_def get_exception_class_def SVCAArch64_def)
  have c: "bt_get (sv_names (co_ext ?k)) ''vfs'' = Some 0" "0 < length (sv_modules (co_ext ?k))" "sv_modules (co_ext ?k) ! 0 = Some \<lparr>km_name = ''vfs'', km_call = Some VfsModule, km_elf = []\<rparr>"
      "km_call \<lparr>km_name = ''vfs'', km_call = Some VfsModule, km_elf = []\<rparr> = Some VfsModule"
    by (simp_all add: cwd_kernel_def bt_get_def)
  have d: "slice_at (sv_memory (co_ext ?k)) 0x100 (as_bytes ''vfs'')" "request_at (sv_memory (co_ext ?k)) (\<lambda>_. 0x110) (VGetCwd [0, 0, 0, 0, 0, 0, 0, 0])"
    using cwd_memory_holds by (simp_all add: s)
  have l: "\<forall>w \<in> set (rr_buf ?raw). w < USIZE_LIMIT" "(0x100 :: nat) < USIZE_LIMIT" by (simp_all add: raw_new_def USIZE_LIMIT_def)
  have e: "user_module_call 0x100 ?raw (demo_machine\<lparr>mc_mode := 0\<rparr>) = Ok (co_mc ?k)"
    by (simp add: raw_new_def user_module_call_def as_buf_def syscall_args_def arg_or_zero_def cwd_kernel_def numeral_2_eq_2 numeral_3_eq_3)
  have h: "vfs_handle ((sy_cpu (co_sys ?k))\<lparr>cpu_daif := DAIF_MASK\<rparr>) False (VGetCwd [0, 0, 0, 0, 0, 0, 0, 0]) ((sv_vfs (co_ext ?k))\<lparr>vf_proc := Some (pr_fs (single_proc cwd_files))\<rparr>)
      = Ok ((sv_vfs (co_ext ?k))\<lparr>vf_proc := Some (pr_fs (single_proc cwd_files))\<rparr>, ?buf, 4)"
    using masked_off by (simp add: vfs_handle_def handle_get_cwd_def single_proc_def cwd_files_def as_bytes_def copy_to_def to_isize_def)
  have "load_u64 cwd_memory 0x110 = 0x160" by (simp add: load_u64_def cwd_memory_def write_bytes_def to_le_bytes_def as_bytes_def upt_rec)
  then have rep: "map (write_reply ?raw (VGetCwd [0, 0, 0, 0, 0, 0, 0, 0]) ?buf cwd_memory) [0x160..<0x168] = ?buf"
    by (simp add: write_reply_def raw_new_def fat_ref_def write_bytes_def as_bytes_def upt_rec)
  from vfs_request_served [OF a(1,2) b _ c d l(2,1) e a(3) h, where row = 2 and d = "pr_fs (single_proc cwd_files)" and entry = 0 and box = 0 and fuel = 0 and iar = 0]
  show "\<exists>k'. exception (handle_syscall 0 0 0) 0x54000000 0 2 Synchronous ?k = Ok k' \<and> mc_x (co_mc k') 0 = 4 \<and> mc_x (co_mc k') 9 = 9
      \<and> map (sv_memory (co_ext k')) [0x160..<0x168] = ?buf"
    using rep by (fastforce simp: s demo_machine_def cwd_kernel_def)
qed

end
