(* ===== verification/Exec_Spec.thy ===== *)
theory Exec_Spec
  imports Syscall_Spec
begin

text \<open>The loop with which \<^verbatim>\<open>exec\<close> reads a program (\<^verbatim>\<open>task/syscall.rs\<close>).\<close>

text \<open>The current process has a file of the root file system open at a position.\<close>

definition reading :: "'w sophon \<Rightarrow> usize \<Rightarrow> byte list \<Rightarrow> usize \<Rightarrow> bool" where
  "reading k fd f off \<longleftrightarrow> pm_inv (co_sys k) \<and> (\<exists>i md. bt_get (sv_names (co_ext k)) ''vfs'' = Some i \<and> i < length (sv_modules (co_ext k))
       \<and> sv_modules (co_ext k) ! i = Some md \<and> km_call md = Some VfsModule)
     \<and> (\<exists>p desc d ns. process_current (co_sys k) = Ok (Some p) \<and> fd < length (pd_nodes (pr_fs p)) \<and> pd_nodes (pr_fs p) ! fd = Some desc
       \<and> fd_offset desc = off \<and> nd_fs (fd_node desc) = RootFS \<and> nd_path (fd_node desc) = path_of ns \<and> (\<forall>n \<in> set ns. plain_name n)
       \<and> root_dir (sv_vfs (co_ext k)) d \<and> lookup d ns = Some (EFile f))
     \<and> off \<le> length f \<and> length f < 2 ^ 62"

lemma process_current_put:
  assumes "tables_ok s" and "process_current s = Ok (Some p)"
  shows "process_current (put_process s (p\<lparr>pr_fs := d\<rparr>)) = Ok (Some (p\<lparr>pr_fs := d\<rparr>))"
proof -
  obtain x where x: "task_current s = Ok (Some x)" "process_by_id s (tk_proc x) = Some p"
    using assms(2) by (auto simp: process_current_def rbind_Ok_iff split: option.splits)
  have "pr_id p = tk_proc x" using assms(1) x(2) by (auto simp: tables_ok_def process_ok_def)
  then show ?thesis using x(1) by (simp add: process_current_def task_current_put) (simp add: process_by_id_def put_process_def)
qed

lemma exec_chunk:
  assumes rd: "reading k fd f off" and buf: "length buf = 256" and n: "n = min 256 (length f - off)"
  shows "\<exists>k1. vfs_module_call False (VRead fd buf) k = Ok (k1, take n (drop off f) @ drop n buf, int n) \<and> reading k1 fd f (off + n)"
proof -
  obtain i md where m: "bt_get (sv_names (co_ext k)) ''vfs'' = Some i" "i < length (sv_modules (co_ext k))" "sv_modules (co_ext k) ! i = Some md" "km_call md = Some VfsModule"
    using rd by (auto simp: reading_def)
  obtain p desc d ns where p: "process_current (co_sys k) = Ok (Some p)" and q: "fd < length (pd_nodes (pr_fs p))" "pd_nodes (pr_fs p) ! fd = Some desc"
      "nd_fs (fd_node desc) = RootFS" "nd_path (fd_node desc) = path_of ns" "\<forall>n \<in> set ns. plain_name n"
      and o: "fd_offset desc = off" and rt: "root_dir (sv_vfs (co_ext k)) d" "lookup d ns = Some (EFile f)"
    using rd by (auto simp: reading_def)
  have inv: "pm_inv (co_sys k)" and len: "off \<le> length f" "length f < 2 ^ 62" using rd by (simp_all add: reading_def)
  let ?b = "take n (drop off f) @ drop n buf" and ?d = "(pr_fs p)\<lparr>pd_nodes := (pd_nodes (pr_fs p))[fd := Some (desc\<lparr>fd_offset := off + n\<rparr>)]\<rparr>"
  define s where "s = (sv_vfs (co_ext k))\<lparr>vf_proc := Some (pr_fs p)\<rparr>"
  have sd: "root_dir s d" "vf_proc s = Some (pr_fs p)" using rt(1) by (simp_all add: s_def root_dir_def)
  have off: "\<not> interrupt_is_enabled (sy_cpu (co_sys k))" and tb: "tables_ok (co_sys k)" using inv by (simp_all add: pm_inv_def)
  have "handle_read s fd buf = Ok (s\<lparr>vf_proc := Some ?d\<rparr>, ?b, int n)"
    using read_chunk [OF sd q rt(2) len(2), of buf] buf len(1) by (simp add: o n)
  then have h: "vfs_handle (sy_cpu (co_sys k)) False (VRead fd buf) s = Ok (s\<lparr>vf_proc := Some ?d\<rparr>, ?b, int n)" using off by (simp add: vfs_handle_def)
  define k1 where "k1 = k\<lparr>co_sys := put_process (co_sys k) (p\<lparr>pr_fs := ?d\<rparr>), co_ext := (co_ext k)\<lparr>sv_vfs := s\<lparr>vf_proc := Some ?d\<rparr>\<rparr>\<rparr>"
  have c: "vfs_call False (VRead fd buf) k = Ok (k1, ?b, int n)" using p h by (simp add: vfs_call_def k1_def s_def)
  have w: "with_module ''vfs'' ([], - 1) g k = g VfsModule k" for g :: "module_handler \<Rightarrow> 'a sophon \<Rightarrow> ('a sophon \<times> (byte list \<times> int) outcome) res"
    by (rule with_module_Ok [OF off m])
  have call: "vfs_module_call False (VRead fd buf) k = Ok (k1, ?b, int n)" unfolding vfs_module_call_def w using c by simp
  have e1: "co_sys k1 = put_process (co_sys k) (p\<lparr>pr_fs := ?d\<rparr>)" "sv_names (co_ext k1) = sv_names (co_ext k)" "sv_modules (co_ext k1) = sv_modules (co_ext k)"
      "root_dir (sv_vfs (co_ext k1)) d"
    using rt(1) by (simp_all add: k1_def s_def root_dir_def)
  have "pm_inv (co_sys k1)" unfolding e1(1) by (rule pm_inv_put_fs(1) [OF inv current_process_task [OF tb p]])
  moreover have "process_current (co_sys k1) = Ok (Some (p\<lparr>pr_fs := ?d\<rparr>))" unfolding e1(1) by (rule process_current_put [OF tb p])
  moreover have "off + n \<le> length f" using len(1) unfolding n by linarith
  ultimately have "reading k1 fd f (off + n)" unfolding reading_def e1(2,3) using m q rt(2) e1(4) len(2)
    by (intro conjI exI [of _ i] exI [of _ md] exI [of _ "p\<lparr>pr_fs := ?d\<rparr>"] exI [of _ "desc\<lparr>fd_offset := off + n\<rparr>"] exI [of _ d] exI [of _ ns]) simp_all
  then show ?thesis using call by blast
qed

lemma exec_read_Ok:
  "reading k fd f off \<Longrightarrow> length f - off \<le> n * 256 \<Longrightarrow> length buf = 256 \<Longrightarrow>
   \<exists>k'. exec_read (Suc n) fd elf buf k = Ok (k', Some (elf @ drop off f)) \<and> reading k' fd f (length f)"
proof (induction n arbitrary: k off elf buf)
  case 0
  have "off = length f" using 0 by (simp add: reading_def)
  then show ?case using exec_chunk [OF 0(1,3) refl] by auto
next
  case (Suc n)
  define m where "m = min 256 (length f - off)"
  let ?b = "take m (drop off f) @ drop m buf"
  obtain k1 where k1: "vfs_module_call False (VRead fd buf) k = Ok (k1, ?b, int m)" "reading k1 fd f (off + m)" using exec_chunk [OF Suc.prems(1,3) m_def] by blast
  have len: "off \<le> length f" using Suc.prems(1) by (simp add: reading_def)
  show ?case
  proof (cases "off = length f")
    case True
    then have "m = 0" by (simp add: m_def)
    then show ?thesis using k1 True by auto
  next
    case False
    then have m: "0 < m" "m \<le> 256" "m \<le> length f - off" using len by (auto simp: m_def)
    have l: "length (take m (drop off f)) = m" "length ?b = 256" using m Suc.prems(3) by simp_all
    have s: "subslice ?b 0 (nat (int m)) = Ok (take m (drop off f))" using l m by (simp add: subslice_def)
    have "length f - (off + m) \<le> n * 256" using Suc.prems(2) by (simp add: m_def)
    then obtain k' where k': "exec_read (Suc n) fd (elf @ take m (drop off f)) ?b k1 = Ok (k', Some ((elf @ take m (drop off f)) @ drop (off + m) f))" "reading k' fd f (length f)"
      using Suc.IH [OF k1(2) _ l(2)] by blast
    have "take m (drop off f) @ drop (off + m) f = drop off f" by (metis add.commute append_take_drop_id drop_drop)
    then have "(elf @ take m (drop off f)) @ drop (off + m) f = elf @ drop off f" by simp
    then show ?thesis using k1(1) k' s m(1) by (simp del: exec_read.simps(2) add: exec_read.simps(2) [of "Suc n"])
  qed
qed

text \<open>C40: loading a program ends. When the calling process has just opened a file of the root file system, the loop of \<^verbatim>\<open>exec\<close> returns after
  one call for each 256 bytes and one for the end, with exactly the contents of the file.\<close>

theorem exec_reads_file:
  assumes "reading k fd f 0"
  shows "\<exists>k'. exec_read (length f div 256 + 2) fd [] (replicate 256 0) k = Ok (k', Some f) \<and> reading k' fd f (length f)"
proof -
  have "length f - 0 \<le> (length f div 256 + 1) * 256" using dividend_less_div_times [of 256 "length f"] by simp
  from exec_read_Ok [OF assms this, of "replicate 256 0" "[]"] show ?thesis by simp
qed

text \<open>A process has opened \<^verbatim>\<open>/etc/motd\<close>, which holds two bytes.\<close>

definition motd_node :: node where
  "motd_node = \<lparr>nd_name = ''motd'', nd_path = path_of [''etc'', ''motd''], nd_fs = RootFS, nd_mount = None, nd_block = 0, nd_offset = 0\<rparr>"

theorem exec_reads_file_witness:
  "\<forall>kn. \<exists>k'. exec_read 2 0 [] (replicate 256 0)
    ((cwd_kernel kn)\<lparr>co_sys := masked (single_sys (demo_files [motd_node])), co_ext := (co_ext (cwd_kernel kn))\<lparr>sv_vfs := demo_vfs demo_dir None\<rparr>\<rparr>) = Ok (k', Some [72, 105])"
proof
  fix kn
  let ?k = "(cwd_kernel kn)\<lparr>co_sys := masked (single_sys (demo_files [motd_node])), co_ext := (co_ext (cwd_kernel kn))\<lparr>sv_vfs := demo_vfs demo_dir None\<rparr>\<rparr>"
  have e: "length [72, 105 :: byte] div 256 + 2 = 2" by simp
  have "reading ?k 0 [72, 105] 0"
    unfolding reading_def
    using single_sys_inv [of "demo_files [motd_node]"]
    by (intro conjI exI [of _ 0] exI [of _ "\<lparr>km_name = ''vfs'', km_call = Some VfsModule, km_elf = []\<rparr>"] exI [of _ "single_proc (demo_files [motd_node])"]
        exI [of _ "\<lparr>fd_node = motd_node, fd_offset = 0\<rparr>"] exI [of _ demo_dir] exI [of _ "[''etc'', ''motd'']"])
      (simp_all add: masked_process cwd_kernel_def bt_get_def single_proc_def demo_files_def motd_node_def plain_name_def root_dir_def demo_vfs_def demo_dir_def)
  from exec_reads_file [OF this, unfolded e] show "\<exists>k'. exec_read 2 0 [] (replicate 256 0) ?k = Ok (k', Some [72, 105])" by blast
qed

end
