(* ===== verification/Spec2Isabelle.thy ===== *)
theory Spec2Isabelle
  imports Devices Exec_Spec
begin

text \<open>
  Verification of the Sophon kernel (in progress).
\<close>

end
